(* ===== verification/Nfd_Prelude.thy ===== *)
theory Nfd_Prelude
  imports Main "HOL-Library.Word" "HOL-Library.Sublist" "HOL-Library.List_Lexorder"
    "HOL-Library.Product_Lexorder" "HOL-Library.Monad_Syntax"
begin

text \<open>
  Shared vocabulary of the development: machine words, NDN names as lists of
  components with the canonical order, and the few algorithms of the C++
  standard library that several components call (\<^verbatim>\<open>std::find_if\<close> is
  \<^const>\<open>List.find\<close>; \<^verbatim>\<open>std::max_element\<close>, \<^verbatim>\<open>std::list::remove_if\<close> on the first
  match and in-place update of the first match are defined here).

  Names come from the ndn-cxx library.  A \<^verbatim>\<open>Name\<close> is a sequence of components, a
  component is a TLV block of one of two types (implicit SHA-256 digest or
  generic) with a byte value; \<^verbatim>\<open>getPrefix(n)\<close> is \<^const>\<open>take\<close>, \<^verbatim>\<open>isPrefixOf\<close> is
  \<^const>\<open>prefix\<close> and \<^verbatim>\<open>compare\<close> is the canonical order (component by component,
  a proper prefix first; components by type, then length, then bytes).
\<close>

section \<open>Machine words and time\<close>

type_synonym byte = "8 word"
type_synonym u32 = "32 word"
type_synonym u64 = "64 word"

text \<open>Steady-clock time points and durations, in nanoseconds.\<close>

type_synonym time = int

abbreviation milliseconds :: "int \<Rightarrow> time" where
  "milliseconds n \<equiv> n * 1000000"

section \<open>Names\<close>

datatype component = ImplicitDigest "byte list" | Generic "byte list"

type_synonym name = "component list"

fun comp_key :: "component \<Rightarrow> nat \<times> nat \<times> byte list" where
  "comp_key (ImplicitDigest v) = (1, length v, v)"
| "comp_key (Generic v) = (8, length v, v)"

fun isImplicitSha256Digest :: "component \<Rightarrow> bool" where
  "isImplicitSha256Digest (ImplicitDigest v) = True"
| "isImplicitSha256Digest (Generic v) = False"

section \<open>Standard-library algorithms\<close>

text \<open>\<^verbatim>\<open>std::max_element(first, last, comp)\<close>: the running maximum is replaced
  only when it compares less than the candidate.\<close>

fun max_element_from :: "('a \<Rightarrow> 'a \<Rightarrow> bool) \<Rightarrow> 'a \<Rightarrow> 'a list \<Rightarrow> 'a" where
  "max_element_from lt m [] = m"
| "max_element_from lt m (x # xs) =
     max_element_from lt (if lt m x then x else m) xs"

fun max_element :: "('a \<Rightarrow> 'a \<Rightarrow> bool) \<Rightarrow> 'a list \<Rightarrow> 'a option" where
  "max_element lt [] = None"
| "max_element lt (x # xs) = Some (max_element_from lt x xs)"

text \<open>Erase the element a \<^verbatim>\<open>find_if\<close> iterator points to.\<close>

fun remove_first :: "('a \<Rightarrow> bool) \<Rightarrow> 'a list \<Rightarrow> 'a list" where
  "remove_first P [] = []"
| "remove_first P (x # xs) = (if P x then xs else x # remove_first P xs)"

text \<open>Modify the element a \<^verbatim>\<open>find_if\<close> iterator points to.\<close>

fun update_first :: "('a \<Rightarrow> bool) \<Rightarrow> ('a \<Rightarrow> 'a) \<Rightarrow> 'a list \<Rightarrow> 'a list" where
  "update_first P f [] = []"
| "update_first P f (x # xs) = (if P x then f x # xs else x # update_first P f xs)"

text \<open>A \<^verbatim>\<open>std::map\<close> is the list of its pairs in ascending order of the keys; this is \<^verbatim>\<open>m[k] = v\<close>.\<close>

fun map_assign :: "'k::linorder \<Rightarrow> 'v \<Rightarrow> ('k \<times> 'v) list \<Rightarrow> ('k \<times> 'v) list" where
  "map_assign k v [] = [(k, v)]"
| "map_assign k v ((k', v') # rest) =
    (if k < k' then (k, v) # (k', v') # rest
     else if k = k' then (k, v) # rest
     else (k', v') # map_assign k v rest)"

section \<open>The canonical order on components\<close>

lemma comp_key_inj: "comp_key a = comp_key b \<Longrightarrow> a = b"
  by (cases a; cases b) auto

instantiation component :: linorder
begin

definition less_eq_component :: "component \<Rightarrow> component \<Rightarrow> bool" where
  "less_eq_component a b \<longleftrightarrow> comp_key a \<le> comp_key b"

definition less_component :: "component \<Rightarrow> component \<Rightarrow> bool" where
  "less_component a b \<longleftrightarrow> comp_key a < comp_key b"

instance
  by standard
    (auto simp: less_eq_component_def less_component_def less_le_not_le dest: comp_key_inj
      intro: order.trans)

end

section \<open>Generic lemmas\<close>

named_theorems run_simps \<open>equations that evaluate the model on concrete inputs\<close>

lemma max_element_from_in: "max_element_from lt m xs \<in> insert m (set xs)"
  by (induction xs arbitrary: m) (auto split: if_splits)

lemma max_element_in: "max_element lt xs = Some m \<Longrightarrow> m \<in> set xs"
  using max_element_from_in by (cases xs) fastforce+

lemma max_element_None [simp]: "max_element lt xs = None \<longleftrightarrow> xs = []"
  by (cases xs) auto

text \<open>For a comparison induced by a key in a linear order, the result has the
  greatest key.\<close>

lemma max_element_from_greatest:
  fixes k :: "'a \<Rightarrow> 'k::linorder"
  shows "x \<in> insert m (set xs) \<Longrightarrow>
    k x \<le> k (max_element_from (\<lambda>a b. k a < k b) m xs)"
proof (induction xs arbitrary: m x)
  case (Cons y ys)
  let ?m = "if k m < k y then y else m"
  have below: "k m \<le> k ?m" "k y \<le> k ?m"
    by auto
  have "k ?m \<le> k (max_element_from (\<lambda>a b. k a < k b) ?m ys)"
    using Cons.IH by blast
  with below Cons.prems Cons.IH[of x ?m] show ?case
    by (auto intro: order.trans)
qed simp

lemma max_element_greatest:
  fixes k :: "'a \<Rightarrow> 'k::linorder"
  assumes "max_element (\<lambda>a b. k a < k b) xs = Some m" and "x \<in> set xs"
  shows "k x \<le> k m"
  using assms max_element_from_greatest[of x _ _ k] by (cases xs) auto

lemma remove_first_subset: "set (remove_first P xs) \<subseteq> set xs"
  by (induction xs) auto

lemma remove_first_distinct_map:
  "distinct (map f xs) \<Longrightarrow> distinct (map f (remove_first P xs))"
  by (induction xs) (use remove_first_subset in fastforce)+

lemma remove_first_id: "(\<forall>x \<in> set xs. \<not> P x) \<Longrightarrow> remove_first P xs = xs"
  by (induction xs) auto

lemma map_update_first:
  "(\<And>x. P x \<Longrightarrow> g (f x) = g x) \<Longrightarrow> map g (update_first P f xs) = map g xs"
  by (induction xs) auto

lemma length_update_first [simp]: "length (update_first P f xs) = length xs"
  by (induction xs) auto

lemma find_None_all: "List.find P xs = None \<longleftrightarrow> (\<forall>x \<in> set xs. \<not> P x)"
  by (induction xs) auto

lemma find_Some_in: "List.find P xs = Some x \<Longrightarrow> x \<in> set xs \<and> P x"
  by (induction xs) (auto split: if_splits)

lemma set_update_first:
  assumes "distinct (map k xs)"
  shows "set (update_first (\<lambda>x. k x = a) g xs) = {x \<in> set xs. k x \<noteq> a} \<union> g ` {x \<in> set xs. k x = a}"
  using assms by (induction xs) (auto simp: image_iff)

lemma sorted_wrt_neq_distinct: "sorted_wrt (\<lambda>x y. x \<noteq> y) xs \<Longrightarrow> distinct xs"
  by (induction xs) auto

lemma prefix_le: "prefix a b \<Longrightarrow> a \<le> b" for a :: "'a::linorder list"
proof (induction a arbitrary: b)
  case (Cons x xs)
  then show ?case
    by (cases b) auto
qed simp

lemma prefix_convex:
  "prefix a y \<Longrightarrow> a \<le> x \<Longrightarrow> x \<le> y \<Longrightarrow> prefix a x" for a :: "'a::linorder list"
proof (induction a arbitrary: x y)
  case (Cons c a)
  then show ?case
    by (cases x; cases y) auto
qed simp

lemma map_assign_set:
  "map_of xs k = None \<Longrightarrow> set (map_assign k v xs) = insert (k, v) (set xs)"
  by (induction k v xs rule: map_assign.induct) (auto split: if_splits)

lemma map_assign_sorted:
  "sorted_wrt (<) (map fst xs) \<Longrightarrow> map_of xs k = None \<Longrightarrow> sorted_wrt (<) (map fst (map_assign k v xs))"
proof (induction k v xs rule: map_assign.induct)
  case (2 k v k' v' rest)
  then show ?case
    using map_assign_set[of rest k v] by (auto split: if_splits)
qed simp

section \<open>Computations that return\<close>

named_theorems defined_intros \<open>rules showing that an option computation returns\<close>

lemma defined_bind [defined_intros]:
  "m \<noteq> None \<Longrightarrow> (\<And>a. m = Some a \<Longrightarrow> f a \<noteq> None) \<Longrightarrow> Option.bind m f \<noteq> None"
  by (cases m) auto

lemma defined_let [defined_intros]: "(\<And>x. f x \<noteq> None) \<Longrightarrow> Let a f \<noteq> None"
  by simp

lemma defined_prod [defined_intros]:
  "(\<And>a b. p = (a, b) \<Longrightarrow> f a b \<noteq> None) \<Longrightarrow> case_prod f p \<noteq> None"
  by (cases p) auto

lemma defined_if [defined_intros]:
  "(b \<Longrightarrow> x \<noteq> None) \<Longrightarrow> (\<not> b \<Longrightarrow> y \<noteq> None) \<Longrightarrow> (if b then x else y) \<noteq> None"
  by simp

lemma defined_Some [defined_intros]: "Some x \<noteq> None"
  by simp

section \<open>Word lemmas\<close>

unbundle bit_operations_syntax

lemma xorshift_twice:
  fixes x :: "'a::len word"
  assumes "LENGTH('a) \<le> 2 * n"
  shows "(x XOR drop_bit n x) XOR drop_bit n (x XOR drop_bit n x) = x"
  using assms by (auto simp: bit_eq_iff bit_simps dest: bit_imp_le_length)

lemma xorshift_thrice:
  fixes x :: "'a::len word"
  assumes "LENGTH('a) \<le> 3 * n" and "y = x XOR drop_bit n x"
  shows "y XOR drop_bit n y XOR drop_bit (2 * n) y = x"
  unfolding assms(2) using assms(1)
  by (auto simp: bit_eq_iff bit_simps mult_2 mult_2_right ac_simps dest: bit_imp_le_length)

lemma inj_mult_unit:
  fixes c :: "'a::len word"
  assumes "c * d = 1"
  shows "inj (\<lambda>x. x * c)"
proof (rule injI)
  fix x y assume "x * c = y * c"
  then have "x * (c * d) = y * (c * d)"
    by (metis mult.assoc)
  then show "x = y"
    using assms by simp
qed

lemma inj_xorshift:
  assumes "LENGTH('a) \<le> 3 * n"
  shows "inj (\<lambda>x :: 'a::len word. x XOR drop_bit n x)"
  by (rule injI) (metis assms xorshift_thrice)

end
