(* ===== verification/City_Hash.thy ===== *)
theory City_Hash
  imports Nfd_Prelude
begin

text \<open>
  The CityHash family of \<^verbatim>\<open>src/core/city-hash.cpp\<close>, which the name tree and the
  dead nonce list use.  A \<^verbatim>\<open>const char*\<close> is a buffer together with an offset, and
  every load checks its bounds: an access outside the buffer is the value
  \<^const>\<open>None\<close>.  That a hash is never \<^const>\<open>None\<close> is therefore memory safety of the
  routine.  Arithmetic is on 32-bit and 64-bit words and wraps as in the source;
  lengths and offsets are natural numbers.
\<close>

unbundle bit_operations_syntax

section \<open>Loads\<close>

type_synonym u128 = "u64 \<times> u64"

fun le_word :: "byte list \<Rightarrow> 'a::len word" where
  "le_word [] = 0"
| "le_word (b # bs) = ucast b OR push_bit 8 (le_word bs)"

definition load :: "nat \<Rightarrow> byte list \<Rightarrow> nat \<Rightarrow> 'a::len word option" where
  "load n buf p = (if p + n \<le> length buf then Some (le_word (take n (drop p buf))) else None)"

definition Fetch64 :: "byte list \<Rightarrow> nat \<Rightarrow> u64 option" where
  "Fetch64 buf p = load 8 buf p"

definition Fetch32 :: "byte list \<Rightarrow> nat \<Rightarrow> u32 option" where
  "Fetch32 buf p = load 4 buf p"

definition char_at :: "byte list \<Rightarrow> nat \<Rightarrow> byte option" where
  "char_at buf p = (if p < length buf then Some (buf ! p) else None)"

definition bswap_32 :: "u32 \<Rightarrow> u32" where
  "bswap_32 x = push_bit 24 (x AND 0xff) OR push_bit 8 (x AND 0xff00)
     OR drop_bit 8 (x AND 0xff0000) OR drop_bit 24 x"

definition bswap_64 :: "u64 \<Rightarrow> u64" where
  "bswap_64 x = push_bit 56 (x AND 0xff) OR push_bit 40 (x AND 0xff00)
     OR push_bit 24 (x AND 0xff0000) OR push_bit 8 (x AND 0xff000000)
     OR drop_bit 8 (x AND 0xff00000000) OR drop_bit 24 (x AND 0xff0000000000)
     OR drop_bit 40 (x AND 0xff000000000000) OR drop_bit 56 x"

section \<open>32-bit hashing\<close>

definition k0 :: u64 where "k0 = 0xc3a5c85c97cb3127"
definition k1 :: u64 where "k1 = 0xb492b66fbe98f273"
definition k2 :: u64 where "k2 = 0x9ae16a3b2f90404f"
definition c1 :: u32 where "c1 = 0xcc9e2d51"
definition c2 :: u32 where "c2 = 0x1b873593"

definition fmix :: "u32 \<Rightarrow> u32" where
  "fmix h0 =
    (let h = h0 XOR drop_bit 16 h0;
         h = h * 0x85ebca6b;
         h = h XOR drop_bit 13 h;
         h = h * 0xc2b2ae35;
         h = h XOR drop_bit 16 h
     in h)"

definition Rotate32 :: "u32 \<Rightarrow> nat \<Rightarrow> u32" where
  "Rotate32 val shift =
    (if shift = 0 then val else drop_bit shift val OR push_bit (32 - shift) val)"

definition Mur :: "u32 \<Rightarrow> u32 \<Rightarrow> u32" where
  "Mur a0 h0 =
    (let a = a0 * c1;
         a = Rotate32 a 17;
         a = a * c2;
         h = h0 XOR a;
         h = Rotate32 h 19
     in h * 5 + 0xe6546b64)"

definition Hash32Len13to24 :: "byte list \<Rightarrow> nat \<Rightarrow> nat \<Rightarrow> u32 option" where
  "Hash32Len13to24 buf s len = do {
     a \<leftarrow> Fetch32 buf (s + len div 2 - 4);
     b \<leftarrow> Fetch32 buf (s + 4);
     c \<leftarrow> Fetch32 buf (s + len - 8);
     d \<leftarrow> Fetch32 buf (s + len div 2);
     e \<leftarrow> Fetch32 buf s;
     f \<leftarrow> Fetch32 buf (s + len - 4);
     Some (fmix (Mur f (Mur e (Mur d (Mur c (Mur b (Mur a (of_nat len))))))))
   }"

text \<open>The loop of \<^verbatim>\<open>Hash32Len0to4\<close>, \<^verbatim>\<open>i\<close> running up to \<^verbatim>\<open>len\<close>; \<^verbatim>\<open>signed char v\<close> is
  sign-extended.\<close>

function hash32_0to4_loop :: "byte list \<Rightarrow> nat \<Rightarrow> nat \<Rightarrow> nat \<Rightarrow> u32 \<times> u32 \<Rightarrow> (u32 \<times> u32) option"
  where
  "hash32_0to4_loop buf s len i (b, c) =
    (if i < len then do {
       v \<leftarrow> char_at buf (s + i);
       let b' = b * c1 + scast v;
       hash32_0to4_loop buf s len (i + 1) (b', c XOR b')
     } else Some (b, c))"
  by pat_completeness auto
termination by (relation "measure (\<lambda>(buf, s, len, i, st). len - i)") auto

definition Hash32Len0to4 :: "byte list \<Rightarrow> nat \<Rightarrow> nat \<Rightarrow> u32 option" where
  "Hash32Len0to4 buf s len = do {
     (b, c) \<leftarrow> hash32_0to4_loop buf s len 0 (0, 9);
     Some (fmix (Mur b (Mur (of_nat len) c)))
   }"

definition Hash32Len5to12 :: "byte list \<Rightarrow> nat \<Rightarrow> nat \<Rightarrow> u32 option" where
  "Hash32Len5to12 buf s len = do {
     let a = of_nat len; let b = of_nat len * 5; let c = 9; let d = b;
     x \<leftarrow> Fetch32 buf s;
     y \<leftarrow> Fetch32 buf (s + len - 4);
     z \<leftarrow> Fetch32 buf (s + (if odd (len div 8) then 4 else 0));
     Some (fmix (Mur (c + z) (Mur (b + y) (Mur (a + x) d))))
   }"

text \<open>One pass of the main loop on \<^verbatim>\<open>(h, g, f)\<close>; \<^verbatim>\<open>PERMUTE3(f, h, g)\<close> leaves
  \<^verbatim>\<open>f, h, g\<close> with the old \<^verbatim>\<open>g, f, h\<close>.\<close>

definition city32_step :: "byte list \<Rightarrow> nat \<Rightarrow> u32 \<times> u32 \<times> u32 \<Rightarrow> (u32 \<times> u32 \<times> u32) option" where
  "city32_step buf s = (\<lambda>(h, g, f). do {
     w0 \<leftarrow> Fetch32 buf s;
     let a0 = Rotate32 (w0 * c1) 17 * c2;
     a1 \<leftarrow> Fetch32 buf (s + 4);
     w2 \<leftarrow> Fetch32 buf (s + 8);
     let a2 = Rotate32 (w2 * c1) 17 * c2;
     w3 \<leftarrow> Fetch32 buf (s + 12);
     let a3 = Rotate32 (w3 * c1) 17 * c2;
     a4 \<leftarrow> Fetch32 buf (s + 16);
     let h = Rotate32 (h XOR a0) 18 * 5 + 0xe6546b64;
     let f = Rotate32 (f + a1) 19 * c1;
     let g = Rotate32 (g + a2) 18 * 5 + 0xe6546b64;
     let h = Rotate32 (h XOR (a3 + a1)) 19 * 5 + 0xe6546b64;
     let g = bswap_32 (g XOR a4) * 5;
     let h = bswap_32 (h + a4 * 5);
     let f = f + a0;
     Some (f, h, g)
   })"

text \<open>The \<^verbatim>\<open>do ... while (--iters != 0)\<close> loop.  With \<^verbatim>\<open>iters = 0\<close> the counter
  would wrap and the reads leave the buffer.\<close>

fun city32_loop :: "byte list \<Rightarrow> nat \<Rightarrow> nat \<Rightarrow> u32 \<times> u32 \<times> u32 \<Rightarrow> (u32 \<times> u32 \<times> u32) option" where
  "city32_loop buf s 0 st = None"
| "city32_loop buf s (Suc n) st = do {
     st' \<leftarrow> city32_step buf s st;
     if n \<noteq> 0 then city32_loop buf (s + 20) n st' else Some st'
   }"

definition CityHash32 :: "byte list \<Rightarrow> nat \<Rightarrow> nat \<Rightarrow> u32 option" where
  "CityHash32 buf s len =
    (if len \<le> 24 then
       (if len \<le> 12 then
          (if len \<le> 4 then Hash32Len0to4 buf s len else Hash32Len5to12 buf s len)
        else Hash32Len13to24 buf s len)
     else do {
       let h = of_nat len; let g = c1 * of_nat len; let f = g;
       w0 \<leftarrow> Fetch32 buf (s + len - 4);
       w1 \<leftarrow> Fetch32 buf (s + len - 8);
       w2 \<leftarrow> Fetch32 buf (s + len - 16);
       w3 \<leftarrow> Fetch32 buf (s + len - 12);
       w4 \<leftarrow> Fetch32 buf (s + len - 20);
       let a0 = Rotate32 (w0 * c1) 17 * c2;
       let a1 = Rotate32 (w1 * c1) 17 * c2;
       let a2 = Rotate32 (w2 * c1) 17 * c2;
       let a3 = Rotate32 (w3 * c1) 17 * c2;
       let a4 = Rotate32 (w4 * c1) 17 * c2;
       let h = Rotate32 (h XOR a0) 19 * 5 + 0xe6546b64;
       let h = Rotate32 (h XOR a2) 19 * 5 + 0xe6546b64;
       let g = Rotate32 (g XOR a1) 19 * 5 + 0xe6546b64;
       let g = Rotate32 (g XOR a3) 19 * 5 + 0xe6546b64;
       let f = Rotate32 (f + a4) 19 * 5 + 0xe6546b64;
       (h, g, f) \<leftarrow> city32_loop buf s ((len - 1) div 20) (h, g, f);
       let g = Rotate32 g 11 * c1;
       let g = Rotate32 g 17 * c1;
       let f = Rotate32 f 11 * c1;
       let f = Rotate32 f 17 * c1;
       let h = Rotate32 (h + g) 19 * 5 + 0xe6546b64;
       let h = Rotate32 h 17 * c1;
       let h = Rotate32 (h + f) 19 * 5 + 0xe6546b64;
       Some (Rotate32 h 17 * c1)
     })"

section \<open>64-bit hashing\<close>

definition Rotate :: "u64 \<Rightarrow> nat \<Rightarrow> u64" where
  "Rotate val shift =
    (if shift = 0 then val else drop_bit shift val OR push_bit (64 - shift) val)"

definition ShiftMix :: "u64 \<Rightarrow> u64" where
  "ShiftMix val = val XOR drop_bit 47 val"

definition Hash128to64 :: "u128 \<Rightarrow> u64" where
  "Hash128to64 x =
    (let kMul = 0x9ddfea08eb382d69;
         a = (fst x XOR snd x) * kMul;
         a = a XOR drop_bit 47 a;
         b = (snd x XOR a) * kMul;
         b = b XOR drop_bit 47 b
     in b * kMul)"

definition HashLen16 :: "u64 \<Rightarrow> u64 \<Rightarrow> u64" where
  "HashLen16 u v = Hash128to64 (u, v)"

definition HashLen16_mul :: "u64 \<Rightarrow> u64 \<Rightarrow> u64 \<Rightarrow> u64" where
  "HashLen16_mul u v mul =
    (let a = (u XOR v) * mul;
         a = a XOR drop_bit 47 a;
         b = (v XOR a) * mul;
         b = b XOR drop_bit 47 b
     in b * mul)"

definition HashLen0to16 :: "byte list \<Rightarrow> nat \<Rightarrow> nat \<Rightarrow> u64 option" where
  "HashLen0to16 buf s len =
    (if len \<ge> 8 then do {
       let mul = k2 + of_nat len * 2;
       w \<leftarrow> Fetch64 buf s;
       let a = w + k2;
       b \<leftarrow> Fetch64 buf (s + len - 8);
       let c = Rotate b 37 * mul + a;
       let d = (Rotate a 25 + b) * mul;
       Some (HashLen16_mul c d mul)
     }
     else if len \<ge> 4 then do {
       let mul = k2 + of_nat len * 2;
       a \<leftarrow> Fetch32 buf s;
       b \<leftarrow> Fetch32 buf (s + len - 4);
       Some (HashLen16_mul (of_nat len + push_bit 3 (ucast a)) (ucast b) mul)
     }
     else if len > 0 then do {
       a \<leftarrow> char_at buf s;
       b \<leftarrow> char_at buf (s + len div 2);
       c \<leftarrow> char_at buf (s + len - 1);
       let y = (ucast a + push_bit 8 (ucast b) :: u32);
       let z = (of_nat len + push_bit 2 (ucast c) :: u32);
       Some (ShiftMix ((ucast y * k2) XOR (ucast z * k0)) * k2)
     }
     else Some k2)"

definition HashLen17to32 :: "byte list \<Rightarrow> nat \<Rightarrow> nat \<Rightarrow> u64 option" where
  "HashLen17to32 buf s len = do {
     let mul = k2 + of_nat len * 2;
     w0 \<leftarrow> Fetch64 buf s;
     let a = w0 * k1;
     b \<leftarrow> Fetch64 buf (s + 8);
     w2 \<leftarrow> Fetch64 buf (s + len - 8);
     let c = w2 * mul;
     w3 \<leftarrow> Fetch64 buf (s + len - 16);
     let d = w3 * k2;
     Some (HashLen16_mul (Rotate (a + b) 43 + Rotate c 30 + d) (a + Rotate (b + k2) 18 + c) mul)
   }"

definition WeakHashLen32WithSeeds :: "u64 \<Rightarrow> u64 \<Rightarrow> u64 \<Rightarrow> u64 \<Rightarrow> u64 \<Rightarrow> u64 \<Rightarrow> u64 \<times> u64" where
  "WeakHashLen32WithSeeds w x y z a0 b0 =
    (let a = a0 + w;
         b = Rotate (b0 + a + z) 21;
         c = a;
         a = a + x;
         a = a + y;
         b = b + Rotate a 44
     in (a + z, b + c))"

definition WeakHashLen32WithSeeds_at :: "byte list \<Rightarrow> nat \<Rightarrow> u64 \<Rightarrow> u64 \<Rightarrow> (u64 \<times> u64) option" where
  "WeakHashLen32WithSeeds_at buf s a b = do {
     w \<leftarrow> Fetch64 buf s;
     x \<leftarrow> Fetch64 buf (s + 8);
     y \<leftarrow> Fetch64 buf (s + 16);
     z \<leftarrow> Fetch64 buf (s + 24);
     Some (WeakHashLen32WithSeeds w x y z a b)
   }"

definition HashLen33to64 :: "byte list \<Rightarrow> nat \<Rightarrow> nat \<Rightarrow> u64 option" where
  "HashLen33to64 buf s len = do {
     let mul = k2 + of_nat len * 2;
     wa \<leftarrow> Fetch64 buf s;
     let a = wa * k2;
     b \<leftarrow> Fetch64 buf (s + 8);
     c \<leftarrow> Fetch64 buf (s + len - 24);
     d \<leftarrow> Fetch64 buf (s + len - 32);
     we \<leftarrow> Fetch64 buf (s + 16);
     let e = we * k2;
     wf \<leftarrow> Fetch64 buf (s + 24);
     let f = wf * 9;
     g \<leftarrow> Fetch64 buf (s + len - 8);
     wh \<leftarrow> Fetch64 buf (s + len - 16);
     let h = wh * mul;
     let u = Rotate (a + g) 43 + (Rotate b 30 + c) * 9;
     let v = ((a + g) XOR d) + f + 1;
     let w = bswap_64 ((u + v) * mul) + h;
     let x = Rotate (e + f) 42 + c;
     let y = (bswap_64 ((v + w) * mul) + g) * mul;
     let z = e + f + c;
     let a = bswap_64 ((x + z) * mul + y) + b;
     let b = ShiftMix ((z + a) * mul + d + h) * mul;
     Some (b + x)
   }"

text \<open>The 56 bytes of state \<^verbatim>\<open>v, w, x, y, z\<close> of the long-input loops, and the
  64-byte round they share.\<close>

record city_state =
  cs_v :: "u64 \<times> u64"
  cs_w :: "u64 \<times> u64"
  cs_x :: u64
  cs_y :: u64
  cs_z :: u64

definition city_round :: "byte list \<Rightarrow> nat \<Rightarrow> city_state \<Rightarrow> city_state option" where
  "city_round buf s st = do {
     let v = cs_v st; let w = cs_w st; let x = cs_x st; let y = cs_y st; let z = cs_z st;
     f8 \<leftarrow> Fetch64 buf (s + 8);
     let x = Rotate (x + y + fst v + f8) 37 * k1;
     f48 \<leftarrow> Fetch64 buf (s + 48);
     let y = Rotate (y + snd v + f48) 42 * k1;
     let x = x XOR snd w;
     f40 \<leftarrow> Fetch64 buf (s + 40);
     let y = y + (fst v + f40);
     let z = Rotate (z + fst w) 33 * k1;
     v \<leftarrow> WeakHashLen32WithSeeds_at buf s (snd v * k1) (x + fst w);
     f16 \<leftarrow> Fetch64 buf (s + 16);
     w \<leftarrow> WeakHashLen32WithSeeds_at buf (s + 32) (z + snd w) (y + f16);
     Some \<lparr>cs_v = v, cs_w = w, cs_x = z, cs_y = y, cs_z = x\<rparr>
   }"

text \<open>The \<^verbatim>\<open>do ... while (len != 0)\<close> loop of \<^verbatim>\<open>CityHash64\<close>.  Its \<^verbatim>\<open>len\<close> is a positive
  multiple of 64; any other value would wrap and run off the buffer.\<close>

function city64_loop :: "byte list \<Rightarrow> nat \<Rightarrow> nat \<Rightarrow> city_state \<Rightarrow> city_state option" where
  "city64_loop buf s len st =
    (if len < 64 then None else do {
       st' \<leftarrow> city_round buf s st;
       if len - 64 \<noteq> 0 then city64_loop buf (s + 64) (len - 64) st' else Some st'
     })"
  by pat_completeness auto
termination by (relation "measure (\<lambda>(buf, s, len, st). len)") auto

definition CityHash64 :: "byte list \<Rightarrow> nat \<Rightarrow> nat \<Rightarrow> u64 option" where
  "CityHash64 buf s len =
    (if len \<le> 32 then
       (if len \<le> 16 then HashLen0to16 buf s len else HashLen17to32 buf s len)
     else if len \<le> 64 then HashLen33to64 buf s len
     else do {
       x \<leftarrow> Fetch64 buf (s + len - 40);
       y0 \<leftarrow> Fetch64 buf (s + len - 16);
       y1 \<leftarrow> Fetch64 buf (s + len - 56);
       let y = y0 + y1;
       z0 \<leftarrow> Fetch64 buf (s + len - 48);
       z1 \<leftarrow> Fetch64 buf (s + len - 24);
       let z = HashLen16 (z0 + of_nat len) z1;
       v \<leftarrow> WeakHashLen32WithSeeds_at buf (s + len - 64) (of_nat len) z;
       w \<leftarrow> WeakHashLen32WithSeeds_at buf (s + len - 32) (y + k1) x;
       x0 \<leftarrow> Fetch64 buf s;
       let x = x * k1 + x0;
       st \<leftarrow> city64_loop buf s ((len - 1) div 64 * 64)
               \<lparr>cs_v = v, cs_w = w, cs_x = x, cs_y = y, cs_z = z\<rparr>;
       let v = cs_v st; let w = cs_w st;
       Some (HashLen16 (HashLen16 (fst v) (fst w) + ShiftMix (cs_y st) * k1 + cs_z st)
                       (HashLen16 (snd v) (snd w) + cs_x st))
     })"

definition CityHash64WithSeeds :: "byte list \<Rightarrow> nat \<Rightarrow> nat \<Rightarrow> u64 \<Rightarrow> u64 \<Rightarrow> u64 option" where
  "CityHash64WithSeeds buf s len seed0 seed1 = do {
     h \<leftarrow> CityHash64 buf s len;
     Some (HashLen16 (h - seed0) seed1)
   }"

definition CityHash64WithSeed :: "byte list \<Rightarrow> nat \<Rightarrow> nat \<Rightarrow> u64 \<Rightarrow> u64 option" where
  "CityHash64WithSeed buf s len seed = CityHash64WithSeeds buf s len k2 seed"

section \<open>128-bit hashing\<close>

text \<open>The loop of \<^verbatim>\<open>CityMurmur\<close> on \<^verbatim>\<open>(a, b, c, d)\<close>, entered with \<^verbatim>\<open>l > 0\<close>.\<close>

function murmur_loop ::
  "byte list \<Rightarrow> nat \<Rightarrow> int \<Rightarrow> u64 \<times> u64 \<times> u64 \<times> u64 \<Rightarrow> (u64 \<times> u64 \<times> u64 \<times> u64) option" where
  "murmur_loop buf s l (a, b, c, d) = do {
     w0 \<leftarrow> Fetch64 buf s;
     let a = (a XOR (ShiftMix (w0 * k1) * k1)) * k1;
     let b = b XOR a;
     w1 \<leftarrow> Fetch64 buf (s + 8);
     let c = (c XOR (ShiftMix (w1 * k1) * k1)) * k1;
     let d = d XOR c;
     if l - 16 > 0 then murmur_loop buf (s + 16) (l - 16) (a, b, c, d) else Some (a, b, c, d)
   }"
  by pat_completeness auto
termination by (relation "measure (\<lambda>(buf, s, l, st). nat l)") auto

definition CityMurmur :: "byte list \<Rightarrow> nat \<Rightarrow> nat \<Rightarrow> u128 \<Rightarrow> u128 option" where
  "CityMurmur buf s len seed = do {
     let a = fst seed; let b = snd seed; let l = int len - 16;
     (a, b, c, d) \<leftarrow>
       (if l \<le> 0 then do {
          let a = ShiftMix (a * k1) * k1;
          h \<leftarrow> HashLen0to16 buf s len;
          let c = b * k1 + h;
          e \<leftarrow> (if len \<ge> 8 then Fetch64 buf s else Some c);
          Some (a, b, c, ShiftMix (a + e))
        } else do {
          w0 \<leftarrow> Fetch64 buf (s + len - 8);
          let c = HashLen16 (w0 + k1) a;
          w1 \<leftarrow> Fetch64 buf (s + len - 16);
          let d = HashLen16 (b + of_nat len) (c + w1);
          murmur_loop buf s l (a + d, b, c, d)
        });
     let a = HashLen16 a c;
     let b = HashLen16 d b;
     Some (a XOR b, HashLen16 b a)
   }"

text \<open>The \<^verbatim>\<open>do ... while (len >= 128)\<close> loop, two rounds a pass; it returns the
  advanced pointer and the remaining length with the state.\<close>

function city128_loop ::
  "byte list \<Rightarrow> nat \<Rightarrow> nat \<Rightarrow> city_state \<Rightarrow> (nat \<times> nat \<times> city_state) option" where
  "city128_loop buf s len st =
    (if len < 128 then None else do {
       st1 \<leftarrow> city_round buf s st;
       st2 \<leftarrow> city_round buf (s + 64) st1;
       if len - 128 \<ge> 128 then city128_loop buf (s + 128) (len - 128) st2
       else Some (s + 128, len - 128, st2)
     })"
  by pat_completeness auto
termination by (relation "measure (\<lambda>(buf, s, len, st). len)") auto

text \<open>The tail loop; it reads backwards from \<^verbatim>\<open>s + len\<close>, possibly before \<^verbatim>\<open>s\<close>.\<close>

function city128_tail ::
  "byte list \<Rightarrow> nat \<Rightarrow> nat \<Rightarrow> nat \<Rightarrow> city_state \<Rightarrow> city_state option" where
  "city128_tail buf s len tail_done st =
    (if tail_done < len then do {
       let tail_done = tail_done + 32;
       let v = cs_v st; let w = cs_w st; let x = cs_x st; let y = cs_y st; let z = cs_z st;
       let y = Rotate (x + y) 42 * k0 + snd v;
       f16 \<leftarrow> Fetch64 buf (s + len - tail_done + 16);
       let w = (fst w + f16, snd w);
       let x = x * k0 + fst w;
       f0 \<leftarrow> Fetch64 buf (s + len - tail_done);
       let z = z + (snd w + f0);
       let w = (fst w, snd w + fst v);
       v \<leftarrow> WeakHashLen32WithSeeds_at buf (s + len - tail_done) (fst v + z) (snd v);
       let v = (fst v * k0, snd v);
       city128_tail buf s len tail_done \<lparr>cs_v = v, cs_w = w, cs_x = x, cs_y = y, cs_z = z\<rparr>
     } else Some st)"
  by pat_completeness auto
termination by (relation "measure (\<lambda>(buf, s, len, d, st). len - d)") auto

definition CityHash128WithSeed :: "byte list \<Rightarrow> nat \<Rightarrow> nat \<Rightarrow> u128 \<Rightarrow> u128 option" where
  "CityHash128WithSeed buf s len seed =
    (if len < 128 then CityMurmur buf s len seed
     else do {
       let x = fst seed; let y = snd seed; let z = of_nat len * k1;
       f0 \<leftarrow> Fetch64 buf s;
       let v1 = Rotate (y XOR k1) 49 * k1 + f0;
       f8 \<leftarrow> Fetch64 buf (s + 8);
       let v2 = Rotate v1 42 * k1 + f8;
       let w1 = Rotate (y + z) 35 * k1 + x;
       f88 \<leftarrow> Fetch64 buf (s + 88);
       let w2 = Rotate (x + f88) 53 * k1;
       (s, len, st) \<leftarrow> city128_loop buf s len
          \<lparr>cs_v = (v1, v2), cs_w = (w1, w2), cs_x = x, cs_y = y, cs_z = z\<rparr>;
       let v = cs_v st; let w = cs_w st; let x = cs_x st; let y = cs_y st; let z = cs_z st;
       let x = x + Rotate (fst v + z) 49 * k0;
       let y = y * k0 + Rotate (snd w) 37;
       let z = z * k0 + Rotate (fst w) 27;
       let w = (fst w * 9, snd w);
       let v = (fst v * k0, snd v);
       st \<leftarrow> city128_tail buf s len 0
          \<lparr>cs_v = v, cs_w = w, cs_x = x, cs_y = y, cs_z = z\<rparr>;
       let v = cs_v st; let w = cs_w st;
       let x = HashLen16 (cs_x st) (fst v);
       let y = HashLen16 (cs_y st + cs_z st) (fst w);
       Some (HashLen16 (x + snd v) (snd w) + y, HashLen16 (x + snd w) (y + snd v))
     })"

definition CityHash128 :: "byte list \<Rightarrow> nat \<Rightarrow> nat \<Rightarrow> u128 option" where
  "CityHash128 buf s len =
    (if len \<ge> 16 then do {
       f0 \<leftarrow> Fetch64 buf s;
       f8 \<leftarrow> Fetch64 buf (s + 8);
       CityHash128WithSeed buf (s + 16) (len - 16) (f0, f8 + k0)
     }
     else CityHash128WithSeed buf s len (k0, k1))"

declare hash32_0to4_loop.simps [simp del]
declare city64_loop.simps [simp del]
declare murmur_loop.simps [simp del]
declare city128_loop.simps [simp del]
declare city128_tail.simps [simp del]

section \<open>Memory safety\<close>

lemma defined_Fetch64 [defined_intros]: "p + 8 \<le> length buf \<Longrightarrow> Fetch64 buf p \<noteq> None"
  by (simp add: Fetch64_def load_def)

lemma defined_Fetch32 [defined_intros]: "p + 4 \<le> length buf \<Longrightarrow> Fetch32 buf p \<noteq> None"
  by (simp add: Fetch32_def load_def)

lemma defined_char_at [defined_intros]: "p < length buf \<Longrightarrow> char_at buf p \<noteq> None"
  by (simp add: char_at_def)

lemma defined_hash32_0to4_loop [defined_intros]:
  "s + len \<le> length buf \<Longrightarrow> hash32_0to4_loop buf s len i st \<noteq> None"
proof (induction "len - i" arbitrary: i st)
  case 0
  then show ?case
    by (cases st) (simp add: hash32_0to4_loop.simps)
next
  case (Suc n)
  obtain b c where [simp]: "st = (b, c)"
    by (cases st)
  have IH: "hash32_0to4_loop buf s len (i + 1) st' \<noteq> None" for st'
    using Suc by simp
  show ?case
    apply (simp only: \<open>st = (b, c)\<close>)
    apply (subst hash32_0to4_loop.simps)
    apply (intro defined_intros IH)
    using Suc.prems by simp
qed

lemma defined_city32_step [defined_intros]:
  "s + 20 \<le> length buf \<Longrightarrow> city32_step buf s st \<noteq> None"
  unfolding city32_step_def by (intro defined_intros) auto

lemma defined_city32_loop [defined_intros]:
  "0 < n \<Longrightarrow> s + 20 * n \<le> length buf \<Longrightarrow> city32_loop buf s n st \<noteq> None"
proof (induction buf s n st rule: city32_loop.induct)
  case (2 buf s n st)
  show ?case
    by (subst city32_loop.simps) (intro defined_intros 2; use 2 in simp)
qed simp

lemma odd_div_8: "odd (len div 8) \<Longrightarrow> 8 \<le> (len::nat)"
  by (cases "len < 8") auto

lemma defined_CityHash32:
  "s + len \<le> length buf \<Longrightarrow> CityHash32 buf s len \<noteq> None"
  unfolding CityHash32_def Hash32Len0to4_def Hash32Len5to12_def Hash32Len13to24_def
  by (intro defined_intros) (auto dest: odd_div_8)

lemma defined_WeakHash_at [defined_intros]:
  "s + 32 \<le> length buf \<Longrightarrow> WeakHashLen32WithSeeds_at buf s a b \<noteq> None"
  unfolding WeakHashLen32WithSeeds_at_def by (intro defined_intros) auto

lemma defined_HashLen0to16 [defined_intros]:
  "s + len \<le> length buf \<Longrightarrow> HashLen0to16 buf s len \<noteq> None"
  unfolding HashLen0to16_def by (intro defined_intros) auto

lemma defined_city_round [defined_intros]:
  "s + 64 \<le> length buf \<Longrightarrow> city_round buf s st \<noteq> None"
  unfolding city_round_def by (intro defined_intros) auto

lemma defined_city64_loop [defined_intros]:
  "0 < len \<Longrightarrow> 64 dvd len \<Longrightarrow> s + len \<le> length buf \<Longrightarrow> city64_loop buf s len st \<noteq> None"
proof (induction buf s len st rule: city64_loop.induct)
  case (1 buf s len st)
  then have "64 \<le> len"
    by (auto dest: dvd_imp_le)
  with 1 show ?case
    by (subst city64_loop.simps) (intro defined_intros 1; (simp add: dvd_diff_nat)?)
qed

lemma defined_CityHash64:
  assumes "s + len \<le> length buf"
  shows "CityHash64 buf s len \<noteq> None"
proof -
  have "s + (len - 1) div 64 * 64 \<le> length buf"
    using assms div_times_less_eq_dividend[of "len - 1" 64] by linarith
  then show ?thesis
    unfolding CityHash64_def HashLen17to32_def HashLen33to64_def
    by (intro defined_intros) (use assms in auto)
qed

lemma defined_murmur_loop [defined_intros]:
  "0 < l \<Longrightarrow> int s + l + 16 \<le> int (length buf) \<Longrightarrow> murmur_loop buf s l st \<noteq> None"
proof (induction "nat l" arbitrary: s l st rule: less_induct)
  case less
  obtain a b c d where st: "st = (a, b, c, d)"
    by (cases st)
  have IH: "murmur_loop buf (s + 16) (l - 16) st' \<noteq> None" if "0 < l - 16" for st'
    using less that by simp
  show ?case
    unfolding st
    apply (subst murmur_loop.simps)
    apply (intro defined_intros IH)
    using less.prems by simp_all
qed

lemma defined_CityMurmur [defined_intros]:
  "s + len \<le> length buf \<Longrightarrow> CityMurmur buf s len seed \<noteq> None"
  unfolding CityMurmur_def Let_def[of "int len - 16"]
  apply (intro defined_intros)
  by simp_all

lemma city128_loop_result:
  "128 \<le> len \<Longrightarrow> s + len \<le> length buf \<Longrightarrow>
   \<exists>s' len' st'. city128_loop buf s len st = Some (s', len', st') \<and>
     128 \<le> s' \<and> len' < 128 \<and> s' + len' = s + len"
proof (induction buf s len st rule: city128_loop.induct)
  case (1 buf s len st)
  obtain st1 where st1: "city_round buf s st = Some st1"
    using defined_city_round[of s buf st] 1 by auto
  obtain st2 where st2: "city_round buf (s + 64) st1 = Some st2"
    using defined_city_round[of "s + 64" buf st1] 1 by auto
  show ?case
    using 1 st1 st2 by (subst city128_loop.simps) auto
qed

lemma defined_city128_tail [defined_intros]:
  "128 \<le> s \<Longrightarrow> len < 128 \<Longrightarrow> s + len \<le> length buf \<Longrightarrow>
   city128_tail buf s len d st \<noteq> None"
proof (induction "len - d" arbitrary: d st rule: less_induct)
  case less
  have IH: "city128_tail buf s len (d + 32) st' \<noteq> None" if "d < len" for st'
    using less that by simp
  show ?case
    apply (subst city128_tail.simps)
    unfolding Let_def[of "d + 32"]
    apply (intro defined_intros IH)
    using less.prems by simp_all
qed

lemma defined_CityHash128WithSeed [defined_intros]:
  assumes "s + len \<le> length buf"
  shows "CityHash128WithSeed buf s len seed \<noteq> None"
proof (cases "len < 128")
  case True
  then show ?thesis
    using assms by (simp add: CityHash128WithSeed_def defined_CityMurmur)
next
  case False
  then have loop: "city128_loop buf s len st \<noteq> None" for st
    using assms city128_loop_result[of len s buf st] by auto
  have res: "128 \<le> s' \<and> len' < 128 \<and> s' + len' = s + len"
    if "city128_loop buf s len st = Some (s', len', st')" for st s' len' st'
    using that assms False city128_loop_result[of len s buf st] by auto
  show ?thesis
    unfolding CityHash128WithSeed_def
    by (intro defined_intros loop) (use assms False res in \<open>auto dest!: res\<close>)
qed

lemma defined_CityHash128:
  "s + len \<le> length buf \<Longrightarrow> CityHash128 buf s len \<noteq> None"
  unfolding CityHash128_def by (intro defined_intros) auto
section \<open>Mixing steps are bijections\<close>

lemma fmix_comp: "fmix = (\<lambda>h. h XOR drop_bit 16 h) \<circ> (\<lambda>h. h * 0xc2b2ae35) \<circ>
   (\<lambda>h. h XOR drop_bit 13 h) \<circ> (\<lambda>h. h * 0x85ebca6b) \<circ> (\<lambda>h. h XOR drop_bit 16 h)"
  by (simp add: fun_eq_iff fmix_def Let_def)

lemma inj_fmix: "inj fmix"
proof -
  have m1: "inj (\<lambda>h :: u32. h * 0x85ebca6b)"
    by (rule inj_mult_unit[where d = "0xa5cb9243"]) simp
  have m2: "inj (\<lambda>h :: u32. h * 0xc2b2ae35)"
    by (rule inj_mult_unit[where d = "0x7ed1b41d"]) simp
  have x: "inj (\<lambda>h :: u32. h XOR drop_bit 16 h)" "inj (\<lambda>h :: u32. h XOR drop_bit 13 h)"
    by (rule inj_xorshift; simp)+
  show ?thesis
    unfolding fmix_comp by (intro inj_compose m1 m2 x)
qed

lemma bij_fmix: "bij fmix"
  using inj_fmix by (simp add: bij_def finite_UNIV_inj_surj)


lemma Rotate_word_rotr:
  assumes "n < 64" shows "Rotate x n = word_rotr n x"
proof (rule bit_word_eqI)
  fix i assume "i < LENGTH(64)"
  then have i: "i < 64" by simp
  show "bit (Rotate x n) i = bit (word_rotr n x) i"
  proof (cases "i + n < 64")
    case True
    then show ?thesis
      using assms i by (auto simp: Rotate_def bit_word_rotr_iff bit_simps add.commute)
  next
    case False
    then have m: "(i + n) mod 64 = i + n - 64"
      using assms i by (simp add: mod_if)
    have "\<not> bit x (n + i)"
      using False by (auto dest: bit_imp_le_length)
    then show ?thesis
      using assms i False m by (auto simp: Rotate_def bit_word_rotr_iff bit_simps)
  qed
qed

lemma inj_HashLen16: "inj (\<lambda>u. HashLen16 u v)"
proof -
  let ?k = "0x9ddfea08eb382d69 :: u64"
  have m: "inj (\<lambda>h :: u64. h * ?k)"
    by (rule inj_mult_unit[where d = "0xdc56e6f5090b32d9"]) simp
  have x: "inj (\<lambda>h :: u64. h XOR drop_bit 47 h)"
    by (rule inj_xorshift) simp
  have v: "inj (\<lambda>h :: u64. v XOR h)" "inj (\<lambda>h :: u64. h XOR v)"
    by (auto intro!: injI simp: bit_eq_iff bit_simps)
  have "(\<lambda>u. HashLen16 u v) = (\<lambda>h. h * ?k) \<circ> (\<lambda>h. h XOR drop_bit 47 h) \<circ> (\<lambda>h. h * ?k) \<circ>
      (\<lambda>h. v XOR h) \<circ> (\<lambda>h. h XOR drop_bit 47 h) \<circ> (\<lambda>h. h * ?k) \<circ> (\<lambda>u. u XOR v)"
    by (simp add: fun_eq_iff HashLen16_def Hash128to64_def Let_def)
  then show ?thesis
    by (simp only:) (intro inj_compose m x v)
qed


lemma HashLen16_cancel [simp]: "HashLen16 u v = HashLen16 u' v \<longleftrightarrow> u = u'"
  using injD[OF inj_HashLen16] by blast

section \<open>Properties\<close>



text \<open>The final mixers lose nothing: \<^const>\<open>fmix\<close> is a bijection on 32-bit words, and
  for every second argument \<^const>\<open>HashLen16\<close> is injective in its first one.  A seeded
  64-bit hash therefore collides, for one seed, only where \<^const>\<open>CityHash64\<close> itself
  collides.\<close>

theorem city_mixers_injective:
  "bij fmix \<and> inj (\<lambda>u. HashLen16 u v) \<and>
   (CityHash64 buf s len = Some h \<and> CityHash64 buf' s' len' = Some h' \<and>
    CityHash64WithSeed buf s len seed = CityHash64WithSeed buf' s' len' seed \<longrightarrow> h = h')"
  using bij_fmix inj_HashLen16[of v]
  by (auto simp: CityHash64WithSeed_def CityHash64WithSeeds_def)

theorem city_mixers_injective_witness:
  "bij fmix \<and> (CityHash64 [] 0 0 = Some k2 \<and> CityHash64 [7] 1 0 = Some k2 \<and>
     CityHash64WithSeed [] 0 0 5 = CityHash64WithSeed [7] 1 0 5)"
  using city_mixers_injective[of 0 "[]" 0 0 k2 "[7]" 1 0 k2 5]
  by (simp add: CityHash64_def HashLen0to16_def CityHash64WithSeed_def CityHash64WithSeeds_def)

end
