(* ===== verification/Packets.thy ===== *)
theory Packets
  imports Nfd_Prelude
begin

text \<open>
  Packets and faces as the tables and the forwarder see them.  The packet classes
  \<^verbatim>\<open>Interest\<close>, \<^verbatim>\<open>Data\<close> and \<^verbatim>\<open>lp::Nack\<close> belong to ndn-cxx; the records hold the fields
  the code of \<^verbatim>\<open>src/daemon\<close> reads, and the matching function
  \<^verbatim>\<open>Interest::matchesData\<close> is a parameter of the definitions that call it.  A face is a
  pointer into a table of \<^verbatim>\<open>face_info\<close> records.
\<close>

section \<open>Packets\<close>

text \<open>\<^verbatim>\<open>Selectors\<close>: the two the tables read, and the encoding of the others.\<close>

record selectors =
  childSelector :: int
  mustBeFresh :: bool
  otherSelectors :: "byte list"

text \<open>The Link field: absent, present but not decodable (\<^verbatim>\<open>getLink\<close> throws), or a
  delegation set in the order of preference.\<close>

datatype link_field = NoLink | MalformedLink | LinkObject "(u32 \<times> name) list"

record interest =
  i_name :: name
  i_nonce :: u32
  i_selectors :: selectors
  i_lifetime :: int
  i_link :: link_field
  i_selectedDelegation :: "name option"
  i_nextHopFaceId :: "u64 option"

text \<open>\<^verbatim>\<open>d_freshness\<close> is \<^verbatim>\<open>getFreshnessPeriod()\<close> in milliseconds, negative when the field
  is absent; \<^verbatim>\<open>d_digest\<close> is the value of the implicit digest component that
  \<^verbatim>\<open>getFullName()\<close> appends; \<^verbatim>\<open>d_noCache\<close> says that a CachePolicy tag with
  \<^verbatim>\<open>NO_CACHE\<close> is attached.\<close>

record data =
  d_name :: name
  d_digest :: "byte list"
  d_freshness :: int
  d_noCache :: bool

definition fullName :: "data \<Rightarrow> name" where
  "fullName d = d_name d @ [ImplicitDigest (d_digest d)]"

datatype nack_reason = NackNone | Congestion | Duplicate | NoRoute

record nack =
  n_interest :: interest
  n_reason :: nack_reason

section \<open>Faces\<close>

type_synonym face_ptr = nat

datatype face_scope = ScopeNonLocal | ScopeLocal

datatype link_type = PointToPoint | MultiAccess

record face_info =
  f_id :: u64
  f_scope :: face_scope
  f_linkType :: link_type

definition INVALID_FACEID :: u64 where "INVALID_FACEID = 0"

end
