(* ===== verification/Content_Store.thy ===== *)
theory Content_Store
  imports Packets
begin

text \<open>
  The content store of \<^verbatim>\<open>src/daemon/table/cs.cpp\<close> with its entries
  (\<^verbatim>\<open>cs-entry.cpp\<close>, \<^verbatim>\<open>cs-entry-impl.cpp\<close>) and its two replacement policies
  (\<^verbatim>\<open>cs-policy-lru.cpp\<close>, \<^verbatim>\<open>cs-policy-priority-fifo.cpp\<close>).

  \<^verbatim>\<open>m_table\<close>, a \<^verbatim>\<open>std::set\<close>, is the list of its entries in increasing order, and an
  iterator into it is an index, \<^verbatim>\<open>end()\<close> being the length.  A policy stores iterators of
  entries; such an iterator stays valid while the entry is in the table and is represented
  by the key of the entry (name and digest), on which entries are unique.  A failed
  \<^verbatim>\<open>BOOST_ASSERT\<close> and the decrement of \<^verbatim>\<open>begin()\<close> are error values.
\<close>

section \<open>Entries\<close>

text \<open>\<^verbatim>\<open>time::steady_clock::TimePoint::max()\<close>\<close>

definition TimePoint_max :: time where "TimePoint_max = 2 ^ 63 - 1"

record cs_entry =
  ce_data :: data
  ce_isUnsolicited :: bool
  ce_staleTime :: time

definition isStale :: "time \<Rightarrow> cs_entry \<Rightarrow> bool" where
  "isStale now e = (ce_staleTime e < now)"

definition updateStaleTime :: "time \<Rightarrow> cs_entry \<Rightarrow> cs_entry" where
  "updateStaleTime now e =
    (if d_freshness (ce_data e) \<ge> 0
     then e\<lparr>ce_staleTime := now + milliseconds (d_freshness (ce_data e))\<rparr>
     else e\<lparr>ce_staleTime := TimePoint_max\<rparr>)"

definition setData :: "time \<Rightarrow> data \<Rightarrow> bool \<Rightarrow> cs_entry" where
  "setData now d isUnsolicited =
    updateStaleTime now \<lparr>ce_data = d, ce_isUnsolicited = isUnsolicited, ce_staleTime = 0\<rparr>"

definition canStale :: "cs_entry \<Rightarrow> bool" where
  "canStale e = (ce_staleTime e < TimePoint_max)"

definition unsetUnsolicited :: "time \<Rightarrow> cs_entry \<Rightarrow> cs_entry" where
  "unsetUnsolicited now e = setData now (ce_data e) False"

text \<open>\<open>matches\<close> stands for \<^verbatim>\<open>Interest::matchesData\<close>.\<close>

type_synonym matcher = "interest \<Rightarrow> data \<Rightarrow> bool"

definition canSatisfy :: "matcher \<Rightarrow> time \<Rightarrow> interest \<Rightarrow> cs_entry \<Rightarrow> bool" where
  "canSatisfy matches now interest e =
    (if \<not> matches interest (ce_data e) then False
     else if mustBeFresh (i_selectors interest) \<and> isStale now e then False
     else True)"

text \<open>\<^verbatim>\<open>compare\<close> on names and components, as a negative, zero or positive integer.\<close>

definition compare :: "'a::linorder \<Rightarrow> 'a \<Rightarrow> int" where
  "compare a b = (if a < b then -1 else if a = b then 0 else 1)"

definition compareQueryWithData :: "name \<Rightarrow> data \<Rightarrow> int" where
  "compareQueryWithData queryName d =
    (let queryIsFullName = (queryName \<noteq> [] \<and> isImplicitSha256Digest (last queryName));
         cmp = (if queryIsFullName then compare (butlast queryName) (d_name d)
                else compare queryName (d_name d))
     in if cmp \<noteq> 0 then cmp
        else if queryIsFullName then compare (last queryName) (last (fullName d))
        else -1)"

definition compareDataWithData :: "data \<Rightarrow> data \<Rightarrow> int" where
  "compareDataWithData l r =
    (let cmp = compare (d_name l) (d_name r)
     in if cmp \<noteq> 0 then cmp else compare (last (fullName l)) (last (fullName r)))"

text \<open>\<^verbatim>\<open>EntryImpl\<close>: a stored entry or, for lookups, a query; and its \<^verbatim>\<open>operator<\<close>.\<close>

datatype entry_impl = Query name | Stored cs_entry

fun entry_less :: "entry_impl \<Rightarrow> entry_impl \<Rightarrow> bool" where
  "entry_less (Query q) (Query q') = (q < q')"
| "entry_less (Query q) (Stored e) = (compareQueryWithData q (ce_data e) < 0)"
| "entry_less (Stored e) (Query q) = (compareQueryWithData q (ce_data e) > 0)"
| "entry_less (Stored e) (Stored e') = (compareDataWithData (ce_data e) (ce_data e') < 0)"

type_synonym cs_key = "name \<times> component"

definition entry_key :: "cs_entry \<Rightarrow> cs_key" where
  "entry_key e = (d_name (ce_data e), last (fullName (ce_data e)))"

section \<open>The table\<close>

type_synonym cs_table = "cs_entry list"

text \<open>\<^verbatim>\<open>std::set::insert\<close>: the position before the first entry that is not less; an
  equivalent entry is kept and reported as not new.\<close>

fun table_insert :: "cs_entry \<Rightarrow> cs_table \<Rightarrow> cs_table \<times> cs_entry \<times> bool" where
  "table_insert x [] = ([x], x, True)"
| "table_insert x (e # t) =
    (if entry_less (Stored e) (Stored x) then
       (let (t', y, b) = table_insert x t in (e # t', y, b))
     else if entry_less (Stored x) (Stored e) then (x # e # t, x, True)
     else (e # t, e, False))"

definition lower_bound :: "cs_table \<Rightarrow> name \<Rightarrow> nat" where
  "lower_bound t q = length (takeWhile (\<lambda>e. entry_less (Stored e) (Query q)) t)"

definition table_erase :: "cs_key \<Rightarrow> cs_table \<Rightarrow> cs_table" where
  "table_erase k t = filter (\<lambda>e. entry_key e \<noteq> k) t"

text \<open>Writing through an iterator.\<close>

definition table_update :: "cs_entry \<Rightarrow> cs_table \<Rightarrow> cs_table" where
  "table_update x t = map (\<lambda>e. if entry_key e = entry_key x then x else e) t"

section \<open>Replacement policies\<close>

text \<open>What undefined behaviour is told apart: a failed assertion, \<^verbatim>\<open>std::prev\<close> of
  \<^verbatim>\<open>begin()\<close>, the erasure of an iterator that is not in the table.\<close>

datatype cs_error = AssertionFailed | DecrementBegin | InvalidIterator

text \<open>The signal \<^verbatim>\<open>beforeEvict\<close>: the content store erases the entry.\<close>

definition cs_beforeEvict :: "cs_key \<Rightarrow> cs_table \<Rightarrow> cs_error + cs_table" where
  "cs_beforeEvict i t =
    (if i \<in> entry_key ` set t then Inr (table_erase i t) else Inl InvalidIterator)"

subsection \<open>LRU\<close>

type_synonym lru_queue = "cs_key list"

definition lru_insertToQueue :: "cs_key \<Rightarrow> bool \<Rightarrow> lru_queue \<Rightarrow> cs_error + lru_queue" where
  "lru_insertToQueue i isNewEntry q =
    (let isNew = (i \<notin> set q); q' = (if isNew then q @ [i] else q)
     in if isNew \<noteq> isNewEntry then Inl AssertionFailed
        else if \<not> isNewEntry then Inr (remove1 i q' @ [i])
        else Inr q')"

fun lru_evictEntries :: "nat \<Rightarrow> lru_queue \<Rightarrow> cs_table \<Rightarrow> cs_error + (lru_queue \<times> cs_table)" where
  "lru_evictEntries limit [] t =
    (if length t > limit then Inl AssertionFailed else Inr ([], t))"
| "lru_evictEntries limit (i # q) t =
    (if length t > limit then
       (case cs_beforeEvict i t of Inl e \<Rightarrow> Inl e | Inr t' \<Rightarrow> lru_evictEntries limit q t')
     else Inr (i # q, t))"

definition lru_doAfterInsert ::
  "nat \<Rightarrow> cs_key \<Rightarrow> lru_queue \<Rightarrow> cs_table \<Rightarrow> cs_error + (lru_queue \<times> cs_table)" where
  "lru_doAfterInsert limit i q t =
    (case lru_insertToQueue i True q of
       Inl e \<Rightarrow> Inl e
     | Inr q' \<Rightarrow> lru_evictEntries limit q' t)"

definition lru_doAfterRefresh :: "cs_key \<Rightarrow> lru_queue \<Rightarrow> cs_error + lru_queue" where
  "lru_doAfterRefresh i q = lru_insertToQueue i False q"

definition lru_doBeforeUse :: "cs_key \<Rightarrow> lru_queue \<Rightarrow> cs_error + lru_queue" where
  "lru_doBeforeUse i q = lru_insertToQueue i False q"

definition lru_doBeforeErase :: "cs_key \<Rightarrow> lru_queue \<Rightarrow> lru_queue" where
  "lru_doBeforeErase i q = remove1 i q"

subsection \<open>Priority FIFO\<close>

datatype queue_type = QUEUE_UNSOLICITED | QUEUE_STALE | QUEUE_FIFO

text \<open>\<^verbatim>\<open>EntryInfo\<close>; \<^verbatim>\<open>queueIt\<close> is the position of the entry's key in its queue, and
  \<^verbatim>\<open>moveStaleEventId\<close> is the time for which the event is scheduled.\<close>

record entry_info =
  queueType :: queue_type
  moveStaleEvent :: "time option"

record pf_state =
  pf_queues :: "queue_type \<Rightarrow> cs_key list"
  pf_entryInfoMap :: "cs_key \<Rightarrow> entry_info option"

definition PriorityFifoPolicy :: pf_state where
  "PriorityFifoPolicy = \<lparr>pf_queues = (\<lambda>_. []), pf_entryInfoMap = (\<lambda>_. None)\<rparr>"

definition newEntryInfo :: "time \<Rightarrow> cs_entry \<Rightarrow> entry_info" where
  "newEntryInfo now e =
    (if ce_isUnsolicited e then \<lparr>queueType = QUEUE_UNSOLICITED, moveStaleEvent = None\<rparr>
     else if isStale now e then \<lparr>queueType = QUEUE_STALE, moveStaleEvent = None\<rparr>
     else \<lparr>queueType = QUEUE_FIFO,
           moveStaleEvent =
             (if canStale e then Some (now + milliseconds (d_freshness (ce_data e)))
              else None)\<rparr>)"

definition attachQueue :: "time \<Rightarrow> cs_entry \<Rightarrow> pf_state \<Rightarrow> cs_error + pf_state" where
  "attachQueue now e p =
    (let i = entry_key e
     in if pf_entryInfoMap p i \<noteq> None then Inl AssertionFailed
        else
          let info = newEntryInfo now e; queue = pf_queues p (queueType info)
          in Inr \<lparr>pf_queues = (pf_queues p)(queueType info := queue @ [i]),
                  pf_entryInfoMap = (pf_entryInfoMap p)(i := Some info)\<rparr>)"

definition detachQueue :: "cs_key \<Rightarrow> pf_state \<Rightarrow> cs_error + pf_state" where
  "detachQueue i p =
    (case pf_entryInfoMap p i of
       None \<Rightarrow> Inl AssertionFailed
     | Some info \<Rightarrow>
         Inr \<lparr>pf_queues = (pf_queues p)(queueType info := remove1 i (pf_queues p (queueType info))),
              pf_entryInfoMap = (pf_entryInfoMap p)(i := None)\<rparr>)"

text \<open>The scheduled event; an event that fires is no longer scheduled.\<close>

definition moveToStaleQueue :: "cs_key \<Rightarrow> pf_state \<Rightarrow> cs_error + pf_state" where
  "moveToStaleQueue i p =
    (case pf_entryInfoMap p i of
       None \<Rightarrow> Inl AssertionFailed
     | Some info \<Rightarrow>
         if queueType info \<noteq> QUEUE_FIFO then Inl AssertionFailed
         else
           let qs = (pf_queues p)(QUEUE_FIFO := remove1 i (pf_queues p QUEUE_FIFO))
           in Inr \<lparr>pf_queues = qs(QUEUE_STALE := qs QUEUE_STALE @ [i]),
                   pf_entryInfoMap =
                     (pf_entryInfoMap p)(i \<mapsto> \<lparr>queueType = QUEUE_STALE, moveStaleEvent = None\<rparr>)\<rparr>)"

definition evictOne_pick :: "pf_state \<Rightarrow> cs_key option" where
  "evictOne_pick p =
    (case pf_queues p QUEUE_UNSOLICITED of i # q \<Rightarrow> Some i | [] \<Rightarrow>
      (case pf_queues p QUEUE_STALE of i # q \<Rightarrow> Some i | [] \<Rightarrow>
        (case pf_queues p QUEUE_FIFO of i # q \<Rightarrow> Some i | [] \<Rightarrow> None)))"

definition evictOne :: "pf_state \<Rightarrow> cs_table \<Rightarrow> cs_error + (pf_state \<times> cs_table)" where
  "evictOne p t =
    (case evictOne_pick p of
       None \<Rightarrow> Inl AssertionFailed
     | Some i \<Rightarrow>
         (case detachQueue i p of
            Inl e \<Rightarrow> Inl e
          | Inr p' \<Rightarrow>
              (case cs_beforeEvict i t of Inl e \<Rightarrow> Inl e | Inr t' \<Rightarrow> Inr (p', t'))))"

lemma cs_beforeEvict_shorter: "cs_beforeEvict i t = Inr t' \<Longrightarrow> length t' < length t"
  by (auto simp: cs_beforeEvict_def table_erase_def split: if_splits intro: length_filter_less)

lemma evictOne_shorter: "evictOne p t = Inr (p', t') \<Longrightarrow> length t' < length t"
  by (auto simp: evictOne_def cs_beforeEvict_shorter split: option.splits sum.splits)

function pf_evictEntries :: "nat \<Rightarrow> pf_state \<Rightarrow> cs_table \<Rightarrow> cs_error + (pf_state \<times> cs_table)" where
  "pf_evictEntries limit p t =
    (if length t > limit then
       (case evictOne p t of Inl e \<Rightarrow> Inl e | Inr (p', t') \<Rightarrow> pf_evictEntries limit p' t')
     else Inr (p, t))"
  by pat_completeness auto
termination
  by (relation "measure (\<lambda>(limit, p, t). length t)") (auto dest: evictOne_shorter)

declare pf_evictEntries.simps [simp del]

definition pf_doAfterInsert ::
  "time \<Rightarrow> nat \<Rightarrow> cs_entry \<Rightarrow> pf_state \<Rightarrow> cs_table \<Rightarrow> cs_error + (pf_state \<times> cs_table)" where
  "pf_doAfterInsert now limit e p t =
    (case attachQueue now e p of Inl err \<Rightarrow> Inl err | Inr p' \<Rightarrow> pf_evictEntries limit p' t)"

definition pf_doAfterRefresh :: "time \<Rightarrow> cs_entry \<Rightarrow> pf_state \<Rightarrow> cs_error + pf_state" where
  "pf_doAfterRefresh now e p =
    (case detachQueue (entry_key e) p of Inl err \<Rightarrow> Inl err | Inr p' \<Rightarrow> attachQueue now e p')"

definition pf_doBeforeErase :: "cs_key \<Rightarrow> pf_state \<Rightarrow> cs_error + pf_state" where
  "pf_doBeforeErase i p = detachQueue i p"

definition pf_doBeforeUse :: "cs_key \<Rightarrow> pf_state \<Rightarrow> cs_error + pf_state" where
  "pf_doBeforeUse i p = (if pf_entryInfoMap p i = None then Inl AssertionFailed else Inr p)"

section \<open>The content store\<close>

datatype policy = LruPolicy lru_queue | PriorityFifo pf_state

text \<open>Virtual dispatch to the policy.\<close>

fun afterInsert ::
  "time \<Rightarrow> nat \<Rightarrow> cs_entry \<Rightarrow> policy \<Rightarrow> cs_table \<Rightarrow> cs_error + (policy \<times> cs_table)" where
  "afterInsert now limit e (LruPolicy q) t =
    map_sum id (map_prod LruPolicy id) (lru_doAfterInsert limit (entry_key e) q t)"
| "afterInsert now limit e (PriorityFifo p) t =
    map_sum id (map_prod PriorityFifo id) (pf_doAfterInsert now limit e p t)"

fun afterRefresh :: "time \<Rightarrow> cs_entry \<Rightarrow> policy \<Rightarrow> cs_error + policy" where
  "afterRefresh now e (LruPolicy q) = map_sum id LruPolicy (lru_doAfterRefresh (entry_key e) q)"
| "afterRefresh now e (PriorityFifo p) = map_sum id PriorityFifo (pf_doAfterRefresh now e p)"

fun beforeUse :: "cs_key \<Rightarrow> policy \<Rightarrow> cs_error + policy" where
  "beforeUse i (LruPolicy q) = map_sum id LruPolicy (lru_doBeforeUse i q)"
| "beforeUse i (PriorityFifo p) = map_sum id PriorityFifo (pf_doBeforeUse i p)"

fun policy_evictEntries :: "nat \<Rightarrow> policy \<Rightarrow> cs_table \<Rightarrow> cs_error + (policy \<times> cs_table)" where
  "policy_evictEntries limit (LruPolicy q) t =
    map_sum id (map_prod LruPolicy id) (lru_evictEntries limit q t)"
| "policy_evictEntries limit (PriorityFifo p) t =
    map_sum id (map_prod PriorityFifo id) (pf_evictEntries limit p t)"

record cs =
  cs_table :: cs_table
  cs_policy :: policy
  cs_limit :: nat

definition setLimit :: "nat \<Rightarrow> cs \<Rightarrow> cs_error + cs" where
  "setLimit nMaxPackets c =
    (case policy_evictEntries nMaxPackets (cs_policy c) (cs_table c) of
       Inl e \<Rightarrow> Inl e
     | Inr (p, t) \<Rightarrow> Inr \<lparr>cs_table = t, cs_policy = p, cs_limit = nMaxPackets\<rparr>)"

definition setPolicy :: "policy \<Rightarrow> cs \<Rightarrow> cs_error + cs" where
  "setPolicy p c = setLimit (cs_limit c) (c\<lparr>cs_policy := p\<rparr>)"

definition Cs :: "nat \<Rightarrow> policy \<Rightarrow> cs_error + cs" where
  "Cs nMaxPackets p = setLimit nMaxPackets \<lparr>cs_table = [], cs_policy = p, cs_limit = 0\<rparr>"

definition cs_insert :: "time \<Rightarrow> data \<Rightarrow> bool \<Rightarrow> cs \<Rightarrow> cs_error + cs" where
  "cs_insert now d isUnsolicited c =
    (if cs_limit c = 0 then Inr c
     else if d_noCache d then Inr c
     else
       let (t, entry, isNewEntry) = table_insert (setData now d isUnsolicited) (cs_table c);
           entry = updateStaleTime now entry
       in if \<not> isNewEntry then
            let entry = (if ce_isUnsolicited entry \<and> \<not> isUnsolicited
                         then unsetUnsolicited now entry else entry)
            in (case afterRefresh now entry (cs_policy c) of
                  Inl e \<Rightarrow> Inl e
                | Inr p \<Rightarrow> Inr (c\<lparr>cs_table := table_update entry t, cs_policy := p\<rparr>))
          else
            (case afterInsert now (cs_limit c) entry (cs_policy c) (table_update entry t) of
               Inl e \<Rightarrow> Inl e
             | Inr (p, t') \<Rightarrow> Inr (c\<lparr>cs_table := t', cs_policy := p\<rparr>)))"

subsection \<open>Lookup\<close>

text \<open>\<^verbatim>\<open>std::find_if\<close> and \<^verbatim>\<open>find_last_if\<close> on the range \<open>[first, lastIt)\<close>; both return
  \<open>lastIt\<close> when nothing is found.\<close>

function find_if_from :: "('a \<Rightarrow> bool) \<Rightarrow> 'a list \<Rightarrow> nat \<Rightarrow> nat \<Rightarrow> nat" where
  "find_if_from P t first lastIt =
    (if first < lastIt \<and> first < length t then
       (if P (t ! first) then first else find_if_from P t (first + 1) lastIt)
     else lastIt)"
  by pat_completeness auto
termination by (relation "measure (\<lambda>(P, t, first, lastIt). lastIt - first)") auto

declare find_if_from.simps [simp del]

fun find_last_if :: "('a \<Rightarrow> bool) \<Rightarrow> 'a list \<Rightarrow> nat \<Rightarrow> nat \<Rightarrow> nat option" where
  "find_last_if P t first 0 = None"
| "find_last_if P t first (Suc r) =
    (if r < first then None
     else if P (t ! r) then Some r
     else find_last_if P t first r)"

definition findLeftmost :: "matcher \<Rightarrow> time \<Rightarrow> interest \<Rightarrow> cs_table \<Rightarrow> nat \<Rightarrow> nat \<Rightarrow> nat" where
  "findLeftmost matches now interest t first lastIt =
    find_if_from (canSatisfy matches now interest) t first lastIt"

definition findRightmostAmongExact ::
  "matcher \<Rightarrow> time \<Rightarrow> interest \<Rightarrow> cs_table \<Rightarrow> nat \<Rightarrow> nat \<Rightarrow> nat" where
  "findRightmostAmongExact matches now interest t first lastIt =
    (case find_last_if (canSatisfy matches now interest) t first lastIt of
       Some i \<Rightarrow> i | None \<Rightarrow> lastIt)"

text \<open>The loop of \<^verbatim>\<open>findRightmost\<close>.  The value \<^const>\<open>None\<close> means that it does not
  end.\<close>

partial_function (option) findRightmost_loop ::
  "matcher \<Rightarrow> time \<Rightarrow> interest \<Rightarrow> cs_table \<Rightarrow> nat \<Rightarrow> nat \<Rightarrow> nat \<Rightarrow> (cs_error + nat) option" where
  "findRightmost_loop matches now interest t first lastIt right =
    (if right = first then Some (Inr lastIt)
     else if right = 0 then Some (Inl DecrementBegin)
     else
       let prev = right - 1; interestNameLength = length (i_name interest)
       in if length (d_name (ce_data (t ! prev))) = interestNameLength then
            (let matchExact = findRightmostAmongExact matches now interest t first right
             in Some (Inr (if matchExact = right then lastIt else matchExact)))
          else
            let prfx = take (interestNameLength + 1) (d_name (ce_data (t ! prev)));
                left = lower_bound t prfx;
                match = findLeftmost matches now interest t left right
            in if match \<noteq> right then Some (Inr match)
               else findRightmost_loop matches now interest t first lastIt left)"

declare findRightmost_loop.simps [code]

definition findRightmost ::
  "matcher \<Rightarrow> time \<Rightarrow> interest \<Rightarrow> cs_table \<Rightarrow> nat \<Rightarrow> nat \<Rightarrow> (cs_error + nat) option" where
  "findRightmost matches now interest t first lastIt =
    findRightmost_loop matches now interest t first lastIt lastIt"

text \<open>\<^verbatim>\<open>Cs::find\<close>; the hit callback receives the Data, the miss callback nothing.
  \<open>successor\<close> stands for \<^verbatim>\<open>Name::getSuccessor\<close>.\<close>

definition cs_find_index ::
  "matcher \<Rightarrow> (name \<Rightarrow> name) \<Rightarrow> time \<Rightarrow> interest \<Rightarrow> cs_table \<Rightarrow> (cs_error + nat option) option" where
  "cs_find_index matches successor now interest t =
    (let prfx = i_name interest;
         isRightmost = (childSelector (i_selectors interest) = 1);
         first = lower_bound t prfx;
         lastIt = (if prfx \<noteq> [] then lower_bound t (successor prfx) else length t)
     in case (if isRightmost then findRightmost matches now interest t first lastIt
              else Some (Inr (findLeftmost matches now interest t first lastIt))) of
          None \<Rightarrow> None
        | Some (Inl e) \<Rightarrow> Some (Inl e)
        | Some (Inr match) \<Rightarrow> Some (Inr (if match = lastIt then None else Some match)))"

definition cs_find ::
  "matcher \<Rightarrow> (name \<Rightarrow> name) \<Rightarrow> time \<Rightarrow> interest \<Rightarrow> cs \<Rightarrow> (cs_error + (data option \<times> cs)) option" where
  "cs_find matches successor now interest c =
    (case cs_find_index matches successor now interest (cs_table c) of
       None \<Rightarrow> None
     | Some (Inl e) \<Rightarrow> Some (Inl e)
     | Some (Inr None) \<Rightarrow> Some (Inr (None, c))
     | Some (Inr (Some i)) \<Rightarrow>
         Some (case beforeUse (entry_key (cs_table c ! i)) (cs_policy c) of
                 Inl e \<Rightarrow> Inl e
               | Inr p \<Rightarrow> Inr (Some (ce_data (cs_table c ! i)), c\<lparr>cs_policy := p\<rparr>)))"

end
