(* ===== verification/Content_Store_Policy.thy ===== *)
theory Content_Store_Policy
  imports Content_Store
begin

text \<open>
  What the content store relies on of a replacement policy, as a locale, and that both
  policies provide it.  The contract is on the set of entries a policy tracks: it equals the
  set of entries of the table between two operations, an eviction brings the table down to
  the limit and never fails an assertion.
\<close>

section \<open>Tables as sorted lists\<close>

definition table_ok :: "cs_table \<Rightarrow> bool" where
  "table_ok t \<longleftrightarrow> sorted_wrt (\<lambda>a b. entry_key a < entry_key b) t"

abbreviation table_keys :: "cs_table \<Rightarrow> cs_key set" where
  "table_keys t \<equiv> entry_key ` set t"

lemma compare_simps [simp]:
  "compare a b < 0 \<longleftrightarrow> a < b" "0 < compare a b \<longleftrightarrow> b < a" "compare a b = 0 \<longleftrightarrow> a = b"
  by (auto simp: compare_def)

lemma compareDataWithData_less [simp]:
  "compareDataWithData (ce_data a) (ce_data b) < 0 \<longleftrightarrow> entry_key a < entry_key b"
  by (auto simp: compareDataWithData_def entry_key_def Let_def)

lemma table_ok_Cons:
  "table_ok (e # t) \<longleftrightarrow> (\<forall>x \<in> set t. entry_key e < entry_key x) \<and> table_ok t"
  by (simp add: table_ok_def)

lemma table_ok_filter: "table_ok t \<Longrightarrow> table_ok (filter P t)"
  by (simp add: table_ok_def sorted_wrt_filter)

lemma table_ok_distinct: "table_ok t \<Longrightarrow> distinct (map entry_key t)"
  by (induction t) (auto simp: table_ok_Cons)

lemma table_ok_cong: "map entry_key t = map entry_key t' \<Longrightarrow> table_ok t = table_ok t'"
proof -
  have "table_ok t \<longleftrightarrow> sorted_wrt (<) (map entry_key t)" for t
    by (simp add: table_ok_def sorted_wrt_map)
  then show "map entry_key t = map entry_key t' \<Longrightarrow> table_ok t = table_ok t'"
    by simp
qed

lemma map_key_update [simp]: "map entry_key (table_update x t) = map entry_key t"
  by (simp add: table_update_def)

lemma keys_update [simp]: "table_keys (table_update x t) = table_keys t"
  by (metis list.set_map map_key_update)

lemma length_table_update [simp]: "length (table_update x t) = length t"
  by (simp add: table_update_def)

lemma table_update_mem: "entry_key x \<in> table_keys t \<Longrightarrow> x \<in> set (table_update x t)"
  by (auto simp: table_update_def image_iff)

lemma table_insert_spec:
  assumes "table_ok t" and "table_insert x t = (t', y, b)"
  shows "table_ok t' \<and> table_keys t' = insert (entry_key x) (table_keys t) \<and>
    entry_key y = entry_key x \<and> (b \<longleftrightarrow> entry_key x \<notin> table_keys t) \<and>
    (if b then y = x \<and> set t' = insert x (set t) \<and> length t' = Suc (length t)
     else t' = t \<and> y \<in> set t)"
  using assms
proof (induction t arbitrary: t' y b)
  case (Cons e t)
  show ?case
  proof (cases "entry_key e < entry_key x")
    case True
    obtain t1 y1 b1 where rec: "table_insert x t = (t1, y1, b1)"
      by (metis prod_cases3)
    with Cons.prems True have res: "t' = e # t1" "y = y1" "b = b1"
      by auto
    have "table_ok t"
      using Cons.prems by (simp add: table_ok_Cons)
    note IH = Cons.IH[OF this rec]
    have "entry_key e < entry_key z" if "z \<in> set t1" for z
    proof -
      have "entry_key z \<in> insert (entry_key x) (table_keys t)"
        using IH that by blast
      then show ?thesis
        using True Cons.prems by (auto simp: table_ok_Cons)
    qed
    moreover have "entry_key x \<noteq> entry_key e"
      using True by auto
    ultimately show ?thesis
      using IH True Cons.prems res by (auto simp: table_ok_Cons split: if_splits)
  next
    case False
    have "entry_key x < entry_key z" if "entry_key x < entry_key e" "z \<in> set t" for z
      using that Cons.prems(1) by (metis order.strict_trans table_ok_Cons)
    with False Cons.prems show ?thesis
      by (auto simp: table_ok_Cons split: if_splits)
  qed
qed (auto simp: table_ok_def)

lemma length_table_erase:
  assumes "distinct (map entry_key t)" and "k \<in> table_keys t"
  shows "Suc (length (table_erase k t)) = length t"
  using assms
proof (induction t)
  case (Cons e t)
  show ?case
  proof (cases "entry_key e = k")
    case True
    then have "table_erase k t = t"
      using Cons.prems unfolding table_erase_def by (intro filter_True) (metis distinct.simps(2)
          image_eqI list.simps(9) list.set_map)
    with True show ?thesis
      by (simp add: table_erase_def)
  next
    case False
    with Cons show ?thesis
      by (simp add: table_erase_def)
  qed
qed simp

lemma keys_table_erase: "table_keys (table_erase k t) = table_keys t - {k}"
  by (auto simp: table_erase_def)

lemma distinct_table_erase:
  "distinct (map entry_key t) \<Longrightarrow> distinct (map entry_key (table_erase k t))"
  by (simp add: table_erase_def distinct_map_filter)

section \<open>The contract\<close>

text \<open>\<open>shrunk\<close>: the table after an eviction is the old one without some entries, and
  as long as the limit allows.\<close>

definition shrunk :: "nat \<Rightarrow> cs_table \<Rightarrow> cs_table \<Rightarrow> bool" where
  "shrunk limit t t' \<longleftrightarrow> (\<exists>V. t' = filter (\<lambda>e. entry_key e \<notin> V) t) \<and>
     length t' = min limit (length t)"

locale cs_replacement =
  fixes tracked :: "'p \<Rightarrow> cs_key set"
    and wf :: "'p \<Rightarrow> bool"
    and insert_op :: "time \<Rightarrow> nat \<Rightarrow> cs_entry \<Rightarrow> 'p \<Rightarrow> cs_table \<Rightarrow> cs_error + ('p \<times> cs_table)"
    and refresh_op :: "time \<Rightarrow> cs_entry \<Rightarrow> 'p \<Rightarrow> cs_error + 'p"
    and use_op :: "cs_key \<Rightarrow> 'p \<Rightarrow> cs_error + 'p"
    and evict_op :: "nat \<Rightarrow> 'p \<Rightarrow> cs_table \<Rightarrow> cs_error + ('p \<times> cs_table)"
  assumes evict_law:
      "wf p \<Longrightarrow> distinct (map entry_key t) \<Longrightarrow> tracked p = table_keys t \<Longrightarrow>
       \<exists>p' t'. evict_op limit p t = Inr (p', t') \<and> wf p' \<and> tracked p' = table_keys t' \<and>
         shrunk limit t t'"
    and insert_law:
      "wf p \<Longrightarrow> distinct (map entry_key t) \<Longrightarrow> entry_key e \<notin> tracked p \<Longrightarrow>
       insert (entry_key e) (tracked p) = table_keys t \<Longrightarrow>
       \<exists>p' t'. insert_op now limit e p t = Inr (p', t') \<and> wf p' \<and> tracked p' = table_keys t' \<and>
         shrunk limit t t'"
    and refresh_law:
      "wf p \<Longrightarrow> entry_key e \<in> tracked p \<Longrightarrow>
       \<exists>p'. refresh_op now e p = Inr p' \<and> wf p' \<and> tracked p' = tracked p"
    and use_law:
      "wf p \<Longrightarrow> k \<in> tracked p \<Longrightarrow>
       \<exists>p'. use_op k p = Inr p' \<and> wf p' \<and> tracked p' = tracked p"
begin

definition consistent :: "nat \<Rightarrow> 'p \<Rightarrow> cs_table \<Rightarrow> bool" where
  "consistent limit p t \<longleftrightarrow> wf p \<and> table_ok t \<and> tracked p = table_keys t \<and> length t \<le> limit"

lemma shrunk_consistent:
  "wf p' \<Longrightarrow> tracked p' = table_keys t' \<Longrightarrow> shrunk limit t t' \<Longrightarrow> table_ok t \<Longrightarrow>
   consistent limit p' t'"
  by (auto simp: consistent_def shrunk_def intro: table_ok_filter)

lemma evict_consistent:
  assumes "consistent limit p t"
  shows "\<exists>p' t'. evict_op limit' p t = Inr (p', t') \<and> consistent limit' p' t' \<and> shrunk limit' t t'"
proof -
  have p: "wf p" "tracked p = table_keys t" "table_ok t"
    using assms by (auto simp: consistent_def)
  show ?thesis
    using evict_law[OF p(1) table_ok_distinct[OF p(3)] p(2), of limit']
      shrunk_consistent[OF _ _ _ p(3)] by metis
qed

lemma insert_consistent:
  assumes "consistent limit p t" and "table_insert x t = (t1, y, True)"
    and "entry_key e = entry_key x"
  shows "\<exists>p' t'. insert_op now limit e p (table_update e t1) = Inr (p', t') \<and>
    consistent limit p' t' \<and> shrunk limit (table_update e t1) t'"
proof -
  have p: "wf p" "tracked p = table_keys t" "table_ok t"
    using assms(1) by (auto simp: consistent_def)
  note ins = table_insert_spec[OF p(3) assms(2)]
  have ok: "table_ok (table_update e t1)"
    using ins table_ok_cong[OF map_key_update, of e t1] by simp
  have new: "entry_key e \<notin> tracked p"
    "insert (entry_key e) (tracked p) = table_keys (table_update e t1)"
    using ins p assms(3) by auto
  show ?thesis
    using insert_law[OF p(1) table_ok_distinct[OF ok] new, of now limit]
      shrunk_consistent[OF _ _ _ ok] by metis
qed

lemma refresh_consistent:
  assumes "consistent limit p t" and "entry_key e \<in> table_keys t"
  shows "\<exists>p'. refresh_op now e p = Inr p' \<and> consistent limit p' (table_update e t)"
  using assms refresh_law[of p e now] table_ok_cong[OF map_key_update, of e t]
  by (auto simp: consistent_def)

lemma use_consistent:
  assumes "consistent limit p t" and "k \<in> table_keys t"
  shows "\<exists>p'. use_op k p = Inr p' \<and> consistent limit p' t"
  using assms use_law[of p k] by (auto simp: consistent_def)

end

section \<open>LRU provides the contract\<close>

lemma shrunk_refl: "length t \<le> limit \<Longrightarrow> shrunk limit t t"
  by (auto simp: shrunk_def min_def intro!: exI[of _ "{}"])

lemma shrunk_erase:
  assumes "shrunk limit (table_erase k t) t'" and "limit < length t"
    and "Suc (length (table_erase k t)) = length t"
  shows "shrunk limit t t'"
proof -
  obtain V where "t' = filter (\<lambda>e. entry_key e \<notin> V) (table_erase k t)"
    using assms(1) by (auto simp: shrunk_def)
  then have "t' = filter (\<lambda>e. entry_key e \<notin> insert k V) t"
    by (auto simp: table_erase_def intro: filter_cong)
  moreover have "length t' = min limit (length t)"
    using assms by (auto simp: shrunk_def)
  ultimately show ?thesis
    unfolding shrunk_def by blast
qed

lemma lru_evict_law:
  "distinct q \<Longrightarrow> distinct (map entry_key t) \<Longrightarrow> set q = table_keys t \<Longrightarrow>
   \<exists>q' t'. lru_evictEntries limit q t = Inr (q', t') \<and> distinct q' \<and>
     set q' = table_keys t' \<and> shrunk limit t t'"
proof (induction q arbitrary: t)
  case Nil
  then show ?case
    by (simp add: shrunk_refl)
next
  case (Cons i q)
  show ?case
  proof (cases "limit < length t")
    case True
    have i: "i \<in> table_keys t" and "i \<notin> set q"
      using Cons.prems by auto
    then have "set q = table_keys (table_erase i t)"
      using Cons.prems by (auto simp: keys_table_erase)
    then obtain q' t' where "lru_evictEntries limit q (table_erase i t) = Inr (q', t')"
        "distinct q'" "set q' = table_keys t'" "shrunk limit (table_erase i t) t'"
      using Cons.IH[of "table_erase i t"] Cons.prems by (auto simp: distinct_table_erase)
    with True i show ?thesis
      using shrunk_erase[OF _ True length_table_erase] Cons.prems
      by (auto simp: cs_beforeEvict_def)
  next
    case False
    with Cons.prems show ?thesis
      by (simp add: shrunk_refl)
  qed
qed

interpretation lru_pol: cs_replacement set distinct
  "\<lambda>now limit e. lru_doAfterInsert limit (entry_key e)"
  "\<lambda>now e. lru_doAfterRefresh (entry_key e)" lru_doBeforeUse lru_evictEntries
proof (standard, goal_cases)
  case (1 p t limit)
  then show ?case by (rule lru_evict_law)
next
  case (2 p t e now limit)
  then show ?case
    using lru_evict_law[of "p @ [entry_key e]" t limit]
    by (auto simp: lru_doAfterInsert_def lru_insertToQueue_def)
next
  case (3 p e now)
  then show ?case
    by (auto simp: lru_doAfterRefresh_def lru_insertToQueue_def)
next
  case (4 p k)
  then show ?case
    by (auto simp: lru_doBeforeUse_def lru_insertToQueue_def)
qed

section \<open>Priority FIFO provides the contract\<close>

text \<open>Each tracked key is in exactly the queue its record names, once; only entries of the
  FIFO queue wait for an event.\<close>

definition pf_wf :: "pf_state \<Rightarrow> bool" where
  "pf_wf p \<longleftrightarrow> (\<forall>ty. distinct (pf_queues p ty) \<and>
       set (pf_queues p ty) = {k. map_option queueType (pf_entryInfoMap p k) = Some ty}) \<and>
     (\<forall>info \<in> ran (pf_entryInfoMap p). moveStaleEvent info \<noteq> None \<longrightarrow>
        queueType info = QUEUE_FIFO)"

abbreviation pf_tracked :: "pf_state \<Rightarrow> cs_key set" where
  "pf_tracked p \<equiv> dom (pf_entryInfoMap p)"

lemma pf_wf_queue:
  "pf_wf p \<Longrightarrow> k \<in> set (pf_queues p ty) \<longleftrightarrow> map_option queueType (pf_entryInfoMap p k) = Some ty"
  by (simp add: pf_wf_def)

lemma pf_wf_distinct: "pf_wf p \<Longrightarrow> distinct (pf_queues p ty)"
  by (simp add: pf_wf_def)

lemma pf_wf_ran:
  "pf_wf p \<Longrightarrow> pf_entryInfoMap p k = Some info \<Longrightarrow> moveStaleEvent info \<noteq> None \<Longrightarrow>
   queueType info = QUEUE_FIFO"
  using ranI by (fastforce simp: pf_wf_def)

lemma pf_wfI:
  assumes "\<And>ty. distinct (pf_queues p ty)"
    and "\<And>ty k. k \<in> set (pf_queues p ty) \<longleftrightarrow> map_option queueType (pf_entryInfoMap p k) = Some ty"
    and "\<And>k info. pf_entryInfoMap p k = Some info \<Longrightarrow> moveStaleEvent info \<noteq> None \<Longrightarrow>
      queueType info = QUEUE_FIFO"
  shows "pf_wf p"
  using assms unfolding pf_wf_def ran_def by blast

lemma pf_wf_attach:
  assumes "pf_wf p" and "pf_entryInfoMap p k = None"
    and "moveStaleEvent info \<noteq> None \<Longrightarrow> queueType info = QUEUE_FIFO"
  shows "pf_wf \<lparr>pf_queues = (pf_queues p)(queueType info := pf_queues p (queueType info) @ [k]),
    pf_entryInfoMap = (pf_entryInfoMap p)(k := Some info)\<rparr>"
  using assms pf_wf_queue[OF assms(1)] pf_wf_distinct[OF assms(1)] pf_wf_ran[OF assms(1)]
  by (intro pf_wfI) (auto split: if_splits)

lemma pf_wf_detach:
  assumes "pf_wf p" and "pf_entryInfoMap p k = Some info"
  shows "pf_wf \<lparr>pf_queues = (pf_queues p)(queueType info := remove1 k (pf_queues p (queueType info))),
    pf_entryInfoMap = (pf_entryInfoMap p)(k := None)\<rparr>"
  using assms pf_wf_queue[OF assms(1)] pf_wf_distinct[OF assms(1)] pf_wf_ran[OF assms(1)]
  by (intro pf_wfI) (auto split: if_splits)

lemma newEntryInfo_event:
  "moveStaleEvent (newEntryInfo now e) \<noteq> None \<Longrightarrow> queueType (newEntryInfo now e) = QUEUE_FIFO"
  by (auto simp: newEntryInfo_def split: if_splits)

lemma attachQueue_ok:
  assumes "pf_wf p" and "entry_key e \<notin> pf_tracked p"
  shows "\<exists>p'. attachQueue now e p = Inr p' \<and> pf_wf p' \<and>
    pf_tracked p' = insert (entry_key e) (pf_tracked p)"
proof -
  have None: "pf_entryInfoMap p (entry_key e) = None"
    using assms(2) by auto
  show ?thesis
    using None pf_wf_attach[OF assms(1) None newEntryInfo_event]
    by (auto simp: attachQueue_def Let_def)
qed

lemma detachQueue_ok:
  assumes "pf_wf p" and "k \<in> pf_tracked p"
  shows "\<exists>p'. detachQueue k p = Inr p' \<and> pf_wf p' \<and> pf_tracked p' = pf_tracked p - {k}"
  using assms(2) pf_wf_detach[OF assms(1), of k] by (auto simp: detachQueue_def)

lemma moveToStaleQueue_ok:
  assumes "pf_wf p" and "pf_entryInfoMap p k = Some info" and "queueType info = QUEUE_FIFO"
  shows "\<exists>p'. moveToStaleQueue k p = Inr p' \<and> pf_wf p' \<and> pf_tracked p' = pf_tracked p"
proof -
  let ?p1 = "\<lparr>pf_queues = (pf_queues p)(QUEUE_FIFO := remove1 k (pf_queues p QUEUE_FIFO)),
    pf_entryInfoMap = (pf_entryInfoMap p)(k := None)\<rparr>"
  have "pf_wf ?p1"
    using pf_wf_detach[OF assms(1,2)] assms(3) by simp
  from pf_wf_attach[OF this, of k "\<lparr>queueType = QUEUE_STALE, moveStaleEvent = None\<rparr>"]
  show ?thesis
    using assms by (auto simp: moveToStaleQueue_def Let_def)
qed

lemma evictOne_pick_ok:
  assumes "pf_wf p" and "k \<in> pf_tracked p"
  shows "\<exists>i \<in> pf_tracked p. evictOne_pick p = Some i"
proof -
  obtain info where k: "pf_entryInfoMap p k = Some info"
    using assms(2) by blast
  have q: "i \<in> pf_tracked p" if "pf_queues p ty = i # q" for ty i q
    using pf_wf_queue[OF assms(1), of i ty] that by auto
  have "k \<in> set (pf_queues p (queueType info))"
    using pf_wf_queue[OF assms(1)] k by auto
  then show ?thesis
    by (cases "queueType info") (auto simp: evictOne_pick_def dest: q split: list.splits)
qed

lemma pf_evict_law:
  "pf_wf p \<Longrightarrow> distinct (map entry_key t) \<Longrightarrow> pf_tracked p = table_keys t \<Longrightarrow>
   \<exists>p' t'. pf_evictEntries limit p t = Inr (p', t') \<and> pf_wf p' \<and>
     pf_tracked p' = table_keys t' \<and> shrunk limit t t'"
proof (induction "length t" arbitrary: p t)
  case 0
  then show ?case
    by (subst pf_evictEntries.simps) (simp add: shrunk_refl)
next
  case (Suc n)
  show ?case
  proof (cases "limit < length t")
    case True
    obtain k0 where "k0 \<in> table_keys t"
      using Suc.hyps(2) by (cases t) (simp, metis image_eqI list.set_intros(1))
    then obtain k where k: "k \<in> table_keys t" "evictOne_pick p = Some k"
      using evictOne_pick_ok[OF Suc.prems(1)] Suc.prems(3) by metis
    obtain p1 where p1: "detachQueue k p = Inr p1" "pf_wf p1" "pf_tracked p1 = pf_tracked p - {k}"
      using detachQueue_ok[OF Suc.prems(1), of k] k Suc.prems(3) by metis
    have len: "Suc (length (table_erase k t)) = length t"
      by (rule length_table_erase[OF Suc.prems(2) k(1)])
    obtain p' t' where "pf_evictEntries limit p1 (table_erase k t) = Inr (p', t')"
        "pf_wf p'" "pf_tracked p' = table_keys t'" "shrunk limit (table_erase k t) t'"
      using Suc.hyps(1)[of "table_erase k t" p1] Suc.hyps(2) Suc.prems len p1
      by (auto simp: distinct_table_erase keys_table_erase)
    with True k p1 show ?thesis
      using shrunk_erase[OF _ True len]
      by (subst pf_evictEntries.simps) (auto simp: evictOne_def cs_beforeEvict_def)
  next
    case False
    with Suc.prems show ?thesis
      by (subst pf_evictEntries.simps) (simp add: shrunk_refl)
  qed
qed

interpretation pf_pol: cs_replacement pf_tracked pf_wf
  pf_doAfterInsert pf_doAfterRefresh pf_doBeforeUse pf_evictEntries
proof (standard, goal_cases)
  case (1 p t limit)
  then show ?case by (rule pf_evict_law)
next
  case (2 p t e now limit)
  then obtain p1 where "attachQueue now e p = Inr p1" "pf_wf p1"
      "pf_tracked p1 = insert (entry_key e) (pf_tracked p)"
    using attachQueue_ok by metis
  with 2 show ?case
    using pf_evict_law[of p1 t limit] by (auto simp: pf_doAfterInsert_def)
next
  case (3 p e now)
  then obtain p1 where "detachQueue (entry_key e) p = Inr p1" "pf_wf p1"
      "pf_tracked p1 = pf_tracked p - {entry_key e}"
    using detachQueue_ok by metis
  with 3 show ?case
    using attachQueue_ok[of p1 e now] by (auto simp: pf_doAfterRefresh_def)
next
  case (4 p k)
  then show ?case
    by (auto simp: pf_doBeforeUse_def)
qed

section \<open>The dispatching policy provides the contract\<close>

fun policy_tracked :: "policy \<Rightarrow> cs_key set" where
  "policy_tracked (LruPolicy q) = set q"
| "policy_tracked (PriorityFifo p) = pf_tracked p"

fun policy_wf :: "policy \<Rightarrow> bool" where
  "policy_wf (LruPolicy q) = distinct q"
| "policy_wf (PriorityFifo p) = pf_wf p"

interpretation pol: cs_replacement policy_tracked policy_wf
  afterInsert afterRefresh beforeUse policy_evictEntries
proof (standard, goal_cases)
  case (1 p t limit)
  then show ?case
    by (cases p) (auto dest: lru_pol.evict_law[where limit = limit]
        pf_pol.evict_law[where limit = limit])
next
  case (2 p t e now limit)
  then show ?case
    by (cases p) (auto dest: lru_pol.insert_law[where limit = limit]
        pf_pol.insert_law[where limit = limit and now = now])
next
  case (3 p e now)
  then show ?case
    by (cases p) (auto dest: lru_pol.refresh_law pf_pol.refresh_law[where now = now])
next
  case (4 p k)
  then show ?case
    by (cases p) (auto dest: lru_pol.use_law pf_pol.use_law)
qed

end
