(* ===== verification/Content_Store_Correct.thy ===== *)
theory Content_Store_Correct
  imports Content_Store_Policy
begin

text \<open>
  Correctness of the content store: its invariant and that every operation keeps it, what
  an insertion and a lookup do to the table, and the lookup specification (leftmost and
  rightmost child).
\<close>

section \<open>The invariant\<close>

definition cs_inv :: "cs \<Rightarrow> bool" where
  "cs_inv c \<longleftrightarrow> policy_wf (cs_policy c) \<and> table_ok (cs_table c) \<and>
     policy_tracked (cs_policy c) = table_keys (cs_table c) \<and>
     length (cs_table c) \<le> cs_limit c"

lemma cs_inv_consistent: "cs_inv c \<longleftrightarrow> pol.consistent (cs_limit c) (cs_policy c) (cs_table c)"
  by (simp add: cs_inv_def pol.consistent_def)

text \<open>The scheduled move of an entry to the stale queue.\<close>

fun cs_staleEvent :: "cs_key \<Rightarrow> cs \<Rightarrow> cs_error + cs" where
  "cs_staleEvent k c =
    (case cs_policy c of
       PriorityFifo p \<Rightarrow> map_sum id (\<lambda>p'. c\<lparr>cs_policy := PriorityFifo p'\<rparr>) (moveToStaleQueue k p)
     | LruPolicy q \<Rightarrow> Inr c)"

definition staleEvent_pending :: "cs_key \<Rightarrow> cs \<Rightarrow> bool" where
  "staleEvent_pending k c =
    (case cs_policy c of
       PriorityFifo p \<Rightarrow>
         (case pf_entryInfoMap p k of Some info \<Rightarrow> moveStaleEvent info \<noteq> None | None \<Rightarrow> False)
     | LruPolicy q \<Rightarrow> False)"

lemma setLimit_ok:
  assumes "cs_inv c"
  shows "\<exists>c'. setLimit n c = Inr c' \<and> cs_inv c' \<and> cs_limit c' = n \<and>
    shrunk n (cs_table c) (cs_table c')"
  using pol.evict_consistent[of "cs_limit c" "cs_policy c" "cs_table c" n] assms
  by (auto simp: setLimit_def cs_inv_consistent)

lemma Cs_ok:
  assumes "p = LruPolicy [] \<or> p = PriorityFifo PriorityFifoPolicy"
  shows "\<exists>c. Cs n p = Inr c \<and> cs_inv c \<and> cs_limit c = n"
proof -
  have "cs_inv \<lparr>cs_table = [], cs_policy = p, cs_limit = 0\<rparr>"
    using assms by (auto simp: cs_inv_def table_ok_def PriorityFifoPolicy_def pf_wf_def)
  from setLimit_ok[OF this] show ?thesis
    unfolding Cs_def by blast
qed

lemma key_simps [simp]:
  "entry_key (updateStaleTime now e) = entry_key e"
  "entry_key (unsetUnsolicited now e) = entry_key e"
  "entry_key (setData now d u) = (d_name d, ImplicitDigest (d_digest d))"
  by (simp_all add: updateStaleTime_def unsetUnsolicited_def setData_def entry_key_def fullName_def)

text \<open>The two paths of \<^verbatim>\<open>Cs::insert\<close>.\<close>

lemma cs_insert_new:
  assumes "cs_inv c" and "cs_limit c \<noteq> 0" and "\<not> d_noCache d"
    and "table_insert (setData now d u) (cs_table c) = (t, y, True)"
  shows "\<exists>p' t'. afterInsert now (cs_limit c) (updateStaleTime now y) (cs_policy c)
        (table_update (updateStaleTime now y) t) = Inr (p', t') \<and>
      cs_insert now d u c = Inr (c\<lparr>cs_table := t', cs_policy := p'\<rparr>) \<and>
      cs_inv (c\<lparr>cs_table := t', cs_policy := p'\<rparr>)"
proof -
  have "entry_key (updateStaleTime now y) = entry_key (setData now d u)"
    using table_insert_spec[OF _ assms(4)] assms(1) by (simp add: cs_inv_def)
  from pol.insert_consistent[OF _ assms(4) this, of "cs_limit c" "cs_policy c" now]
  show ?thesis
    using assms by (auto simp: cs_insert_def cs_inv_consistent)
qed

lemma cs_insert_existing:
  assumes "cs_inv c" and "cs_limit c \<noteq> 0" and "\<not> d_noCache d"
    and "table_insert (setData now d u) (cs_table c) = (t, y, False)"
  shows "\<exists>c'. cs_insert now d u c = Inr c' \<and> cs_inv c' \<and> cs_limit c' = cs_limit c \<and>
    map entry_key (cs_table c') = map entry_key (cs_table c)"
proof -
  let ?y = "updateStaleTime now y"
  let ?z = "if ce_isUnsolicited ?y \<and> \<not> u then unsetUnsolicited now ?y else ?y"
  have t: "t = cs_table c" and "y \<in> set (cs_table c)"
    using table_insert_spec[OF _ assms(4)] assms(1) by (auto simp: cs_inv_def)
  then have "entry_key ?z \<in> table_keys (cs_table c)"
    by simp
  from pol.refresh_consistent[OF _ this, of "cs_limit c" "cs_policy c" now] obtain p' where
    "afterRefresh now ?z (cs_policy c) = Inr p'"
    "pol.consistent (cs_limit c) p' (table_update ?z (cs_table c))"
    using assms(1) by (auto simp: cs_inv_consistent)
  then show ?thesis
    using assms t by (simp add: cs_insert_def cs_inv_consistent Let_def)
qed

lemma cs_insert_ok:
  assumes "cs_inv c"
  shows "\<exists>c'. cs_insert now d u c = Inr c' \<and> cs_inv c' \<and> cs_limit c' = cs_limit c"
proof (cases "cs_limit c = 0 \<or> d_noCache d")
  case True
  with assms show ?thesis
    by (auto simp: cs_insert_def)
next
  case False
  obtain t y b where ins: "table_insert (setData now d u) (cs_table c) = (t, y, b)"
    by (metis prod_cases3)
  show ?thesis
    using False assms ins cs_insert_new[of c d now u t y] cs_insert_existing[of c d now u t y]
    by (cases b) auto
qed

lemma cs_insert_keys:
  assumes "cs_inv c" and "cs_insert now d u c = Inr c'"
  shows "table_keys (cs_table c') \<subseteq> insert (d_name d, ImplicitDigest (d_digest d)) (table_keys (cs_table c))"
proof (cases "cs_limit c = 0 \<or> d_noCache d")
  case True
  with assms(2) show ?thesis
    by (auto simp: cs_insert_def split: if_splits)
next
  case False
  obtain t y b where ins: "table_insert (setData now d u) (cs_table c) = (t, y, b)"
    by (metis prod_cases3)
  have ok: "table_ok (cs_table c)"
    using assms(1) by (simp add: cs_inv_def)
  note spec = table_insert_spec[OF ok ins]
  show ?thesis
  proof (cases b)
    case True
    with spec have key: "entry_key (updateStaleTime now y) = entry_key (setData now d u)"
      by simp
    obtain p' t' where t': "afterInsert now (cs_limit c) (updateStaleTime now y) (cs_policy c)
        (table_update (updateStaleTime now y) t) = Inr (p', t')" "shrunk (cs_limit c) (table_update (updateStaleTime now y) t) t'"
      using pol.insert_consistent[OF _ ins[unfolded True[THEN eq_True[THEN iffD2]]] key, of "cs_limit c" "cs_policy c" now]
        assms(1) by (auto simp: cs_inv_consistent)
    have "cs_table c' = t'"
      using assms(2) False True ins t'(1) by (auto simp: cs_insert_def)
    moreover have "table_keys t' \<subseteq> table_keys (table_update (updateStaleTime now y) t)"
      using t'(2) by (auto simp: shrunk_def simp del: keys_update)
    ultimately show ?thesis
      using spec by simp
  next
    case b: False
    then obtain c1 where "cs_insert now d u c = Inr c1" "map entry_key (cs_table c1) = map entry_key (cs_table c)"
      using cs_insert_existing[of c d now u t y] assms(1) False ins by auto
    then show ?thesis
      using assms(2) by (auto simp flip: set_map)
  qed
qed

lemma cs_staleEvent_ok:
  assumes "cs_inv c" and "staleEvent_pending k c"
  shows "\<exists>c'. cs_staleEvent k c = Inr c' \<and> cs_inv c'"
proof -
  obtain p info where p: "cs_policy c = PriorityFifo p" "pf_entryInfoMap p k = Some info"
    "moveStaleEvent info \<noteq> None"
    using assms(2) by (auto simp: staleEvent_pending_def split: policy.splits option.splits)
  have "pf_wf p"
    using assms(1) p(1) by (simp add: cs_inv_def)
  from moveToStaleQueue_ok[OF this p(2) pf_wf_ran[OF this p(2,3)]] show ?thesis
    using assms(1) p(1) by (auto simp: cs_inv_def)
qed

lemma cs_find_ok:
  assumes "cs_inv c" and "cs_find_index matches successor now interest (cs_table c) = Some (Inr r)"
    and "\<And>i. r = Some i \<Longrightarrow> i < length (cs_table c)"
  shows "\<exists>c'. cs_find matches successor now interest c =
      Some (Inr (map_option (\<lambda>i. ce_data (cs_table c ! i)) r, c')) \<and> cs_inv c' \<and>
      cs_table c' = cs_table c \<and> cs_limit c' = cs_limit c"
proof (cases r)
  case None
  with assms show ?thesis
    by (simp add: cs_find_def)
next
  case (Some i)
  then have "entry_key (cs_table c ! i) \<in> table_keys (cs_table c)"
    using assms(3) by simp
  from pol.use_consistent[OF _ this, of "cs_limit c" "cs_policy c"] show ?thesis
    using assms Some by (auto simp: cs_find_def cs_inv_consistent)
qed

section \<open>What an insertion keeps\<close>

lemma lru_evict_suffix:
  "lru_evictEntries limit q t = Inr (q', t') \<Longrightarrow> suffix q' q"
proof (induction limit q t rule: lru_evictEntries.induct)
  case (2 limit i q t)
  then show ?case
    by (auto split: if_splits sum.splits intro: suffix_ConsI)
qed (auto split: if_splits)

lemma lru_evict_keeps_last:
  assumes "distinct (q @ [k])" and "distinct (map entry_key t)" and "set (q @ [k]) = table_keys t"
    and "0 < limit" and "lru_evictEntries limit (q @ [k]) t = Inr (q', t')"
  shows "k \<in> table_keys t'"
proof -
  have keys: "set q' = table_keys t'" and len: "length t' = min limit (length t)"
    using lru_evict_law[OF assms(1,2,3), of limit] assms(5) by (auto simp: shrunk_def)
  have "t \<noteq> []"
    using assms(3) by auto
  then have "q' \<noteq> []"
    using keys len assms(4) by (cases t'; cases t) auto
  then have "last q' = k" "last q' \<in> set q'"
    using lru_evict_suffix[OF assms(5)] by (auto simp: suffix_def)
      (metis last_append last_snoc)
  then show ?thesis
    using keys by simp
qed

lemma pf_evict_keeps_last:
  "pf_wf p \<Longrightarrow> distinct (map entry_key t) \<Longrightarrow> pf_tracked p = table_keys t \<Longrightarrow>
   pf_queues p QUEUE_FIFO = xs @ [k] \<Longrightarrow> 0 < limit \<Longrightarrow>
   pf_evictEntries limit p t = Inr (p', t') \<Longrightarrow> k \<in> table_keys t'"
proof (induction "length t" arbitrary: p t xs rule: less_induct)
  case less
  have k: "map_option queueType (pf_entryInfoMap p k) = Some QUEUE_FIFO"
    using pf_wf_queue[OF less.prems(1), of k QUEUE_FIFO] less.prems(4) by simp
  show ?case
  proof (cases "limit < length t")
    case False
    then have "t' = t"
      using less.prems(6) by (subst (asm) pf_evictEntries.simps) simp
    moreover have "k \<in> pf_tracked p"
      using k by auto
    ultimately show ?thesis
      using less.prems(3) by simp
  next
    case True
    then obtain p1 t1 where one: "evictOne p t = Inr (p1, t1)"
        "pf_evictEntries limit p1 t1 = Inr (p', t')"
      using less.prems(6) by (subst (asm) pf_evictEntries.simps) (auto split: sum.splits)
    then obtain i where i: "evictOne_pick p = Some i" "detachQueue i p = Inr p1"
        "t1 = table_erase i t" "i \<in> table_keys t"
      by (auto simp: evictOne_def cs_beforeEvict_def split: option.splits sum.splits if_splits)
    have "i \<noteq> k"
    proof
      assume "i = k"
      then have "i \<notin> set (pf_queues p QUEUE_UNSOLICITED)" "i \<notin> set (pf_queues p QUEUE_STALE)"
        using k pf_wf_queue[OF less.prems(1)] by auto
      then have empty: "pf_queues p QUEUE_UNSOLICITED = []" "pf_queues p QUEUE_STALE = []"
          "\<exists>q. pf_queues p QUEUE_FIFO = k # q"
        using i(1) \<open>i = k\<close> by (auto simp: evictOne_pick_def split: list.splits)
      then have "pf_queues p QUEUE_FIFO = [k]"
        using pf_wf_distinct[OF less.prems(1), of QUEUE_FIFO] less.prems(4) by (cases xs) auto
      moreover have "j \<in> set (pf_queues p QUEUE_FIFO)" if "j \<in> pf_tracked p" for j
      proof -
        obtain info where "pf_entryInfoMap p j = Some info"
          using \<open>j \<in> pf_tracked p\<close> by blast
        then show ?thesis
          using pf_wf_queue[OF less.prems(1), of j "queueType info"] empty
          by (cases "queueType info") auto
      qed
      ultimately have "table_keys t \<subseteq> {k}"
        using less.prems(3) by auto
      then have "length (map entry_key t) \<le> 1"
        using less.prems(2) by (metis card_mono card.empty card_insert_disjoint distinct_card
            empty_iff finite.emptyI finite.insertI One_nat_def list.set_map)
      with True less.prems(5) show False
        by simp
    qed
    obtain p2 where "detachQueue i p = Inr p2" "pf_wf p2" "pf_tracked p2 = pf_tracked p - {i}"
      using detachQueue_ok[OF less.prems(1), of i] i(4) less.prems(3) by metis
    then have p1: "pf_wf p1" "pf_tracked p1 = table_keys t1"
      using i less.prems(3) by (auto simp: keys_table_erase)
    have "\<exists>ys. pf_queues p1 QUEUE_FIFO = ys @ [k]"
      using i(2) less.prems(4) \<open>i \<noteq> k\<close>
      by (auto simp: detachQueue_def remove1_append split: option.splits)
    then obtain ys where ys: "pf_queues p1 QUEUE_FIFO = ys @ [k]"
      by blast
    have "length t1 < length t"
      using evictOne_shorter[OF one(1)] .
    from less.hyps[OF this p1(1) _ p1(2) ys less.prems(5) one(2)] show ?thesis
      using less.prems(2) i(3) distinct_table_erase by blast
  qed
qed


lemma afterInsert_keeps_new:
  assumes "policy_wf p" and "distinct (map entry_key t)" and "entry_key e \<notin> policy_tracked p"
    and "insert (entry_key e) (policy_tracked p) = table_keys t" and "0 < limit"
    and "(\<exists>q. p = LruPolicy q) \<or> \<not> ce_isUnsolicited e \<and> \<not> isStale now e"
    and "afterInsert now limit e p t = Inr (p', t')"
  shows "entry_key e \<in> table_keys t'"
proof (cases p)
  case (LruPolicy q)
  with assms show ?thesis
    using lru_evict_keeps_last[of q "entry_key e" t limit _ t']
    by (auto simp: lru_doAfterInsert_def lru_insertToQueue_def map_sum_def split: sum.splits)
next
  case (PriorityFifo p0)
  then have pf: "pf_wf p0" "entry_key e \<notin> pf_tracked p0"
    using assms by auto
  obtain p1 where p1: "attachQueue now e p0 = Inr p1" "pf_wf p1"
      "pf_tracked p1 = insert (entry_key e) (pf_tracked p0)"
    using attachQueue_ok[OF pf] by metis
  have fifo: "pf_queues p1 QUEUE_FIFO = pf_queues p0 QUEUE_FIFO @ [entry_key e]"
    using p1(1) PriorityFifo assms(6)
    by (auto simp: attachQueue_def Let_def newEntryInfo_def split: if_splits)
  obtain p2 where "pf_evictEntries limit p1 t = Inr (p2, t')"
    using assms(7) PriorityFifo p1(1)
    by (auto simp: pf_doAfterInsert_def map_sum_def split: sum.splits)
  then show ?thesis
    using pf_evict_keeps_last[OF p1(2) assms(2) _ fifo assms(5)] assms(4) PriorityFifo p1(3)
    by auto
qed

section \<open>Lookup\<close>

lemma find_if_from_spec:
  assumes "l \<le> length t" and "find_if_from P t f l = i"
  shows "(i = l \<or> f \<le> i \<and> i < l \<and> P (t ! i)) \<and> (\<forall>j. f \<le> j \<longrightarrow> j < i \<longrightarrow> \<not> P (t ! j))"
  using assms
proof (induction P t f l rule: find_if_from.induct)
  case (1 P t f l)
  show ?case
  proof (cases "f < l \<and> \<not> P (t ! f)")
    case True
    then have rec: "find_if_from P t (f + 1) l = i"
      using 1(2,3) by (subst (asm) find_if_from.simps) simp
    then have IH: "(i = l \<or> f + 1 \<le> i \<and> i < l \<and> P (t ! i)) \<and>
        (\<forall>j. f + 1 \<le> j \<longrightarrow> j < i \<longrightarrow> \<not> P (t ! j))"
      using 1 True by simp
    have "\<not> P (t ! j)" if "f \<le> j" "j < i" for j
      using that IH True by (cases "j = f") auto
    with IH show ?thesis
      by auto
  next
    case False
    with 1(2,3) show ?thesis
      by (subst (asm) find_if_from.simps) (auto split: if_splits)
  qed
qed

lemma find_last_if_spec:
  "(case find_last_if P t f r of
      Some i \<Rightarrow> f \<le> i \<and> i < r \<and> P (t ! i) \<and> (\<forall>j. i < j \<longrightarrow> j < r \<longrightarrow> \<not> P (t ! j))
    | None \<Rightarrow> \<forall>j. f \<le> j \<longrightarrow> j < r \<longrightarrow> \<not> P (t ! j))"
  by (induction P t f r rule: find_last_if.induct)
    (auto split: option.splits simp: less_Suc_eq)

definition isFullName :: "name \<Rightarrow> bool" where
  "isFullName q \<longleftrightarrow> q \<noteq> [] \<and> isImplicitSha256Digest (last q)"

text \<open>An entry against a query.\<close>

lemma nil_less_iff: "[] < xs \<longleftrightarrow> xs \<noteq> []" for xs :: "'a::linorder list"
  by (cases xs) auto

lemma stored_less_query:
  "entry_less (Stored e) (Query q) \<longleftrightarrow>
    (if isFullName q then entry_key e < (butlast q, last q) else d_name (ce_data e) < q)"
  by (auto simp: compareQueryWithData_def isFullName_def entry_key_def Let_def nil_less_iff)

declare entry_less.simps(3) [simp del]

lemma stored_less_query_mono:
  "entry_key a \<le> entry_key b \<Longrightarrow> entry_less (Stored b) (Query q) \<Longrightarrow> entry_less (Stored a) (Query q)"
  unfolding stored_less_query
  by (auto simp: entry_key_def less_eq_prod_def less_prod_def split: if_splits)

lemma prefix_fullName:
  "prefix q (fullName d) \<longleftrightarrow> q = fullName d \<or> prefix q (d_name d)"
  by (simp add: fullName_def)

lemma prefix_not_less:
  assumes "prefix q (fullName (ce_data e))"
  shows "\<not> entry_less (Stored e) (Query q)"
proof (cases "q = fullName (ce_data e)")
  case True
  then show ?thesis
    by (simp add: stored_less_query isFullName_def entry_key_def fullName_def)
next
  case False
  then have q: "prefix q (d_name (ce_data e))"
    using assms by (simp add: prefix_fullName)
  then have "q \<le> d_name (ce_data e)" "butlast q \<le> d_name (ce_data e)"
    by (auto intro!: prefix_le intro: prefix_order.trans prefixeq_butlast)
  moreover have "butlast q \<noteq> d_name (ce_data e)" if "q \<noteq> []"
    using q that by (metis append_butlast_last_id prefix_snocD prefix_order.less_irrefl)
  ultimately show ?thesis
    by (auto simp: stored_less_query isFullName_def entry_key_def)
qed

lemma table_ok_nth:
  "table_ok t \<Longrightarrow> i \<le> j \<Longrightarrow> j < length t \<Longrightarrow> entry_key (t ! i) \<le> entry_key (t ! j)"
  unfolding table_ok_def
  by (metis le_neq_implies_less order.refl order.strict_implies_order sorted_wrt_iff_nth_less)

lemma lower_bound_le: "lower_bound t q \<le> length t"
  by (simp add: lower_bound_def length_takeWhile_le)

lemma lower_bound_iff:
  assumes "table_ok t" and "i < length t"
  shows "i < lower_bound t q \<longleftrightarrow> entry_less (Stored (t ! i)) (Query q)"
proof
  assume "i < lower_bound t q"
  then show "entry_less (Stored (t ! i)) (Query q)"
    unfolding lower_bound_def by (metis (no_types, lifting) nth_mem set_takeWhileD takeWhile_nth)
next
  assume less: "entry_less (Stored (t ! i)) (Query q)"
  show "i < lower_bound t q"
  proof (rule ccontr)
    assume "\<not> i < lower_bound t q"
    then have lb: "lower_bound t q \<le> i" "lower_bound t q < length t"
      using assms(2) by auto
    then have "\<not> entry_less (Stored (t ! lower_bound t q)) (Query q)"
      unfolding lower_bound_def using nth_length_takeWhile by blast
    moreover have "entry_key (t ! lower_bound t q) \<le> entry_key (t ! i)"
      using table_ok_nth[OF assms(1) lb(1) assms(2)] .
    ultimately show False
      using less stored_less_query_mono by blast
  qed
qed

text \<open>What the lookup relies on of ndn-cxx: a Data packet matches only an Interest whose
  name is a prefix of its full name, and the successor of a name separates the names under
  it from the greater ones.\<close>

definition matches_prefix :: "matcher \<Rightarrow> bool" where
  "matches_prefix matches \<longleftrightarrow>
     (\<forall>interest d. matches interest d \<longrightarrow> prefix (i_name interest) (fullName d))"

definition successor_ok :: "(name \<Rightarrow> name) \<Rightarrow> name \<Rightarrow> cs_table \<Rightarrow> bool" where
  "successor_ok successor q t \<longleftrightarrow>
     (\<forall>e \<in> set t. entry_less (Stored e) (Query (successor q)) =
        (entry_less (Stored e) (Query q) \<or> prefix q (fullName (ce_data e))))"

definition find_last :: "(name \<Rightarrow> name) \<Rightarrow> cs_table \<Rightarrow> name \<Rightarrow> nat" where
  "find_last successor t q = (if q \<noteq> [] then lower_bound t (successor q) else length t)"

lemma find_last_le: "find_last successor t q \<le> length t"
  by (simp add: find_last_def lower_bound_le)

text \<open>The range \<^verbatim>\<open>[first, last)\<close> holds exactly the entries under the name.\<close>

lemma find_range:
  assumes "table_ok t" and "successor_ok successor q t" and "i < length t"
  shows "lower_bound t q \<le> i \<and> i < find_last successor t q \<longleftrightarrow> prefix q (fullName (ce_data (t ! i)))"
proof -
  have lb: "lower_bound t q \<le> i \<longleftrightarrow> \<not> entry_less (Stored (t ! i)) (Query q)"
    using lower_bound_iff[OF assms(1,3), of q] by linarith
  show ?thesis
  proof (cases "q = []")
    case True
    then show ?thesis
      using assms(3) lb prefix_not_less[of q "t ! i"] by (auto simp: find_last_def)
  next
    case False
    then have "i < find_last successor t q \<longleftrightarrow> entry_less (Stored (t ! i)) (Query (successor q))"
      using lower_bound_iff[OF assms(1,3), of "successor q"] by (simp add: find_last_def)
    then show ?thesis
      using lb assms(2,3) prefix_not_less[of q "t ! i"] nth_mem[OF assms(3)]
      unfolding successor_ok_def by blast
  qed
qed


lemma find_range_ordered:
  assumes "table_ok t" and "successor_ok successor q t"
  shows "lower_bound t q \<le> find_last successor t q"
proof (cases "q = [] \<or> find_last successor t q = length t")
  case True
  then show ?thesis
    using lower_bound_le[of t q] by (auto simp: find_last_def)
next
  case False
  define i where "i = find_last successor t q"
  have i: "i < length t" "i = lower_bound t (successor q)"
    using False find_last_le[of successor t q] by (auto simp: i_def find_last_def)
  then have "\<not> entry_less (Stored (t ! i)) (Query (successor q))"
    using lower_bound_iff[OF assms(1) i(1), of "successor q"] by simp
  then have "\<not> entry_less (Stored (t ! i)) (Query q)"
    using assms(2) i(1) by (auto simp: successor_ok_def)
  then show ?thesis
    using lower_bound_iff[OF assms(1) i(1), of q] by (simp add: i_def)
qed

subsection \<open>Rightmost child\<close>

text \<open>Names of Data packets contain no digest component.\<close>

definition plain_names :: "cs_table \<Rightarrow> bool" where
  "plain_names t \<longleftrightarrow>
     (\<forall>e \<in> set t. \<forall>c \<in> set (d_name (ce_data e)). \<not> isImplicitSha256Digest c)"

text \<open>\<open>nameOf t i\<close> is the Data name at index \<open>i\<close>; \<open>child\<close> cuts it one component
  after the Interest name.\<close>

abbreviation nameOf :: "cs_table \<Rightarrow> nat \<Rightarrow> name" where
  "nameOf t i \<equiv> d_name (ce_data (t ! i))"

definition child :: "name \<Rightarrow> cs_table \<Rightarrow> nat \<Rightarrow> name" where
  "child q t i = take (length q + 1) (nameOf t i)"

text \<open>\<open>notRighter q t j r\<close>: the entry at \<open>j\<close> is not a better rightmost match than the
  one at \<open>r\<close>: it is under a smaller child, or under the same child and not further left
  (not further right when the name is exactly the Interest name).\<close>

definition notRighter :: "name \<Rightarrow> cs_table \<Rightarrow> nat \<Rightarrow> nat \<Rightarrow> bool" where
  "notRighter q t j r \<longleftrightarrow> child q t j < child q t r \<or>
     child q t j = child q t r \<and> (if length (nameOf t r) = length q then j \<le> r else r \<le> j)"

lemma nameOf_mono: "table_ok t \<Longrightarrow> i \<le> j \<Longrightarrow> j < length t \<Longrightarrow> nameOf t i \<le> nameOf t j"
  using table_ok_nth[of t i j] by (auto simp: entry_key_def less_eq_prod_def)

lemma not_isFullName_plain:
  assumes "plain_names t" and "i < length t" and "prefix a (nameOf t i)"
  shows "\<not> isFullName a"
proof
  assume "isFullName a"
  then have "last a \<in> set (nameOf t i)" "isImplicitSha256Digest (last a)"
    using set_mono_prefix[OF assms(3)] last_in_set[of a] by (auto simp: isFullName_def)
  with assms(1,2) show False
    by (auto simp: plain_names_def)
qed

text \<open>The sub-namespace that one pass of the loop visits.\<close>

lemma rightmost_subrange:
  assumes ok: "table_ok t" and plain: "plain_names t"
    and q: "\<not> isFullName q" and range: "prefix q (nameOf t prev)" and prev: "prev < length t"
    and long: "length (nameOf t prev) \<noteq> length q"
  defines "a \<equiv> take (length q + 1) (nameOf t prev)"
  shows "lower_bound t q \<le> lower_bound t a \<and> lower_bound t a \<le> prev \<and>
    (\<forall>j. lower_bound t a \<le> j \<longrightarrow> j \<le> prev \<longrightarrow> child q t j = a \<and> length q < length (nameOf t j)) \<and>
    (\<forall>j. j < lower_bound t a \<longrightarrow> child q t j < a)"
proof -
  have a: "prefix a (nameOf t prev)" "length a = length q + 1" "prefix q a"
  proof -
    obtain c zs where "nameOf t prev = q @ c # zs"
      using range long by (auto simp: prefix_def neq_Nil_conv)
    then show "prefix a (nameOf t prev)" "length a = length q + 1" "prefix q a"
      by (simp_all add: a_def)
  qed
  have full: "\<not> isFullName a"
    using not_isFullName_plain[OF plain prev a(1)] .
  have less: "j < lower_bound t a \<longleftrightarrow> nameOf t j < a" if "j < length t" for j
    using lower_bound_iff[OF ok that, of a] full by (simp add: stored_less_query)
  have lessq: "j < lower_bound t q \<longleftrightarrow> nameOf t j < q" if "j < length t" for j
    using lower_bound_iff[OF ok that, of q] q by (simp add: stored_less_query)
  have 1: "lower_bound t q \<le> lower_bound t a"
  proof (rule ccontr)
    assume c: "\<not> lower_bound t q \<le> lower_bound t a"
    then have len: "lower_bound t a < length t"
      using lower_bound_le[of t q] by linarith
    have "nameOf t (lower_bound t a) < q"
      using lessq[OF len] c by simp
    also have "q \<le> a"
      using prefix_le[OF a(3)] .
    finally show False
      using less[OF len] by simp
  qed
  have 2: "lower_bound t a \<le> prev"
    using less[OF prev] prefix_le[OF a(1)] by (meson leI leD)
  have 3: "child q t j = a \<and> length q < length (nameOf t j)"
    if j: "lower_bound t a \<le> j" "j \<le> prev" for j
  proof -
    have "a \<le> nameOf t j" "nameOf t j \<le> nameOf t prev"
      using less[of j] j prev nameOf_mono[OF ok j(2) prev] by auto
    then have "prefix a (nameOf t j)"
      using prefix_convex[OF a(1)] by blast
    then show ?thesis
      using a(2) by (auto simp: child_def prefix_def)
  qed
  have 4: "child q t j < a" if j: "j < lower_bound t a" for j
  proof -
    have "nameOf t j < a"
      using less[of j] j lower_bound_le[of t a] by simp
    moreover have "child q t j \<le> nameOf t j"
      unfolding child_def by (rule prefix_le[OF take_is_prefix])
    ultimately show ?thesis
      by simp
  qed
  from 1 2 3 4 show ?thesis
    by blast
qed

lemma findRightmost_loop_spec:
  fixes matches :: matcher and now :: time and interest :: interest
  assumes ok: "table_ok t" and plain: "plain_names t" and q: "\<not> isFullName (i_name interest)"
    and f: "f = lower_bound t (i_name interest)" and l: "l \<le> length t"
    and range: "\<And>i. f \<le> i \<Longrightarrow> i < l \<Longrightarrow> prefix (i_name interest) (nameOf t i)"
  defines "P \<equiv> canSatisfy matches now interest"
  shows "f \<le> right \<Longrightarrow> right \<le> l \<Longrightarrow>
    \<exists>r. findRightmost_loop matches now interest t f l right = Some (Inr r) \<and>
      (r = l \<and> (\<forall>j. f \<le> j \<longrightarrow> j < right \<longrightarrow> \<not> P (t ! j)) \<or>
       f \<le> r \<and> r < right \<and> P (t ! r) \<and>
         (\<forall>j. f \<le> j \<longrightarrow> j < right \<longrightarrow> P (t ! j) \<longrightarrow> notRighter (i_name interest) t j r))"
proof (induction right rule: less_induct)
  case (less right)
  let ?q = "i_name interest"
  show ?case
  proof (cases "right = f")
    case True
    then show ?thesis
      by (subst findRightmost_loop.simps) simp
  next
    case False
    define prev where "prev = right - 1"
    have prev: "f \<le> prev" "prev < l" "right = Suc prev" "prev < length t"
      using False less.prems l by (auto simp: prev_def)
    have pq: "prefix ?q (nameOf t prev)"
      using range prev by simp
    show ?thesis
    proof (cases "length (nameOf t prev) = length ?q")
      case True
      then have "nameOf t prev = ?q"
        using pq by (auto simp: prefix_def)
      then have exact: "nameOf t j = ?q" if "f \<le> j" "j < right" for j
        using nameOf_mono[OF ok, of j prev] range[of j] that prev prefix_le[of ?q "nameOf t j"]
        by (auto intro: order.antisym)
      show ?thesis
        using find_last_if_spec[where P = P and t = t and f = f and r = right] True False prev exact
        by (subst findRightmost_loop.simps)
          (auto simp: Let_def P_def findRightmostAmongExact_def notRighter_def child_def
            not_le split: option.splits intro!: leI)
    next
      case long: False
      define left where "left = lower_bound t (take (length ?q + 1) (nameOf t prev))"
      note sub = rightmost_subrange[OF ok plain q pq prev(4) long, folded left_def f]
      define m where "m = findLeftmost matches now interest t left right"
      have m: "(m = right \<or> left \<le> m \<and> m < right \<and> P (t ! m)) \<and>
          (\<forall>j. left \<le> j \<longrightarrow> j < m \<longrightarrow> \<not> P (t ! j))"
        using find_if_from_spec[of right t P left m] less.prems(2) l
        by (simp add: m_def findLeftmost_def P_def)
      have unfold: "findRightmost_loop matches now interest t f l right =
          (if m \<noteq> right then Some (Inr m) else findRightmost_loop matches now interest t f l left)"
        using False long prev(3)
        by (subst findRightmost_loop.simps) (simp add: Let_def left_def m_def)
      show ?thesis
      proof (cases "m = right")
        case True
        have "left < right" "f \<le> left" "left \<le> l"
          using sub prev by auto
        from less.IH[OF this] show ?thesis
          using unfold True m \<open>left < right\<close> by (auto simp: not_le) (metis leI less_trans)+
      next
        case False
        then have mm: "left \<le> m" "m < right" "P (t ! m)"
          using m by auto
        have "notRighter ?q t j m" if "f \<le> j" "j < right" "P (t ! j)" for j
        proof (cases "left \<le> j")
          case True
          then have "m \<le> j"
            using m that(3) by (meson not_le)
          then show ?thesis
            using sub True that(2) mm prev(3) by (auto simp: notRighter_def)
        next
          case False
          then show ?thesis
            using sub mm prev(3) by (auto simp: notRighter_def)
        qed
        with mm sub show ?thesis
          using unfold \<open>m \<noteq> right\<close> by (auto intro: order.trans)
      qed
    qed
  qed
qed


lemma cs_find_index_leftmost:
  assumes "childSelector (i_selectors interest) \<noteq> 1"
  shows "cs_find_index matches successor now interest t =
    (let l = find_last successor t (i_name interest);
         i = findLeftmost matches now interest t (lower_bound t (i_name interest)) l
     in Some (Inr (if i = l then None else Some i)))"
  using assms by (simp add: cs_find_index_def find_last_def Let_def)

lemma canSatisfy_prefix:
  "matches_prefix matches \<Longrightarrow> canSatisfy matches now interest e \<Longrightarrow>
   prefix (i_name interest) (fullName (ce_data e))"
  by (auto simp: matches_prefix_def canSatisfy_def split: if_splits)

lemma lru_queue_length:
  assumes "distinct q" and "set q = table_keys t" and "distinct (map entry_key t)"
  shows "length q = length t"
  using assms distinct_card[of q] distinct_card[of "map entry_key t"] by simp

lemma lru_evict_keeps_recent:
  assumes "distinct (q @ [k, k'])" and "distinct (map entry_key t)"
    and "set (q @ [k, k']) = table_keys t"
    and "2 \<le> limit" and "lru_evictEntries limit (q @ [k, k']) t = Inr (q', t')"
  shows "k \<in> table_keys t'"
proof -
  have q': "distinct q'" "set q' = table_keys t'" "length t' = min limit (length t)"
      "distinct (map entry_key t')"
    using lru_evict_law[OF assms(1,2,3), of limit] assms(2,5)
    by (auto simp: shrunk_def distinct_map_filter)
  have "length (q @ [k, k']) = length t" "length q' = length t'"
    using lru_queue_length assms(1-3) q' by blast+
  then have "2 \<le> length q'"
    using q'(3) assms(4) by simp
  moreover obtain zs where "q @ [k, k'] = zs @ q'"
    using lru_evict_suffix[OF assms(5)] by (auto simp: suffix_def)
  ultimately have "k \<in> set q'"
    by (cases q' rule: rev_cases; cases "butlast q'" rule: rev_cases) auto
  then show ?thesis
    using q'(2) by simp
qed

lemma lru_insert_keeps_last:
  assumes inv: "cs_inv c" and p: "cs_policy c = LruPolicy (q @ [k])" and lim: "2 \<le> cs_limit c"
    and ins: "cs_insert now d u c = Inr c'"
  shows "k \<in> table_keys (cs_table c')"
proof -
  have q: "distinct (q @ [k])" "set (q @ [k]) = table_keys (cs_table c)" "table_ok (cs_table c)"
    using inv p by (auto simp: cs_inv_def)
  then have k: "k \<in> table_keys (cs_table c)"
    by auto
  obtain t y b where t: "table_insert (setData now d u) (cs_table c) = (t, y, b)"
    by (metis prod_cases3)
  note spec = table_insert_spec[OF q(3) t]
  consider "d_noCache d" | "\<not> d_noCache d" "\<not> b" | "\<not> d_noCache d" "b"
    by blast
  then show ?thesis
  proof cases
    case 1
    then show ?thesis
      using ins k by (auto simp: cs_insert_def split: if_splits)
  next
    case 2
    then have "map entry_key (cs_table c') = map entry_key (cs_table c)"
      using cs_insert_existing[OF inv _ 2(1)] t ins lim by fastforce
    then show ?thesis
      using k by (metis list.set_map)
  next
    case 3
    define e where "e = updateStaleTime now y"
    have new: "entry_key e \<notin> set (q @ [k])"
        "set (q @ [k, entry_key e]) = table_keys (table_update e t)"
        "distinct (map entry_key (table_update e t))"
      using spec 3 q table_ok_distinct by (auto simp: e_def)
    obtain q' where "lru_evictEntries (cs_limit c) (q @ [k, entry_key e]) (table_update e t) =
        Inr (q', cs_table c')"
      using cs_insert_new[OF inv _ 3(1), of now u t y] t 3(2) ins lim p new(1)
      by (auto simp: lru_doAfterInsert_def lru_insertToQueue_def Let_def map_sum_def e_def
          split: sum.splits)
    moreover have "distinct (q @ [k, entry_key e])"
      using new(1) q(1) by auto
    ultimately show ?thesis
      using lru_evict_keeps_recent[OF _ new(3,2) lim] by blast
  qed
qed

fun evict_rank :: "queue_type \<Rightarrow> nat" where
  "evict_rank QUEUE_UNSOLICITED = 0"
| "evict_rank QUEUE_STALE = 1"
| "evict_rank QUEUE_FIFO = 2"

lemma evictOne_pick_head:
  assumes "evictOne_pick p = Some i"
  shows "\<exists>ty q. pf_queues p ty = i # q \<and>
    (\<forall>ty'. evict_rank ty' < evict_rank ty \<longrightarrow> pf_queues p ty' = [])"
proof -
  consider (u) q where "pf_queues p QUEUE_UNSOLICITED = i # q"
    | (s) q where "pf_queues p QUEUE_UNSOLICITED = []" "pf_queues p QUEUE_STALE = i # q"
    | (f) q where "pf_queues p QUEUE_UNSOLICITED = []" "pf_queues p QUEUE_STALE = []"
        "pf_queues p QUEUE_FIFO = i # q"
    using assms by (auto simp: evictOne_pick_def split: list.splits)
  then show ?thesis
  proof cases
    case u
    then show ?thesis
      by (intro exI[of _ QUEUE_UNSOLICITED]) auto
  next
    case s
    have "pf_queues p ty = []" if "evict_rank ty < evict_rank QUEUE_STALE" for ty
      using that s by (cases ty) auto
    with s show ?thesis
      by blast
  next
    case f
    have "pf_queues p ty = []" if "evict_rank ty < evict_rank QUEUE_FIFO" for ty
      using that f by (cases ty) auto
    with f show ?thesis
      by blast
  qed
qed

section \<open>Properties\<close>




text \<open>Concrete stores for the witnesses.\<close>

definition exData :: "byte \<Rightarrow> byte \<Rightarrow> data" where
  "exData b dg = \<lparr>d_name = [Generic [1], Generic [b]], d_digest = [dg], d_freshness = 100,
     d_noCache = False\<rparr>"

definition exInterest :: "int \<Rightarrow> interest" where
  "exInterest cs = \<lparr>i_name = [Generic [1]], i_nonce = 0,
     i_selectors = \<lparr>childSelector = cs, mustBeFresh = False, otherSelectors = []\<rparr>,
     i_lifetime = 4000, i_link = NoLink, i_selectedDelegation = None, i_nextHopFaceId = None\<rparr>"

definition exMatches :: matcher where
  "exMatches interest d = prefix (i_name interest) (fullName d)"

definition exTable :: cs_table where
  "exTable = [setData 0 (exData 2 7) False, setData 0 (exData 2 9) False,
     setData 0 (exData 5 3) False, setData 0 (exData 5 4) False]"

lemma ex_matches_prefix: "matches_prefix exMatches"
  by (simp add: matches_prefix_def exMatches_def)

lemma ex_table_ok: "table_ok exTable"
  by code_simp



text \<open>C18. The priority FIFO policy evicts in the documented order: the victim is the
  oldest entry of its queue, and no entry is in a queue of higher priority for eviction
  (unsolicited before stale before FIFO); so fresh solicited Data is evicted only when
  nothing else is stored.\<close>

theorem evictOne_priority:
  assumes "pf_wf p" and "evictOne p t = Inr (p', t')"
  shows "\<exists>i info. pf_entryInfoMap p i = Some info \<and> hd (pf_queues p (queueType info)) = i \<and>
    t' = table_erase i t \<and>
    (\<forall>k info'. pf_entryInfoMap p k = Some info' \<longrightarrow>
       evict_rank (queueType info) \<le> evict_rank (queueType info'))"
proof -
  obtain i where i: "evictOne_pick p = Some i" "t' = table_erase i t"
    using assms(2) by (auto simp: evictOne_def cs_beforeEvict_def
        split: option.splits sum.splits if_splits)
  obtain ty q where ty: "pf_queues p ty = i # q"
      "\<And>ty'. evict_rank ty' < evict_rank ty \<Longrightarrow> pf_queues p ty' = []"
    using evictOne_pick_head[OF i(1)] by blast
  obtain info where info: "pf_entryInfoMap p i = Some info" "queueType info = ty"
    using pf_wf_queue[OF assms(1), of i ty] ty(1) by auto
  have "evict_rank ty \<le> evict_rank (queueType info')" if "pf_entryInfoMap p k = Some info'" for k info'
    using pf_wf_queue[OF assms(1), of k "queueType info'"] ty(2)[of "queueType info'"] that
    by (auto simp: not_less[symmetric])
  then show ?thesis
    using i(2) ty(1) info by (intro exI[of _ i] exI[of _ info]) auto
qed

theorem evictOne_priority_witness:
  "\<exists>p p'. attachQueue 0 (setData 0 (exData 2 7) False) PriorityFifoPolicy = Inr p \<and>
     evictOne p [setData 0 (exData 2 7) False] = Inr (p', []) \<and>
     pf_queues p QUEUE_UNSOLICITED = []"
proof -
  let ?e = "setData 0 (exData 2 7) False"
  have wf: "pf_wf PriorityFifoPolicy" "entry_key ?e \<notin> pf_tracked PriorityFifoPolicy"
    by (auto simp: PriorityFifoPolicy_def pf_wf_def)
  obtain p where p: "attachQueue 0 ?e PriorityFifoPolicy = Inr p" "pf_wf p"
    using attachQueue_ok[OF wf] by blast
  have type: "newEntryInfo 0 ?e = \<lparr>queueType = QUEUE_FIFO, moveStaleEvent = Some 100000000\<rparr>"
    by (simp add: newEntryInfo_def setData_def updateStaleTime_def isStale_def canStale_def
        exData_def TimePoint_max_def)
  have q: "pf_queues p QUEUE_UNSOLICITED = []" "pf_queues p QUEUE_STALE = []"
      "pf_queues p QUEUE_FIFO = [entry_key ?e]"
      "pf_entryInfoMap p (entry_key ?e) = Some (newEntryInfo 0 ?e)"
    using p(1) type by (auto simp: attachQueue_def Let_def PriorityFifoPolicy_def)
  obtain p' where "evictOne p [?e] = Inr (p', [])"
    using q by (auto simp: evictOne_def evictOne_pick_def detachQueue_def cs_beforeEvict_def
        table_erase_def)
  with evictOne_priority[OF p(2) this] p q show ?thesis
    by blast
qed

lemma cs_find_leftmost_ok:
  assumes "table_ok t" and "matches_prefix matches" and "successor_ok successor (i_name interest) t"
    and "childSelector (i_selectors interest) \<noteq> 1"
  shows "\<exists>r. cs_find_index matches successor now interest t = Some (Inr r) \<and>
    (case r of
       None \<Rightarrow> \<forall>e \<in> set t. \<not> canSatisfy matches now interest e
     | Some i \<Rightarrow> i < length t \<and> canSatisfy matches now interest (t ! i) \<and>
         (\<forall>j < i. \<not> canSatisfy matches now interest (t ! j)))"
proof -
  let ?P = "canSatisfy matches now interest" and ?f = "lower_bound t (i_name interest)"
  let ?l = "find_last successor t (i_name interest)"
  define i where "i = findLeftmost matches now interest t ?f ?l"
  have i: "(i = ?l \<or> ?f \<le> i \<and> i < ?l \<and> ?P (t ! i)) \<and> (\<forall>j. ?f \<le> j \<longrightarrow> j < i \<longrightarrow> \<not> ?P (t ! j))"
    unfolding i_def findLeftmost_def by (rule find_if_from_spec[OF find_last_le refl])
  have range: "?f \<le> j \<and> j < ?l" if "j < length t" "?P (t ! j)" for j
    using find_range[OF assms(1,3) that(1)] canSatisfy_prefix[OF assms(2) that(2)] by simp
  have below: "\<not> ?P (t ! j)" if "j < i" "j < length t" for j
    using i range that by blast
  show ?thesis
  proof (cases "i = ?l")
    case True
    then have "\<not> ?P e" if "e \<in> set t" for e
      using that below range by (metis in_set_conv_nth)
    with True show ?thesis
      by (simp add: cs_find_index_leftmost[OF assms(4)] i_def Let_def)
  next
    case False
    then have "i < length t" "?P (t ! i)"
      using i find_last_le[of successor t "i_name interest"] by auto
    with False below show ?thesis
      by (simp add: cs_find_index_leftmost[OF assms(4)] i_def[symmetric] Let_def)
  qed
qed

text \<open>C19. Lookup of the leftmost child: the store answers with the first entry, in the
  canonical order, that satisfies the Interest, and misses only if no stored packet
  satisfies it.\<close>

theorem cs_find_leftmost_spec:
  assumes "table_ok t" and "matches_prefix matches" and "successor_ok successor (i_name interest) t"
    and "childSelector (i_selectors interest) \<noteq> 1"
  shows "\<exists>r. cs_find_index matches successor now interest t = Some (Inr r) \<and>
    (case r of
       None \<Rightarrow> \<forall>e \<in> set t. \<not> canSatisfy matches now interest e
     | Some i \<Rightarrow> i < length t \<and> canSatisfy matches now interest (t ! i) \<and>
         (\<forall>j < i. \<not> canSatisfy matches now interest (t ! j)))"
  by (rule cs_find_leftmost_ok[OF assms])

theorem cs_find_leftmost_spec_witness:
  "\<exists>i. cs_find_index exMatches (\<lambda>_. [Generic [2]]) 0 (exInterest 0) exTable = Some (Inr (Some i)) \<and>
     canSatisfy exMatches 0 (exInterest 0) (exTable ! i)"
proof -
  have "successor_ok (\<lambda>_. [Generic [2]]) (i_name (exInterest 0)) exTable"
    by code_simp
  moreover have "childSelector (i_selectors (exInterest 0)) \<noteq> 1"
    "\<exists>e \<in> set exTable. canSatisfy exMatches 0 (exInterest 0) e"
    by code_simp+
  ultimately show ?thesis
    using cs_find_leftmost_spec[OF ex_table_ok ex_matches_prefix, of "\<lambda>_. [Generic [2]]"
        "exInterest 0" 0]
    by (auto split: option.splits)
qed


lemma cs_find_rightmost_ok:
  assumes "table_ok t" and "plain_names t" and "matches_prefix matches"
    and "successor_ok successor (i_name interest) t"
    and "childSelector (i_selectors interest) = 1" and "\<not> isFullName (i_name interest)"
  shows "\<exists>r. cs_find_index matches successor now interest t = Some (Inr r) \<and>
    (case r of
       None \<Rightarrow> \<forall>e \<in> set t. \<not> canSatisfy matches now interest e
     | Some i \<Rightarrow> i < length t \<and> canSatisfy matches now interest (t ! i) \<and>
         (\<forall>j < length t. canSatisfy matches now interest (t ! j) \<longrightarrow>
            notRighter (i_name interest) t j i))"
proof -
  let ?P = "canSatisfy matches now interest" and ?q = "i_name interest"
  let ?f = "lower_bound t ?q" and ?l = "find_last successor t ?q"
  have under: "?f \<le> j \<and> j < ?l \<longleftrightarrow> prefix ?q (fullName (ce_data (t ! j)))" if "j < length t" for j
    using find_range[OF assms(1,4) that] .
  have l: "?l \<le> length t"
    by (rule find_last_le)
  have names: "prefix ?q (nameOf t j)" if "?f \<le> j" "j < ?l" for j
    using under[of j] that l assms(6) by (auto simp: prefix_fullName isFullName_def fullName_def)
  have range: "?f \<le> j \<and> j < ?l" if "j < length t" "?P (t ! j)" for j
    using under[OF that(1)] canSatisfy_prefix[OF assms(3) that(2)] by simp
  from findRightmost_loop_spec[OF assms(1,2,6) refl l names find_range_ordered[OF assms(1,4)] order.refl]
  obtain r where r: "findRightmost_loop matches now interest t ?f ?l ?l = Some (Inr r)"
    "r = ?l \<and> (\<forall>j. ?f \<le> j \<longrightarrow> j < ?l \<longrightarrow> \<not> ?P (t ! j)) \<or>
     ?f \<le> r \<and> r < ?l \<and> ?P (t ! r) \<and>
       (\<forall>j. ?f \<le> j \<longrightarrow> j < ?l \<longrightarrow> ?P (t ! j) \<longrightarrow> notRighter ?q t j r)"
    by blast
  have index: "cs_find_index matches successor now interest t =
      Some (Inr (if r = ?l then None else Some r))"
    using r(1) assms(5) by (simp add: cs_find_index_def findRightmost_def find_last_def Let_def)
  show ?thesis
  proof (cases "r = ?l")
    case True
    then have "\<not> ?P (t ! j)" if "j < length t" for j
      using r(2) range that by blast
    with True show ?thesis
      unfolding index by (auto simp: in_set_conv_nth)
  next
    case False
    with r(2) range l show ?thesis
      unfolding index by auto
  qed
qed



text \<open>C21. For a full name the rightmost search can leave the table: an Interest that
  names a stored packet by its digest, asks for the rightmost child and requires freshness,
  while the packet is stale and another packet of the same name with a smaller digest is
  stored, makes the loop step below \<^verbatim>\<open>first\<close> and decrement \<^verbatim>\<open>begin()\<close>.\<close>

theorem cs_find_rightmost_full_name_fault:
  "\<exists>t interest now. table_ok t \<and> plain_names t \<and>
     successor_ok (\<lambda>_. [Generic [1], Generic [3]]) (i_name interest) t \<and>
     isFullName (i_name interest) \<and>
     cs_find_index exMatches (\<lambda>_. [Generic [1], Generic [3]]) now interest t = Some (Inl DecrementBegin)"
proof (intro exI conjI)
  let ?t = "take 2 exTable"
  let ?i = "(exInterest 1)\<lparr>i_name := [Generic [1], Generic [2], ImplicitDigest [9]],
    i_selectors := \<lparr>childSelector = 1, mustBeFresh = True, otherSelectors = []\<rparr>\<rparr>"
  show "table_ok ?t" "plain_names ?t"
    "successor_ok (\<lambda>_. [Generic [1], Generic [3]]) (i_name ?i) ?t" "isFullName (i_name ?i)"
    by code_simp+
  show "cs_find_index exMatches (\<lambda>_. [Generic [1], Generic [3]]) 200000000 ?i ?t =
      Some (Inl DecrementBegin)"
    by code_simp
qed

text \<open>C22. Under LRU a packet that was just used is not the next victim: with room for at
  least two packets, Data that answered a lookup is still stored after the next insertion.\<close>

theorem lru_hit_survives:
  assumes "cs_inv c" and "cs_policy c = LruPolicy q" and "2 \<le> cs_limit c"
    and "cs_find matches successor now interest c = Some (Inr (Some d, c1))"
    and "cs_insert now' d' u c1 = Inr c2"
  shows "(d_name d, ImplicitDigest (d_digest d)) \<in> table_keys (cs_table c2)"
proof -
  define k where "k = (d_name d, ImplicitDigest (d_digest d))"
  obtain i p where i: "d = ce_data (cs_table c ! i)"
      "beforeUse (entry_key (cs_table c ! i)) (cs_policy c) = Inr p" "c1 = c\<lparr>cs_policy := p\<rparr>"
    using assms(4) by (auto simp: cs_find_def split: option.splits sum.splits)
  have "entry_key (cs_table c ! i) = k"
    using i(1) by (simp add: k_def entry_key_def fullName_def)
  then have k: "k \<in> set q" "p = LruPolicy (remove1 k q @ [k])"
    using i(2) assms(2)
    by (auto simp: lru_doBeforeUse_def lru_insertToQueue_def Let_def map_sum_def split: if_splits)
  have "cs_inv c1"
    using assms(1,2) i(3) k by (auto simp: cs_inv_def)
  from lru_insert_keeps_last[OF this _ _ assms(5)] show ?thesis
    using i(3) k(2) assms(3) by (simp add: k_def)
qed

lemma hit_case:
  "(case x of Some (Inr (Some d, c)) \<Rightarrow> P d c | _ \<Rightarrow> False) \<longleftrightarrow>
   (\<exists>d c. x = Some (Inr (Some d, c)) \<and> P d c)"
  by (cases x) (auto split: sum.splits prod.splits option.splits)

lemma sum_case: "(case x of Inr y \<Rightarrow> P y | Inl e \<Rightarrow> False) \<longleftrightarrow> (\<exists>y. x = Inr y \<and> P y)"
  by (cases x) auto

theorem lru_hit_survives_witness:
  "\<exists>c c1 c2. cs_find exMatches (\<lambda>_. [Generic [2]]) 0 (exInterest 0) c = Some (Inr (Some (exData 2 7), c1)) \<and>
     cs_insert 0 (exData 9 9) False c1 = Inr c2 \<and> length (cs_table c2) = 4 \<and>
     ([Generic [1], Generic [2]], ImplicitDigest [7]) \<in> table_keys (cs_table c2)"
proof -
  let ?c = "\<lparr>cs_table = exTable, cs_policy = LruPolicy (map entry_key exTable), cs_limit = 4\<rparr>"
  have "distinct (map entry_key exTable)" "length exTable = 4"
    by code_simp+
  then have inv: "cs_inv ?c"
    by (simp add: cs_inv_def ex_table_ok)
  have "case cs_find exMatches (\<lambda>_. [Generic [2]]) 0 (exInterest 0) ?c of
      Some (Inr (Some d, c1)) \<Rightarrow> d = exData 2 7 \<and>
        (case cs_insert 0 (exData 9 9) False c1 of Inr c2 \<Rightarrow> length (cs_table c2) = 4 | Inl e \<Rightarrow> False)
    | _ \<Rightarrow> False"
    by code_simp
  then obtain c1 c2 where c: "cs_find exMatches (\<lambda>_. [Generic [2]]) 0 (exInterest 0) ?c =
      Some (Inr (Some (exData 2 7), c1))" "cs_insert 0 (exData 9 9) False c1 = Inr c2"
      "length (cs_table c2) = 4"
    unfolding hit_case unfolding sum_case by blast
  have "([Generic [1], Generic [2]], ImplicitDigest [7]) \<in> table_keys (cs_table c2)"
    using lru_hit_survives[OF inv _ _ c(1,2)] by (simp add: exData_def)
  with c show ?thesis
    by blast
qed

end
