(* ===== verification/Link_Service.thy ===== *)
theory Link_Service
  imports Packets
begin

text \<open>
  The NDNLPv2 link service: \<^verbatim>\<open>src/daemon/face/lp-fragmenter.cpp\<close>,
  \<^verbatim>\<open>lp-reassembler.cpp\<close> and \<^verbatim>\<open>generic-link-service.cpp\<close>.

  An \<^verbatim>\<open>lp::Packet\<close> (ndn-cxx) is the record of its fields.  Its encoding is a parameter:
  \<open>wireSize\<close> gives the size of \<^verbatim>\<open>wireEncode()\<close>, \<open>wireElements\<close> the list of
  (is it the Fragment, size) of the elements when the encoding is an LpPacket, and nothing
  when it is a bare network packet.  \<open>parses\<close> says which byte strings the constructor of
  \<^verbatim>\<open>Block\<close> accepts; where it does not, the constructor throws \<^verbatim>\<open>tlv::Error\<close>.
  Failed assertions and out-of-range accesses are error values.
\<close>

section \<open>NDNLPv2 packets\<close>

text \<open>\<^verbatim>\<open>CachePolicyType\<close>: the only defined value, or another one, for which
  \<^verbatim>\<open>get<CachePolicyField>\<close> throws.\<close>

datatype cache_policy = NO_CACHE | InvalidCachePolicyType

record lp_packet =
  lp_sequence :: "u64 option"
  lp_fragIndex :: "u64 option"
  lp_fragCount :: "u64 option"
  lp_fragment :: "byte list option"
  lp_nack :: "nack_reason option"
  lp_nextHopFaceId :: "u64 option"
  lp_cachePolicy :: "cache_policy option"
  lp_incomingFaceId :: "u64 option"

definition emptyPacket :: lp_packet where
  "emptyPacket = \<lparr>lp_sequence = None, lp_fragIndex = None, lp_fragCount = None, lp_fragment = None,
     lp_nack = None, lp_nextHopFaceId = None, lp_cachePolicy = None, lp_incomingFaceId = None\<rparr>"

datatype lp_error = LpAssertionFailed | LpOutOfRange

section \<open>Fragmenter\<close>

definition MAX_SINGLE_FRAG_OVERHEAD :: nat where
  "MAX_SINGLE_FRAG_OVERHEAD = 1 + 9 + 1 + 1 + 8 + 1 + 9"

definition MAX_FRAG_OVERHEAD :: nat where
  "MAX_FRAG_OVERHEAD = 1 + 9 + 1 + 1 + 8 + 1 + 1 + 8 + 1 + 1 + 8 + 1 + 9"

type_synonym wire_elements = "lp_packet \<Rightarrow> (bool \<times> nat) list option"

definition firstHeaderSize :: "wire_elements \<Rightarrow> lp_packet \<Rightarrow> nat" where
  "firstHeaderSize wireElements packet =
    (case wireElements packet of
       None \<Rightarrow> 0
     | Some elements \<Rightarrow> sum_list (map snd (filter (\<lambda>e. \<not> fst e) elements)))"

text \<open>The loop that populates the fragments; \<open>b\<close> and \<open>e\<close> are \<^verbatim>\<open>fragBegin\<close> and
  \<^verbatim>\<open>fragEnd\<close> as offsets into the network packet.  It advances by at least one byte while
  \<open>b < e\<close>; with \<open>b = e\<close> short of the end it would spin.\<close>

function fragment_loop ::
  "(lp_packet \<Rightarrow> nat) \<Rightarrow> nat \<Rightarrow> nat \<Rightarrow> nat \<Rightarrow> byte list \<Rightarrow> nat \<Rightarrow> nat \<Rightarrow> nat \<Rightarrow> lp_packet list \<Rightarrow>
   (lp_error + nat \<times> lp_packet list) option" where
  "fragment_loop wireSize mtu payloadSize fragCount netPkt b e fragIndex frags =
    (if b < length netPkt then
       if \<not> b < e then None
       else if \<not> fragIndex < length frags then Some (Inl LpOutOfRange)
       else
         let frag = (frags ! fragIndex)\<lparr>lp_fragIndex := Some (of_nat fragIndex),
               lp_fragCount := Some (of_nat fragCount), lp_fragment := Some (take (e - b) (drop b netPkt))\<rparr>
         in if wireSize frag > mtu then Some (Inl LpAssertionFailed)
            else fragment_loop wireSize mtu payloadSize fragCount netPkt e
                   (min (length netPkt) (e + payloadSize)) (fragIndex + 1) (frags[fragIndex := frag])
     else Some (Inr (fragIndex, frags)))"
  by pat_completeness auto
termination
  by (relation "measure (\<lambda>(wireSize, mtu, payloadSize, fragCount, netPkt, b, e, fragIndex, frags).
    length netPkt - b)") auto

declare fragment_loop.simps [simp del]

definition fragmentCount :: "nat \<Rightarrow> nat \<Rightarrow> nat \<Rightarrow> nat" where
  "fragmentCount netPktSize firstPayloadSize payloadSize =
    1 + (netPktSize - firstPayloadSize) div payloadSize +
    (if (netPktSize - firstPayloadSize) mod payloadSize \<noteq> 0 then 1 else 0)"

text \<open>\<^verbatim>\<open>fragmentPacket\<close>: an error, a reported failure (\<^verbatim>\<open>isOk = false\<close>, the packet is
  dropped), or the fragments; \<^const>\<open>None\<close> at the outside if the loop does not end.\<close>

definition fragmentPacket ::
  "(lp_packet \<Rightarrow> nat) \<Rightarrow> wire_elements \<Rightarrow> nat \<Rightarrow> lp_packet \<Rightarrow> nat \<Rightarrow>
   (lp_error + lp_packet list option) option" where
  "fragmentPacket wireSize wireElements nMaxFragments packet mtu =
    (case lp_fragment packet of
       None \<Rightarrow> Some (Inl LpAssertionFailed)
     | Some netPkt \<Rightarrow>
         if lp_fragIndex packet \<noteq> None \<or> lp_fragCount packet \<noteq> None then Some (Inl LpAssertionFailed)
         else if MAX_SINGLE_FRAG_OVERHEAD + wireSize packet \<le> mtu then Some (Inr (Some [packet]))
         else
           let netPktSize = length netPkt; firstHeader = firstHeaderSize wireElements packet
           in if MAX_FRAG_OVERHEAD + firstHeader + 1 > mtu then Some (Inr None)
              else
                let firstPayloadSize = min netPktSize (mtu - firstHeader - MAX_FRAG_OVERHEAD);
                    payloadSize = mtu - MAX_FRAG_OVERHEAD;
                    fragCount = fragmentCount netPktSize firstPayloadSize payloadSize
                in if fragCount > nMaxFragments then Some (Inr None)
                   else
                     (case fragment_loop wireSize mtu payloadSize fragCount netPkt 0 firstPayloadSize 0
                             ((replicate fragCount emptyPacket)[0 := packet]) of
                        None \<Rightarrow> None
                      | Some (Inl err) \<Rightarrow> Some (Inl err)
                      | Some (Inr (fragIndex, frags)) \<Rightarrow>
                          Some (if fragIndex \<noteq> fragCount then Inl LpAssertionFailed
                                else Inr (Some frags))))"

section \<open>Reassembler\<close>

type_synonym endpoint_id = u64
type_synonym message_key = "endpoint_id \<times> u64"

record partial_packet =
  pp_fragments :: "lp_packet list"
  pp_fragCount :: nat
  pp_nReceivedFragments :: nat
  pp_dropTimer :: "time option"

record reassembler =
  re_nMaxFragments :: nat
  re_timeout :: time
  re_partialPackets :: "message_key \<Rightarrow> partial_packet option"

text \<open>A call returns a value or throws \<^verbatim>\<open>tlv::Error\<close>; in both cases the table may have
  changed.  The value is nothing, or the network packet with the first fragment.\<close>

datatype recv_result = NotReassembled | Reassembled "byte list" lp_packet | ThrowTlvError

text \<open>\<^verbatim>\<open>doReassembly\<close>: the concatenation of the fragments; \<^verbatim>\<open>get<FragmentField>\<close> of a
  packet without one throws.\<close>

fun doReassembly :: "lp_packet list \<Rightarrow> byte list option" where
  "doReassembly [] = Some []"
| "doReassembly (p # ps) =
    (case lp_fragment p of
       None \<Rightarrow> None
     | Some b \<Rightarrow> (case doReassembly ps of None \<Rightarrow> None | Some bs \<Rightarrow> Some (b @ bs)))"

definition newPartialPacket :: "nat \<Rightarrow> partial_packet" where
  "newPartialPacket fragCount =
    \<lparr>pp_fragments = replicate fragCount emptyPacket, pp_fragCount = fragCount,
     pp_nReceivedFragments = 0, pp_dropTimer = None\<rparr>"

definition receiveFragment ::
  "(byte list \<Rightarrow> bool) \<Rightarrow> time \<Rightarrow> endpoint_id \<Rightarrow> lp_packet \<Rightarrow> reassembler \<Rightarrow>
   lp_error + recv_result \<times> reassembler" where
  "receiveFragment parses now remoteEndpoint packet r =
    (case lp_fragment packet of
       None \<Rightarrow> Inl LpAssertionFailed
     | Some payload \<Rightarrow>
         let fragIndex = (case lp_fragIndex packet of Some i \<Rightarrow> unat i | None \<Rightarrow> 0);
             fragCount = (case lp_fragCount packet of Some n \<Rightarrow> unat n | None \<Rightarrow> 1)
         in if fragIndex \<ge> fragCount then Inr (NotReassembled, r)
            else if fragCount > re_nMaxFragments r then Inr (NotReassembled, r)
            else if fragIndex = 0 \<and> fragCount = 1 then
              Inr (if parses payload then Reassembled payload packet else ThrowTlvError, r)
            else
              (case lp_sequence packet of
                 None \<Rightarrow> Inr (NotReassembled, r)
               | Some sequence \<Rightarrow>
                   let messageIdentifier = sequence - of_nat fragIndex;
                       key = (remoteEndpoint, messageIdentifier);
                       pp = (case re_partialPackets r key of
                               None \<Rightarrow> newPartialPacket fragCount | Some pp \<Rightarrow> pp);
                       r1 = r\<lparr>re_partialPackets := (re_partialPackets r)(key := Some pp)\<rparr>
                   in if fragCount \<noteq> pp_fragCount pp then Inr (NotReassembled, r1)
                      else if \<not> fragIndex < length (pp_fragments pp) then Inl LpOutOfRange
                      else if lp_sequence (pp_fragments pp ! fragIndex) \<noteq> None then
                        Inr (NotReassembled, r1)
                      else
                        let pp = pp\<lparr>pp_fragments := (pp_fragments pp)[fragIndex := packet],
                                    pp_nReceivedFragments := pp_nReceivedFragments pp + 1\<rparr>;
                            r2 = r\<lparr>re_partialPackets := (re_partialPackets r)(key := Some pp)\<rparr>
                        in if pp_nReceivedFragments pp = pp_fragCount pp then
                             (case doReassembly (pp_fragments pp) of
                                None \<Rightarrow> Inr (ThrowTlvError, r2)
                              | Some bytes \<Rightarrow>
                                  if \<not> parses bytes then Inr (ThrowTlvError, r2)
                                  else Inr (Reassembled bytes (pp_fragments pp ! 0),
                                    r\<lparr>re_partialPackets := (re_partialPackets r)(key := None)\<rparr>))
                           else
                             Inr (NotReassembled,
                               r\<lparr>re_partialPackets := (re_partialPackets r)(key :=
                                   Some (pp\<lparr>pp_dropTimer := Some (now + re_timeout r)\<rparr>))\<rparr>)))"

text \<open>The drop timer; \<^verbatim>\<open>beforeTimeout\<close> reports the number of fragments dropped.\<close>

definition timeoutPartialPacket :: "message_key \<Rightarrow> reassembler \<Rightarrow> nat option \<times> reassembler" where
  "timeoutPartialPacket key r =
    (case re_partialPackets r key of
       None \<Rightarrow> (None, r)
     | Some pp \<Rightarrow> (Some (pp_nReceivedFragments pp),
         r\<lparr>re_partialPackets := (re_partialPackets r)(key := None)\<rparr>))"

section \<open>Generic link service\<close>

text \<open>Sending side; \<^const>\<open>None\<close> as MTU is \<^verbatim>\<open>MTU_UNLIMITED\<close>.\<close>

record link_service =
  ls_allowLocalFields :: bool
  ls_allowFragmentation :: bool
  ls_allowReassembly :: bool
  ls_nMaxFragments :: nat
  ls_reassembler :: reassembler
  ls_lastSeqNo :: u64
  ls_nFragmentationErrors :: nat
  ls_nOutOverMtu :: nat
  ls_nReassemblyTimeouts :: nat
  ls_nInLpInvalid :: nat
  ls_nInNetInvalid :: nat

definition GenericLinkService :: "bool \<Rightarrow> bool \<Rightarrow> bool \<Rightarrow> nat \<Rightarrow> reassembler \<Rightarrow> link_service" where
  "GenericLinkService allowLocalFields allowFragmentation allowReassembly nMaxFragments r =
    \<lparr>ls_allowLocalFields = allowLocalFields, ls_allowFragmentation = allowFragmentation,
     ls_allowReassembly = allowReassembly, ls_nMaxFragments = nMaxFragments, ls_reassembler = r,
     ls_lastSeqNo = -2, ls_nFragmentationErrors = 0, ls_nOutOverMtu = 0, ls_nReassemblyTimeouts = 0,
     ls_nInLpInvalid = 0, ls_nInNetInvalid = 0\<rparr>"

definition assignSequence :: "u64 \<Rightarrow> lp_packet \<Rightarrow> u64 \<times> lp_packet" where
  "assignSequence lastSeqNo pkt = (lastSeqNo + 1, pkt\<lparr>lp_sequence := Some (lastSeqNo + 1)\<rparr>)"

fun assignSequences :: "u64 \<Rightarrow> lp_packet list \<Rightarrow> u64 \<times> lp_packet list" where
  "assignSequences lastSeqNo [] = (lastSeqNo, [])"
| "assignSequences lastSeqNo (p # ps) =
    (let (s, p') = assignSequence lastSeqNo p; (s', ps') = assignSequences s ps in (s', p' # ps'))"

text \<open>The packets handed to the transport, in order, and the count of those over the MTU.\<close>

definition transmit :: "(lp_packet \<Rightarrow> nat) \<Rightarrow> nat option \<Rightarrow> lp_packet list \<Rightarrow> lp_packet list \<times> nat" where
  "transmit wireSize mtu frags =
    (case mtu of
       None \<Rightarrow> (frags, 0)
     | Some m \<Rightarrow> (filter (\<lambda>f. wireSize f \<le> m) frags, length (filter (\<lambda>f. wireSize f > m) frags)))"

definition sendNetPacket ::
  "(lp_packet \<Rightarrow> nat) \<Rightarrow> wire_elements \<Rightarrow> nat option \<Rightarrow> lp_packet \<Rightarrow> link_service \<Rightarrow>
   (lp_error + lp_packet list \<times> link_service) option" where
  "sendNetPacket wireSize wireElements mtu pkt ls =
    (let fragmented =
       (case mtu of
          Some m \<Rightarrow> if ls_allowFragmentation ls
                    then fragmentPacket wireSize wireElements (ls_nMaxFragments ls) pkt m
                    else Some (Inr (Some [pkt]))
        | None \<Rightarrow> Some (Inr (Some [pkt])))
     in case fragmented of
          None \<Rightarrow> None
        | Some (Inl e) \<Rightarrow> Some (Inl e)
        | Some (Inr None) \<Rightarrow>
            Some (Inr ([], ls\<lparr>ls_nFragmentationErrors := ls_nFragmentationErrors ls + 1\<rparr>))
        | Some (Inr (Some frags)) \<Rightarrow>
            if length frags > 1 then
              let (seq, frags') = assignSequences (ls_lastSeqNo ls) frags;
                  (sent, over) = transmit wireSize mtu frags'
              in Some (Inr (sent, ls\<lparr>ls_lastSeqNo := seq, ls_nOutOverMtu := ls_nOutOverMtu ls + over\<rparr>))
            else
              (case frags of
                 [] \<Rightarrow> Some (Inl LpAssertionFailed)
               | f # _ \<Rightarrow>
                   if lp_fragIndex f \<noteq> None \<or> lp_fragCount f \<noteq> None then Some (Inl LpAssertionFailed)
                   else
                     let (sent, over) = transmit wireSize mtu frags
                     in Some (Inr (sent, ls\<lparr>ls_nOutOverMtu := ls_nOutOverMtu ls + over\<rparr>))))"

definition encodeLocalFields :: "u64 option \<Rightarrow> lp_packet \<Rightarrow> lp_packet" where
  "encodeLocalFields incomingFaceIdTag p =
    (case incomingFaceIdTag of None \<Rightarrow> p | Some i \<Rightarrow> p\<lparr>lp_incomingFaceId := Some i\<rparr>)"

text \<open>\<^verbatim>\<open>doSendInterest\<close> and \<^verbatim>\<open>doSendData\<close> send the encoded packet with the local fields;
  \<^verbatim>\<open>doSendNack\<close> adds the Nack header.\<close>

definition lpPacket_of :: "bool \<Rightarrow> u64 option \<Rightarrow> nack_reason option \<Rightarrow> byte list \<Rightarrow> lp_packet" where
  "lpPacket_of allowLocalFields incomingFaceIdTag nack wire =
    (let p = emptyPacket\<lparr>lp_fragment := Some wire, lp_nack := nack\<rparr>
     in if allowLocalFields then encodeLocalFields incomingFaceIdTag p else p)"

definition doSend ::
  "(lp_packet \<Rightarrow> nat) \<Rightarrow> wire_elements \<Rightarrow> nat option \<Rightarrow> u64 option \<Rightarrow> nack_reason option \<Rightarrow> byte list \<Rightarrow>
   link_service \<Rightarrow> (lp_error + lp_packet list \<times> link_service) option" where
  "doSend wireSize wireElements mtu incomingFaceIdTag nack wire ls =
    sendNetPacket wireSize wireElements mtu
      (lpPacket_of (ls_allowLocalFields ls) incomingFaceIdTag nack wire) ls"

text \<open>Receiving side.  \<open>decode\<close> stands for the packet constructors of ndn-cxx on a block:
  the TLV type with the decoded packet, or nothing where the constructor throws.\<close>

datatype 'i decoded = DecodedInterest 'i | DecodedData 'i | UnknownType | DecodeError

text \<open>What goes up to the forwarder: an Interest with its \<^verbatim>\<open>NextHopFaceIdTag\<close>, Data with its
  \<^verbatim>\<open>CachePolicyTag\<close>, a Nack with its reason.\<close>

datatype 'i upcall = UpInterest 'i "u64 option" | UpData 'i "cache_policy option" | UpNack 'i nack_reason

definition decodeInterest :: "bool \<Rightarrow> lp_packet \<Rightarrow> 'i \<Rightarrow> 'i upcall option \<times> nat" where
  "decodeInterest allowLocalFields firstPkt interest =
    (case lp_nextHopFaceId firstPkt of
       Some i \<Rightarrow>
         if \<not> allowLocalFields then (None, 0)
         else if lp_cachePolicy firstPkt \<noteq> None then (None, 1)
         else (Some (UpInterest interest (Some i)), 0)
     | None \<Rightarrow>
         if lp_cachePolicy firstPkt \<noteq> None then (None, 1)
         else (Some (UpInterest interest None), 0))"

definition decodeData :: "bool \<Rightarrow> lp_packet \<Rightarrow> 'i \<Rightarrow> 'i upcall option \<times> nat" where
  "decodeData allowLocalFields firstPkt d =
    (if lp_nack firstPkt \<noteq> None then (None, 1)
     else if lp_nextHopFaceId firstPkt \<noteq> None then (None, 1)
     else if allowLocalFields then
       (if lp_cachePolicy firstPkt = Some InvalidCachePolicyType then (None, 1)
        else (Some (UpData d (lp_cachePolicy firstPkt)), 0))
     else (Some (UpData d None), 0))"

definition decodeNack :: "lp_packet \<Rightarrow> nack_reason \<Rightarrow> 'i \<Rightarrow> 'i upcall option \<times> nat" where
  "decodeNack firstPkt reason interest =
    (if lp_nextHopFaceId firstPkt \<noteq> None then (None, 1)
     else if lp_cachePolicy firstPkt \<noteq> None then (None, 1)
     else (Some (UpNack interest reason), 0))"

definition decodeNetPacket ::
  "(byte list \<Rightarrow> 'i decoded) \<Rightarrow> bool \<Rightarrow> byte list \<Rightarrow> lp_packet \<Rightarrow> 'i upcall option \<times> nat" where
  "decodeNetPacket decode allowLocalFields netPkt firstPkt =
    (case decode netPkt of
       DecodedInterest i \<Rightarrow>
         (case lp_nack firstPkt of
            Some reason \<Rightarrow> decodeNack firstPkt reason i
          | None \<Rightarrow> decodeInterest allowLocalFields firstPkt i)
     | DecodedData d \<Rightarrow> decodeData allowLocalFields firstPkt d
     | UnknownType \<Rightarrow> (None, 1)
     | DecodeError \<Rightarrow> (None, 1))"

definition doReceivePacket ::
  "(byte list \<Rightarrow> bool) \<Rightarrow> (byte list \<Rightarrow> 'i decoded) \<Rightarrow> time \<Rightarrow> endpoint_id \<Rightarrow> lp_packet \<Rightarrow> link_service \<Rightarrow>
   lp_error + 'i upcall option \<times> link_service" where
  "doReceivePacket parses decode now remoteEndpoint pkt ls =
    (if lp_fragment pkt = None then Inr (None, ls)
     else if (lp_fragIndex pkt \<noteq> None \<or> lp_fragCount pkt \<noteq> None) \<and> \<not> ls_allowReassembly ls then
       Inr (None, ls)
     else
       case receiveFragment parses now remoteEndpoint pkt (ls_reassembler ls) of
         Inl e \<Rightarrow> Inl e
       | Inr (res, r) \<Rightarrow>
           let ls1 = ls\<lparr>ls_reassembler := r\<rparr>
           in (case res of
                 NotReassembled \<Rightarrow> Inr (None, ls1)
               | ThrowTlvError \<Rightarrow> Inr (None, ls1\<lparr>ls_nInLpInvalid := ls_nInLpInvalid ls1 + 1\<rparr>)
               | Reassembled netPkt firstPkt \<Rightarrow>
                   let (up, invalid) = decodeNetPacket decode (ls_allowLocalFields ls) netPkt firstPkt
                   in Inr (up, ls1\<lparr>ls_nInNetInvalid := ls_nInNetInvalid ls1 + invalid\<rparr>)))"

definition ls_timeout :: "message_key \<Rightarrow> link_service \<Rightarrow> link_service" where
  "ls_timeout key ls =
    (let (dropped, r) = timeoutPartialPacket key (ls_reassembler ls)
     in ls\<lparr>ls_reassembler := r,
           ls_nReassemblyTimeouts :=
             ls_nReassemblyTimeouts ls + (if dropped = None then 0 else 1)\<rparr>)"

end
