(* ===== verification/Link_Service_Correct.thy ===== *)
theory Link_Service_Correct
  imports Link_Service
begin

text \<open>
  Correctness of the link service: fragments fit the MTU and add up to the network packet,
  reassembly in any order restores it, and arbitrary fragments cannot break the
  reassembler.
\<close>

section \<open>Cutting a byte string into pieces\<close>

function chunks :: "nat \<Rightarrow> 'a list \<Rightarrow> 'a list list" where
  "chunks n xs = (if n = 0 \<or> xs = [] then [] else take n xs # chunks n (drop n xs))"
  by pat_completeness auto
termination by (relation "measure (\<lambda>(n, xs). length xs)") auto

declare chunks.simps [simp del]

lemma concat_chunks: "0 < n \<Longrightarrow> concat (chunks n xs) = xs"
  by (induction n xs rule: chunks.induct) (subst chunks.simps, auto)

lemma length_chunks:
  "0 < n \<Longrightarrow> length (chunks n xs) = length xs div n + (if length xs mod n \<noteq> 0 then 1 else 0)"
proof (induction n xs rule: chunks.induct)
  case (1 n xs)
  show ?case
  proof (cases "xs = []")
    case True
    then show ?thesis by (subst chunks.simps) simp
  next
    case False
    then have IH: "length (chunks n (drop n xs)) =
        (length xs - n) div n + (if (length xs - n) mod n \<noteq> 0 then 1 else 0)"
      using 1 by simp
    show ?thesis
    proof (cases "length xs < n")
      case True
      with False IH \<open>0 < n\<close> show ?thesis
        by (subst chunks.simps) (auto simp: div_less)
    next
      case le: False
      with False IH \<open>0 < n\<close> show ?thesis
        by (subst chunks.simps) (auto simp: le_div_geq le_mod_geq)
    qed
  qed
qed

lemma chunks_size: "x \<in> set (chunks n xs) \<Longrightarrow> length x \<le> n"
  by (induction n xs rule: chunks.induct) (subst (asm) (2) chunks.simps, auto split: if_splits)

section \<open>Fragmentation\<close>

text \<open>What the code relies on of the NDNLPv2 encoding: TLV sizes are at most one byte of
  type, nine of length (two bytes of header for the fixed-size numbers), and the size of the
  other headers is what \<^const>\<open>firstHeaderSize\<close> adds up.\<close>

definition codec_ok :: "(lp_packet \<Rightarrow> nat) \<Rightarrow> wire_elements \<Rightarrow> bool" where
  "codec_ok wireSize wireElements \<longleftrightarrow> firstHeaderSize wireElements emptyPacket = 0 \<and>
     (\<forall>p sequence idx cnt payload. lp_sequence p = None \<longrightarrow> lp_fragIndex p = None \<longrightarrow>
        lp_fragCount p = None \<longrightarrow>
        wireSize (p\<lparr>lp_sequence := sequence, lp_fragIndex := idx, lp_fragCount := cnt,
          lp_fragment := Some payload\<rparr>) \<le>
        10 + (if sequence = None then 0 else 10) + (if idx = None then 0 else 10) +
        (if cnt = None then 0 else 10) + firstHeaderSize wireElements p + 10 + length payload)"

definition mkFragment :: "nat \<Rightarrow> nat \<Rightarrow> byte list \<Rightarrow> lp_packet \<Rightarrow> lp_packet" where
  "mkFragment n i payload p = p\<lparr>lp_fragIndex := Some (of_nat i), lp_fragCount := Some (of_nat n),
     lp_fragment := Some payload\<rparr>"

definition pieces :: "nat \<Rightarrow> byte list \<Rightarrow> nat \<Rightarrow> nat \<Rightarrow> byte list list" where
  "pieces payloadSize xs b e =
    (if b < length xs then take (e - b) (drop b xs) # chunks payloadSize (drop e xs) else [])"

lemma pieces_step:
  assumes "b < length xs" "b < e" "0 < payloadSize"
  shows "pieces payloadSize xs b e =
    take (e - b) (drop b xs) # pieces payloadSize xs e (min (length xs) (e + payloadSize))"
proof -
  have "chunks payloadSize (drop e xs) = pieces payloadSize xs e (min (length xs) (e + payloadSize))"
  proof (cases "e < length xs")
    case True
    have "take (min (length xs) (e + payloadSize) - e) (drop e xs) = take payloadSize (drop e xs)"
      by (cases "length xs \<le> e + payloadSize") (simp_all add: min_def)
    moreover have "drop (min (length xs) (e + payloadSize)) xs = drop payloadSize (drop e xs)"
      by (simp add: min_def add.commute)
    ultimately show ?thesis
      using True assms(3) by (subst chunks.simps) (simp add: pieces_def)
  next
    case False
    then show ?thesis
      by (subst chunks.simps) (simp add: pieces_def)
  qed
  then show ?thesis
    using assms(1) by (simp add: pieces_def)
qed

lemma fragment_loop_spec:
  assumes "0 < payloadSize" and "b < length netPkt \<Longrightarrow> b < e"
    and "length frags = idx + length (pieces payloadSize netPkt b e)"
    and "\<And>i. i < length (pieces payloadSize netPkt b e) \<Longrightarrow>
      wireSize (mkFragment n (idx + i) (pieces payloadSize netPkt b e ! i) (frags ! (idx + i))) \<le> mtu"
  shows "fragment_loop wireSize mtu payloadSize n netPkt b e idx frags =
    Some (Inr (length frags, take idx frags @
      map (\<lambda>i. mkFragment n (idx + i) (pieces payloadSize netPkt b e ! i) (frags ! (idx + i)))
        [0..<length (pieces payloadSize netPkt b e)]))"
  using assms
proof (induction "length (pieces payloadSize netPkt b e)" arbitrary: b e idx frags)
  case 0
  then show ?case
    by (subst fragment_loop.simps) (auto simp: pieces_def split: if_splits)
next
  case (Suc k)
  let ?e' = "min (length netPkt) (e + payloadSize)"
  let ?ps = "pieces payloadSize netPkt e ?e'"
  have b: "b < length netPkt"
    using Suc.hyps(2) by (auto simp: pieces_def split: if_splits)
  have be: "b < e"
    using Suc.prems(2) b by simp
  have step: "pieces payloadSize netPkt b e = take (e - b) (drop b netPkt) # ?ps"
    using pieces_step[OF b be Suc.prems(1)] .
  then have k: "length ?ps = k"
    using Suc.hyps(2) by simp
  define frag where "frag = mkFragment n idx (take (e - b) (drop b netPkt)) (frags ! idx)"
  have size: "wireSize frag \<le> mtu"
    using Suc.prems(4)[of 0] step by (simp add: frag_def)
  have IH: "fragment_loop wireSize mtu payloadSize n netPkt e ?e' (idx + 1) (frags[idx := frag]) =
      Some (Inr (length (frags[idx := frag]), take (idx + 1) (frags[idx := frag]) @
        map (\<lambda>i. mkFragment n (idx + 1 + i) (?ps ! i) (frags[idx := frag] ! (idx + 1 + i)))
          [0..<length ?ps]))"
  proof (rule Suc.hyps(1))
    fix i assume "i < length ?ps"
    then show "wireSize (mkFragment n (idx + 1 + i) (?ps ! i) (frags[idx := frag] ! (idx + 1 + i))) \<le> mtu"
      using Suc.prems(4)[of "Suc i"] step by simp
  qed (use k Suc.prems step in auto)
  have "fragment_loop wireSize mtu payloadSize n netPkt b e idx frags =
      fragment_loop wireSize mtu payloadSize n netPkt e ?e' (idx + 1) (frags[idx := frag])"
    using b be size Suc.prems(3) step
    by (subst fragment_loop.simps) (simp add: frag_def mkFragment_def Let_def)
  also note IH
  also have "take (idx + 1) (frags[idx := frag]) = take idx frags @ [frag]"
    using Suc.prems(3) step by (simp add: take_Suc_conv_app_nth take_update_cancel)
  also have "map (\<lambda>i. mkFragment n (idx + i) (pieces payloadSize netPkt b e ! i) (frags ! (idx + i)))
      [0..<length (pieces payloadSize netPkt b e)] = frag #
      map (\<lambda>i. mkFragment n (idx + 1 + i) (?ps ! i) (frags[idx := frag] ! (idx + 1 + i))) [0..<length ?ps]"
    unfolding step by (simp add: frag_def upt_conv_Cons map_Suc_upt[symmetric] del: upt_Suc)
  ultimately show ?case
    by simp
qed


text \<open>A network packet before fragmentation.\<close>

definition unfragmented :: "lp_packet \<Rightarrow> byte list \<Rightarrow> bool" where
  "unfragmented p xs \<longleftrightarrow> lp_fragment p = Some xs \<and> lp_sequence p = None \<and>
     lp_fragIndex p = None \<and> lp_fragCount p = None"

text \<open>The result of the slow path: \<open>ps\<close> are the payloads.\<close>

definition fragmentsOf :: "lp_packet \<Rightarrow> byte list list \<Rightarrow> lp_packet list" where
  "fragmentsOf p ps =
    map (\<lambda>i. mkFragment (length ps) i (ps ! i) (if i = 0 then p else emptyPacket)) [0..<length ps]"

lemma length_fragmentsOf [simp]: "length (fragmentsOf p ps) = length ps"
  by (simp add: fragmentsOf_def)

lemma nth_fragmentsOf: "i < length ps \<Longrightarrow>
  fragmentsOf p ps ! i = mkFragment (length ps) i (ps ! i) (if i = 0 then p else emptyPacket)"
  by (simp add: fragmentsOf_def)

lemma codec_bound:
  assumes "codec_ok wireSize wireElements"
    and "lp_sequence p = None" and "lp_fragIndex p = None" and "lp_fragCount p = None"
  shows "wireSize (p\<lparr>lp_sequence := sequence, lp_fragIndex := idx, lp_fragCount := cnt,
      lp_fragment := Some payload\<rparr>) \<le>
    10 + (if sequence = None then 0 else 10) + (if idx = None then 0 else 10) +
    (if cnt = None then 0 else 10) + firstHeaderSize wireElements p + 10 + length payload"
  using assms unfolding codec_ok_def by blast

lemma codec_empty: "codec_ok wireSize wireElements \<Longrightarrow> firstHeaderSize wireElements emptyPacket = 0"
  by (simp add: codec_ok_def)

lemma codec_size:
  assumes "codec_ok wireSize wireElements" and "unfragmented p xs"
  shows "wireSize p \<le> 20 + firstHeaderSize wireElements p + length xs"
proof -
  have "p\<lparr>lp_sequence := None, lp_fragIndex := None, lp_fragCount := None, lp_fragment := Some xs\<rparr> = p"
    using assms(2) by (cases p) (simp add: unfragmented_def)
  then show ?thesis
    using codec_bound[OF assms(1), where p = p and sequence = None and idx = None and cnt = None and
        payload = xs] assms(2) by (simp add: unfragmented_def)
qed

lemma codec_fragment_size:
  assumes "codec_ok wireSize wireElements" and "lp_sequence p = None" and "lp_fragIndex p = None"
    and "lp_fragCount p = None"
  shows "wireSize (mkFragment n i payload p) \<le> 40 + firstHeaderSize wireElements p + length payload"
    and "wireSize ((mkFragment n i payload p)\<lparr>lp_sequence := Some s\<rparr>) \<le>
      50 + firstHeaderSize wireElements p + length payload"
proof -
  have "mkFragment n i payload p = p\<lparr>lp_sequence := None, lp_fragIndex := Some (of_nat i),
      lp_fragCount := Some (of_nat n), lp_fragment := Some payload\<rparr>"
    using assms(2) by (cases p) (simp add: mkFragment_def)
  then show "wireSize (mkFragment n i payload p) \<le> 40 + firstHeaderSize wireElements p + length payload"
    using codec_bound[OF assms, where sequence = None and idx = "Some (of_nat i)" and
        cnt = "Some (of_nat n)" and payload = payload] by simp
  have "(mkFragment n i payload p)\<lparr>lp_sequence := Some s\<rparr> =
      p\<lparr>lp_sequence := Some s, lp_fragIndex := Some (of_nat i),
      lp_fragCount := Some (of_nat n), lp_fragment := Some payload\<rparr>"
    by (simp add: mkFragment_def)
  then show "wireSize ((mkFragment n i payload p)\<lparr>lp_sequence := Some s\<rparr>) \<le>
      50 + firstHeaderSize wireElements p + length payload"
    using codec_bound[OF assms, where sequence = "Some s" and idx = "Some (of_nat i)" and
        cnt = "Some (of_nat n)" and payload = payload] by simp
qed

lemma emptyPacket_simps [simp]:
  "lp_sequence emptyPacket = None" "lp_fragIndex emptyPacket = None"
  "lp_fragCount emptyPacket = None" "lp_fragment emptyPacket = None"
  by (simp_all add: emptyPacket_def)

text \<open>Payloads small enough for the MTU, the first one beside the other headers.\<close>

definition fits :: "wire_elements \<Rightarrow> lp_packet \<Rightarrow> nat \<Rightarrow> byte list list \<Rightarrow> bool" where
  "fits wireElements p mtu ps \<longleftrightarrow>
     (\<forall>i < length ps. MAX_FRAG_OVERHEAD + (if i = 0 then firstHeaderSize wireElements p else 0) +
        length (ps ! i) \<le> mtu)"

lemma slow_path_pieces:
  assumes "MAX_FRAG_OVERHEAD + h < mtu" and "mtu - h - MAX_FRAG_OVERHEAD < length xs"
    and "h = firstHeaderSize wireElements p"
  defines "f \<equiv> min (length xs) (mtu - h - MAX_FRAG_OVERHEAD)" and "P \<equiv> mtu - MAX_FRAG_OVERHEAD"
  shows "0 < P" and "0 < f" and "concat (pieces P xs 0 f) = xs"
    and "length (pieces P xs 0 f) = fragmentCount (length xs) f P"
    and "2 \<le> length (pieces P xs 0 f)" and "fits wireElements p mtu (pieces P xs 0 f)"
proof -
  show P: "0 < P" and f: "0 < f"
    using assms by auto
  have ps: "pieces P xs 0 f = take f xs # chunks P (drop f xs)"
    using assms by (auto simp: pieces_def)
  show "concat (pieces P xs 0 f) = xs"
    by (simp add: ps concat_chunks[OF P])
  show "length (pieces P xs 0 f) = fragmentCount (length xs) f P"
    by (simp add: ps length_chunks[OF P] fragmentCount_def)
  have "chunks P (drop f xs) \<noteq> []"
    using concat_chunks[OF P, of "drop f xs"] assms(2) by (auto simp: f_def)
  then show "2 \<le> length (pieces P xs 0 f)"
    by (cases "chunks P (drop f xs)") (auto simp: ps)
  show "fits wireElements p mtu (pieces P xs 0 f)"
    unfolding fits_def
  proof (intro allI impI)
    fix i assume i: "i < length (pieces P xs 0 f)"
    show "MAX_FRAG_OVERHEAD + (if i = 0 then firstHeaderSize wireElements p else 0) +
        length (pieces P xs 0 f ! i) \<le> mtu"
    proof (cases i)
      case 0
      moreover have "length (take f xs) \<le> mtu - h - MAX_FRAG_OVERHEAD"
        by (simp add: f_def)
      ultimately show ?thesis
        using assms(1,3) by (simp add: ps)
    next
      case (Suc j)
      then have "length (chunks P (drop f xs) ! j) \<le> P"
        using i ps chunks_size[OF nth_mem, of j P] by simp
      then show ?thesis
        using Suc assms(1) unfolding ps by (simp add: P_def)
    qed
  qed
qed

lemma fragmentPacket_cases:
  assumes codec: "codec_ok wireSize wireElements" and p: "unfragmented p xs"
  shows "fragmentPacket wireSize wireElements nMax p mtu = Some (Inr (Some [p])) \<and>
      MAX_SINGLE_FRAG_OVERHEAD + wireSize p \<le> mtu \<or>
    fragmentPacket wireSize wireElements nMax p mtu = Some (Inr None) \<or>
    (\<exists>ps. fragmentPacket wireSize wireElements nMax p mtu = Some (Inr (Some (fragmentsOf p ps))) \<and>
       2 \<le> length ps \<and> length ps \<le> nMax \<and> concat ps = xs \<and> fits wireElements p mtu ps)"
proof -
  let ?h = "firstHeaderSize wireElements p"
  have fields: "lp_fragment p = Some xs" "lp_sequence p = None" "lp_fragIndex p = None"
      "lp_fragCount p = None"
    using p by (auto simp: unfragmented_def)
  show ?thesis
  proof (cases "MAX_SINGLE_FRAG_OVERHEAD + wireSize p \<le> mtu \<or> mtu < MAX_FRAG_OVERHEAD + ?h + 1")
    case True
    then show ?thesis
      using fields by (auto simp: fragmentPacket_def Let_def)
  next
    case False
    have h: "MAX_FRAG_OVERHEAD + ?h < mtu"
      using False by simp
    have long: "mtu - ?h - MAX_FRAG_OVERHEAD < length xs"
      using False codec_size[OF codec p]
      by (auto simp: MAX_SINGLE_FRAG_OVERHEAD_def MAX_FRAG_OVERHEAD_def)
    define f where "f = min (length xs) (mtu - ?h - MAX_FRAG_OVERHEAD)"
    define P where "P = mtu - MAX_FRAG_OVERHEAD"
    define ps where "ps = pieces P xs 0 f"
    note slow = slow_path_pieces[OF h long refl, folded f_def P_def, folded ps_def]
    let ?frags = "(replicate (length ps) emptyPacket)[0 := p]"
    have init: "?frags ! i = (if i = 0 then p else emptyPacket)" if "i < length ps" for i
      using that by (cases "length ps") (auto simp: nth_list_update)
    have size: "wireSize (mkFragment (length ps) (0 + i) (ps ! i) (?frags ! (0 + i))) \<le> mtu"
      if i: "i < length ps" for i
    proof -
      have "MAX_FRAG_OVERHEAD + (if i = 0 then ?h else 0) + length (ps ! i) \<le> mtu"
        using slow(6) i unfolding fits_def by blast
      then show ?thesis
        using codec_fragment_size(1)[OF codec fields(2-4), of "length ps" i "ps ! i"]
          codec_fragment_size(1)[OF codec, of emptyPacket "length ps" i "ps ! i"] init[OF i] codec
        by (auto simp: codec_ok_def MAX_FRAG_OVERHEAD_def split: if_splits)
    qed
    have "fragment_loop wireSize mtu P (length ps) xs 0 f 0 ?frags =
        Some (Inr (length ?frags, take 0 ?frags @
          map (\<lambda>i. mkFragment (length ps) (0 + i) (ps ! i) (?frags ! (0 + i))) [0..<length ps]))"
      by (rule fragment_loop_spec[where b = 0 and e = f and netPkt = xs and payloadSize = P,
          folded ps_def, OF slow(1,2)]) (simp, rule size)
    moreover have "map (\<lambda>i. mkFragment (length ps) (0 + i) (ps ! i) (?frags ! (0 + i))) [0..<length ps] =
        fragmentsOf p ps"
      unfolding fragmentsOf_def using init by (intro map_cong) auto
    ultimately have loop: "fragment_loop wireSize mtu P (length ps) xs 0 f 0 ?frags =
        Some (Inr (length ps, fragmentsOf p ps))"
      by simp
    have "fragmentPacket wireSize wireElements nMax p mtu =
        (if length ps > nMax then Some (Inr None) else Some (Inr (Some (fragmentsOf p ps))))"
      unfolding fragmentPacket_def fields option.case Let_def
      unfolding f_def[symmetric] P_def[symmetric] slow(4)[symmetric] loop
      using False by simp
    then show ?thesis
      using slow by auto
  qed
qed


section \<open>Sequence numbers\<close>

lemma assignSequences_spec:
  "assignSequences s ps = (s + of_nat (length ps),
     map (\<lambda>i. (ps ! i)\<lparr>lp_sequence := Some (s + 1 + of_nat i)\<rparr>) [0..<length ps])"
proof (induction ps arbitrary: s)
  case (Cons p ps)
  have "map (\<lambda>i. ((p # ps) ! i)\<lparr>lp_sequence := Some (s + 1 + of_nat i)\<rparr>) [0..<length (p # ps)] =
      p\<lparr>lp_sequence := Some (s + 1)\<rparr> #
      map (\<lambda>i. (ps ! i)\<lparr>lp_sequence := Some (s + 1 + 1 + of_nat i)\<rparr>) [0..<length ps]"
    by (simp add: map_upt_Suc add.assoc del: upt_Suc)
  then show ?case
    using Cons.IH[of "s + 1"] by (simp add: assignSequence_def add.assoc)
qed simp

lemma length_assigned [simp]: "length (snd (assignSequences s F)) = length F"
  by (simp add: assignSequences_spec)

lemma nth_assigned:
  "i < length ps \<Longrightarrow> snd (assignSequences s (fragmentsOf p ps)) ! i =
    (mkFragment (length ps) i (ps ! i) (if i = 0 then p else emptyPacket))
      \<lparr>lp_sequence := Some (s + 1 + of_nat i)\<rparr>"
  by (simp add: assignSequences_spec nth_fragmentsOf)

lemma assigned_payloads:
  "map (\<lambda>f. the (lp_fragment f)) (snd (assignSequences s (fragmentsOf p ps))) = ps"
  by (rule nth_equalityI) (auto simp: nth_assigned mkFragment_def)

section \<open>Reassembly\<close>

text \<open>The fragments \<open>F\<close> of one message with identifier \<open>m\<close> and payloads \<open>ps\<close>.\<close>

definition isMessage :: "u64 \<Rightarrow> byte list list \<Rightarrow> lp_packet list \<Rightarrow> bool" where
  "isMessage m ps F \<longleftrightarrow> length F = length ps \<and>
     (\<forall>i < length ps. lp_sequence (F ! i) = Some (m + of_nat i) \<and>
        lp_fragIndex (F ! i) = Some (of_nat i) \<and>
        lp_fragCount (F ! i) = Some (of_nat (length ps)) \<and> lp_fragment (F ! i) = Some (ps ! i))"

lemma isMessage_assign:
  "isMessage (s + 1) ps (snd (assignSequences s (fragmentsOf p ps)))"
  by (simp add: isMessage_def assignSequences_spec nth_fragmentsOf mkFragment_def)

text \<open>A partial packet that has received the fragments with index in \<open>I\<close>.\<close>

definition slots :: "lp_packet list \<Rightarrow> nat set \<Rightarrow> lp_packet list" where
  "slots F I = map (\<lambda>i. if i \<in> I then F ! i else emptyPacket) [0..<length F]"

definition partialFor :: "lp_packet list \<Rightarrow> nat set \<Rightarrow> partial_packet \<Rightarrow> bool" where
  "partialFor F I pp \<longleftrightarrow> pp_fragCount pp = length F \<and> pp_nReceivedFragments pp = card I \<and>
     pp_fragments pp = slots F I"

definition waiting :: "lp_packet list \<Rightarrow> nat set \<Rightarrow> message_key \<Rightarrow> reassembler \<Rightarrow> bool" where
  "waiting F I key r \<longleftrightarrow>
     (case re_partialPackets r key of
        None \<Rightarrow> I = {} | Some pp \<Rightarrow> I \<noteq> {} \<and> partialFor F I pp)"

lemma length_slots [simp]: "length (slots F I) = length F"
  by (simp add: slots_def)

lemma nth_slots: "i < length F \<Longrightarrow> slots F I ! i = (if i \<in> I then F ! i else emptyPacket)"
  by (simp add: slots_def)

lemma slots_insert: "i < length F \<Longrightarrow> (slots F I)[i := F ! i] = slots F (insert i I)"
  by (rule nth_equalityI) (auto simp: nth_slots nth_list_update)

lemma slots_empty: "slots F {} = replicate (length F) emptyPacket"
  by (rule nth_equalityI) (auto simp: nth_slots)

lemma slots_full: "{0..<length F} \<subseteq> I \<Longrightarrow> slots F I = F"
  by (rule nth_equalityI) (auto simp: nth_slots)

lemma doReassembly_concat:
  "length F = length ps \<Longrightarrow> (\<And>i. i < length ps \<Longrightarrow> lp_fragment (F ! i) = Some (ps ! i)) \<Longrightarrow>
   doReassembly F = Some (concat ps)"
proof (induction F arbitrary: ps)
  case (Cons p F)
  then obtain b bs where ps: "ps = b # bs"
    by (cases ps) auto
  have "lp_fragment p = Some b"
    using Cons.prems(2)[of 0] ps by simp
  moreover have "doReassembly F = Some (concat bs)"
    using Cons.prems(1) Cons.prems(2)[of "Suc _"] ps by (intro Cons.IH) auto
  ultimately show ?case
    using ps by simp
qed simp

lemma receive_fields:
  assumes "isMessage m ps F" and "2 \<le> length ps" "length ps \<le> re_nMaxFragments r"
      "length ps < 2 ^ 64" and "i < length ps" and "waiting F I (ep, m) r" and "i \<notin> I"
  defines "pp \<equiv> (case re_partialPackets r (ep, m) of None \<Rightarrow> newPartialPacket (length ps) | Some pp \<Rightarrow> pp)"
  defines "pp' \<equiv> pp\<lparr>pp_fragments := slots F (insert i I), pp_nReceivedFragments := Suc (card I)\<rparr>"
  shows "receiveFragment parses now ep (F ! i) r =
    (if Suc (card I) = length ps then
       (case doReassembly (slots F (insert i I)) of
          None \<Rightarrow> Inr (ThrowTlvError, r\<lparr>re_partialPackets := (re_partialPackets r)((ep, m) := Some pp')\<rparr>)
        | Some bytes \<Rightarrow>
            if \<not> parses bytes then
              Inr (ThrowTlvError, r\<lparr>re_partialPackets := (re_partialPackets r)((ep, m) := Some pp')\<rparr>)
            else Inr (Reassembled bytes (slots F (insert i I) ! 0),
              r\<lparr>re_partialPackets := (re_partialPackets r)((ep, m) := None)\<rparr>))
     else Inr (NotReassembled, r\<lparr>re_partialPackets := (re_partialPackets r)((ep, m) :=
         Some (pp'\<lparr>pp_dropTimer := Some (now + re_timeout r)\<rparr>))\<rparr>))"
proof -
  have F: "lp_sequence (F ! i) = Some (m + of_nat i)" "lp_fragIndex (F ! i) = Some (of_nat i)"
      "lp_fragCount (F ! i) = Some (of_nat (length ps))" "lp_fragment (F ! i) = Some (ps ! i)"
      "length F = length ps"
    using assms(1,5) by (auto simp: isMessage_def)
  have u: "unat (of_nat i :: u64) = i" "unat (of_nat (length ps) :: u64) = length ps"
    using assms(4,5) by (simp_all add: unat_of_nat)
  have pp: "pp_fragCount pp = length ps" "pp_nReceivedFragments pp = card I"
      "pp_fragments pp = slots F I"
    using assms(6) F(5)
    by (auto simp: pp_def waiting_def newPartialPacket_def partialFor_def slots_empty
        split: option.splits)
  have "lp_sequence (slots F I ! i) = None" "(slots F I)[i := F ! i] = slots F (insert i I)"
    using assms(5,7) F(5) by (simp_all add: nth_slots slots_insert)
  then show ?thesis
    unfolding receiveFragment_def F option.case u Let_def
    unfolding add_diff_cancel_right' pp_def[symmetric]
    using assms(2,3,5) F(5) pp by (simp add: pp'_def Let_def split: option.split)
qed


lemma receive_more:
  assumes "isMessage m ps F" and "2 \<le> length ps" "length ps \<le> re_nMaxFragments r"
      "length ps < 2 ^ 64" and "i < length ps" and "waiting F I (ep, m) r" and "i \<notin> I" and "finite I"
    and "Suc (card I) < length ps"
  shows "\<exists>r'. receiveFragment parses now ep (F ! i) r = Inr (NotReassembled, r') \<and>
    waiting F (insert i I) (ep, m) r' \<and>
    r'\<lparr>re_partialPackets := (re_partialPackets r')((ep, m) := None)\<rparr> =
      r\<lparr>re_partialPackets := (re_partialPackets r)((ep, m) := None)\<rparr>"
proof -
  have "length F = length ps"
    using assms(1) by (simp add: isMessage_def)
  moreover have "pp_fragCount (case re_partialPackets r (ep, m) of
      None \<Rightarrow> newPartialPacket (length ps) | Some pp \<Rightarrow> pp) = length F"
    using assms(6) calculation
    by (auto simp: waiting_def newPartialPacket_def partialFor_def split: option.splits)
  ultimately show ?thesis
    using receive_fields[OF assms(1-7)] assms(7-9) by (simp add: waiting_def partialFor_def)
qed

lemma receive_last:
  assumes "isMessage m ps F" and "2 \<le> length ps" "length ps \<le> re_nMaxFragments r"
      "length ps < 2 ^ 64" and "i < length ps" and "waiting F I (ep, m) r" and "i \<notin> I"
    and "insert i I = {0..<length ps}" and "parses (concat ps)"
  shows "receiveFragment parses now ep (F ! i) r = Inr (Reassembled (concat ps) (F ! 0),
    r\<lparr>re_partialPackets := (re_partialPackets r)((ep, m) := None)\<rparr>)"
proof -
  have len: "length F = length ps"
    using assms(1) by (simp add: isMessage_def)
  then have "slots F (insert i I) = F"
    using assms(8) by (intro slots_full) simp
  moreover have "Suc (card I) = length ps"
    using assms(7,8) by (metis card_atLeastLessThan card_insert_disjoint diff_zero
        finite_atLeastLessThan finite_insert)
  moreover have "doReassembly F = Some (concat ps)"
    using assms(1) by (intro doReassembly_concat) (auto simp: isMessage_def)
  ultimately show ?thesis
    using receive_fields[OF assms(1-7)] assms(9) by simp
qed

text \<open>A sequence of receptions from one endpoint, with the results in order.\<close>

fun receiveAll :: "(byte list \<Rightarrow> bool) \<Rightarrow> time \<Rightarrow> endpoint_id \<Rightarrow> lp_packet list \<Rightarrow> reassembler \<Rightarrow>
  lp_error + recv_result list \<times> reassembler" where
  "receiveAll parses now ep [] r = Inr ([], r)"
| "receiveAll parses now ep (p # ps) r =
    (case receiveFragment parses now ep p r of
       Inl e \<Rightarrow> Inl e
     | Inr (x, r') \<Rightarrow>
         (case receiveAll parses now ep ps r' of Inl e \<Rightarrow> Inl e | Inr (xs, r'') \<Rightarrow> Inr (x # xs, r'')))"

lemma receiveAll_message:
  assumes "isMessage m ps F" and "2 \<le> length ps" and "length ps < 2 ^ 64" and "parses (concat ps)"
  shows "length ps \<le> re_nMaxFragments r \<Longrightarrow> waiting F I (ep, m) r \<Longrightarrow> js \<noteq> [] \<Longrightarrow> distinct js \<Longrightarrow>
    set js \<inter> I = {} \<Longrightarrow> set js \<union> I = {0..<length ps} \<Longrightarrow>
    receiveAll parses now ep (map ((!) F) js) r =
      Inr (replicate (length js - 1) NotReassembled @ [Reassembled (concat ps) (F ! 0)],
        r\<lparr>re_partialPackets := (re_partialPackets r)((ep, m) := None)\<rparr>)"
proof (induction js arbitrary: I r)
  case (Cons j js)
  have j: "j < length ps" "j \<notin> I"
    using Cons.prems by auto
  show ?case
  proof (cases "js = []")
    case True
    then show ?thesis
      using receive_last[OF assms(1,2) Cons.prems(1) assms(3) j(1) Cons.prems(2) j(2)]
        Cons.prems(6) assms(4) by (simp add: fun_upd_def)
  next
    case False
    have fin: "finite I"
      using Cons.prems(6) by (metis finite_Un finite_atLeastLessThan)
    have "card (set (j # js)) + card I = length ps"
      using Cons.prems(5,6) fin by (metis card_Un_disjoint card_atLeastLessThan diff_zero
          finite_set)
    then have "Suc (card I) < length ps"
      using Cons.prems(4) False by (cases js) (auto simp: distinct_card card_insert_if)
    from receive_more[OF assms(1,2) Cons.prems(1) assms(3) j(1) Cons.prems(2) j(2) fin this]
    obtain r' where r': "receiveFragment parses now ep (F ! j) r = Inr (NotReassembled, r')"
        "waiting F (insert j I) (ep, m) r'"
        "r'\<lparr>re_partialPackets := (re_partialPackets r')((ep, m) := None)\<rparr> =
          r\<lparr>re_partialPackets := (re_partialPackets r)((ep, m) := None)\<rparr>"
      by blast
    have "re_nMaxFragments r' = re_nMaxFragments r"
      using arg_cong[OF r'(3), of re_nMaxFragments] by simp
    then have "receiveAll parses now ep (map ((!) F) js) r' =
        Inr (replicate (length js - 1) NotReassembled @ [Reassembled (concat ps) (F ! 0)],
          r'\<lparr>re_partialPackets := (re_partialPackets r')((ep, m) := None)\<rparr>)"
      using Cons.prems r'(2) False by (intro Cons.IH) auto
    with r'(1,3) False show ?thesis
      by (cases js) (auto simp: fun_upd_def)
  qed
qed simp


section \<open>Arbitrary input\<close>

definition received :: "partial_packet \<Rightarrow> nat set" where
  "received pp = {j. j < length (pp_fragments pp) \<and> lp_sequence (pp_fragments pp ! j) \<noteq> None}"

definition pp_inv :: "partial_packet \<Rightarrow> bool" where
  "pp_inv pp \<longleftrightarrow> length (pp_fragments pp) = pp_fragCount pp \<and>
     pp_nReceivedFragments pp = card (received pp) \<and>
     (\<forall>j \<in> received pp. lp_fragment (pp_fragments pp ! j) \<noteq> None)"

definition re_inv :: "reassembler \<Rightarrow> bool" where
  "re_inv r \<longleftrightarrow> (\<forall>pp \<in> ran (re_partialPackets r). pp_inv pp)"

lemma finite_received: "finite (received pp)"
  by (simp add: received_def)

lemma pp_inv_new: "pp_inv (newPartialPacket n)"
  by (auto simp: pp_inv_def newPartialPacket_def received_def)

lemma received_update:
  assumes "i < length (pp_fragments pp)" and "lp_sequence p \<noteq> None"
  shows "received (pp\<lparr>pp_fragments := (pp_fragments pp)[i := p], pp_nReceivedFragments := n\<rparr>) =
    insert i (received pp)"
  using assms by (auto simp: received_def nth_list_update split: if_splits)

lemma pp_inv_add:
  assumes "pp_inv pp" and "i < length (pp_fragments pp)" and "lp_sequence (pp_fragments pp ! i) = None"
    and "lp_sequence p \<noteq> None" and "lp_fragment p \<noteq> None"
  shows "pp_inv (pp\<lparr>pp_fragments := (pp_fragments pp)[i := p],
    pp_nReceivedFragments := pp_nReceivedFragments pp + 1\<rparr>)" (is "pp_inv ?pp")
proof -
  have r: "received ?pp = insert i (received pp)"
    using received_update[OF assms(2,4)] .
  have "i \<notin> received pp"
    using assms(3) by (simp add: received_def)
  then show ?thesis
    using assms unfolding pp_inv_def r
    by (auto simp: finite_received nth_list_update)
qed

lemma doReassembly_defined:
  "(\<forall>j < length F. lp_fragment (F ! j) \<noteq> None) \<Longrightarrow> doReassembly F \<noteq> None"
proof (induction F)
  case (Cons p F)
  have "lp_fragment p \<noteq> None"
    using Cons.prems by force
  moreover have "doReassembly F \<noteq> None"
    using Cons.prems by (intro Cons.IH) force
  ultimately show ?case
    by auto
qed simp

lemma pp_complete:
  assumes "pp_inv pp" and "pp_nReceivedFragments pp = pp_fragCount pp"
  shows "doReassembly (pp_fragments pp) \<noteq> None"
proof -
  have "received pp \<subseteq> {..<length (pp_fragments pp)}"
    by (auto simp: received_def)
  moreover have "card (received pp) = card {..<length (pp_fragments pp)}"
    using assms by (simp add: pp_inv_def)
  ultimately have "received pp = {..<length (pp_fragments pp)}"
    by (simp add: card_subset_eq)
  then show ?thesis
    using assms(1) by (intro doReassembly_defined) (auto simp: pp_inv_def)
qed

lemma re_inv_upd: "re_inv r \<Longrightarrow> pp_inv pp \<Longrightarrow>
  re_inv (r\<lparr>re_partialPackets := (re_partialPackets r)(key := Some pp)\<rparr>)"
  by (auto simp: re_inv_def ran_def)

lemma re_inv_del: "re_inv r \<Longrightarrow>
  re_inv (r\<lparr>re_partialPackets := (re_partialPackets r)(key := None)\<rparr>)"
  by (auto simp: re_inv_def ran_def split: if_splits)

lemma pp_inv_timer [simp]: "pp_inv (pp\<lparr>pp_dropTimer := x\<rparr>) = pp_inv pp"
  by (simp add: pp_inv_def received_def)


lemma receiveFragment_inv:
  assumes inv: "re_inv r" and frag: "lp_fragment packet = Some payload"
  shows "\<exists>res r'. receiveFragment parses now ep packet r = Inr (res, r') \<and> re_inv r' \<and>
    (\<forall>bytes first. res = Reassembled bytes first \<longrightarrow> parses bytes)"
proof -
  define i where "i = (case lp_fragIndex packet of Some i \<Rightarrow> unat i | None \<Rightarrow> 0)"
  define n where "n = (case lp_fragCount packet of Some n \<Rightarrow> unat n | None \<Rightarrow> 1)"
  show ?thesis
  proof (cases "n \<le> i \<or> n > re_nMaxFragments r \<or> i = 0 \<and> n = 1 \<or> lp_sequence packet = None")
    case True
    then show ?thesis
      using inv frag
      by (auto simp: receiveFragment_def i_def[symmetric] n_def[symmetric] split: option.splits)
  next
    case False
    then obtain sequence where sequence: "lp_sequence packet = Some sequence"
      by auto
    define key where "key = (ep, sequence - of_nat i)"
    define pp where "pp = (case re_partialPackets r key of None \<Rightarrow> newPartialPacket n | Some pp \<Rightarrow> pp)"
    have pp: "pp_inv pp"
      using inv pp_inv_new ranI by (fastforce simp: pp_def re_inv_def split: option.splits)
    define pp' where "pp' = pp\<lparr>pp_fragments := (pp_fragments pp)[i := packet],
      pp_nReceivedFragments := pp_nReceivedFragments pp + 1\<rparr>"
    have unfold: "receiveFragment parses now ep packet r =
      (if n \<noteq> pp_fragCount pp \<or> lp_sequence (pp_fragments pp ! i) \<noteq> None then
         Inr (NotReassembled, r\<lparr>re_partialPackets := (re_partialPackets r)(key := Some pp)\<rparr>)
       else if pp_nReceivedFragments pp' = pp_fragCount pp' then
         (case doReassembly (pp_fragments pp') of
            None \<Rightarrow> Inr (ThrowTlvError, r\<lparr>re_partialPackets := (re_partialPackets r)(key := Some pp')\<rparr>)
          | Some bytes \<Rightarrow>
              if \<not> parses bytes then
                Inr (ThrowTlvError, r\<lparr>re_partialPackets := (re_partialPackets r)(key := Some pp')\<rparr>)
              else Inr (Reassembled bytes (pp_fragments pp' ! 0),
                r\<lparr>re_partialPackets := (re_partialPackets r)(key := None)\<rparr>))
       else Inr (NotReassembled, r\<lparr>re_partialPackets := (re_partialPackets r)(key :=
              Some (pp'\<lparr>pp_dropTimer := Some (now + re_timeout r)\<rparr>))\<rparr>))"
      unfolding receiveFragment_def frag sequence option.case Let_def
      unfolding i_def[symmetric] n_def[symmetric]
      unfolding key_def[symmetric] pp_def[symmetric] pp'_def[symmetric]
      using False pp by (auto simp: pp_inv_def)
    show ?thesis
    proof (cases "n \<noteq> pp_fragCount pp \<or> lp_sequence (pp_fragments pp ! i) \<noteq> None")
      case True
      then show ?thesis
        using unfold re_inv_upd[OF inv pp] by auto
    next
      case ok: False
      have "pp_inv pp'"
        unfolding pp'_def using ok False frag sequence pp
        by (intro pp_inv_add) (auto simp: pp_inv_def)
      then show ?thesis
        using unfold ok re_inv_upd[OF inv] re_inv_del[OF inv] pp_complete[of pp']
        by (auto split: option.splits)
    qed
  qed
qed


section \<open>Properties\<close>

text \<open>A concrete encoding size for the witnesses.\<close>

definition exHeader :: "lp_packet \<Rightarrow> nat" where
  "exHeader p = (if lp_nack p = None then 0 else 5) + (if lp_nextHopFaceId p = None then 0 else 10) +
     (if lp_cachePolicy p = None then 0 else 6) + (if lp_incomingFaceId p = None then 0 else 10)"

definition exWireSize :: "lp_packet \<Rightarrow> nat" where
  "exWireSize p = 4 + exHeader p + (if lp_sequence p = None then 0 else 10) +
     (if lp_fragIndex p = None then 0 else 3) + (if lp_fragCount p = None then 0 else 3) +
     (case lp_fragment p of None \<Rightarrow> 0 | Some xs \<Rightarrow> 4 + length xs)"

definition exWireElements :: wire_elements where
  "exWireElements p = Some [(False, exHeader p),
     (True, case lp_fragment p of None \<Rightarrow> 0 | Some xs \<Rightarrow> 4 + length xs)]"

lemma ex_codec_ok: "codec_ok exWireSize exWireElements"
  by (auto simp: codec_ok_def exWireSize_def exWireElements_def exHeader_def firstHeaderSize_def
      emptyPacket_def)

lemma unfragmented_lpPacket_of: "unfragmented (lpPacket_of local tag nack wire) wire"
  by (auto simp: unfragmented_def lpPacket_of_def encodeLocalFields_def emptyPacket_def Let_def
      split: option.splits)

lemma sendNetPacket_cases:
  assumes codec: "codec_ok wireSize wireElements" and p: "unfragmented p xs"
    and frag: "ls_allowFragmentation ls"
  shows "sendNetPacket wireSize wireElements (Some mtu) p ls = Some (Inr ([p], ls)) \<and> wireSize p \<le> mtu \<or>
    sendNetPacket wireSize wireElements (Some mtu) p ls =
      Some (Inr ([], ls\<lparr>ls_nFragmentationErrors := ls_nFragmentationErrors ls + 1\<rparr>)) \<or>
    (\<exists>ps F. sendNetPacket wireSize wireElements (Some mtu) p ls =
        Some (Inr (F, ls\<lparr>ls_lastSeqNo := ls_lastSeqNo ls + of_nat (length ps)\<rparr>)) \<and>
      F = snd (assignSequences (ls_lastSeqNo ls) (fragmentsOf p ps)) \<and> concat ps = xs \<and>
      2 \<le> length ps \<and> length ps \<le> ls_nMaxFragments ls \<and> (\<forall>f \<in> set F. wireSize f \<le> mtu))"
proof -
  have fields: "lp_sequence p = None" "lp_fragIndex p = None" "lp_fragCount p = None"
    using p by (auto simp: unfragmented_def)
  consider (fast) "fragmentPacket wireSize wireElements (ls_nMaxFragments ls) p mtu = Some (Inr (Some [p]))"
      "MAX_SINGLE_FRAG_OVERHEAD + wireSize p \<le> mtu"
    | (fail) "fragmentPacket wireSize wireElements (ls_nMaxFragments ls) p mtu = Some (Inr None)"
    | (slow) ps where "fragmentPacket wireSize wireElements (ls_nMaxFragments ls) p mtu =
        Some (Inr (Some (fragmentsOf p ps)))" "2 \<le> length ps" "length ps \<le> ls_nMaxFragments ls"
        "concat ps = xs" "fits wireElements p mtu ps"
    using fragmentPacket_cases[OF codec p] by blast
  then show ?thesis
  proof cases
    case fast
    then show ?thesis
      using frag fields by (simp add: sendNetPacket_def transmit_def)
  next
    case fail
    then show ?thesis
      using frag by (simp add: sendNetPacket_def)
  next
    case slow
    define F where "F = snd (assignSequences (ls_lastSeqNo ls) (fragmentsOf p ps))"
    have seqs: "assignSequences (ls_lastSeqNo ls) (fragmentsOf p ps) =
        (ls_lastSeqNo ls + of_nat (length ps), F)"
      by (simp add: F_def assignSequences_spec)
    have size: "wireSize f \<le> mtu" if f: "f \<in> set F" for f
    proof -
      obtain i where i: "i < length ps"
          "f = (mkFragment (length ps) i (ps ! i) (if i = 0 then p else emptyPacket))
            \<lparr>lp_sequence := Some (ls_lastSeqNo ls + 1 + of_nat i)\<rparr>"
        using f nth_assigned[of _ ps "ls_lastSeqNo ls" p]
        by (auto simp: F_def in_set_conv_nth)
      have "MAX_FRAG_OVERHEAD + (if i = 0 then firstHeaderSize wireElements p else 0) +
          length (ps ! i) \<le> mtu"
        using slow(5) i(1) unfolding fits_def by blast
      then show ?thesis
        unfolding i(2)
        using codec_fragment_size(2)[OF codec fields, of "ls_lastSeqNo ls + 1 + of_nat i" "length ps" i
            "ps ! i"]
          codec_fragment_size(2)[OF codec, of emptyPacket "ls_lastSeqNo ls + 1 + of_nat i"
            "length ps" i "ps ! i"] codec_empty[OF codec]
        by (cases "i = 0") (simp_all add: MAX_FRAG_OVERHEAD_def)
    qed
    then have "transmit wireSize (Some mtu) F = (F, 0)"
      by (auto simp: transmit_def filter_empty_conv not_less)
    then have "sendNetPacket wireSize wireElements (Some mtu) p ls =
        Some (Inr (F, ls\<lparr>ls_lastSeqNo := ls_lastSeqNo ls + of_nat (length ps)\<rparr>))"
      using slow frag seqs by (simp add: sendNetPacket_def)
    then show ?thesis
      using slow size F_def by blast
  qed
qed

text \<open>C23. Sending with fragmentation never fails an assertion and never hands the
  transport a packet over the MTU: either everything is sent and fits, or the packet is
  dropped as a whole and counted as a fragmentation error.  In particular the fragmenter
  produces a single fragment only for a packet that needs no fragmentation.\<close>

theorem sendNetPacket_safe:
  assumes "codec_ok wireSize wireElements" and "unfragmented p xs" and "ls_allowFragmentation ls"
  shows "\<exists>sent ls'. sendNetPacket wireSize wireElements (Some mtu) p ls = Some (Inr (sent, ls')) \<and>
    (\<forall>f \<in> set sent. wireSize f \<le> mtu) \<and> ls_nOutOverMtu ls' = ls_nOutOverMtu ls \<and>
    (if sent = [] then ls_nFragmentationErrors ls' = ls_nFragmentationErrors ls + 1
     else ls_nFragmentationErrors ls' = ls_nFragmentationErrors ls \<and>
       concat (map (\<lambda>f. the (lp_fragment f)) sent) = xs)"
proof -
  have "concat (map (\<lambda>f. the (lp_fragment f)) (snd (assignSequences s (fragmentsOf p ps)))) = concat ps"
    for s ps
    by (simp add: assigned_payloads)
  moreover have "snd (assignSequences s (fragmentsOf p ps)) \<noteq> []" if "2 \<le> length ps" for s ps
    using that by (auto simp: assignSequences_spec)
  ultimately show ?thesis
    using sendNetPacket_cases[OF assms, of mtu] assms(2) by (fastforce simp: unfragmented_def)
qed

theorem sendNetPacket_safe_witness:
  "\<exists>sent ls'. sendNetPacket exWireSize exWireElements (Some 70)
      (lpPacket_of False None None (replicate 100 7))
      (GenericLinkService False True True 400 \<lparr>re_nMaxFragments = 400, re_timeout = 0,
        re_partialPackets = (\<lambda>_. None)\<rparr>) = Some (Inr (sent, ls')) \<and>
    length sent = 5 \<and> (\<forall>f \<in> set sent. exWireSize f \<le> 70)"
proof -
  let ?ls = "GenericLinkService False True True 400 \<lparr>re_nMaxFragments = 400, re_timeout = 0,
    re_partialPackets = (\<lambda>_. None)\<rparr>"
  have run: "case sendNetPacket exWireSize exWireElements (Some 70)
      (lpPacket_of False None None (replicate 100 7)) ?ls of
      Some (Inr (sent, _)) \<Rightarrow> length sent = 5 | _ \<Rightarrow> False"
    by code_simp
  show ?thesis
    using sendNetPacket_safe[OF ex_codec_ok unfragmented_lpPacket_of, of ?ls 70 False None None
        "replicate 100 7"] run
    by (auto simp: GenericLinkService_def)
qed


text \<open>C24. Fragmentation and reassembly are inverse: the packets sent for one network
  packet, received from one endpoint in any order, give back exactly that network packet on
  the last reception and nothing before; the headers come from the first fragment and no
  partial packet is left behind.  Message identifiers are 64-bit words and may wrap.\<close>

theorem lp_roundtrip:
  assumes "codec_ok wireSize wireElements" and "unfragmented p xs" and "ls_allowFragmentation ls"
    and "sendNetPacket wireSize wireElements (Some mtu) p ls = Some (Inr (sent, ls'))"
    and "sent \<noteq> []" and "parses xs" and "ls_nMaxFragments ls < 2 ^ 64"
    and "ls_nMaxFragments ls \<le> re_nMaxFragments r" and "1 \<le> re_nMaxFragments r"
    and "re_partialPackets r (ep, ls_lastSeqNo ls + 1) = None"
    and "distinct js" and "set js = {0..<length sent}"
  shows "receiveAll parses now ep (map ((!) sent) js) r =
    Inr (replicate (length sent - 1) NotReassembled @ [Reassembled xs (sent ! 0)], r)"
proof -
  have len: "length js = length sent"
    using assms(11,12) distinct_card by fastforce
  have clean: "r\<lparr>re_partialPackets := (re_partialPackets r)((ep, ls_lastSeqNo ls + 1) := None)\<rparr> = r"
    using assms(10) by (cases r) (auto simp: fun_upd_idem)
  consider (fast) "sent = [p]"
    | (slow) ps where "sent = snd (assignSequences (ls_lastSeqNo ls) (fragmentsOf p ps))"
        "concat ps = xs" "2 \<le> length ps" "length ps \<le> ls_nMaxFragments ls"
    using sendNetPacket_cases[OF assms(1-3), of mtu] assms(4,5) by auto
  then show ?thesis
  proof cases
    case fast
    then have "js = [0]"
      using assms(11,12) len by (cases js) auto
    with fast show ?thesis
      using assms(2,6,9) by (simp add: receiveFragment_def unfragmented_def)
  next
    case slow
    have "waiting sent {} (ep, ls_lastSeqNo ls + 1) r"
      using assms(10) by (simp add: waiting_def)
    moreover have "js \<noteq> []" "set js = {0..<length ps}"
      using assms(12) slow(1,3) len by auto
    ultimately show ?thesis
      using receiveAll_message[OF isMessage_assign slow(3), of parses r "ls_lastSeqNo ls" p "{}" ep js]
        slow assms(6-8,11) len clean by simp
  qed
qed

text \<open>C25. The reassembler withstands arbitrary fragments: whatever indices, counts and
  sequence numbers a packet claims, reception neither accesses a slot out of range nor reads
  a missing fragment, keeps the invariant of every partial packet, and only a byte string
  that parses as a block is passed up.\<close>

theorem receiveFragment_safe:
  assumes "re_inv r" and "lp_fragment packet \<noteq> None"
  shows "\<exists>res r'. receiveFragment parses now ep packet r = Inr (res, r') \<and> re_inv r' \<and>
    (\<forall>bytes first. res = Reassembled bytes first \<longrightarrow> parses bytes)"
  using receiveFragment_inv[OF assms(1)] assms(2) by blast

theorem receiveFragment_safe_witness:
  "\<exists>res r'. receiveFragment (\<lambda>_. True) 0 3
      (emptyPacket\<lparr>lp_fragment := Some [1], lp_fragIndex := Some 5, lp_fragCount := Some 9\<rparr>)
      \<lparr>re_nMaxFragments = 400, re_timeout = 1, re_partialPackets = (\<lambda>_. None)\<rparr> = Inr (res, r')"
proof -
  have "re_inv \<lparr>re_nMaxFragments = 400, re_timeout = 1, re_partialPackets = (\<lambda>_. None)\<rparr>"
    by (simp add: re_inv_def)
  from receiveFragment_safe[OF this, of "emptyPacket\<lparr>lp_fragment := Some [1],
      lp_fragIndex := Some 5, lp_fragCount := Some 9\<rparr>" "\<lambda>_. True" 0 3]
  show ?thesis
    by auto
qed


theorem lp_roundtrip_witness:
  "\<exists>sent ls'. sendNetPacket exWireSize exWireElements (Some 70)
      (lpPacket_of False None (Some NoRoute) (replicate 40 7))
      (GenericLinkService False True True 400 \<lparr>re_nMaxFragments = 400, re_timeout = 0,
        re_partialPackets = (\<lambda>_. None)\<rparr>) = Some (Inr (sent, ls')) \<and>
    receiveAll (\<lambda>_. True) 0 9 (map ((!) sent) [2, 0, 1])
        \<lparr>re_nMaxFragments = 400, re_timeout = 0, re_partialPackets = (\<lambda>_. None)\<rparr> =
      Inr ([NotReassembled, NotReassembled, Reassembled (replicate 40 7) (sent ! 0)],
        \<lparr>re_nMaxFragments = 400, re_timeout = 0, re_partialPackets = (\<lambda>_. None)\<rparr>)"
proof -
  let ?r = "\<lparr>re_nMaxFragments = 400, re_timeout = 0, re_partialPackets = (\<lambda>_. None)\<rparr>"
  let ?ls = "GenericLinkService False True True 400 ?r"
  let ?p = "lpPacket_of False None (Some NoRoute) (replicate 40 7)"
  have "case sendNetPacket exWireSize exWireElements (Some 70) ?p ?ls of
      Some (Inr (sent, _)) \<Rightarrow> length sent = 3 | _ \<Rightarrow> False"
    by code_simp
  then obtain sent ls' where sent: "sendNetPacket exWireSize exWireElements (Some 70) ?p ?ls =
      Some (Inr (sent, ls'))" "length sent = 3"
    by (auto split: option.split_asm sum.split_asm prod.split_asm)
  have frag: "ls_allowFragmentation ?ls" "ls_nMaxFragments ?ls = 400"
    by (simp_all add: GenericLinkService_def)
  have js: "set [2, 0, 1] = {0..<length sent}"
    using sent(2) by auto
  have "sent \<noteq> []"
    using sent(2) by auto
  from lp_roundtrip[OF ex_codec_ok unfragmented_lpPacket_of frag(1) sent(1) this, of "\<lambda>_. True" ?r 9
      "[2, 0, 1]" 0] js sent frag show ?thesis
    by (auto simp: numeral_3_eq_3)
qed

end
