(* ===== verification/Transport.thy ===== *)
theory Transport
  imports Nfd_Prelude
begin

text \<open>
  The transport base class of \<^verbatim>\<open>src/daemon/face/transport.cpp\<close>: its state machine, its
  counters, and the guards on sending, receiving and changing persistency.  The virtual
  functions \<^verbatim>\<open>doClose\<close>, \<^verbatim>\<open>doSend\<close> and \<^verbatim>\<open>beforeChangePersistency\<close> belong to the concrete
  transports; \<^verbatim>\<open>doClose\<close> and \<^verbatim>\<open>beforeChangePersistency\<close> are parameters, and what reaches
  \<^verbatim>\<open>doSend\<close> is recorded.  A packet is represented by its size.
\<close>

datatype transport_state = UP | DOWN | CLOSING | FAILED | CLOSED

datatype persistency = PersistencyNone | OnDemand | Persistent | Permanent

datatype transport_error = InvalidStateTransition | InvalidPersistencyTransition | OverMtu

text \<open>\<^const>\<open>None\<close> as MTU is \<^verbatim>\<open>MTU_UNLIMITED\<close>.  \<open>tr_changes\<close> lists the arguments of the
  signal \<^verbatim>\<open>afterStateChange\<close>, \<open>tr_doSend\<close> the packets passed to \<^verbatim>\<open>doSend\<close>, both latest
  first.\<close>

record transport =
  tr_state :: transport_state
  tr_persistency :: persistency
  tr_mtu :: "nat option"
  tr_nOutPackets :: nat
  tr_nOutBytes :: nat
  tr_nInPackets :: nat
  tr_nInBytes :: nat
  tr_changes :: "(transport_state \<times> transport_state) list"
  tr_doSend :: "nat list"

definition newTransport :: "nat option \<Rightarrow> transport" where
  "newTransport mtu = \<lparr>tr_state = UP, tr_persistency = PersistencyNone, tr_mtu = mtu,
     tr_nOutPackets = 0, tr_nOutBytes = 0, tr_nInPackets = 0, tr_nInBytes = 0,
     tr_changes = [], tr_doSend = []\<rparr>"

fun validTransition :: "transport_state \<Rightarrow> transport_state \<Rightarrow> bool" where
  "validTransition UP newState = (newState = DOWN \<or> newState = CLOSING \<or> newState = FAILED)"
| "validTransition DOWN newState = (newState = UP \<or> newState = CLOSING \<or> newState = FAILED)"
| "validTransition CLOSING newState = (newState = CLOSED)"
| "validTransition FAILED newState = (newState = CLOSED)"
| "validTransition CLOSED newState = False"

definition setState :: "transport_state \<Rightarrow> transport \<Rightarrow> transport_error + transport" where
  "setState newState t =
    (if tr_state t = newState then Inr t
     else if \<not> validTransition (tr_state t) newState then Inl InvalidStateTransition
     else Inr (t\<lparr>tr_state := newState, tr_changes := (tr_state t, newState) # tr_changes t\<rparr>))"

definition close :: "(transport \<Rightarrow> transport_error + transport) \<Rightarrow> transport \<Rightarrow> transport_error + transport" where
  "close doClose t =
    (if tr_state t \<noteq> UP \<and> tr_state t \<noteq> DOWN then Inr t
     else (case setState CLOSING t of Inl e \<Rightarrow> Inl e | Inr t' \<Rightarrow> doClose t'))"

definition overMtu :: "transport \<Rightarrow> nat \<Rightarrow> bool" where
  "overMtu t n = (case tr_mtu t of None \<Rightarrow> False | Some m \<Rightarrow> n > m)"

definition send :: "nat \<Rightarrow> transport \<Rightarrow> transport_error + transport" where
  "send n t =
    (if overMtu t n then Inl OverMtu
     else if tr_state t \<noteq> UP \<and> tr_state t \<noteq> DOWN then Inr t
     else
       let t = (if tr_state t = UP
                then t\<lparr>tr_nOutPackets := tr_nOutPackets t + 1, tr_nOutBytes := tr_nOutBytes t + n\<rparr>
                else t)
       in Inr (t\<lparr>tr_doSend := n # tr_doSend t\<rparr>))"

definition receive :: "nat \<Rightarrow> transport \<Rightarrow> transport_error + transport" where
  "receive n t =
    (if overMtu t n then Inl OverMtu
     else Inr (t\<lparr>tr_nInPackets := tr_nInPackets t + 1, tr_nInBytes := tr_nInBytes t + n\<rparr>))"

text \<open>\<open>allowed\<close> is false where \<^verbatim>\<open>beforeChangePersistency\<close> throws.\<close>

definition setPersistency ::
  "(transport \<Rightarrow> persistency \<Rightarrow> bool) \<Rightarrow> persistency \<Rightarrow> transport \<Rightarrow> transport_error + transport" where
  "setPersistency allowed newPersistency t =
    (if tr_persistency t = newPersistency then Inr t
     else if newPersistency = PersistencyNone then Inl InvalidPersistencyTransition
     else if tr_persistency t \<noteq> PersistencyNone \<and> \<not> allowed t newPersistency then
       Inl InvalidPersistencyTransition
     else Inr (t\<lparr>tr_persistency := newPersistency\<rparr>))"

text \<open>Everything that can happen to a transport: its own operations and the state changes
  that the concrete transport asks for.  A call that throws leaves the transport as it is.\<close>

inductive transport_step :: "transport \<Rightarrow> transport \<Rightarrow> bool" where
  step_state: "setState newState t = Inr t' \<Longrightarrow> transport_step t t'"
| step_close: "close Inr t = Inr t' \<Longrightarrow> transport_step t t'"
| step_send: "send n t = Inr t' \<Longrightarrow> transport_step t t'"
| step_receive: "receive n t = Inr t' \<Longrightarrow> transport_step t t'"
| step_persistency: "setPersistency allowed p t = Inr t' \<Longrightarrow> transport_step t t'"

inductive transport_steps :: "transport \<Rightarrow> transport \<Rightarrow> bool" where
  steps_refl: "transport_steps t t"
| steps_step: "transport_steps t t' \<Longrightarrow> transport_step t' t'' \<Longrightarrow> transport_steps t t''"

inductive_cases transport_stepE: "transport_step t t'"

section \<open>Lemmas\<close>

text \<open>How far a transport is on its way to being closed.\<close>

fun closeness :: "transport_state \<Rightarrow> nat" where
  "closeness UP = 0"
| "closeness DOWN = 0"
| "closeness CLOSING = 1"
| "closeness FAILED = 1"
| "closeness CLOSED = 2"

lemma validTransition_closeness: "validTransition s s' \<Longrightarrow> closeness s \<le> closeness s'"
  by (cases s) auto

lemma validTransition_final: "validTransition s s' \<Longrightarrow> closeness s > 0 \<Longrightarrow> s' = CLOSED"
  by (cases s) auto

lemma setState_valid:
  "setState s t = Inr t' \<Longrightarrow> t' = t \<or> validTransition (tr_state t) (tr_state t') \<and>
    tr_changes t' = (tr_state t, tr_state t') # tr_changes t \<and> tr_doSend t' = tr_doSend t"
  by (auto simp: setState_def split: if_splits)

lemma transport_step_state:
  assumes "transport_step t t'"
  shows "tr_state t' = tr_state t \<and> tr_changes t' = tr_changes t \<or>
    validTransition (tr_state t) (tr_state t') \<and>
    tr_changes t' = (tr_state t, tr_state t') # tr_changes t"
  using assms
proof (cases rule: transport_step.cases)
  case (step_close)
  then show ?thesis
    by (auto simp: close_def dest: setState_valid split: if_splits sum.splits)
next
  case (step_state s)
  then show ?thesis
    using setState_valid by blast
qed (auto simp: send_def receive_def setPersistency_def Let_def split: if_splits)

lemma transport_step_sends:
  "transport_step t t' \<Longrightarrow> closeness (tr_state t) > 0 \<Longrightarrow> tr_doSend t' = tr_doSend t"
  by (erule transport_stepE)
    (auto simp: setState_def close_def send_def receive_def setPersistency_def split: if_splits sum.splits)

text \<open>The recorded changes form a path of valid transitions that ends in the present
  state.\<close>

fun valid_path :: "transport_state \<Rightarrow> (transport_state \<times> transport_state) list \<Rightarrow> bool" where
  "valid_path s [] \<longleftrightarrow> s = UP"
| "valid_path s ((a, b) # cs) \<longleftrightarrow> s = b \<and> validTransition a b \<and> valid_path a cs"

lemma transport_steps_path:
  "transport_steps t t' \<Longrightarrow> valid_path (tr_state t) (tr_changes t) \<Longrightarrow>
   valid_path (tr_state t') (tr_changes t')"
proof (induction rule: transport_steps.induct)
  case (steps_step t t' t'')
  then show ?case
    using transport_step_state[OF steps_step(2)] by auto
qed

lemma transport_steps_closing:
  "transport_steps t t' \<Longrightarrow> closeness (tr_state t) > 0 \<Longrightarrow>
   (tr_state t' = tr_state t \<or> tr_state t' = CLOSED) \<and> closeness (tr_state t') > 0 \<and>
   tr_doSend t' = tr_doSend t"
proof (induction rule: transport_steps.induct)
  case (steps_step t t' t'')
  then show ?case
    using transport_step_state[OF steps_step(2)] transport_step_sends[OF steps_step(2)]
      validTransition_final by fastforce
qed simp

section \<open>Properties\<close>

text \<open>C26. Life cycle of a transport: the state changes it announces form a path of valid
  transitions from \<^verbatim>\<open>UP\<close>; once it is closing, failed or closed it only moves to
  \<^verbatim>\<open>CLOSED\<close> and no packet reaches \<^verbatim>\<open>doSend\<close> any more; an invalid transition is rejected
  without a change.\<close>

theorem transport_lifecycle:
  assumes "transport_steps (newTransport mtu) t"
  shows "valid_path (tr_state t) (tr_changes t) \<and>
    (transport_steps t t' \<and> tr_state t \<noteq> UP \<and> tr_state t \<noteq> DOWN \<longrightarrow>
       (tr_state t' = tr_state t \<or> tr_state t' = CLOSED) \<and> tr_doSend t' = tr_doSend t) \<and>
    (tr_state t \<noteq> s \<and> \<not> validTransition (tr_state t) s \<longrightarrow> setState s t = Inl InvalidStateTransition)"
proof -
  have "closeness (tr_state t) > 0" if "tr_state t \<noteq> UP" "tr_state t \<noteq> DOWN"
    using that by (cases "tr_state t") auto
  moreover have "valid_path (tr_state t) (tr_changes t)"
    by (rule transport_steps_path[OF assms]) (simp add: newTransport_def)
  ultimately show ?thesis
    using transport_steps_closing[of t t'] by (auto simp: setState_def)
qed

theorem transport_lifecycle_witness:
  "\<exists>t t'. close Inr (newTransport (Some 1500)) = Inr t \<and> send 100 t = Inr t' \<and>
     tr_state t' = CLOSING \<and> tr_doSend t' = []"
proof -
  let ?t = "(newTransport (Some 1500))\<lparr>tr_state := CLOSING, tr_changes := [(UP, CLOSING)]\<rparr>"
  have c: "close Inr (newTransport (Some 1500)) = Inr ?t" and s: "send 100 ?t = Inr ?t"
    by (simp_all add: close_def setState_def newTransport_def send_def overMtu_def)
  have "transport_steps (newTransport (Some 1500)) ?t"
    using c transport_steps.intros transport_step.intros(2) by blast
  moreover have "transport_steps ?t ?t"
    by (rule steps_refl)
  ultimately show ?thesis
    using transport_lifecycle[of "Some 1500" ?t ?t] c s by (auto simp: newTransport_def)
qed

end
