(* ===== verification/Name_Tree.thy ===== *)
theory Name_Tree
  imports City_Hash
begin

text \<open>
  The name tree of \<^verbatim>\<open>src/daemon/table/name-tree.cpp\<close> and \<^verbatim>\<open>name-tree-entry.cpp\<close>, the index
  shared by FIB, PIT, measurements and strategy choice: a hash table of entries, one for each
  name and each of its prefixes, linked to their parents and children.

  Entries are objects in an explicit store; a \<^verbatim>\<open>shared_ptr<Entry>\<close> is an address.  A
  bucket, a chain of nodes linked by \<^verbatim>\<open>m_next\<close> and \<^verbatim>\<open>m_prev\<close>, is the list of the addresses
  of the entries of its nodes.  The entries of the four tables that hang off an entry are
  addresses into the stores of those tables.  The value \<^const>\<open>None\<close> of an operation stands
  for a failed assertion or the use of an entry that is no longer in the tree.  The encoding
  of a name component (ndn-cxx) is the parameter \<open>wire\<close>.
\<close>

unbundle bit_operations_syntax

type_synonym nt_ref = nat
type_synonym fib_ref = nat
type_synonym pit_ref = nat
type_synonym measurements_ref = nat
type_synonym strategy_choice_ref = nat

section \<open>Entries\<close>

record nt_entry =
  e_hash :: u64
  e_prefix :: name
  e_parent :: "nt_ref option"
  e_children :: "nt_ref list"
  e_fibEntry :: "fib_ref option"
  e_pitEntries :: "pit_ref list"
  e_measurementsEntry :: "measurements_ref option"
  e_strategyChoiceEntry :: "strategy_choice_ref option"

definition newEntry :: "name \<Rightarrow> nt_entry" where
  "newEntry prfx = \<lparr>e_hash = 0, e_prefix = prfx, e_parent = None, e_children = [],
     e_fibEntry = None, e_pitEntries = [], e_measurementsEntry = None,
     e_strategyChoiceEntry = None\<rparr>"

definition isEmpty :: "nt_entry \<Rightarrow> bool" where
  "isEmpty e = (e_children e = [] \<and> e_fibEntry e = None \<and> e_pitEntries e = [] \<and>
     e_measurementsEntry e = None \<and> e_strategyChoiceEntry e = None)"

section \<open>Hashing\<close>

text \<open>The hash of a component; the load of the whole buffer is always in bounds.\<close>

definition Hash64_compute :: "byte list \<Rightarrow> u64" where
  "Hash64_compute buffer =
    (case CityHash64 buffer 0 (length buffer) of Some h \<Rightarrow> h | None \<Rightarrow> 0)"

definition computeHash :: "(component \<Rightarrow> byte list) \<Rightarrow> name \<Rightarrow> u64" where
  "computeHash wire prfx = foldl (\<lambda>hashValue c. hashValue XOR Hash64_compute (wire c)) 0 prfx"

fun computeHashSet_loop :: "(component \<Rightarrow> byte list) \<Rightarrow> u64 \<Rightarrow> name \<Rightarrow> u64 list" where
  "computeHashSet_loop wire hashValue [] = []"
| "computeHashSet_loop wire hashValue (c # cs) =
    (let hashValue = hashValue XOR Hash64_compute (wire c)
     in hashValue # computeHashSet_loop wire hashValue cs)"

definition computeHashSet :: "(component \<Rightarrow> byte list) \<Rightarrow> name \<Rightarrow> u64 list" where
  "computeHashSet wire prfx = 0 # computeHashSet_loop wire 0 prfx"

section \<open>The table\<close>

record name_tree =
  nt_entries :: "nt_ref \<Rightarrow> nt_entry option"
  nt_next :: nt_ref
  nt_nItems :: nat
  nt_nBuckets :: nat
  nt_minNBuckets :: nat
  nt_enlargeThreshold :: nat
  nt_shrinkThreshold :: nat
  nt_buckets :: "nt_ref list list"

text \<open>The load factors are 0.5 and 0.1, the resize factors 2 and 0.5; the truncated
  double products are the integer quotients for every number of buckets below \<open>2 ^ 50\<close>.\<close>

definition NameTree :: "nat \<Rightarrow> name_tree" where
  "NameTree nBuckets =
    \<lparr>nt_entries = (\<lambda>_. None), nt_next = 0, nt_nItems = 0, nt_nBuckets = nBuckets,
     nt_minNBuckets = nBuckets, nt_enlargeThreshold = nBuckets div 2,
     nt_shrinkThreshold = nBuckets div 10, nt_buckets = replicate nBuckets []\<rparr>"

definition bucket_of :: "name_tree \<Rightarrow> u64 \<Rightarrow> nat" where
  "bucket_of t hashValue = unat hashValue mod nt_nBuckets t"

definition nt_prefix :: "name_tree \<Rightarrow> nt_ref \<Rightarrow> name option" where
  "nt_prefix t r = map_option e_prefix (nt_entries t r)"

definition nt_update :: "nt_ref \<Rightarrow> (nt_entry \<Rightarrow> nt_entry) \<Rightarrow> name_tree \<Rightarrow> name_tree" where
  "nt_update r f t = t\<lparr>nt_entries := (nt_entries t)(r := map_option f (nt_entries t r))\<rparr>"

text \<open>\<^verbatim>\<open>insert\<close>: the entry, and whether it is new.\<close>

definition nt_insert ::
  "(component \<Rightarrow> byte list) \<Rightarrow> name \<Rightarrow> name_tree \<Rightarrow> name_tree \<times> nt_ref \<times> bool" where
  "nt_insert wire prfx t =
    (let hashValue = computeHash wire prfx;
         loc = bucket_of t hashValue
     in case List.find (\<lambda>r. nt_prefix t r = Some prfx) (nt_buckets t ! loc) of
          Some r \<Rightarrow> (t, r, False)
        | None \<Rightarrow>
            let r = nt_next t
            in (t\<lparr>nt_entries := (nt_entries t)(r := Some ((newEntry prfx)\<lparr>e_hash := hashValue\<rparr>)),
                  nt_next := r + 1,
                  nt_buckets := (nt_buckets t)[loc := nt_buckets t ! loc @ [r]]\<rparr>, r, True))"

text \<open>\<^verbatim>\<open>resize\<close>: every node is appended to its new bucket; the hash is truncated to 32 bits
  first (\<^verbatim>\<open>uint32_t h\<close>).\<close>

definition rehash_bucket :: "name_tree \<Rightarrow> nat \<Rightarrow> nt_ref \<Rightarrow> nat" where
  "rehash_bucket t newNBuckets r =
    (case nt_entries t r of
       Some e \<Rightarrow> unat (ucast (e_hash e) :: u32) mod newNBuckets
     | None \<Rightarrow> 0)"

definition rehash :: "name_tree \<Rightarrow> nat \<Rightarrow> nt_ref list list" where
  "rehash t newNBuckets =
    fold (\<lambda>r bs. let b = rehash_bucket t newNBuckets r in bs[b := bs ! b @ [r]])
      (concat (nt_buckets t)) (replicate newNBuckets [])"

definition resize :: "nat \<Rightarrow> name_tree \<Rightarrow> name_tree option" where
  "resize newNBuckets t =
    (if length (concat (nt_buckets t)) \<noteq> nt_nItems t then None
     else Some (t\<lparr>nt_buckets := rehash t newNBuckets, nt_nBuckets := newNBuckets,
                  nt_enlargeThreshold := newNBuckets div 2, nt_shrinkThreshold := newNBuckets div 10\<rparr>))"

text \<open>One pass of the loop of \<^verbatim>\<open>lookup\<close> for the prefix of length \<open>i\<close>, and the loop.\<close>

definition lookup_step ::
  "(component \<Rightarrow> byte list) \<Rightarrow> name \<Rightarrow> nt_ref option \<Rightarrow> name_tree \<Rightarrow> (name_tree \<times> nt_ref) option" where
  "lookup_step wire temp parent t = do {
     let (t, entry, isNew) = nt_insert wire temp t;
     let t = (if isNew then
         (let t = t\<lparr>nt_nItems := nt_nItems t + 1\<rparr>;
              t = nt_update entry (\<lambda>e. e\<lparr>e_parent := parent\<rparr>) t
          in case parent of
               None \<Rightarrow> t
             | Some p \<Rightarrow> nt_update p (\<lambda>e. e\<lparr>e_children := e_children e @ [entry]\<rparr>) t)
       else t);
     t \<leftarrow> (if nt_nItems t > nt_enlargeThreshold t then resize (2 * nt_nBuckets t) t else Some t);
     Some (t, entry)
   }"

fun lookup_loop ::
  "(component \<Rightarrow> byte list) \<Rightarrow> name list \<Rightarrow> nt_ref option \<Rightarrow> name_tree \<Rightarrow> (name_tree \<times> nt_ref option) option" where
  "lookup_loop wire [] parent t = Some (t, parent)"
| "lookup_loop wire (temp # temps) parent t = do {
     (t, entry) \<leftarrow> lookup_step wire temp parent t;
     lookup_loop wire temps (Some entry) t
   }"

definition nt_lookup ::
  "(component \<Rightarrow> byte list) \<Rightarrow> name \<Rightarrow> name_tree \<Rightarrow> (name_tree \<times> nt_ref) option" where
  "nt_lookup wire prfx t = do {
     (t, entry) \<leftarrow> lookup_loop wire (map (\<lambda>i. take i prfx) [0..<length prfx + 1]) None t;
     r \<leftarrow> entry;
     Some (t, r)
   }"

text \<open>Removal of an element by overwriting it with the last one and dropping that.\<close>

definition swap_remove :: "'a \<Rightarrow> 'a list \<Rightarrow> 'a list option" where
  "swap_remove x xs =
    (let i = length (takeWhile (\<lambda>y. y \<noteq> x) xs)
     in if i < length xs then Some (butlast (xs[i := last xs])) else None)"

text \<open>\<^verbatim>\<open>eraseEntryIfEmpty\<close>.  The node of the entry is in the bucket of its hash; elsewhere
  the unlinking would leave a dangling head.  The recursion climbs to the parent; each call
  takes one item out, so it ends.\<close>

function eraseEntryIfEmpty :: "nt_ref \<Rightarrow> name_tree \<Rightarrow> (name_tree \<times> bool) option" where
  "eraseEntryIfEmpty r t =
    (case nt_entries t r of
       None \<Rightarrow> None
     | Some e \<Rightarrow>
         if \<not> isEmpty e then Some (t, False)
         else if nt_nItems t = 0 then None
         else do {
           t1 \<leftarrow> (case e_parent e of
                   None \<Rightarrow> Some t
                 | Some p \<Rightarrow>
                     (case nt_entries t p of
                        None \<Rightarrow> None
                      | Some pe \<Rightarrow>
                          (case swap_remove r (e_children pe) of
                             None \<Rightarrow> None
                           | Some cs \<Rightarrow> Some (nt_update p (\<lambda>x. x\<lparr>e_children := cs\<rparr>) t))));
           let loc = bucket_of t1 (e_hash e);
           if r \<notin> set (nt_buckets t1 ! loc) then None
           else do {
             let t2 = t1\<lparr>nt_buckets := (nt_buckets t1)[loc := remove1 r (nt_buckets t1 ! loc)],
                         nt_nItems := nt_nItems t - 1,
                         nt_entries := (nt_entries t1)(r := None)\<rparr>;
             t3 \<leftarrow> (case e_parent e of
                     None \<Rightarrow> Some t2
                   | Some p \<Rightarrow> map_option fst (eraseEntryIfEmpty p t2));
             let newNBuckets = nt_nBuckets t3 div 2;
             t4 \<leftarrow> (if newNBuckets \<ge> nt_minNBuckets t3 \<and> nt_nItems t3 < nt_shrinkThreshold t3
                    then resize newNBuckets t3 else Some t3);
             Some (t4, True)
           }
         })"
  by pat_completeness auto
termination
  by (relation "measure (\<lambda>(r, t). nt_nItems t)") auto

declare eraseEntryIfEmpty.simps [simp del]

section \<open>Matching\<close>

definition findExactMatch :: "(component \<Rightarrow> byte list) \<Rightarrow> name \<Rightarrow> name_tree \<Rightarrow> nt_ref option" where
  "findExactMatch wire prfx t =
    (let hashValue = computeHash wire prfx;
         loc = bucket_of t hashValue
     in List.find (\<lambda>r. case nt_entries t r of
                     Some e \<Rightarrow> hashValue = e_hash e \<and> prfx = e_prefix e
                   | None \<Rightarrow> False) (nt_buckets t ! loc))"

type_synonym entry_selector = "nt_entry \<Rightarrow> bool"

text \<open>The loop of \<^verbatim>\<open>findLongestPrefixMatch\<close> on a name, \<open>i\<close> counting down.\<close>

definition lpm_at ::
  "u64 list \<Rightarrow> name \<Rightarrow> entry_selector \<Rightarrow> name_tree \<Rightarrow> nat \<Rightarrow> nt_ref option" where
  "lpm_at hashValueSet prfx entrySelector t i =
    (let hashValue = hashValueSet ! i;
         loc = bucket_of t hashValue
     in List.find (\<lambda>r. case nt_entries t r of
                     Some e \<Rightarrow> hashValue = e_hash e \<and> prefix (e_prefix e) prfx \<and> entrySelector e
                   | None \<Rightarrow> False) (nt_buckets t ! loc))"

fun lpm_loop ::
  "u64 list \<Rightarrow> name \<Rightarrow> entry_selector \<Rightarrow> name_tree \<Rightarrow> nat \<Rightarrow> nt_ref option" where
  "lpm_loop hashValueSet prfx entrySelector t 0 = lpm_at hashValueSet prfx entrySelector t 0"
| "lpm_loop hashValueSet prfx entrySelector t (Suc i) =
    (case lpm_at hashValueSet prfx entrySelector t (Suc i) of
       Some r \<Rightarrow> Some r
     | None \<Rightarrow> lpm_loop hashValueSet prfx entrySelector t i)"

definition nt_findLongestPrefixMatch ::
  "(component \<Rightarrow> byte list) \<Rightarrow> name \<Rightarrow> entry_selector \<Rightarrow> name_tree \<Rightarrow> nt_ref option" where
  "nt_findLongestPrefixMatch wire prfx entrySelector t =
    lpm_loop (computeHashSet wire prfx) prfx entrySelector t (length prfx)"

text \<open>\<^verbatim>\<open>findLongestPrefixMatch\<close> on an entry climbs the parents; the outer \<^const>\<open>None\<close> means
  that it does not end or meets a dangling parent.\<close>

partial_function (option) nt_lpm_entry ::
  "entry_selector \<Rightarrow> name_tree \<Rightarrow> nt_ref option \<Rightarrow> nt_ref option option" where
  "nt_lpm_entry entrySelector t entry =
    (case entry of
       None \<Rightarrow> Some None
     | Some r \<Rightarrow>
         (case nt_entries t r of
            None \<Rightarrow> None
          | Some e \<Rightarrow> if entrySelector e then Some (Some r)
                      else nt_lpm_entry entrySelector t (e_parent e)))"

declare nt_lpm_entry.simps [code]

text \<open>\<^verbatim>\<open>findAllMatches\<close>: the range of an iterator that starts at the longest match and
  climbs the parents, stopping at each selected entry.\<close>

partial_function (option) climb ::
  "entry_selector \<Rightarrow> name_tree \<Rightarrow> nt_ref option \<Rightarrow> nt_ref list option" where
  "climb entrySelector t entry =
    (case entry of
       None \<Rightarrow> Some []
     | Some r \<Rightarrow>
         (case nt_entries t r of
            None \<Rightarrow> None
          | Some e \<Rightarrow> do {
              rest \<leftarrow> climb entrySelector t (e_parent e);
              Some (if entrySelector e then r # rest else rest)
            }))"

declare climb.simps [code]

definition findAllMatches ::
  "(component \<Rightarrow> byte list) \<Rightarrow> name \<Rightarrow> entry_selector \<Rightarrow> name_tree \<Rightarrow> nt_ref list option" where
  "findAllMatches wire prfx entrySelector t =
    (case nt_findLongestPrefixMatch wire prfx entrySelector t of
       Some r \<Rightarrow>
         (case nt_entries t r of
            None \<Rightarrow> None
          | Some e \<Rightarrow> do { rest \<leftarrow> climb entrySelector t (e_parent e); Some (r # rest) })
     | None \<Rightarrow> Some [])"

text \<open>\<^verbatim>\<open>fullEnumerate\<close>: bucket by bucket, each chain in order.\<close>

definition fullEnumerate :: "entry_selector \<Rightarrow> name_tree \<Rightarrow> nt_ref list" where
  "fullEnumerate entrySelector t =
    filter (\<lambda>r. case nt_entries t r of Some e \<Rightarrow> entrySelector e | None \<Rightarrow> False)
      (concat (nt_buckets t))"

end
