(* ===== verification/Name_Tree_Correct.thy ===== *)
theory Name_Tree_Correct
  imports Name_Tree "HOL-Library.Code_Target_Nat"
begin

text \<open>
  Correctness of the name tree.  The invariant \<open>nt_inv\<close> ties the hash buckets (every entry
  in the bucket of the hash of its name, the number of buckets a power of two) to the tree
  (one entry for a name, the parent of an entry is the entry of its name without the last
  component, the children are exactly the entries with that parent).  Insertion, removal
  and resizing keep it; the searches are compared with \<open>matches\<close>, the entries of the
  prefixes of a name, the longest first.
\<close>

unbundle bit_operations_syntax

section \<open>Hashing\<close>

lemma computeHash_Nil [simp]: "computeHash wire [] = 0"
  by (simp add: computeHash_def)

lemma computeHash_snoc:
  "computeHash wire (p @ [c]) = computeHash wire p XOR Hash64_compute (wire c)"
  by (simp add: computeHash_def)

lemma computeHashSet_loop_nth:
  "i < length cs \<Longrightarrow> computeHashSet_loop wire h cs ! i =
    foldl (\<lambda>h c. h XOR Hash64_compute (wire c)) h (take (Suc i) cs)"
proof (induction cs arbitrary: h i)
  case (Cons c cs)
  then show ?case
    by (cases i) (simp_all add: Let_def)
qed simp

text \<open>The set of hashes computed in one pass is the hash of every prefix.\<close>

lemma computeHashSet_nth:
  "i \<le> length n \<Longrightarrow> computeHashSet wire n ! i = computeHash wire (take i n)"
  by (cases i) (simp_all add: computeHashSet_def computeHash_def computeHashSet_loop_nth)

section \<open>Invariant\<close>

definition live :: "name_tree \<Rightarrow> nt_ref set" where
  "live t = dom (nt_entries t)"

text \<open>The number of buckets is a power of two, so that the truncation of the hash in
  \<^verbatim>\<open>resize\<close> does no harm.\<close>

definition power2 :: "nat \<Rightarrow> bool" where
  "power2 n \<longleftrightarrow> n \<in> (\<lambda>k. 2 ^ k) ` {..32}"

lemma power2_pos: "power2 n \<Longrightarrow> 0 < n"
  by (auto simp: power2_def)

lemma power2_dvd: "power2 n \<Longrightarrow> n dvd 2 ^ 32"
  unfolding power2_def using le_imp_power_dvd by blast

lemma power2_double: "power2 n \<Longrightarrow> n < 2 ^ 32 \<Longrightarrow> power2 (2 * n)"
proof -
  assume "power2 n" and l: "n < 2 ^ 32"
  then obtain k where k: "n = 2 ^ k" "k \<le> 32"
    by (auto simp: power2_def)
  then have "k < 32"
    using l by (cases "k = 32") auto
  then have "2 * n = 2 ^ Suc k \<and> Suc k \<in> {..32}"
    using k by simp
  then show ?thesis
    unfolding power2_def by blast
qed

lemma power2_half: "power2 n \<Longrightarrow> 0 < n div 2 \<Longrightarrow> power2 (n div 2)"
proof -
  assume "power2 n" and l: "0 < n div 2"
  then obtain k where k: "n = 2 ^ k" "k \<le> 32"
    by (auto simp: power2_def)
  with l obtain k' where "k = Suc k'"
    by (cases k) auto
  then have "n div 2 = 2 ^ k' \<and> k' \<in> {..32}"
    using k by simp
  then show ?thesis
    unfolding power2_def by blast
qed

definition buckets_inv :: "(component \<Rightarrow> byte list) \<Rightarrow> name_tree \<Rightarrow> bool" where
  "buckets_inv wire t \<longleftrightarrow> power2 (nt_nBuckets t) \<and> 0 < nt_minNBuckets t \<and>
     length (nt_buckets t) = nt_nBuckets t \<and> distinct (concat (nt_buckets t)) \<and>
     set (concat (nt_buckets t)) = live t \<and> nt_nItems t = length (concat (nt_buckets t)) \<and>
     (\<forall>r e. nt_entries t r = Some e \<longrightarrow> e_hash e = computeHash wire (e_prefix e) \<and>
        r \<in> set (nt_buckets t ! bucket_of t (computeHash wire (e_prefix e))) \<and> r < nt_next t) \<and>
     nt_enlargeThreshold t = nt_nBuckets t div 2 \<and> nt_shrinkThreshold t = nt_nBuckets t div 10"

definition tree_inv :: "(nt_ref \<Rightarrow> nt_entry option) \<Rightarrow> bool" where
  "tree_inv es \<longleftrightarrow>
     (\<forall>r r' e e'. es r = Some e \<longrightarrow> es r' = Some e' \<longrightarrow> e_prefix e = e_prefix e' \<longrightarrow> r = r') \<and>
     (\<forall>r e. es r = Some e \<longrightarrow>
        (if e_prefix e = [] then e_parent e = None
         else \<exists>p pe. e_parent e = Some p \<and> es p = Some pe \<and> e_prefix pe = butlast (e_prefix e))) \<and>
     (\<forall>r e. es r = Some e \<longrightarrow> distinct (e_children e) \<and>
        (\<forall>c. c \<in> set (e_children e) \<longleftrightarrow> (\<exists>ce. es c = Some ce \<and> e_parent ce = Some r)))"

definition nt_inv :: "(component \<Rightarrow> byte list) \<Rightarrow> name_tree \<Rightarrow> bool" where
  "nt_inv wire t \<longleftrightarrow> buckets_inv wire t \<and> tree_inv (nt_entries t)"

lemma nt_invD:
  assumes "nt_inv wire t"
  shows "0 < nt_nBuckets t" "power2 (nt_nBuckets t)" "length (nt_buckets t) = nt_nBuckets t"
    "distinct (concat (nt_buckets t))" "set (concat (nt_buckets t)) = live t"
    "nt_nItems t = length (concat (nt_buckets t))" "tree_inv (nt_entries t)"
  using assms by (simp_all add: nt_inv_def buckets_inv_def power2_pos)

lemma nt_inv_entry:
  assumes "nt_inv wire t" and "nt_entries t r = Some e"
  shows "e_hash e = computeHash wire (e_prefix e)"
    "r \<in> set (nt_buckets t ! bucket_of t (e_hash e))" "r < nt_next t"
  using assms unfolding nt_inv_def buckets_inv_def by auto

lemma tree_inv_inj:
  "tree_inv es \<Longrightarrow> es r = Some e \<Longrightarrow> es r' = Some e' \<Longrightarrow> e_prefix e = e_prefix e' \<Longrightarrow> r = r'"
  unfolding tree_inv_def by blast

lemma tree_inv_root: "tree_inv es \<Longrightarrow> es r = Some e \<Longrightarrow> e_prefix e = [] \<Longrightarrow> e_parent e = None"
  unfolding tree_inv_def by metis

lemma tree_inv_parent:
  "tree_inv es \<Longrightarrow> es r = Some e \<Longrightarrow> e_prefix e \<noteq> [] \<Longrightarrow>
   \<exists>p pe. e_parent e = Some p \<and> es p = Some pe \<and> e_prefix pe = butlast (e_prefix e)"
  unfolding tree_inv_def by metis

lemma tree_inv_children:
  "tree_inv es \<Longrightarrow> es r = Some e \<Longrightarrow> distinct (e_children e) \<and>
   (\<forall>c. c \<in> set (e_children e) \<longleftrightarrow> (\<exists>ce. es c = Some ce \<and> e_parent ce = Some r))"
  unfolding tree_inv_def by blast

lemma bucket_of_less: "nt_inv wire t \<Longrightarrow> bucket_of t h < length (nt_buckets t)"
  using nt_invD(1,3) by (simp add: bucket_of_def)

lemma NameTree_inv: "power2 n \<Longrightarrow> nt_inv wire (NameTree n)"
  by (auto simp: power2_pos nt_inv_def buckets_inv_def tree_inv_def NameTree_def live_def)

section \<open>Exact match\<close>

lemma distinct_find:
  assumes "\<And>y. y \<in> set xs \<Longrightarrow> P y \<Longrightarrow> y = x" and "x \<in> set xs" and "P x"
  shows "List.find P xs = Some x"
proof (cases "List.find P xs")
  case None
  with assms(2,3) show ?thesis
    by (simp add: find_None_all)
next
  case (Some y)
  then have "y \<in> set xs" "P y"
    using find_Some_in by fast+
  then have "y = x"
    by (rule assms(1))
  with Some show ?thesis
    by simp
qed

lemma nt_prefix_inj:
  assumes "nt_inv wire t" and "nt_prefix t r = Some n" and "nt_prefix t r' = Some n"
  shows "r = r'"
proof -
  from assms(2,3) obtain e e' where "nt_entries t r = Some e" "nt_entries t r' = Some e'"
    "e_prefix e = e_prefix e'"
    by (auto simp: nt_prefix_def)
  then show ?thesis
    by (rule tree_inv_inj[OF nt_invD(7)[OF assms(1)]])
qed

lemma findExactMatch_iff:
  assumes inv: "nt_inv wire t"
  shows "findExactMatch wire n t = Some r \<longleftrightarrow> nt_prefix t r = Some n"
proof
  assume "findExactMatch wire n t = Some r"
  then show "nt_prefix t r = Some n"
    unfolding findExactMatch_def Let_def
    by (drule_tac find_Some_in) (auto simp: nt_prefix_def split: option.splits)
next
  assume n: "nt_prefix t r = Some n"
  then obtain e where e: "nt_entries t r = Some e" "e_prefix e = n"
    by (auto simp: nt_prefix_def)
  have "List.find (\<lambda>r. case nt_entries t r of
        Some e \<Rightarrow> computeHash wire n = e_hash e \<and> n = e_prefix e | None \<Rightarrow> False)
      (nt_buckets t ! bucket_of t (computeHash wire n)) = Some r"
  proof (rule distinct_find)
    show "y = r" if "case nt_entries t y of
        Some e \<Rightarrow> computeHash wire n = e_hash e \<and> n = e_prefix e | None \<Rightarrow> False" for y
      using that by (intro nt_prefix_inj[OF inv _ n]) (auto simp: nt_prefix_def split: option.splits)
  qed (use nt_inv_entry[OF inv e(1)] e in auto)
  then show "findExactMatch wire n t = Some r"
    by (simp add: findExactMatch_def Let_def)
qed

lemma insert_find_iff:
  assumes inv: "nt_inv wire t"
  shows "List.find (\<lambda>r. nt_prefix t r = Some n) (nt_buckets t ! bucket_of t (computeHash wire n)) =
    findExactMatch wire n t"
proof (cases "findExactMatch wire n t")
  case None
  have "nt_prefix t r \<noteq> Some n" for r
    using None findExactMatch_iff[OF inv, of n r] by auto
  then show ?thesis
    unfolding None by (simp add: find_None_iff)
next
  case (Some r)
  then obtain e where e: "nt_entries t r = Some e" "e_prefix e = n"
    using findExactMatch_iff[OF inv] by (auto simp: nt_prefix_def)
  show ?thesis
    unfolding Some
  proof (rule distinct_find)
    show "y = r" if "nt_prefix t y = Some n" for y
      using nt_prefix_inj[OF inv that] e by (simp add: nt_prefix_def)
  qed (use nt_inv_entry[OF inv e(1)] e in \<open>auto simp: nt_prefix_def\<close>)
qed

section \<open>Rehashing\<close>

lemma fold_append_nth:
  assumes "b < length bs" and "\<And>r. r \<in> set rs \<Longrightarrow> f r < length bs"
  shows "fold (\<lambda>r bs. bs[f r := bs ! f r @ [r]]) rs bs ! b = bs ! b @ filter (\<lambda>r. f r = b) rs"
  using assms
proof (induction rs arbitrary: bs)
  case (Cons r rs)
  then show ?case
    by (auto simp: nth_list_update)
qed simp

lemma length_fold_append:
  "length (fold (\<lambda>r bs. bs[f r := bs ! f r @ [r]]) rs bs) = length bs"
  by (induction rs arbitrary: bs) auto

lemma length_rehash [simp]: "length (rehash t n) = n"
  by (simp add: rehash_def Let_def length_fold_append)

lemma nth_rehash:
  assumes "b < n"
  shows "rehash t n ! b = filter (\<lambda>r. rehash_bucket t n r = b) (concat (nt_buckets t))"
proof -
  have "rehash_bucket t n r < n" for r
    using assms by (auto simp: rehash_bucket_def split: option.splits)
  then show ?thesis
    unfolding rehash_def Let_def using assms by (subst fold_append_nth) auto
qed

lemma rehash_eq:
  "rehash t n = map (\<lambda>b. filter (\<lambda>r. rehash_bucket t n r = b) (concat (nt_buckets t))) [0..<n]"
  by (rule nth_equalityI) (simp_all add: nth_rehash)

lemma distinct_partition:
  "distinct xs \<Longrightarrow> distinct (concat (map (\<lambda>b. filter (\<lambda>x. f x = b) xs) [0..<n]))"
  by (induction n) auto

lemma set_rehash: "0 < n \<Longrightarrow> set (concat (rehash t n)) = set (concat (nt_buckets t))"
proof -
  assume n: "0 < n"
  have "rehash_bucket t n r < n" for r
    using n by (auto simp: rehash_bucket_def split: option.splits)
  then show ?thesis
    unfolding rehash_eq by auto
qed

lemma rehash_location:
  assumes "n dvd 2 ^ 32" and "nt_entries t r = Some e"
  shows "rehash_bucket t n r = unat (e_hash e) mod n"
proof -
  have "unat (ucast (e_hash e) :: u32) = unat (e_hash e) mod 2 ^ 32"
    by (simp add: unsigned_ucast_eq take_bit_eq_mod)
  then show ?thesis
    using assms by (simp add: rehash_bucket_def mod_mod_cancel)
qed

lemma resize_ok:
  assumes inv: "nt_inv wire t" and n: "power2 n"
  shows "\<exists>t'. resize n t = Some t' \<and> nt_inv wire t' \<and> nt_entries t' = nt_entries t \<and>
    nt_nItems t' = nt_nItems t \<and> nt_nBuckets t' = n"
proof -
  let ?t' = "t\<lparr>nt_buckets := rehash t n, nt_nBuckets := n, nt_enlargeThreshold := n div 2,
    nt_shrinkThreshold := n div 10\<rparr>"
  have res: "resize n t = Some ?t'"
    using nt_invD(6)[OF inv] by (simp add: resize_def)
  have dist: "distinct (concat (rehash t n))"
    unfolding rehash_eq using nt_invD(4)[OF inv] by (rule distinct_partition)
  have same: "set (concat (rehash t n)) = set (concat (nt_buckets t))"
    by (rule set_rehash[OF power2_pos[OF n]])
  then have len: "length (concat (rehash t n)) = length (concat (nt_buckets t))"
    using dist nt_invD(4)[OF inv] by (metis distinct_card)
  have "r \<in> set (rehash t n ! (unat (e_hash e) mod n))" if "nt_entries t r = Some e" for r e
    using that power2_pos[OF n] nth_rehash[of "unat (e_hash e) mod n" n t] rehash_location[OF power2_dvd[OF n] that]
      nt_invD(5)[OF inv] by (auto simp: live_def)
  then have "nt_inv wire ?t'"
    using inv n dist same len unfolding nt_inv_def buckets_inv_def live_def bucket_of_def by auto
  with res show ?thesis
    by simp
qed

section \<open>Insertion\<close>

lemma tree_inv_parent_live:
  assumes "tree_inv es" and "es q = Some e" and "e_parent e = Some p"
  shows "e_prefix e \<noteq> [] \<and> (\<exists>pe. es p = Some pe \<and> e_prefix pe = butlast (e_prefix e))"
proof (cases "e_prefix e = []")
  case True
  with tree_inv_root[OF assms(1,2)] assms(3) show ?thesis by simp
next
  case False
  with tree_inv_parent[OF assms(1,2)] assms(3) show ?thesis by auto
qed

definition parent_ok :: "(nt_ref \<Rightarrow> nt_entry option) \<Rightarrow> name \<Rightarrow> nt_ref option \<Rightarrow> bool" where
  "parent_ok es n parent \<longleftrightarrow> (case parent of
     None \<Rightarrow> n = []
   | Some p \<Rightarrow> n \<noteq> [] \<and> (\<exists>pe. es p = Some pe \<and> e_prefix pe = butlast n))"

definition add_child :: "nt_ref \<Rightarrow> nt_ref option \<Rightarrow> (nt_ref \<Rightarrow> nt_entry option) \<Rightarrow> nt_ref \<Rightarrow> nt_entry option" where
  "add_child r parent es q =
    (if parent = Some q then map_option (\<lambda>e. e\<lparr>e_children := e_children e @ [r]\<rparr>) (es q) else es q)"

lemma add_child_Some:
  "add_child r parent es q = Some e' \<longleftrightarrow>
   (\<exists>e. es q = Some e \<and> e' = (if parent = Some q then e\<lparr>e_children := e_children e @ [r]\<rparr> else e))"
  by (auto simp: add_child_def)

lemma tree_inv_insert:
  assumes inv: "tree_inv es" and new: "es r = None" "e_prefix ne = n" "e_children ne = []" "e_parent ne = parent"
    and fresh: "\<And>q e. es q = Some e \<Longrightarrow> e_prefix e \<noteq> n" and par: "parent_ok es n parent"
  shows "tree_inv (add_child r parent (es(r \<mapsto> ne)))" (is "tree_inv ?es")
proof -
  have E: "?es q = Some e' \<longleftrightarrow> (q = r \<and> e' = ne) \<or>
      (\<exists>e. es q = Some e \<and> e' = (if parent = Some q then e\<lparr>e_children := e_children e @ [r]\<rparr> else e))" for q e'
    using new(1) par unfolding add_child_Some by (auto simp: parent_ok_def)
  have inj: "\<forall>q q' e e'. ?es q = Some e \<longrightarrow> ?es q' = Some e' \<longrightarrow> e_prefix e = e_prefix e' \<longrightarrow> q = q'"
    unfolding E using fresh new(2) tree_inv_inj[OF inv] by (auto split: if_splits) metis+
  have keep: "\<exists>pe'. ?es p = Some pe' \<and> e_prefix pe' = e_prefix pe \<and> e_parent pe' = e_parent pe"
    if "es p = Some pe" for p pe
    unfolding E using that by (cases "parent = Some p") auto
  then have live: "\<exists>pe'. ?es p = Some pe' \<and> e_prefix pe' = m" if "es p = Some pe" "e_prefix pe = m" for p pe m
    using that by metis
  have pars: "if e_prefix e' = [] then e_parent e' = None
      else \<exists>p pe. e_parent e' = Some p \<and> ?es p = Some pe \<and> e_prefix pe = butlast (e_prefix e')"
    if "?es q = Some e'" for q e'
    using that[unfolded E]
  proof (elim disjE exE conjE)
    assume "q = r" "e' = ne"
    then show ?thesis
      using par new live by (auto simp: parent_ok_def split: option.splits)
  next
    fix e assume e: "es q = Some e" and
      e': "e' = (if parent = Some q then e\<lparr>e_children := e_children e @ [r]\<rparr> else e)"
    have same: "e_prefix e' = e_prefix e" "e_parent e' = e_parent e"
      using e' by auto
    show ?thesis
      unfolding same using tree_inv_root[OF inv e] tree_inv_parent[OF inv e] live by metis
  qed
  have child: "(\<exists>ce. ?es c = Some ce \<and> e_parent ce = Some q) \<longleftrightarrow>
      (\<exists>ce. es c = Some ce \<and> e_parent ce = Some q) \<or> (c = r \<and> parent = Some q)" for c q
  proof
    assume "\<exists>ce. ?es c = Some ce \<and> e_parent ce = Some q"
    then show "(\<exists>ce. es c = Some ce \<and> e_parent ce = Some q) \<or> (c = r \<and> parent = Some q)"
      unfolding E using new by (auto split: if_splits)
  next
    assume "(\<exists>ce. es c = Some ce \<and> e_parent ce = Some q) \<or> (c = r \<and> parent = Some q)"
    then show "\<exists>ce. ?es c = Some ce \<and> e_parent ce = Some q"
      using keep new(4) E[of r ne] by metis
  qed
  have notr: "\<not> (\<exists>ce. es r = Some ce \<and> e_parent ce = Some q)" for q
    using new(1) by simp
  have dangl: "\<not> (\<exists>ce. es c = Some ce \<and> e_parent ce = Some r)" for c
    using tree_inv_parent_live[OF inv] new(1) by fastforce
  have chs: "distinct (e_children e') \<and>
      (\<forall>c. c \<in> set (e_children e') \<longleftrightarrow> (\<exists>ce. ?es c = Some ce \<and> e_parent ce = Some q))"
    if "?es q = Some e'" for q e'
    using that[unfolded E]
  proof (elim disjE exE conjE)
    assume "q = r" "e' = ne"
    then show ?thesis
      unfolding child using new dangl par by (auto simp: parent_ok_def)
  next
    fix e assume e: "es q = Some e" and
      e': "e' = (if parent = Some q then e\<lparr>e_children := e_children e @ [r]\<rparr> else e)"
    show ?thesis
      unfolding child e' using tree_inv_children[OF inv e] notr[of q] by auto
  qed
  show ?thesis
    unfolding tree_inv_def using inj pars chs by blast
qed

lemma concat_split:
  "i < length bs \<Longrightarrow> concat bs = concat (take i bs) @ bs ! i @ concat (drop (Suc i) bs)"
  by (metis id_take_nth_drop concat_append concat.simps(2))

lemma concat_upd:
  "i < length bs \<Longrightarrow> concat (bs[i := x]) = concat (take i bs) @ x @ concat (drop (Suc i) bs)"
  by (simp add: upd_conv_take_nth_drop)

lemma buckets_append:
  assumes "i < length bs"
  shows "set (concat (bs[i := bs ! i @ [r]])) = insert r (set (concat bs))"
    "distinct (concat bs) \<Longrightarrow> r \<notin> set (concat bs) \<Longrightarrow> distinct (concat (bs[i := bs ! i @ [r]]))"
    "length (concat (bs[i := bs ! i @ [r]])) = Suc (length (concat bs))"
  unfolding concat_upd[OF assms] concat_split[OF assms] by auto

text \<open>The tree after the insertion of a new entry, before a possible resize.\<close>

definition nt_added :: "(component \<Rightarrow> byte list) \<Rightarrow> name \<Rightarrow> nt_ref option \<Rightarrow> name_tree \<Rightarrow> name_tree" where
  "nt_added wire n parent t =
    (let r = nt_next t; h = computeHash wire n; loc = bucket_of t h
     in t\<lparr>nt_next := r + 1, nt_buckets := (nt_buckets t)[loc := nt_buckets t ! loc @ [r]],
          nt_nItems := nt_nItems t + 1,
          nt_entries := add_child r parent
            ((nt_entries t)(r \<mapsto> (newEntry n)\<lparr>e_hash := h, e_parent := parent\<rparr>))\<rparr>)"

definition enlarge :: "name_tree \<Rightarrow> name_tree option" where
  "enlarge t = (if nt_nItems t > nt_enlargeThreshold t then resize (2 * nt_nBuckets t) t else Some t)"

lemma next_not_live: "nt_inv wire t \<Longrightarrow> nt_entries t (nt_next t) = None"
  using nt_inv_entry(3) by (cases "nt_entries t (nt_next t)") blast+

lemma lookup_step_eq:
  assumes inv: "nt_inv wire t" and par: "parent_ok (nt_entries t) n parent"
  shows "lookup_step wire n parent t =
    (case findExactMatch wire n t of
       Some r \<Rightarrow> map_option (\<lambda>t. (t, r)) (enlarge t)
     | None \<Rightarrow> map_option (\<lambda>t'. (t', nt_next t)) (enlarge (nt_added wire n parent t)))"
proof -
  have ne: "parent \<noteq> Some (nt_next t)"
    using par next_not_live[OF inv] by (auto simp: parent_ok_def)
  have "(case parent of None \<Rightarrow> t2 | Some p \<Rightarrow> nt_update p (\<lambda>e. e\<lparr>e_children := e_children e @ [r]\<rparr>) t2)
      = t2\<lparr>nt_entries := add_child r parent (nt_entries t2)\<rparr>" for r t2
    by (cases parent) (auto simp: nt_update_def add_child_def fun_eq_iff intro!: name_tree.equality)
  note child = this
  have bind: "Option.bind m (\<lambda>t. Some (t, r)) = map_option (\<lambda>t. (t, r)) m" for m :: "name_tree option" and r :: nt_ref
    by (cases m) simp_all
  show ?thesis
  proof (cases "findExactMatch wire n t")
    case None
    then show ?thesis
      unfolding lookup_step_def nt_insert_def Let_def insert_find_iff[OF inv] enlarge_def[symmetric]
      by (simp add: child bind nt_update_def nt_added_def Let_def)
  next
    case (Some r)
    then show ?thesis
      unfolding lookup_step_def nt_insert_def Let_def insert_find_iff[OF inv] enlarge_def[symmetric]
      by (simp add: bind)
  qed
qed

lemma nt_added_inv:
  assumes inv: "nt_inv wire t" and par: "parent_ok (nt_entries t) n parent"
    and new: "findExactMatch wire n t = None"
  shows "nt_inv wire (nt_added wire n parent t)" (is "nt_inv wire ?t")
proof -
  let ?h = "computeHash wire n"
  let ?loc = "bucket_of t ?h"
  let ?ne = "(newEntry n)\<lparr>e_hash := ?h, e_parent := parent\<rparr>"
  let ?es = "add_child (nt_next t) parent ((nt_entries t)(nt_next t \<mapsto> ?ne))"
  have loc: "?loc < length (nt_buckets t)"
    by (rule bucket_of_less[OF inv])
  have "nt_prefix t q \<noteq> Some n" for q
    using new findExactMatch_iff[OF inv, of n q] by auto
  then have fresh: "e_prefix e \<noteq> n" if "nt_entries t q = Some e" for q e
    using that by (auto simp: nt_prefix_def)
  have tree: "tree_inv ?es"
    by (rule tree_inv_insert[OF nt_invD(7)[OF inv] next_not_live[OF inv] _ _ _ fresh par])
      (simp_all add: newEntry_def)
  have notin: "nt_next t \<notin> set (concat (nt_buckets t))"
    unfolding nt_invD(5)[OF inv] live_def using next_not_live[OF inv] by auto
  have dom: "dom ?es = insert (nt_next t) (dom (nt_entries t))"
    by (auto simp: add_child_def dom_def split: if_splits)
  have ents: "e_hash e = computeHash wire (e_prefix e) \<and>
      q \<in> set ((nt_buckets t)[?loc := nt_buckets t ! ?loc @ [nt_next t]] ! bucket_of t (computeHash wire (e_prefix e))) \<and>
      q < nt_next t + 1" if q: "?es q = Some e" for q e
  proof (cases "q = nt_next t")
    case True
    then have "e_hash e = ?h" "e_prefix e = n"
      using q by (auto simp: add_child_def newEntry_def split: if_splits)
    then show ?thesis
      using True loc by simp
  next
    case False
    then obtain e0 where e0: "nt_entries t q = Some e0" "e_hash e = e_hash e0" "e_prefix e = e_prefix e0"
      using q by (auto simp: add_child_def split: if_splits)
    show ?thesis
      using nt_inv_entry[OF inv e0(1)] e0 loc by (auto simp: nth_list_update)
  qed
  have "buckets_inv wire ?t"
    using inv notin loc ents dom buckets_append[OF loc, of "nt_next t"]
    unfolding nt_inv_def buckets_inv_def nt_added_def Let_def live_def bucket_of_def by simp
  with tree show ?thesis
    by (simp add: nt_inv_def nt_added_def Let_def)
qed


section \<open>Lookup\<close>

text \<open>Sizes for which doubling keeps the number of buckets at most \<open>2 ^ 32\<close>.\<close>

definition maxItems :: nat where "maxItems = 2 ^ 31 - 1"

lemma enlarge_ok:
  assumes inv: "nt_inv wire t" and cap: "nt_nItems t \<le> maxItems"
  shows "\<exists>t'. enlarge t = Some t' \<and> nt_inv wire t' \<and> nt_entries t' = nt_entries t \<and>
    nt_nItems t' = nt_nItems t"
proof (cases "nt_nItems t > nt_enlargeThreshold t")
  case True
  have "nt_enlargeThreshold t = nt_nBuckets t div 2"
    using inv by (simp add: nt_inv_def buckets_inv_def)
  then have "nt_nBuckets t < 2 ^ 32"
    using True cap by (auto simp: maxItems_def)
  then have "power2 (2 * nt_nBuckets t)"
    by (rule power2_double[OF nt_invD(2)[OF inv]])
  then show ?thesis
    using resize_ok[OF inv, of "2 * nt_nBuckets t"] True
    by (auto simp: enlarge_def)
qed (use inv in \<open>simp add: enlarge_def\<close>)

text \<open>An entry that was there keeps its fields, its children apart; an entry that is new has
  nothing attached.\<close>

definition bare :: "nt_entry \<Rightarrow> bool" where
  "bare e \<longleftrightarrow> e_fibEntry e = None \<and> e_pitEntries e = [] \<and> e_measurementsEntry e = None \<and>
     e_strategyChoiceEntry e = None"

definition same_but_children :: "nt_entry \<Rightarrow> nt_entry \<Rightarrow> bool" where
  "same_but_children e e' \<longleftrightarrow> e'\<lparr>e_children := []\<rparr> = e\<lparr>e_children := []\<rparr>"

definition nt_grows :: "name_tree \<Rightarrow> name_tree \<Rightarrow> bool" where
  "nt_grows t t' \<longleftrightarrow>
     (\<forall>r e. nt_entries t r = Some e \<longrightarrow> (\<exists>e'. nt_entries t' r = Some e' \<and> same_but_children e e')) \<and>
     (\<forall>r e'. nt_entries t' r = Some e' \<longrightarrow> nt_entries t r = None \<longrightarrow> bare e')"

lemma same_but_childrenD:
  assumes "same_but_children e e'"
  shows "e_hash e' = e_hash e" "e_prefix e' = e_prefix e" "e_parent e' = e_parent e"
    "e_fibEntry e' = e_fibEntry e" "e_pitEntries e' = e_pitEntries e"
    "e_measurementsEntry e' = e_measurementsEntry e" "e_strategyChoiceEntry e' = e_strategyChoiceEntry e"
  using assms unfolding same_but_children_def
  by (cases e; cases e'; simp)+

lemma same_but_children_refl [simp]: "same_but_children e e"
  by (simp add: same_but_children_def)

lemma same_but_children_upd [simp]: "same_but_children e (e\<lparr>e_children := cs\<rparr>)"
  by (simp add: same_but_children_def)

lemma same_but_children_trans:
  "same_but_children a b \<Longrightarrow> same_but_children b c \<Longrightarrow> same_but_children a c"
  by (simp add: same_but_children_def)

lemma same_but_children_bare: "same_but_children e e' \<Longrightarrow> bare e' = bare e"
  by (simp add: bare_def same_but_childrenD)

lemma nt_grows_entry:
  "nt_grows t t' \<Longrightarrow> nt_entries t r = Some e \<Longrightarrow> \<exists>e'. nt_entries t' r = Some e' \<and> same_but_children e e'"
  by (simp add: nt_grows_def)

lemma nt_grows_prefix: "nt_grows t t' \<Longrightarrow> nt_prefix t r = Some n \<Longrightarrow> nt_prefix t' r = Some n"
  using nt_grows_entry same_but_childrenD(2) by (fastforce simp: nt_prefix_def)

lemma nt_grows_refl [simp]: "nt_grows t t"
  by (auto simp: nt_grows_def)

lemma nt_grows_same: "nt_entries t' = nt_entries t \<Longrightarrow> nt_grows s t' = nt_grows s t"
  by (simp add: nt_grows_def)

lemma nt_grows_trans:
  assumes "nt_grows a b" and "nt_grows b c"
  shows "nt_grows a c"
  unfolding nt_grows_def
proof (intro conjI allI impI)
  fix r e assume "nt_entries a r = Some e"
  then show "\<exists>e'. nt_entries c r = Some e' \<and> same_but_children e e'"
    using nt_grows_entry[OF assms(1)] nt_grows_entry[OF assms(2)] same_but_children_trans by meson
next
  fix r e' assume c: "nt_entries c r = Some e'" "nt_entries a r = None"
  show "bare e'"
  proof (cases "nt_entries b r")
    case None
    with assms(2) c show ?thesis by (simp add: nt_grows_def)
  next
    case (Some e)
    then have "bare e" using assms(1) c by (simp add: nt_grows_def)
    then show ?thesis
      using nt_grows_entry[OF assms(2) Some] c same_but_children_bare by auto
  qed
qed

lemma nt_added_grows:
  assumes inv: "nt_inv wire t"
  shows "nt_grows t (nt_added wire n parent t)"
  using next_not_live[OF inv] unfolding nt_grows_def nt_added_def Let_def
  by (auto simp: add_child_def bare_def newEntry_def split: if_splits)

definition nt_names :: "name_tree \<Rightarrow> name set" where
  "nt_names t = {n. \<exists>r. nt_prefix t r = Some n}"

lemma nt_prefix_same: "nt_entries t' = nt_entries t \<Longrightarrow> nt_prefix t' r = nt_prefix t r"
  by (simp add: nt_prefix_def)

lemma nt_names_same: "nt_entries t' = nt_entries t \<Longrightarrow> nt_names t' = nt_names t"
  by (simp add: nt_names_def nt_prefix_def)

lemma nt_added_prefix:
  assumes "nt_inv wire t"
  shows "nt_prefix (nt_added wire n parent t) q = (if q = nt_next t then Some n else nt_prefix t q)"
  using next_not_live[OF assms]
  by (auto simp: nt_prefix_def nt_added_def Let_def add_child_def newEntry_def option.map_comp o_def)

lemma nt_added_names:
  assumes "nt_inv wire t"
  shows "nt_names (nt_added wire n parent t) = insert n (nt_names t)"
proof -
  have none: "nt_prefix t (nt_next t) = None"
    using next_not_live[OF assms] by (simp add: nt_prefix_def)
  have "(\<exists>q. (if q = nt_next t then Some n else nt_prefix t q) = Some m) \<longleftrightarrow>
      m = n \<or> (\<exists>q. nt_prefix t q = Some m)" for m
    using none by (metis option.distinct(1) option.inject)
  then show ?thesis
    unfolding nt_names_def nt_added_prefix[OF assms] by blast
qed

lemma lookup_step_ok:
  assumes inv: "nt_inv wire t" and par: "parent_ok (nt_entries t) n parent"
    and cap: "nt_nItems t < maxItems"
  shows "\<exists>t' r. lookup_step wire n parent t = Some (t', r) \<and> nt_inv wire t' \<and> nt_grows t t' \<and>
    nt_prefix t' r = Some n \<and> nt_nItems t' \<le> nt_nItems t + 1 \<and> nt_names t' = insert n (nt_names t)"
proof (cases "findExactMatch wire n t")
  case None
  let ?t = "nt_added wire n parent t"
  have inv': "nt_inv wire ?t"
    by (rule nt_added_inv[OF inv par None])
  have items: "nt_nItems ?t = nt_nItems t + 1"
    by (simp add: nt_added_def Let_def)
  obtain t' where t': "enlarge ?t = Some t'" "nt_inv wire t'" "nt_entries t' = nt_entries ?t"
    "nt_nItems t' = nt_nItems ?t"
    using enlarge_ok[OF inv'] items cap by auto
  show ?thesis
    unfolding lookup_step_eq[OF inv par] None
    using t' items nt_added_grows[OF inv] nt_added_prefix[OF inv] nt_added_names[OF inv]
    by (simp add: nt_grows_same[OF t'(3)] nt_prefix_same[OF t'(3)] nt_names_same[OF t'(3)])
next
  case (Some r)
  obtain t' where t': "enlarge t = Some t'" "nt_inv wire t'" "nt_entries t' = nt_entries t"
    "nt_nItems t' = nt_nItems t"
    using enlarge_ok[OF inv] cap by auto
  have r: "nt_prefix t r = Some n"
    using Some findExactMatch_iff[OF inv] by simp
  then have "n \<in> nt_names t"
    by (auto simp: nt_names_def)
  then show ?thesis
    unfolding lookup_step_eq[OF inv par] Some
    using t' r by (simp add: nt_grows_same[OF t'(3)] nt_prefix_same[OF t'(3)] nt_names_same[OF t'(3)] insert_absorb)
qed

lemma lookup_loop_ok:
  assumes "nt_inv wire t" and "parent_ok (nt_entries t) (take k n) parent" and "k \<le> length n"
    and "nt_nItems t + (length n + 1 - k) \<le> maxItems"
  shows "\<exists>t' r. lookup_loop wire (map (\<lambda>i. take i n) [k..<length n + 1]) parent t = Some (t', Some r) \<and>
    nt_inv wire t' \<and> nt_grows t t' \<and> nt_prefix t' r = Some n \<and>
    nt_nItems t' \<le> nt_nItems t + (length n + 1 - k) \<and>
    nt_names t' = nt_names t \<union> (\<lambda>i. take i n) ` {k..length n}"
  using assms
proof (induction "length n - k" arbitrary: k parent t)
  case 0
  then have k: "k = length n"
    by simp
  obtain t' r where s: "lookup_step wire (take k n) parent t = Some (t', r)" "nt_inv wire t'"
    "nt_grows t t'" "nt_prefix t' r = Some (take k n)" "nt_nItems t' \<le> nt_nItems t + 1"
    "nt_names t' = insert (take k n) (nt_names t)"
    using lookup_step_ok[OF 0(2,3)] 0(5) k by auto
  have "(\<lambda>i. take i n) ` {k..length n} = {n}"
    using k by simp
  then show ?case
    using s k by simp
next
  case (Suc d)
  then have k: "k < length n"
    by simp
  have cap: "nt_nItems t < maxItems"
    using Suc(6) k by linarith
  obtain t' r where s: "lookup_step wire (take k n) parent t = Some (t', r)" "nt_inv wire t'"
    "nt_grows t t'" "nt_prefix t' r = Some (take k n)" "nt_nItems t' \<le> nt_nItems t + 1"
    "nt_names t' = insert (take k n) (nt_names t)"
    using lookup_step_ok[OF Suc(3,4) cap] by blast
  have par: "parent_ok (nt_entries t') (take (Suc k) n) (Some r)"
    using s(4) k by (auto simp: parent_ok_def nt_prefix_def butlast_take)
  obtain t'' r' where IH:
    "lookup_loop wire (map (\<lambda>i. take i n) [Suc k..<length n + 1]) (Some r) t' = Some (t'', Some r')"
    "nt_inv wire t''" "nt_grows t' t''" "nt_prefix t'' r' = Some n"
    "nt_nItems t'' \<le> nt_nItems t' + (length n + 1 - Suc k)"
    "nt_names t'' = nt_names t' \<union> (\<lambda>i. take i n) ` {Suc k..length n}"
  proof -
    have "d = length n - Suc k" "Suc k \<le> length n"
      "nt_nItems t' + (length n + 1 - Suc k) \<le> maxItems"
      using Suc(2,6) k s(5) by linarith+
    from Suc(1)[OF this(1) s(2) par this(2,3)] show thesis
      using that by blast
  qed
  have up: "[k..<length n + 1] = k # [Suc k..<length n + 1]"
    using k by (simp add: upt_conv_Cons)
  have "(\<lambda>i. take i n) ` {k..length n} =
      insert (take k n) ((\<lambda>i. take i n) ` {Suc k..length n})"
    using k by (metis atLeastAtMost_insertL image_insert less_imp_le_nat)
  then show ?case
    unfolding up using s(1,5,6) IH(1,2,4,5,6) nt_grows_trans[OF s(3) IH(3)] k by (simp del: upt_Suc)
qed

lemma nt_lookup_ok:
  assumes "nt_inv wire t" and "nt_nItems t + length n + 1 \<le> maxItems"
  shows "\<exists>t' r. nt_lookup wire n t = Some (t', r) \<and> nt_inv wire t' \<and> nt_grows t t' \<and>
    nt_prefix t' r = Some n \<and> nt_nItems t' \<le> nt_nItems t + length n + 1 \<and>
    nt_names t' = nt_names t \<union> {p. prefix p n}"
proof -
  have "parent_ok (nt_entries t) (take 0 n) None"
    by (simp add: parent_ok_def)
  moreover have "nt_nItems t + (length n + 1 - 0) \<le> maxItems"
    using assms(2) by simp
  ultimately obtain t' r where L:
    "lookup_loop wire (map (\<lambda>i. take i n) [0..<length n + 1]) None t = Some (t', Some r)"
    "nt_inv wire t'" "nt_grows t t'" "nt_prefix t' r = Some n"
    "nt_nItems t' \<le> nt_nItems t + (length n + 1 - 0)"
    "nt_names t' = nt_names t \<union> (\<lambda>i. take i n) ` {0..length n}"
    using lookup_loop_ok[OF assms(1) _ le0] by blast
  have "p \<in> (\<lambda>i. take i n) ` {0..length n}" if "prefix p n" for p
    using that by (intro image_eqI[of _ _ "length p"]) (auto simp: prefix_def)
  then have "(\<lambda>i. take i n) ` {0..length n} = {p. prefix p n}"
    using take_is_prefix by blast
  with L show ?thesis
    unfolding nt_lookup_def by (simp del: upt_Suc)
qed

section \<open>Removal\<close>

lemma swap_remove_ok:
  assumes "distinct xs" and "x \<in> set xs"
  shows "\<exists>ys. swap_remove x xs = Some ys \<and> distinct ys \<and> set ys = set xs - {x}"
proof -
  obtain as bs where xs: "xs = as @ x # bs" "x \<notin> set as"
    using split_list_first[OF assms(2)] by auto
  then have i: "takeWhile (\<lambda>y. y \<noteq> x) xs = as"
    by (subst xs(1), subst takeWhile_append2) auto
  show ?thesis
  proof (cases bs rule: rev_cases)
    case Nil
    then show ?thesis
      using assms xs i by (auto simp: swap_remove_def Let_def butlast_append)
  next
    case (snoc cs b)
    then show ?thesis
      using assms xs i by (auto simp: swap_remove_def Let_def butlast_append)
  qed
qed

definition del_child ::
  "nt_ref \<Rightarrow> nt_ref option \<Rightarrow> nt_ref list \<Rightarrow> (nt_ref \<Rightarrow> nt_entry option) \<Rightarrow> nt_ref \<Rightarrow> nt_entry option" where
  "del_child r parent cs es q =
    (if q = r then None
     else if parent = Some q then map_option (\<lambda>e. e\<lparr>e_children := cs\<rparr>) (es q) else es q)"

lemma del_child_Some:
  "del_child r parent cs es q = Some e' \<longleftrightarrow> q \<noteq> r \<and>
   (\<exists>e. es q = Some e \<and> e' = (if parent = Some q then e\<lparr>e_children := cs\<rparr> else e))"
  by (auto simp: del_child_def)

lemma tree_inv_remove:
  assumes inv: "tree_inv es" and r: "es r = Some e" "e_children e = []" "e_parent e = parent"
    and cs: "\<And>p pe. parent = Some p \<Longrightarrow> es p = Some pe \<Longrightarrow> distinct cs \<and> set cs = set (e_children pe) - {r}"
  shows "tree_inv (del_child r parent cs es)" (is "tree_inv ?es")
proof -
  note E = del_child_Some[of r parent cs es]
  have inj: "\<forall>q q' e e'. ?es q = Some e \<longrightarrow> ?es q' = Some e' \<longrightarrow> e_prefix e = e_prefix e' \<longrightarrow> q = q'"
    unfolding E using tree_inv_inj[OF inv] by (auto split: if_splits)
  have keep: "\<exists>pe'. ?es p = Some pe' \<and> e_prefix pe' = e_prefix pe \<and> e_parent pe' = e_parent pe"
    if "es p = Some pe" "p \<noteq> r" for p pe
    unfolding E using that by (cases "parent = Some p") auto
  have nochild: "e_parent ce \<noteq> Some r" if "es c = Some ce" for c ce
    using tree_inv_children[OF inv r(1)] r(2) that by auto
  have pars: "if e_prefix e' = [] then e_parent e' = None
      else \<exists>p pe. e_parent e' = Some p \<and> ?es p = Some pe \<and> e_prefix pe = butlast (e_prefix e')"
    if q: "?es q = Some e'" for q e'
  proof -
    from q obtain e0 where e0: "es q = Some e0" "e_prefix e' = e_prefix e0" "e_parent e' = e_parent e0"
      unfolding E by auto
    show ?thesis
      unfolding e0(2,3) using tree_inv_root[OF inv e0(1)] tree_inv_parent[OF inv e0(1)]
        nochild[OF e0(1)] keep by metis
  qed
  have child: "(\<exists>ce. ?es c = Some ce \<and> e_parent ce = Some q) \<longleftrightarrow>
      c \<noteq> r \<and> (\<exists>ce. es c = Some ce \<and> e_parent ce = Some q)" for c q
  proof
    assume "\<exists>ce. ?es c = Some ce \<and> e_parent ce = Some q"
    then show "c \<noteq> r \<and> (\<exists>ce. es c = Some ce \<and> e_parent ce = Some q)"
      unfolding E by (auto split: if_splits)
  next
    assume "c \<noteq> r \<and> (\<exists>ce. es c = Some ce \<and> e_parent ce = Some q)"
    then show "\<exists>ce. ?es c = Some ce \<and> e_parent ce = Some q"
      using keep by metis
  qed
  have chs: "distinct (e_children e') \<and>
      (\<forall>c. c \<in> set (e_children e') \<longleftrightarrow> (\<exists>ce. ?es c = Some ce \<and> e_parent ce = Some q))"
    if q: "?es q = Some e'" for q e'
  proof -
    from q obtain e0 where e0: "es q = Some e0"
      "e' = (if parent = Some q then e0\<lparr>e_children := cs\<rparr> else e0)"
      unfolding E by auto
    note old = tree_inv_children[OF inv e0(1)]
    show ?thesis
    proof (cases "parent = Some q")
      case True
      then show ?thesis
        unfolding child using e0 old cs[OF True e0(1)] by auto
    next
      case False
      then show ?thesis
        unfolding child using e0 old r by auto
    qed
  qed
  show ?thesis
    unfolding tree_inv_def using inj pars chs by blast
qed

lemma buckets_remove:
  assumes "i < length bs" and "distinct (concat bs)" and "r \<in> set (bs ! i)"
  shows "set (concat (bs[i := remove1 r (bs ! i)])) = set (concat bs) - {r}"
    "distinct (concat (bs[i := remove1 r (bs ! i)]))"
    "Suc (length (concat (bs[i := remove1 r (bs ! i)]))) = length (concat bs)"
proof -
  have d: "distinct (concat (take i bs) @ bs ! i @ concat (drop (Suc i) bs))"
    using assms(2) concat_split[OF assms(1)] by simp
  show "set (concat (bs[i := remove1 r (bs ! i)])) = set (concat bs) - {r}"
    unfolding concat_upd[OF assms(1)] concat_split[OF assms(1)] using d assms(3) by auto
  show "distinct (concat (bs[i := remove1 r (bs ! i)]))"
    unfolding concat_upd[OF assms(1)] using d by (auto dest: set_remove1_subset[THEN subsetD])
  have "0 < length (bs ! i)"
    using assms(3) by (rule length_pos_if_in_set)
  then show "Suc (length (concat (bs[i := remove1 r (bs ! i)]))) = length (concat bs)"
    unfolding concat_upd[OF assms(1)] concat_split[OF assms(1)] using assms(3)
    by (simp add: length_remove1)
qed

text \<open>The tree after an entry is unlinked.\<close>

definition nt_unlinked :: "nt_ref \<Rightarrow> nt_entry \<Rightarrow> nt_ref list \<Rightarrow> name_tree \<Rightarrow> name_tree" where
  "nt_unlinked r e cs t =
    (let loc = bucket_of t (e_hash e)
     in t\<lparr>nt_buckets := (nt_buckets t)[loc := remove1 r (nt_buckets t ! loc)],
          nt_nItems := nt_nItems t - 1, nt_entries := del_child r (e_parent e) cs (nt_entries t)\<rparr>)"

lemma nt_unlinked_inv:
  assumes inv: "nt_inv wire t" and r: "nt_entries t r = Some e" "e_children e = []"
    and cs: "\<And>p pe. e_parent e = Some p \<Longrightarrow> nt_entries t p = Some pe \<Longrightarrow>
       distinct cs \<and> set cs = set (e_children pe) - {r}"
  shows "nt_inv wire (nt_unlinked r e cs t)" "Suc (nt_nItems (nt_unlinked r e cs t)) = nt_nItems t"
proof -
  let ?loc = "bucket_of t (e_hash e)"
  let ?es = "del_child r (e_parent e) cs (nt_entries t)"
  have loc: "?loc < length (nt_buckets t)"
    by (rule bucket_of_less[OF inv])
  have rin: "r \<in> set (nt_buckets t ! ?loc)"
    using nt_inv_entry[OF inv r(1)] by simp
  note bs = buckets_remove[OF loc nt_invD(4)[OF inv] rin]
  have tree: "tree_inv ?es"
    by (rule tree_inv_remove[OF nt_invD(7)[OF inv] r refl cs])
  have dom: "dom ?es = dom (nt_entries t) - {r}"
    by (auto simp: del_child_def dom_def split: if_splits)
  have ents: "e_hash e' = computeHash wire (e_prefix e') \<and>
      q \<in> set ((nt_buckets t)[?loc := remove1 r (nt_buckets t ! ?loc)] ! bucket_of t (computeHash wire (e_prefix e'))) \<and>
      q < nt_next t" if q: "?es q = Some e'" for q e'
  proof -
    from q obtain e0 where e0: "q \<noteq> r" "nt_entries t q = Some e0" "e_hash e' = e_hash e0" "e_prefix e' = e_prefix e0"
      unfolding del_child_Some by auto
    show ?thesis
      using nt_inv_entry[OF inv e0(2)] e0 loc by (auto simp: nth_list_update)
  qed
  show items: "Suc (nt_nItems (nt_unlinked r e cs t)) = nt_nItems t"
    using bs(3) nt_invD(6)[OF inv] by (simp add: nt_unlinked_def Let_def)
  have "buckets_inv wire (nt_unlinked r e cs t)"
    using inv bs ents dom
    unfolding nt_inv_def buckets_inv_def nt_unlinked_def Let_def live_def bucket_of_def by simp
  with tree show "nt_inv wire (nt_unlinked r e cs t)"
    by (simp add: nt_inv_def nt_unlinked_def Let_def)
qed


definition nt_shrinks :: "name_tree \<Rightarrow> name_tree \<Rightarrow> bool" where
  "nt_shrinks t t' \<longleftrightarrow>
     (\<forall>r e'. nt_entries t' r = Some e' \<longrightarrow> (\<exists>e. nt_entries t r = Some e \<and> same_but_children e e')) \<and>
     (\<forall>r e. nt_entries t r = Some e \<longrightarrow> nt_entries t' r = None \<longrightarrow> bare e)"

lemma nt_shrinks_refl [simp]: "nt_shrinks t t"
  by (auto simp: nt_shrinks_def)

lemma nt_shrinks_entry:
  "nt_shrinks t t' \<Longrightarrow> nt_entries t' r = Some e' \<Longrightarrow> \<exists>e. nt_entries t r = Some e \<and> same_but_children e e'"
  by (simp add: nt_shrinks_def)

lemma nt_shrinks_keeps:
  assumes "nt_shrinks t t'" and "nt_entries t r = Some e" and "\<not> bare e"
  shows "\<exists>e'. nt_entries t' r = Some e' \<and> same_but_children e e'"
proof (cases "nt_entries t' r")
  case None
  with assms show ?thesis by (simp add: nt_shrinks_def)
next
  case (Some e')
  with nt_shrinks_entry[OF assms(1) Some] assms(2) show ?thesis by auto
qed

lemma nt_shrinks_trans:
  assumes "nt_shrinks a b" and "nt_shrinks b c"
  shows "nt_shrinks a c"
  unfolding nt_shrinks_def
proof (intro conjI allI impI)
  fix r e' assume "nt_entries c r = Some e'"
  then show "\<exists>e. nt_entries a r = Some e \<and> same_but_children e e'"
    using nt_shrinks_entry[OF assms(1)] nt_shrinks_entry[OF assms(2)] same_but_children_trans by meson
next
  fix r e assume a: "nt_entries a r = Some e" "nt_entries c r = None"
  show "bare e"
  proof (rule ccontr)
    assume nb: "\<not> bare e"
    then obtain e' where e': "nt_entries b r = Some e'" "same_but_children e e'"
      using nt_shrinks_keeps[OF assms(1) a(1)] by auto
    then have "\<not> bare e'"
      using nb same_but_children_bare by simp
    with nt_shrinks_keeps[OF assms(2) e'(1)] a(2) show False by simp
  qed
qed

definition shrink :: "name_tree \<Rightarrow> name_tree option" where
  "shrink t = (if nt_nBuckets t div 2 \<ge> nt_minNBuckets t \<and> nt_nItems t < nt_shrinkThreshold t
     then resize (nt_nBuckets t div 2) t else Some t)"

lemma shrink_ok:
  assumes inv: "nt_inv wire t"
  shows "\<exists>t'. shrink t = Some t' \<and> nt_inv wire t' \<and> nt_entries t' = nt_entries t \<and>
    nt_nItems t' = nt_nItems t"
proof -
  have m: "0 < nt_minNBuckets t"
    using inv by (simp add: nt_inv_def buckets_inv_def)
  show ?thesis
  proof (cases "nt_nBuckets t div 2 \<ge> nt_minNBuckets t \<and> nt_nItems t < nt_shrinkThreshold t")
    case True
    then have "power2 (nt_nBuckets t div 2)"
      using m by (intro power2_half[OF nt_invD(2)[OF inv]]) simp
    from resize_ok[OF inv this] show ?thesis
      unfolding shrink_def using True by auto
  next
    case False
    then show ?thesis
      unfolding shrink_def using inv by auto
  qed
qed

text \<open>One call, in terms of these.\<close>

lemma del_child_None: "del_child r None cs es = es(r := None)"
  by (auto simp: del_child_def fun_eq_iff)

lemma del_child_Some_eq:
  "del_child r (Some p) cs es = es(p := map_option (\<lambda>e. e\<lparr>e_children := cs\<rparr>) (es p), r := None)"
  by (auto simp: del_child_def fun_eq_iff)

lemma erase_step:
  assumes inv: "nt_inv wire t" and r: "nt_entries t r = Some e" and emp: "isEmpty e"
  obtains cs where "nt_inv wire (nt_unlinked r e cs t)"
    "Suc (nt_nItems (nt_unlinked r e cs t)) = nt_nItems t"
    "eraseEntryIfEmpty r t = do {
       t3 \<leftarrow> (case e_parent e of None \<Rightarrow> Some (nt_unlinked r e cs t)
             | Some p \<Rightarrow> map_option fst (eraseEntryIfEmpty p (nt_unlinked r e cs t)));
       t4 \<leftarrow> shrink t3;
       Some (t4, True) }"
proof -
  have ch: "e_children e = []"
    using emp by (simp add: isEmpty_def)
  have rin: "r \<in> set (nt_buckets t ! bucket_of t (e_hash e))"
    using nt_inv_entry[OF inv r] by simp
  have pos: "nt_nItems t \<noteq> 0"
  proof -
    have "r \<in> set (concat (nt_buckets t))"
      unfolding nt_invD(5)[OF inv] live_def using r by blast
    then show ?thesis
      unfolding nt_invD(6)[OF inv] by (simp only: length_0_conv) (metis empty_iff list.set(1))
  qed
  show ?thesis
  proof (cases "e_parent e")
    case None
    have "eraseEntryIfEmpty r t = shrink (nt_unlinked r e [] t) \<bind> (\<lambda>t4. Some (t4, True))"
      unfolding eraseEntryIfEmpty.simps[of r t] Let_def shrink_def[symmetric]
      using r emp pos None rin by (simp add: nt_unlinked_def Let_def del_child_None)
    then show ?thesis
      by (intro that[of "[]"] nt_unlinked_inv[OF inv r ch]) (simp_all add: None)
  next
    case (Some p)
    obtain pe where pe: "nt_entries t p = Some pe"
      using tree_inv_parent_live[OF nt_invD(7)[OF inv] r Some] by blast
    have "distinct (e_children pe)" "r \<in> set (e_children pe)"
      using tree_inv_children[OF nt_invD(7)[OF inv] pe] r Some by blast+
    then obtain cs where cs: "swap_remove r (e_children pe) = Some cs" "distinct cs"
      "set cs = set (e_children pe) - {r}"
      using swap_remove_ok by metis
    have sel: "nt_buckets (nt_update p f t) = nt_buckets t" "bucket_of (nt_update p f t) h = bucket_of t h"
      "nt_nItems (nt_update p f t) = nt_nItems t" for f h
      by (simp_all add: nt_update_def bucket_of_def)
    have "eraseEntryIfEmpty r t = do {
        t3 \<leftarrow> map_option fst (eraseEntryIfEmpty p (nt_unlinked r e cs t));
        t4 \<leftarrow> shrink t3; Some (t4, True) }"
      unfolding eraseEntryIfEmpty.simps[of r t] Let_def shrink_def[symmetric]
      using r emp pos Some pe cs(1) rin
      by (simp add: sel nt_unlinked_def Let_def del_child_Some_eq) (simp add: nt_update_def)
    then show ?thesis
      by (intro that[of cs] nt_unlinked_inv[OF inv r ch]) (use Some pe cs(2,3) in simp_all)
  qed
qed

lemma nt_unlinked_Some:
  "nt_entries (nt_unlinked r e cs t) q = Some e' \<longleftrightarrow> q \<noteq> r \<and>
   (\<exists>e0. nt_entries t q = Some e0 \<and> e' = (if e_parent e = Some q then e0\<lparr>e_children := cs\<rparr> else e0))"
  by (simp add: nt_unlinked_def Let_def del_child_Some)

lemma isEmpty_bare: "isEmpty e \<Longrightarrow> bare e"
  by (simp add: isEmpty_def bare_def)

lemma nt_unlinked_shrinks:
  assumes "nt_entries t r = Some e" and "isEmpty e"
  shows "nt_shrinks t (nt_unlinked r e cs t)"
  unfolding nt_shrinks_def
proof (intro conjI allI impI)
  fix q e' assume "nt_entries (nt_unlinked r e cs t) q = Some e'"
  then show "\<exists>e. nt_entries t q = Some e \<and> same_but_children e e'"
    unfolding nt_unlinked_Some by auto
next
  fix q e0 assume q: "nt_entries t q = Some e0" "nt_entries (nt_unlinked r e cs t) q = None"
  then have "q = r"
    using nt_unlinked_Some[of r e cs t q] by (metis option.distinct(1))
  with q assms show "bare e0"
    by (simp add: isEmpty_bare)
qed

definition no_empty_but :: "nt_ref option \<Rightarrow> name_tree \<Rightarrow> bool" where
  "no_empty_but r t \<longleftrightarrow> (\<forall>q e. nt_entries t q = Some e \<longrightarrow> Some q \<noteq> r \<longrightarrow> \<not> isEmpty e)"

lemma nt_unlinked_no_empty:
  assumes "no_empty_but (Some r) t"
  shows "no_empty_but (e_parent e) (nt_unlinked r e cs t)"
  using assms unfolding no_empty_but_def nt_unlinked_Some by auto

lemma nt_unlinked_parent:
  assumes inv: "nt_inv wire t" and "nt_entries t r = Some e" and "e_parent e = Some p"
  shows "\<exists>pe. nt_entries (nt_unlinked r e cs t) p = Some pe"
proof -
  obtain pe where pe: "nt_entries t p = Some pe" "e_prefix pe = butlast (e_prefix e)" "e_prefix e \<noteq> []"
    using tree_inv_parent_live[OF nt_invD(7)[OF inv] assms(2,3)] by blast
  then have "p \<noteq> r"
    using assms(2) by (metis append_butlast_last_id append_self_conv not_Cons_self2 option.inject)
  then show ?thesis
    unfolding nt_unlinked_Some using pe by blast
qed

lemma nt_shrinks_same: "nt_entries t' = nt_entries t \<Longrightarrow> nt_shrinks s t' = nt_shrinks s t"
  by (simp add: nt_shrinks_def)

lemma no_empty_but_same: "nt_entries t' = nt_entries t \<Longrightarrow> no_empty_but r t' = no_empty_but r t"
  by (simp add: no_empty_but_def)

definition erased :: "nt_ref \<Rightarrow> nt_entry \<Rightarrow> name_tree \<Rightarrow> name_tree \<Rightarrow> bool" where
  "erased r e t t' \<longleftrightarrow> nt_shrinks t t' \<and> nt_nItems t' \<le> nt_nItems t \<and>
     (if isEmpty e then nt_entries t' r = None else t' = t) \<and>
     (no_empty_but (Some r) t \<longrightarrow> no_empty_but None t')"

lemma eraseEntryIfEmpty_ok:
  assumes "nt_inv wire t" and "nt_entries t r = Some e"
  shows "\<exists>t'. eraseEntryIfEmpty r t = Some (t', isEmpty e) \<and> nt_inv wire t' \<and> erased r e t t'"
  using assms
proof (induction "nt_nItems t" arbitrary: r e t rule: less_induct)
  case less
  show ?case
  proof (cases "isEmpty e")
    case False
    have "no_empty_but None t" if "no_empty_but (Some r) t"
      using that less.prems(2) False unfolding no_empty_but_def by (metis option.inject)
    then have "erased r e t t"
      using False by (simp add: erased_def)
    moreover have "eraseEntryIfEmpty r t = Some (t, False)"
      unfolding eraseEntryIfEmpty.simps[of r t] less.prems(2) using False by simp
    ultimately show ?thesis
      using False less.prems(1) by (intro exI[of _ t]) simp
  next
    case True
    obtain cs where U: "nt_inv wire (nt_unlinked r e cs t)"
      "Suc (nt_nItems (nt_unlinked r e cs t)) = nt_nItems t"
      "eraseEntryIfEmpty r t = do {
         t3 \<leftarrow> (case e_parent e of None \<Rightarrow> Some (nt_unlinked r e cs t)
               | Some p \<Rightarrow> map_option fst (eraseEntryIfEmpty p (nt_unlinked r e cs t)));
         t4 \<leftarrow> shrink t3;
         Some (t4, True) }"
      using erase_step[OF less.prems True] by blast
    let ?t = "nt_unlinked r e cs t"
    have "\<exists>t3. (case e_parent e of None \<Rightarrow> Some ?t | Some p \<Rightarrow> map_option fst (eraseEntryIfEmpty p ?t)) = Some t3 \<and>
        nt_inv wire t3 \<and> nt_shrinks ?t t3 \<and> nt_nItems t3 \<le> nt_nItems ?t \<and>
        (no_empty_but (e_parent e) ?t \<longrightarrow> no_empty_but None t3)"
    proof (cases "e_parent e")
      case None
      with U show ?thesis by simp
    next
      case (Some p)
      obtain pe where pe: "nt_entries ?t p = Some pe"
        using nt_unlinked_parent[OF less.prems Some] by blast
      have "nt_nItems ?t < nt_nItems t"
        using U(2) by simp
      from less.hyps[OF this U(1) pe] obtain t3 where
        "eraseEntryIfEmpty p ?t = Some (t3, isEmpty pe)" "nt_inv wire t3" "erased p pe ?t t3"
        by blast
      then show ?thesis
        unfolding Some erased_def by simp
    qed
    then obtain t3 where t3: "(case e_parent e of None \<Rightarrow> Some ?t
        | Some p \<Rightarrow> map_option fst (eraseEntryIfEmpty p ?t)) = Some t3"
      "nt_inv wire t3" "nt_shrinks ?t t3" "nt_nItems t3 \<le> nt_nItems ?t"
      "no_empty_but (e_parent e) ?t \<longrightarrow> no_empty_but None t3"
      by blast
    obtain t4 where t4: "shrink t3 = Some t4" "nt_inv wire t4" "nt_entries t4 = nt_entries t3"
      "nt_nItems t4 = nt_nItems t3"
      using shrink_ok[OF t3(2)] by blast
    have "nt_shrinks t t3"
      using nt_shrinks_trans[OF nt_unlinked_shrinks[OF less.prems(2) True] t3(3)] .
    moreover have "nt_entries t3 r = None"
    proof (rule ccontr)
      assume "nt_entries t3 r \<noteq> None"
      then obtain e' where "nt_entries t3 r = Some e'" by auto
      with nt_shrinks_entry[OF t3(3)] show False
        unfolding nt_unlinked_Some by blast
    qed
    ultimately have "erased r e t t4"
      using t3(4,5) t4(4) U(2) True nt_unlinked_no_empty[of r t e cs]
      unfolding erased_def nt_shrinks_same[OF t4(3)] no_empty_but_same[OF t4(3)] t4(3) by simp
    moreover have "eraseEntryIfEmpty r t = Some (t4, True)"
      unfolding U(3) t3(1) using t4(1) by simp
    ultimately show ?thesis
      using True t4(2) by auto
  qed
qed

section \<open>Prefix matching\<close>

text \<open>The reference: the entries of the prefixes of a name, the longest first.\<close>

definition prefixes_desc :: "name \<Rightarrow> name list" where
  "prefixes_desc n = map (\<lambda>i. take i n) (rev [0..<Suc (length n)])"

definition matches :: "(component \<Rightarrow> byte list) \<Rightarrow> name \<Rightarrow> name_tree \<Rightarrow> nt_ref list" where
  "matches wire n t = List.map_filter (\<lambda>p. findExactMatch wire p t) (prefixes_desc n)"

definition selected :: "entry_selector \<Rightarrow> name_tree \<Rightarrow> nt_ref \<Rightarrow> bool" where
  "selected sel t r = (case nt_entries t r of Some e \<Rightarrow> sel e | None \<Rightarrow> False)"

lemma prefixes_desc_Nil [simp]: "prefixes_desc [] = [[]]"
  by (simp add: prefixes_desc_def)

lemma prefixes_desc_snoc [simp]: "prefixes_desc (n @ [c]) = (n @ [c]) # prefixes_desc n"
  by (auto simp: prefixes_desc_def)

lemma set_prefixes_desc: "set (prefixes_desc n) = {p. prefix p n}"
  by (induction n rule: rev_induct) auto

lemma map_filter_Cons:
  "List.map_filter f (x # xs) = (case f x of None \<Rightarrow> List.map_filter f xs | Some y \<Rightarrow> y # List.map_filter f xs)"
  by (simp add: List.map_filter_def split: option.split)

lemma map_filter_Nil [simp]: "List.map_filter f [] = []"
  by (simp add: List.map_filter_def)

lemma matches_Nil:
  "matches wire [] t = (case findExactMatch wire [] t of None \<Rightarrow> [] | Some r \<Rightarrow> [r])"
  by (simp add: matches_def map_filter_Cons split: option.split)

lemma matches_snoc:
  "matches wire (n @ [c]) t =
   (case findExactMatch wire (n @ [c]) t of None \<Rightarrow> matches wire n t | Some r \<Rightarrow> r # matches wire n t)"
  by (simp add: matches_def map_filter_Cons split: option.split)

lemma set_map_filter: "y \<in> set (List.map_filter f xs) \<longleftrightarrow> (\<exists>x \<in> set xs. f x = Some y)"
  by (induction xs) (auto simp: map_filter_Cons split: option.splits)

lemma in_matches:
  assumes "nt_inv wire t"
  shows "r \<in> set (matches wire n t) \<longleftrightarrow> (\<exists>p. nt_prefix t r = Some p \<and> prefix p n)"
  unfolding matches_def set_map_filter set_prefixes_desc findExactMatch_iff[OF assms] by blast

lemma matches_prefix:
  assumes inv: "nt_inv wire t" and "nt_prefix t r = Some (n @ [c])"
  shows "matches wire (n @ [c]) t = r # matches wire n t"
  unfolding matches_snoc using findExactMatch_iff[OF inv, of "n @ [c]" r] assms(2) by simp

subsection \<open>Climbing\<close>

lemma parent_cases:
  assumes inv: "nt_inv wire t" and e: "nt_entries t r = Some e"
  obtains "e_prefix e = []" "e_parent e = None"
  | n c p where "e_prefix e = n @ [c]" "e_parent e = Some p" "nt_prefix t p = Some n"
proof (cases "e_prefix e" rule: rev_cases)
  case Nil
  with tree_inv_root[OF nt_invD(7)[OF inv] e] that(1) show ?thesis by blast
next
  case (snoc n c)
  with tree_inv_parent[OF nt_invD(7)[OF inv] e] that(2) show ?thesis
    by (auto simp: nt_prefix_def)
qed

lemma climb_ok:
  assumes inv: "nt_inv wire t"
  shows "nt_prefix t r = Some n \<Longrightarrow>
    climb sel t (Some r) = Some (filter (selected sel t) (matches wire n t))"
proof (induction n arbitrary: r rule: rev_induct)
  case Nil
  then obtain e where e: "nt_entries t r = Some e" "e_prefix e = []"
    by (auto simp: nt_prefix_def)
  have "e_parent e = None"
    by (rule tree_inv_root[OF nt_invD(7)[OF inv] e])
  moreover have "findExactMatch wire [] t = Some r"
    using findExactMatch_iff[OF inv] Nil by simp
  ultimately show ?case
    using e by (simp add: climb.simps[of sel t "Some r"] climb.simps[of sel t None] matches_Nil selected_def)
next
  case (snoc c n)
  then obtain e where e: "nt_entries t r = Some e" "e_prefix e = n @ [c]"
    by (auto simp: nt_prefix_def)
  obtain p where p: "e_parent e = Some p" "nt_prefix t p = Some n"
    using parent_cases[OF inv e(1)] e(2) by auto
  show ?case
    unfolding climb.simps[of sel t "Some r"] matches_prefix[OF inv snoc.prems]
    using e(1) p(1) snoc.IH[OF p(2)] by (simp add: selected_def)
qed

lemma nt_lpm_entry_ok:
  assumes inv: "nt_inv wire t"
  shows "nt_prefix t r = Some n \<Longrightarrow>
    nt_lpm_entry sel t (Some r) = Some (List.find (selected sel t) (matches wire n t))"
proof (induction n arbitrary: r rule: rev_induct)
  case Nil
  then obtain e where e: "nt_entries t r = Some e" "e_prefix e = []"
    by (auto simp: nt_prefix_def)
  have "e_parent e = None"
    by (rule tree_inv_root[OF nt_invD(7)[OF inv] e])
  moreover have "findExactMatch wire [] t = Some r"
    using findExactMatch_iff[OF inv] Nil by simp
  ultimately show ?case
    using e by (simp add: nt_lpm_entry.simps[of sel t "Some r"] nt_lpm_entry.simps[of sel t None]
      matches_Nil selected_def)
next
  case (snoc c n)
  then obtain e where e: "nt_entries t r = Some e" "e_prefix e = n @ [c]"
    by (auto simp: nt_prefix_def)
  obtain p where p: "e_parent e = Some p" "nt_prefix t p = Some n"
    using parent_cases[OF inv e(1)] e(2) by auto
  show ?case
    unfolding nt_lpm_entry.simps[of sel t "Some r"] matches_prefix[OF inv snoc.prems]
    using e(1) p(1) snoc.IH[OF p(2)] by (simp add: selected_def)
qed

subsection \<open>Longest prefix match\<close>

text \<open>The match on a name compares hashes and the prefix relation, not lengths: it relies on
  the prefixes of the name having different hashes.\<close>

definition prefix_hashes_distinct :: "(component \<Rightarrow> byte list) \<Rightarrow> name \<Rightarrow> bool" where
  "prefix_hashes_distinct wire n \<longleftrightarrow> distinct (computeHashSet wire n)"

lemma length_computeHashSet_loop: "length (computeHashSet_loop wire h n) = length n"
  by (induction n arbitrary: h) (simp_all add: Let_def)

lemma length_computeHashSet [simp]: "length (computeHashSet wire n) = Suc (length n)"
  by (simp add: computeHashSet_def length_computeHashSet_loop)

lemma lpm_at_ok:
  assumes inv: "nt_inv wire t" and dist: "prefix_hashes_distinct wire n" and i: "i \<le> length n"
  shows "lpm_at (computeHashSet wire n) n sel t i =
    (case findExactMatch wire (take i n) t of
       Some r \<Rightarrow> if selected sel t r then Some r else None | None \<Rightarrow> None)"
proof -
  let ?P = "\<lambda>r. case nt_entries t r of
      Some e \<Rightarrow> computeHash wire (take i n) = e_hash e \<and> prefix (e_prefix e) n \<and> sel e | None \<Rightarrow> False"
  let ?b = "nt_buckets t ! bucket_of t (computeHash wire (take i n))"
  have eq: "lpm_at (computeHashSet wire n) n sel t i = List.find ?P ?b"
    using i by (simp add: lpm_at_def Let_def computeHashSet_nth)
  have sound: "nt_prefix t r = Some (take i n) \<and> selected sel t r" if P: "?P r" for r
  proof -
    from P obtain e where e: "nt_entries t r = Some e" "computeHash wire (take i n) = e_hash e"
      "prefix (e_prefix e) n" "sel e"
      by (auto split: option.splits)
    let ?j = "length (e_prefix e)"
    have j: "?j \<le> length n" "e_prefix e = take ?j n"
      using e(3) by (auto simp: prefix_def)
    have "computeHashSet wire n ! i = computeHashSet wire n ! ?j"
      using e(2) nt_inv_entry(1)[OF inv e(1)] computeHashSet_nth[OF i] computeHashSet_nth[OF j(1)] j(2)
      by metis
    then have "i = ?j"
      using dist i j(1) unfolding prefix_hashes_distinct_def by (simp add: nth_eq_iff_index_eq)
    then show ?thesis
      using e j by (simp add: nt_prefix_def selected_def)
  qed
  have complete: "?P r \<and> r \<in> set ?b" if "nt_prefix t r = Some (take i n)" "selected sel t r" for r
  proof -
    from that obtain e where e: "nt_entries t r = Some e" "e_prefix e = take i n" "sel e"
      by (auto simp: nt_prefix_def selected_def)
    show ?thesis
      using nt_inv_entry[OF inv e(1)] e take_is_prefix by simp
  qed
  show ?thesis
  proof (cases "\<exists>r. nt_prefix t r = Some (take i n) \<and> selected sel t r")
    case True
    then obtain r where r: "nt_prefix t r = Some (take i n)" "selected sel t r"
      by blast
    have "List.find ?P ?b = Some r"
    proof (rule distinct_find)
      show "y = r" if "?P y" for y
        using sound[OF that] nt_prefix_inj[OF inv _ r(1)] by blast
    qed (use complete[OF r] in auto)
    with r show ?thesis
      unfolding eq using findExactMatch_iff[OF inv, of "take i n" r] by simp
  next
    case False
    then have "\<not> ?P r" for r
      using sound by blast
    then have "List.find ?P ?b = None"
      by (simp add: find_None_all)
    then show ?thesis
      unfolding eq using False findExactMatch_iff[OF inv, of "take i n"]
      by (auto split: option.splits)
  qed
qed

lemma lpm_loop_ok:
  assumes inv: "nt_inv wire t" and dist: "prefix_hashes_distinct wire n"
  shows "i \<le> length n \<Longrightarrow> lpm_loop (computeHashSet wire n) n sel t i =
    List.find (selected sel t) (matches wire (take i n) t)"
proof (induction i)
  case 0
  then show ?case
    using lpm_at_ok[OF inv dist, of 0 sel] by (simp add: matches_Nil split: option.splits)
next
  case (Suc i)
  then have "take (Suc i) n = take i n @ [n ! i]"
    by (simp add: take_Suc_conv_app_nth)
  then show ?case
    using lpm_at_ok[OF inv dist Suc.prems, of sel] Suc
    by (simp add: matches_snoc split: option.splits)
qed

lemma nt_findLongestPrefixMatch_ok:
  assumes "nt_inv wire t" and "prefix_hashes_distinct wire n"
  shows "nt_findLongestPrefixMatch wire n sel t = List.find (selected sel t) (matches wire n t)"
  unfolding nt_findLongestPrefixMatch_def using lpm_loop_ok[OF assms, of "length n"] by simp

lemma matches_selected_Cons:
  assumes inv: "nt_inv wire t"
  shows "List.find (selected sel t) (matches wire n t) = Some r \<Longrightarrow>
    \<exists>e rest. nt_entries t r = Some e \<and> climb sel t (e_parent e) = Some rest \<and>
      filter (selected sel t) (matches wire n t) = r # rest"
proof (induction n rule: rev_induct)
  case Nil
  then have r: "findExactMatch wire [] t = Some r" "selected sel t r"
    by (auto simp: matches_Nil split: option.splits if_splits)
  then obtain e where e: "nt_entries t r = Some e" "e_prefix e = []"
    using findExactMatch_iff[OF inv] by (auto simp: nt_prefix_def)
  have "e_parent e = None"
    by (rule tree_inv_root[OF nt_invD(7)[OF inv] e])
  then show ?case
    using r e by (simp add: matches_Nil climb.simps[of sel t None])
next
  case (snoc c n)
  show ?case
  proof (cases "findExactMatch wire (n @ [c]) t")
    case None
    with snoc show ?thesis
      by (simp add: matches_snoc)
  next
    case (Some q)
    show ?thesis
    proof (cases "selected sel t q")
      case True
      then have q: "q = r"
        using snoc.prems Some by (simp add: matches_snoc)
      then obtain e where e: "nt_entries t r = Some e" "e_prefix e = n @ [c]"
        using Some findExactMatch_iff[OF inv] by (auto simp: nt_prefix_def)
      obtain p where p: "e_parent e = Some p" "nt_prefix t p = Some n"
        using parent_cases[OF inv e(1)] e(2) by auto
      show ?thesis
        using e p climb_ok[OF inv p(2), of sel] Some q True by (simp add: matches_snoc)
    next
      case False
      with snoc Some show ?thesis
        by (simp add: matches_snoc)
    qed
  qed
qed

lemma findAllMatches_ok:
  assumes inv: "nt_inv wire t" and "prefix_hashes_distinct wire n"
  shows "findAllMatches wire n sel t = Some (filter (selected sel t) (matches wire n t))"
proof (cases "List.find (selected sel t) (matches wire n t)")
  case None
  then have "filter (selected sel t) (matches wire n t) = []"
    by (simp add: find_None_all)
  with None show ?thesis
    by (simp add: findAllMatches_def nt_findLongestPrefixMatch_ok[OF assms])
next
  case (Some r)
  from matches_selected_Cons[OF inv Some] Some show ?thesis
    by (auto simp: findAllMatches_def nt_findLongestPrefixMatch_ok[OF assms])
qed

lemma fullEnumerate_ok:
  assumes inv: "nt_inv wire t"
  shows "distinct (fullEnumerate sel t)" "r \<in> set (fullEnumerate sel t) \<longleftrightarrow> selected sel t r"
  using nt_invD(4,5)[OF inv] unfolding fullEnumerate_def
  by (auto simp: selected_def live_def split: option.splits)

text \<open>A found entry is a prefix of the name, and no longer one qualifies.\<close>

lemma matches_sorted:
  assumes inv: "nt_inv wire t"
  shows "sorted_wrt (\<lambda>r r'. \<exists>p p'. nt_prefix t r = Some p \<and> nt_prefix t r' = Some p' \<and> length p > length p')
    (matches wire n t)"
proof (induction n rule: rev_induct)
  case Nil
  then show ?case by (simp add: matches_Nil split: option.splits)
next
  case (snoc c n)
  have "\<exists>p'. nt_prefix t r' = Some p' \<and> length p' < Suc (length n)" if "r' \<in> set (matches wire n t)" for r'
    using that in_matches[OF inv] prefix_length_le by (fastforce simp: less_Suc_eq_le)
  then show ?case
    using snoc findExactMatch_iff[OF inv] by (auto simp: matches_snoc split: option.splits)
qed

lemma lpm_found:
  assumes inv: "nt_inv wire t" and "List.find (selected sel t) (matches wire n t) = Some r"
  obtains e where "nt_entries t r = Some e" "prefix (e_prefix e) n" "sel e"
proof -
  from find_Some_in[OF assms(2)] have "r \<in> set (matches wire n t)" "selected sel t r"
    by auto
  then show ?thesis
    using that unfolding in_matches[OF inv] by (auto simp: nt_prefix_def selected_def)
qed

lemma find_first:
  assumes "sorted_wrt R xs" and "List.find P xs = Some x" and "y \<in> set xs" and "P y"
  shows "y = x \<or> R x y"
  using assms by (induction xs) (auto split: if_splits)

lemma lpm_longest:
  assumes inv: "nt_inv wire t" and find: "List.find (selected sel t) (matches wire n t) = Some r"
    and "nt_entries t r = Some e" and e': "nt_entries t r' = Some e'" "prefix (e_prefix e') n" "sel e'"
  shows "length (e_prefix e') \<le> length (e_prefix e)"
proof -
  have "r' \<in> set (matches wire n t)" "selected sel t r'"
    using e' unfolding in_matches[OF inv] by (auto simp: nt_prefix_def selected_def)
  from find_first[OF matches_sorted[OF inv] find this] assms(3) e' show ?thesis
    by (auto simp: nt_prefix_def)
qed

lemma lpm_none:
  assumes inv: "nt_inv wire t" and find: "List.find (selected sel t) (matches wire n t) = None"
    and e': "nt_entries t r' = Some e'" "prefix (e_prefix e') n"
  shows "\<not> sel e'"
proof
  assume "sel e'"
  then have "r' \<in> set (matches wire n t)" "selected sel t r'"
    using e' unfolding in_matches[OF inv] by (auto simp: nt_prefix_def selected_def)
  with find show False
    by (simp add: find_None_all)
qed

section \<open>Properties\<close>

text \<open>The encoding of components shorter than 253 bytes, for evaluation.\<close>

definition tlv :: "component \<Rightarrow> byte list" where
  "tlv c = (case c of Generic v \<Rightarrow> 8 # of_nat (length v) # v | ImplicitDigest v \<Rightarrow> 1 # of_nat (length v) # v)"

lemma power2_8: "power2 8"
proof -
  have "8 = (2::nat) ^ 3 \<and> (3::nat) \<in> {..32}"
    by simp
  then show ?thesis
    unfolding power2_def by blast
qed

definition tree_a :: name_tree where
  "tree_a = fst (the (nt_lookup tlv [Generic [97]] (NameTree 8)))"

lemma tree_a_inv: "nt_inv tlv tree_a"
proof -
  show ?thesis
    using power2_8 nt_lookup_ok[OF NameTree_inv, of 8 "[Generic [97]]" tlv]
    by (auto simp: tree_a_def maxItems_def NameTree_def)
qed

text \<open>C27. Looking up a name in a well-formed name tree always returns: the result tree is
  well formed, the returned entry is the entry of the name (and an exact match finds it), the
  names of the tree are those it had and the prefixes of the name, the entries it had keep
  everything but their children, and the new ones have nothing attached.\<close>

theorem nt_lookup_correct:
  assumes "nt_inv wire t" and "nt_nItems t + length n + 1 \<le> maxItems"
  shows "\<exists>t' r. nt_lookup wire n t = Some (t', r) \<and> nt_inv wire t' \<and> nt_prefix t' r = Some n \<and>
    findExactMatch wire n t' = Some r \<and> nt_names t' = nt_names t \<union> {p. prefix p n} \<and> nt_grows t t'"
  using nt_lookup_ok[OF assms] findExactMatch_iff by blast

theorem nt_lookup_correct_witness:
  "\<exists>t' r. nt_lookup (\<lambda>_. []) [Generic [97], Generic [98]] (NameTree 2) = Some (t', r) \<and>
    nt_inv (\<lambda>_. []) t' \<and> nt_prefix t' r = Some [Generic [97], Generic [98]]"
proof -
  have "2 = (2::nat) ^ 1 \<and> (1::nat) \<in> {..32}"
    by simp
  then have "power2 2"
    unfolding power2_def by blast
  then show ?thesis
    using nt_lookup_correct[OF NameTree_inv, of 2 "[Generic [97], Generic [98]]" "\<lambda>_. []"]
    by (auto simp: maxItems_def NameTree_def)
qed

text \<open>C28. \<^verbatim>\<open>eraseEntryIfEmpty\<close> on an entry of a well-formed tree always returns, and answers
  whether the entry was empty.  If it was not, the tree is unchanged.  If it was, the entry is
  gone, only entries with nothing attached have been removed, the others keep everything but
  their children; and when the entry was the only empty one, no empty entry is left.\<close>

theorem nt_erase_correct:
  assumes "nt_inv wire t" and "nt_entries t r = Some e"
  shows "\<exists>t'. eraseEntryIfEmpty r t = Some (t', isEmpty e) \<and> nt_inv wire t' \<and>
    (if isEmpty e then nt_entries t' r = None else t' = t) \<and> nt_shrinks t t' \<and>
    (no_empty_but (Some r) t \<longrightarrow> no_empty_but None t')"
  using eraseEntryIfEmpty_ok[OF assms] unfolding erased_def by blast

theorem nt_erase_correct_witness:
  "\<exists>t'. eraseEntryIfEmpty 1 tree_a = Some (t', True) \<and> nt_inv tlv t' \<and> nt_entries t' 1 = None"
proof -
  have "nt_entries tree_a 1 \<noteq> None"
    by code_simp
  then have e: "nt_entries tree_a 1 = Some (the (nt_entries tree_a 1))"
    by auto
  have "isEmpty (the (nt_entries tree_a 1))"
    by code_simp
  then show ?thesis
    using nt_erase_correct[OF tree_a_inv e] by auto
qed

text \<open>C29. When the prefixes of a name have different hashes, the hash-directed searches agree
  with the reference: the longest prefix match is the first selected entry among the entries
  of the prefixes, the longest first; \<^verbatim>\<open>findAllMatches\<close> enumerates all of them in that order;
  and climbing from the entry of the name finds the same match.\<close>

theorem nt_prefix_match_equiv:
  assumes "nt_inv wire t" and "prefix_hashes_distinct wire n"
  shows "nt_findLongestPrefixMatch wire n sel t = List.find (selected sel t) (matches wire n t) \<and>
    findAllMatches wire n sel t = Some (filter (selected sel t) (matches wire n t)) \<and>
    (\<forall>r. nt_prefix t r = Some n \<longrightarrow>
      nt_lpm_entry sel t (Some r) = Some (nt_findLongestPrefixMatch wire n sel t))"
  using nt_findLongestPrefixMatch_ok[OF assms] findAllMatches_ok[OF assms] nt_lpm_entry_ok[OF assms(1)]
  by metis

theorem nt_prefix_match_equiv_witness:
  "nt_findLongestPrefixMatch tlv [Generic [97], Generic [98]] (\<lambda>_. True) tree_a = Some 1 \<and>
   List.find (selected (\<lambda>_. True) tree_a) (matches tlv [Generic [97], Generic [98]] tree_a) = Some 1"
proof -
  have "prefix_hashes_distinct tlv [Generic [97], Generic [98]]"
    by code_simp
  then have "nt_findLongestPrefixMatch tlv [Generic [97], Generic [98]] (\<lambda>_. True) tree_a =
      List.find (selected (\<lambda>_. True) tree_a) (matches tlv [Generic [97], Generic [98]] tree_a)"
    using nt_prefix_match_equiv[OF tree_a_inv, of "[Generic [97], Generic [98]]" "\<lambda>_. True"] by blast
  moreover have "nt_findLongestPrefixMatch tlv [Generic [97], Generic [98]] (\<lambda>_. True) tree_a = Some 1"
    by code_simp
  ultimately show ?thesis
    by simp
qed


text \<open>So is the power of two: \<^verbatim>\<open>resize\<close> truncates the hash to 32 bits.  In a tree that
  starts with three buckets, \<^verbatim>\<open>/b\<close> cannot be found right after it was inserted, and looking it
  up again inserts a second entry for it.\<close>

theorem nt_resize_loses_entry:
  "let n = [Generic [98]] in
   case nt_lookup tlv n (NameTree 3) of
     None \<Rightarrow> False
   | Some (t, r) \<Rightarrow> nt_prefix t r = Some n \<and> findExactMatch tlv n t = None \<and>
       map_option (\<lambda>(t', r'). (nt_nItems t, nt_nItems t', nt_prefix t' r')) (nt_lookup tlv n t) = Some (2, 3, Some n)"
  by code_simp

end
