(* ===== verification/Partial_Enumerate.thy ===== *)
theory Partial_Enumerate
  imports Name_Tree_Correct
begin

text \<open>
  \<^verbatim>\<open>NameTree::partialEnumerate\<close> and the part of \<^verbatim>\<open>const_iterator::operator++\<close> it uses: a
  pre-order walk below an entry without a stack, which goes to the first child, to the next
  sibling, or back to the parent.  The selector says of an entry whether it is enumerated and
  whether its children are visited.
\<close>

type_synonym subtree_selector = "nt_ref \<Rightarrow> nt_entry \<Rightarrow> bool \<times> bool"

text \<open>The iterator: \<open>m_entry\<close> and \<open>m_shouldVisitChildren\<close>.  Moving to an entry evaluates the
  selector on it; the flag says whether the entry is accepted.\<close>

definition move_to :: "subtree_selector \<Rightarrow> name_tree \<Rightarrow> nt_ref \<Rightarrow> (bool \<times> nt_ref \<times> bool) option" where
  "move_to sub t c = do {
     ce \<leftarrow> nt_entries t c;
     let result = sub c ce;
     Some (fst result, c, snd result \<and> e_children ce \<noteq> [])
   }"

text \<open>The \<^verbatim>\<open>while\<close> loop of \<^verbatim>\<open>operator++\<close>; the inner \<^const>\<open>None\<close> is \<^verbatim>\<open>end()\<close>.\<close>

partial_function (option) partial_while ::
  "subtree_selector \<Rightarrow> name_tree \<Rightarrow> nt_ref \<Rightarrow> nt_ref \<Rightarrow> bool \<Rightarrow> (nt_ref \<times> bool) option option" where
  "partial_while sub t root entry visit =
    (if entry = root then Some None
     else Option.bind (nt_entries t entry) (\<lambda>e.
       if visit then
         (case e_children e of
            [] \<Rightarrow> None
          | c # _ \<Rightarrow> Option.bind (move_to sub t c) (\<lambda>(ok, c, v).
              if ok then Some (Some (c, v)) else partial_while sub t root c v))
       else
         Option.bind (e_parent e) (\<lambda>parent. Option.bind (nt_entries t parent) (\<lambda>pe.
           let i = length (takeWhile (\<lambda>c. c \<noteq> entry) (e_children pe)) in
           if i \<ge> length (e_children pe) then None
           else if i < length (e_children pe) - 1 then
             Option.bind (move_to sub t (e_children pe ! (i + 1))) (\<lambda>(ok, c, v).
               if ok then Some (Some (c, v)) else partial_while sub t root c v)
           else partial_while sub t root parent False))))"

declare partial_while.simps [code]

definition partial_next ::
  "subtree_selector \<Rightarrow> name_tree \<Rightarrow> nt_ref \<Rightarrow> nt_ref \<Rightarrow> bool \<Rightarrow> (nt_ref \<times> bool) option option" where
  "partial_next sub t root entry visit =
    (if entry = root then
       (if visit then
          Option.bind (nt_entries t entry) (\<lambda>e.
            (case e_children e of
               [] \<Rightarrow> None
             | c # _ \<Rightarrow> Option.bind (move_to sub t c) (\<lambda>(ok, c, v).
                 if ok then Some (Some (c, v)) else partial_while sub t root c v)))
        else Some None)
     else partial_while sub t root entry visit)"

text \<open>The entries from an iterator position up to \<^verbatim>\<open>end()\<close>.\<close>

partial_function (option) partial_collect ::
  "subtree_selector \<Rightarrow> name_tree \<Rightarrow> nt_ref \<Rightarrow> nt_ref \<Rightarrow> bool \<Rightarrow> nt_ref list option" where
  "partial_collect sub t root entry visit =
    Option.bind (partial_next sub t root entry visit) (\<lambda>it.
      case it of
        None \<Rightarrow> Some [entry]
      | Some pos \<Rightarrow> Option.bind (partial_collect sub t root (fst pos) (snd pos)) (\<lambda>rs. Some (entry # rs)))"

declare partial_collect.simps [code]

definition partial_range ::
  "subtree_selector \<Rightarrow> name_tree \<Rightarrow> nt_ref \<Rightarrow> (nt_ref \<times> bool) option \<Rightarrow> nt_ref list option" where
  "partial_range sub t root it =
    (case it of None \<Rightarrow> Some [] | Some pos \<Rightarrow> partial_collect sub t root (fst pos) (snd pos))"

definition partialEnumerate ::
  "(component \<Rightarrow> byte list) \<Rightarrow> name \<Rightarrow> subtree_selector \<Rightarrow> name_tree \<Rightarrow> nt_ref list option" where
  "partialEnumerate wire prfx sub t =
    (case findExactMatch wire prfx t of
       None \<Rightarrow> Some []
     | Some root \<Rightarrow> do {
         (ok, r, visit) \<leftarrow> move_to sub t root;
         if ok then partial_range sub t root (Some (r, visit))
         else do { it \<leftarrow> partial_next sub t root r visit; partial_range sub t root it }
       })"

section \<open>The reference: recursive pre-order traversal\<close>

inductive preorder :: "subtree_selector \<Rightarrow> name_tree \<Rightarrow> nt_ref \<Rightarrow> nt_ref list \<Rightarrow> bool"
  and preorders :: "subtree_selector \<Rightarrow> name_tree \<Rightarrow> nt_ref list \<Rightarrow> nt_ref list \<Rightarrow> bool"
  for sub t where
  visit: "nt_entries t r = Some e \<Longrightarrow>
    preorders sub t (if snd (sub r e) then e_children e else []) ys \<Longrightarrow>
    preorder sub t r ((if fst (sub r e) then [r] else []) @ ys)"
| none: "preorders sub t [] []"
| more: "preorder sub t c xs \<Longrightarrow> preorders sub t cs ys \<Longrightarrow> preorders sub t (c # cs) (xs @ ys)"

inductive_cases preordersE: "preorders sub t cs ys"

lemma preorders_exist:
  assumes "\<And>c. c \<in> set cs \<Longrightarrow> \<exists>xs. preorder sub t c xs"
  shows "\<exists>ys. preorders sub t cs ys"
  using assms
proof (induction cs)
  case (Cons c cs)
  then show ?case
    by (meson list.set_intros preorder_preorders.more)
qed (blast intro: preorder_preorders.none)

lemma child_prefix:
  assumes inv: "nt_inv wire t" and e: "nt_entries t r = Some e" and c: "c \<in> set (e_children e)"
  obtains ce where "nt_entries t c = Some ce" "e_parent ce = Some r" "length (e_prefix ce) = Suc (length (e_prefix e))"
proof -
  obtain ce where ce: "nt_entries t c = Some ce" "e_parent ce = Some r"
    using tree_inv_children[OF nt_invD(7)[OF inv] e] c by blast
  have "e_prefix ce \<noteq> []" "e_prefix e = butlast (e_prefix ce)"
    using tree_inv_parent_live[OF nt_invD(7)[OF inv] ce] e by auto
  then show ?thesis
    using that[OF ce] by simp
qed

lemma finite_live: "nt_inv wire t \<Longrightarrow> finite (live t)"
  using nt_invD(5) by (metis List.finite_set)

lemma preorder_exists:
  assumes inv: "nt_inv wire t"
  shows "nt_entries t r = Some e \<Longrightarrow> \<exists>xs. preorder sub t r xs"
proof -
  define M where "M = Max ((\<lambda>r. length (e_prefix (the (nt_entries t r)))) ` live t)"
  have bound: "length (e_prefix e) \<le> M" if "nt_entries t r = Some e" for r e
    unfolding M_def using that finite_live[OF inv]
    by (intro Max_ge) (auto simp: live_def image_iff intro!: bexI[of _ r])
  show "nt_entries t r = Some e \<Longrightarrow> \<exists>xs. preorder sub t r xs"
  proof (induction "M - length (e_prefix e)" arbitrary: r e rule: less_induct)
    case less
    have "\<exists>xs. preorder sub t c xs" if c: "c \<in> set (e_children e)" for c
    proof -
      obtain ce where ce: "nt_entries t c = Some ce" "length (e_prefix ce) = Suc (length (e_prefix e))"
        using child_prefix[OF inv less.prems c] by blast
      have "M - length (e_prefix ce) < M - length (e_prefix e)"
        using ce bound[OF ce(1)] by simp
      from less.hyps[OF this ce(1)] show ?thesis .
    qed
    then obtain ys where "preorders sub t (if snd (sub r e) then e_children e else []) ys"
      using preorders_exist[of "if snd (sub r e) then e_children e else []" sub t] by auto
    from preorder_preorders.visit[OF less.prems this] show ?case
      by blast
  qed
qed


section \<open>The iterator follows the reference\<close>

text \<open>What is still enumerated from a position inside the loop, and on arrival at an entry.\<close>

definition rest_from :: "subtree_selector \<Rightarrow> name_tree \<Rightarrow> nt_ref \<Rightarrow> nt_ref \<Rightarrow> bool \<Rightarrow> nt_ref list option" where
  "rest_from sub t root entry visit = Option.bind (partial_while sub t root entry visit) (partial_range sub t root)"

definition arrive :: "subtree_selector \<Rightarrow> name_tree \<Rightarrow> nt_ref \<Rightarrow> nt_ref \<Rightarrow> nt_ref list option" where
  "arrive sub t root c = Option.bind (move_to sub t c) (\<lambda>(ok, c, v).
     if ok then partial_range sub t root (Some (c, v)) else rest_from sub t root c v)"

lemma collect_rest:
  assumes "c \<noteq> root"
  shows "partial_range sub t root (Some (c, v)) = map_option ((#) c) (rest_from sub t root c v)"
proof -
  have "partial_next sub t root c v = partial_while sub t root c v"
    using assms by (simp add: partial_next_def)
  then show ?thesis
    unfolding rest_from_def partial_range_def option.case fst_conv snd_conv partial_collect.simps[of sub t root c v]
    by (cases "partial_while sub t root c v") (auto simp: partial_range_def split: option.splits bind_splits)
qed

lemma rest_root: "rest_from sub t root root v = Some []"
  by (simp add: rest_from_def partial_while.simps[of sub t root root v] partial_range_def)

lemma move_bind:
  "Option.bind (Option.bind (move_to sub t c) (\<lambda>(ok, c, v).
     if ok then Some (Some (c, v)) else partial_while sub t root c v)) (partial_range sub t root) = arrive sub t root c"
  unfolding arrive_def rest_from_def by (cases "move_to sub t c") (auto split: if_splits)

lemma rest_child:
  assumes "r \<noteq> root" and "nt_entries t r = Some e" and "e_children e = c # cs"
  shows "rest_from sub t root r True = arrive sub t root c"
  unfolding rest_from_def partial_while.simps[of sub t root r True]
  using assms move_bind[of sub t c root] by simp

lemma rest_sibling:
  assumes "c \<noteq> root" and "nt_entries t c = Some ce" and "e_parent ce = Some p" and "nt_entries t p = Some pe"
    and "e_children pe = xs @ c # ys" and "c \<notin> set xs"
  shows "rest_from sub t root c False =
    (case ys of [] \<Rightarrow> rest_from sub t root p False | d # _ \<Rightarrow> arrive sub t root d)"
proof -
  have i: "length (takeWhile (\<lambda>d. d \<noteq> c) (e_children pe)) = length xs"
    unfolding assms(5) using assms(6) by (subst takeWhile_append2) auto
  show ?thesis
  proof (cases ys)
    case Nil
    then show ?thesis
      unfolding rest_from_def partial_while.simps[of sub t root c False]
      using assms i by (simp add: Let_def)
  next
    case (Cons d ds)
    then have "e_children pe ! (length xs + 1) = d"
      using assms(5) by (simp add: nth_append)
    then show ?thesis
      unfolding rest_from_def partial_while.simps[of sub t root c False]
      using assms i Cons move_bind[of sub t d root] by (simp add: Let_def)
  qed
qed

lemma iterate_preorder:
  assumes inv: "nt_inv wire t" and root: "nt_entries t root = Some re"
  shows "preorder sub t c xs \<Longrightarrow>
      (\<forall>ce zs. nt_entries t c = Some ce \<longrightarrow> length (e_prefix re) < length (e_prefix ce) \<longrightarrow>
        rest_from sub t root c False = Some zs \<longrightarrow> arrive sub t root c = Some (xs @ zs))"
    and "preorders sub t cs ys \<Longrightarrow>
      (\<forall>p pe pre zs. nt_entries t p = Some pe \<longrightarrow> e_children pe = pre @ cs \<longrightarrow> cs \<noteq> [] \<longrightarrow>
        length (e_prefix re) \<le> length (e_prefix pe) \<longrightarrow> rest_from sub t root p False = Some zs \<longrightarrow>
        arrive sub t root (hd cs) = Some (ys @ zs))"
proof (induction rule: preorder_preorders.inducts)
  case (visit r e ys)
  show ?case
  proof (intro allI impI)
    fix ce zs assume ce: "nt_entries t r = Some ce" "length (e_prefix re) < length (e_prefix ce)"
      and zs: "rest_from sub t root r False = Some zs"
    have e: "ce = e" and ne: "r \<noteq> root"
      using ce visit(1) root by auto
    have mv: "move_to sub t r = Some (fst (sub r e), r, snd (sub r e) \<and> e_children e \<noteq> [])"
      using visit(1) by (simp add: move_to_def Let_def)
    have tail: "rest_from sub t root r (snd (sub r e) \<and> e_children e \<noteq> []) = Some (ys @ zs)"
    proof (cases "snd (sub r e) \<and> e_children e \<noteq> []")
      case True
      then obtain c cs where cs: "e_children e = c # cs"
        by (cases "e_children e") auto
      have "arrive sub t root (hd (if snd (sub r e) then e_children e else [])) = Some (ys @ zs)"
        by (rule visit(3)[rule_format, of r e "[]"]) (use visit(1) ce e zs True in auto)
      then have "arrive sub t root c = Some (ys @ zs)"
        using cs True by simp
      then show ?thesis
        using rest_child[OF ne visit(1) cs] True by simp
    next
      case False
      then have "(if snd (sub r e) then e_children e else []) = []"
        by auto
      then have "ys = []"
        using visit(2) by (auto elim: preordersE)
      with False zs show ?thesis
        by (cases "snd (sub r e)") auto
    qed
    show "arrive sub t root r = Some (((if fst (sub r e) then [r] else []) @ ys) @ zs)"
      unfolding arrive_def mv using tail collect_rest[OF ne] by simp
  qed
next
  case none
  then show ?case by simp
next
  case (more c xs cs ys)
  show ?case
  proof (intro allI impI)
    fix p pe pre zs
    assume p: "nt_entries t p = Some pe" "e_children pe = pre @ c # cs" "length (e_prefix re) \<le> length (e_prefix pe)"
      and zs: "rest_from sub t root p False = Some zs"
    have cin: "c \<in> set (e_children pe)"
      using p(2) by simp
    obtain ce where ce: "nt_entries t c = Some ce" "e_parent ce = Some p" "length (e_prefix ce) = Suc (length (e_prefix pe))"
      using child_prefix[OF inv p(1) cin] by blast
    have ne: "c \<noteq> root"
      using ce p(3) root by auto
    have "distinct (e_children pe)"
      using tree_inv_children[OF nt_invD(7)[OF inv] p(1)] by blast
    then have notin: "c \<notin> set pre"
      using p(2) by simp
    have "rest_from sub t root c False = Some (ys @ zs)"
    proof (cases cs)
      case Nil
      then have "ys = []"
        using more(3) by (auto elim: preordersE)
      then show ?thesis
        using rest_sibling[OF ne ce(1,2) p(1,2) notin] Nil zs by simp
    next
      case (Cons d ds)
      have "arrive sub t root (hd cs) = Some (ys @ zs)"
        by (rule more(4)[rule_format, of p pe "pre @ [c]"]) (use p zs Cons in auto)
      then show ?thesis
        using rest_sibling[OF ne ce(1,2) p(1,2) notin] Cons by simp
    qed
    then show "arrive sub t root (hd (c # cs)) = Some ((xs @ ys) @ zs)"
      using more(2) ce p(3) by simp
  qed
qed

lemma partialEnumerate_preorder:
  assumes inv: "nt_inv wire t" and root: "findExactMatch wire n t = Some root" and pre: "preorder sub t root xs"
  shows "partialEnumerate wire n sub t = Some xs"
proof -
  from pre obtain e ys where e: "nt_entries t root = Some e" "xs = (if fst (sub root e) then [root] else []) @ ys"
    and ys: "preorders sub t (if snd (sub root e) then e_children e else []) ys"
    by (cases rule: preorder.cases) auto
  have mv: "move_to sub t root = Some (fst (sub root e), root, snd (sub root e) \<and> e_children e \<noteq> [])"
    using e by (simp add: move_to_def Let_def)
  have tail: "Option.bind (partial_next sub t root root (snd (sub root e) \<and> e_children e \<noteq> []))
      (partial_range sub t root) = Some ys"
  proof (cases "snd (sub root e) \<and> e_children e \<noteq> []")
    case True
    then obtain c cs where cs: "e_children e = c # cs"
      by (cases "e_children e") auto
    have "arrive sub t root (hd (if snd (sub root e) then e_children e else [])) = Some (ys @ [])"
      by (rule iterate_preorder(2)[OF inv e(1) ys, rule_format, of root e "[]"])
        (use e(1) True rest_root[of sub t root] in auto)
    then have "arrive sub t root c = Some ys"
      using cs True by simp
    then show ?thesis
      using True cs e(1) move_bind[of sub t c root] by (simp add: partial_next_def)
  next
    case False
    then have "(if snd (sub root e) then e_children e else []) = []"
      by auto
    then have "ys = []"
      using ys by (auto elim: preordersE)
    then show ?thesis
      using False by (cases "snd (sub root e)") (auto simp: partial_next_def partial_range_def)
  qed
  show ?thesis
  proof (cases "fst (sub root e)")
    case True
    have "partial_collect sub t root root v = map_option ((#) root)
        (Option.bind (partial_next sub t root root v) (partial_range sub t root))" for v
      unfolding partial_collect.simps[of sub t root root v]
      by (cases "partial_next sub t root root v") (auto simp: partial_range_def split: option.splits bind_splits)
    then show ?thesis
      using root mv tail True e(2) by (simp add: partialEnumerate_def partial_range_def)
  next
    case False
    then show ?thesis
      using root mv tail e(2) by (simp add: partialEnumerate_def)
  qed
qed


section \<open>What is enumerated\<close>

text \<open>The entries the walk goes through: the root, and the children of the entries whose
  children are to be visited.\<close>

inductive walked :: "subtree_selector \<Rightarrow> name_tree \<Rightarrow> nt_ref \<Rightarrow> nt_ref \<Rightarrow> bool" for sub t where
  start: "nt_entries t r = Some e \<Longrightarrow> walked sub t r r"
| child: "nt_entries t r = Some e \<Longrightarrow> snd (sub r e) \<Longrightarrow> c \<in> set (e_children e) \<Longrightarrow>
    walked sub t c x \<Longrightarrow> walked sub t r x"

lemma walked_cases:
  "nt_entries t r = Some e \<Longrightarrow> walked sub t r x \<longleftrightarrow>
    x = r \<or> (snd (sub r e) \<and> (\<exists>c \<in> set (e_children e). walked sub t c x))"
  by (subst walked.simps) auto

lemma preorder_set:
  "preorder sub t r xs \<Longrightarrow> set xs = {x. walked sub t r x \<and> (\<exists>e. nt_entries t x = Some e \<and> fst (sub x e))}"
  "preorders sub t cs ys \<Longrightarrow> set ys = {x. (\<exists>c \<in> set cs. walked sub t c x) \<and> (\<exists>e. nt_entries t x = Some e \<and> fst (sub x e))}"
proof (induction rule: preorder_preorders.inducts)
  case (visit r e ys)
  then show ?case
    unfolding walked_cases[OF visit(1)] by (auto split: if_splits)
qed auto

lemma walked_below:
  assumes inv: "nt_inv wire t"
  shows "walked sub t r x \<Longrightarrow> nt_entries t r = Some e \<Longrightarrow>
    \<exists>xe. nt_entries t x = Some xe \<and> prefix (e_prefix e) (e_prefix xe)"
proof (induction arbitrary: e rule: walked.induct)
  case (child r e' c x)
  obtain ce where ce: "nt_entries t c = Some ce" "e_parent ce = Some r"
    using child_prefix[OF inv child(1,3)] by blast
  have "e_prefix e' = butlast (e_prefix ce)"
    using tree_inv_parent_live[OF nt_invD(7)[OF inv] ce] child(1) by auto
  moreover obtain xe where "nt_entries t x = Some xe" "prefix (e_prefix ce) (e_prefix xe)"
    using child(5)[OF ce(1)] by blast
  ultimately show ?case
    using child(1) child.prems prefixeq_butlast prefix_order.trans by (metis option.inject)
qed auto

lemma preorder_distinct:
  assumes inv: "nt_inv wire t"
  shows "preorder sub t r xs \<Longrightarrow> distinct xs"
    and "preorders sub t cs ys \<Longrightarrow> (\<forall>p pe. nt_entries t p = Some pe \<longrightarrow> set cs \<subseteq> set (e_children pe) \<longrightarrow>
      distinct cs \<longrightarrow> distinct ys)"
proof (induction rule: preorder_preorders.inducts)
  case (visit r e ys)
  have "distinct ys"
    using visit(3)[rule_format, OF visit(1)] tree_inv_children[OF nt_invD(7)[OF inv] visit(1)]
    by (cases "snd (sub r e)") simp_all
  moreover have "r \<notin> set ys"
  proof
    assume "r \<in> set ys"
    then obtain c where c: "c \<in> set (e_children e)" "walked sub t c r"
      using preorder_set(2)[OF visit(2)] by (auto split: if_splits)
    obtain ce where ce: "nt_entries t c = Some ce" "length (e_prefix ce) = Suc (length (e_prefix e))"
      using child_prefix[OF inv visit(1) c(1)] by blast
    from walked_below[OF inv c(2) ce(1)] visit(1) ce(2) show False
      using prefix_length_le by fastforce
  qed
  ultimately show ?case
    by simp
next
  case none
  show ?case by simp
next
  case (more c xs cs ys)
  show ?case
  proof (intro allI impI)
    fix p pe assume p: "nt_entries t p = Some pe" "set (c # cs) \<subseteq> set (e_children pe)" "distinct (c # cs)"
    have "distinct ys"
      using more(4)[rule_format, OF p(1)] p(2,3) by simp
    moreover have "set xs \<inter> set ys = {}"
    proof (rule ccontr)
      assume "set xs \<inter> set ys \<noteq> {}"
      then obtain x d where x: "walked sub t c x" "walked sub t d x" "d \<in> set cs"
        unfolding preorder_set(1)[OF more(1)] preorder_set(2)[OF more(3)] by blast
      obtain ce where ce: "nt_entries t c = Some ce" "length (e_prefix ce) = Suc (length (e_prefix pe))"
        using child_prefix[OF inv p(1), of c] p(2) by auto
      obtain de where de: "nt_entries t d = Some de" "length (e_prefix de) = Suc (length (e_prefix pe))"
        using child_prefix[OF inv p(1), of d] p(2) x(3) by auto
      obtain xe where "nt_entries t x = Some xe" "prefix (e_prefix ce) (e_prefix xe)" "prefix (e_prefix de) (e_prefix xe)"
        using walked_below[OF inv x(1) ce(1)] walked_below[OF inv x(2) de(1)] by auto
      then have "e_prefix ce = e_prefix de"
        using ce(2) de(2) by (metis append_eq_append_conv prefix_def)
      then have "c = d"
        by (rule tree_inv_inj[OF nt_invD(7)[OF inv] ce(1) de(1)])
      with x(3) p(3) show False
        by simp
    qed
    ultimately show "distinct (xs @ ys)"
      using more(2) by simp
  qed
qed

text \<open>C31. The stackless walk below an entry ends, and enumerates exactly the accepted entries
  the recursive pre-order traversal goes through, in the same order and each once.\<close>

theorem partialEnumerate_correct:
  assumes "nt_inv wire t" and "findExactMatch wire n t = Some root"
  shows "\<exists>xs. partialEnumerate wire n sub t = Some xs \<and> preorder sub t root xs \<and> distinct xs \<and>
    set xs = {x. walked sub t root x \<and> (\<exists>e. nt_entries t x = Some e \<and> fst (sub x e))}"
proof -
  obtain e where "nt_entries t root = Some e"
    using findExactMatch_iff[OF assms(1), of n root] assms(2) by (auto simp: nt_prefix_def)
  then obtain xs where pre: "preorder sub t root xs"
    using preorder_exists[OF assms(1)] by blast
  show ?thesis
    using partialEnumerate_preorder[OF assms pre] preorder_distinct(1)[OF assms(1) pre] preorder_set(1)[OF pre] pre
    by blast
qed

theorem partialEnumerate_correct_witness:
  "\<exists>xs. partialEnumerate tlv [Generic [97]] (\<lambda>_ _. (True, True)) tree_a = Some xs \<and> distinct xs"
proof -
  have "findExactMatch tlv [Generic [97]] tree_a = Some 1"
    by code_simp
  then show ?thesis
    using partialEnumerate_correct[OF tree_a_inv, of "[Generic [97]]" 1 "\<lambda>_ _. (True, True)"] by blast
qed

end
