(* ===== verification/Name_Tree_Slots.thy ===== *)
theory Name_Tree_Slots
  imports Name_Tree_Correct
begin

text \<open>
  What the FIB, the measurements table and the strategy choice table share: each hangs at most
  one of its entries off an entry of the name tree.  The interface \<open>nt_slot\<close> fixes how such a
  slot is read and written; from its laws it follows that a table is a map from names to its
  entries, that the operations of the name tree do not disturb this map, and that a longest
  prefix match in the tree is a longest match in the map.
\<close>

definition slot_at ::
  "(nt_entry \<Rightarrow> 'v option) \<Rightarrow> (component \<Rightarrow> byte list) \<Rightarrow> name_tree \<Rightarrow> name \<Rightarrow> 'v option" where
  "slot_at get wire t n = (case findExactMatch wire n t of
     None \<Rightarrow> None | Some r \<Rightarrow> Option.bind (nt_entries t r) get)"

text \<open>The abstract longest prefix match on a map from names.\<close>

definition longest_match :: "(name \<Rightarrow> 'a option) \<Rightarrow> name \<Rightarrow> 'a option" where
  "longest_match m n = Option.bind (List.find (\<lambda>p. m p \<noteq> None) (prefixes_desc n)) m"

lemma longest_match_Nil: "longest_match m [] = m []"
  by (simp add: longest_match_def)

lemma longest_match_snoc:
  "longest_match m (n @ [c]) = (case m (n @ [c]) of None \<Rightarrow> longest_match m n | Some x \<Rightarrow> Some x)"
  by (auto simp: longest_match_def split: option.splits)

lemma longest_match_cong: "(\<And>p. prefix p n \<Longrightarrow> m p = m' p) \<Longrightarrow> longest_match m n = longest_match m' n"
  by (induction n rule: rev_induct) (auto simp: longest_match_Nil longest_match_snoc split: option.splits)

lemma longest_match_Some:
  "longest_match m n = Some x \<Longrightarrow> \<exists>p. prefix p n \<and> m p = Some x \<and> (\<forall>q y. prefix q n \<longrightarrow> m q = Some y \<longrightarrow> length q \<le> length p)"
proof (induction n rule: rev_induct)
  case Nil
  then show ?case by (auto simp: longest_match_Nil)
next
  case (snoc c n)
  show ?case
  proof (cases "m (n @ [c])")
    case None
    with snoc have "longest_match m n = Some x"
      by (simp add: longest_match_snoc)
    from snoc.IH[OF this] None show ?thesis
      by (metis option.distinct(1) prefix_snoc)
  next
    case (Some y)
    with snoc.prems have "m (n @ [c]) = Some x"
      by (simp add: longest_match_snoc)
    then show ?thesis
      using prefix_length_le by blast
  qed
qed

lemma longest_match_None: "longest_match m n = None \<longleftrightarrow> (\<forall>p. prefix p n \<longrightarrow> m p = None)"
  by (induction n rule: rev_induct)
    (auto simp: longest_match_Nil longest_match_snoc prefix_snoc split: option.splits)

section \<open>Updates that keep the links\<close>

lemma tree_inv_fields:
  assumes inv: "tree_inv es"
    and eq: "\<And>q. map_option (\<lambda>e. (e_prefix e, e_parent e, e_children e)) (es' q) =
      map_option (\<lambda>e. (e_prefix e, e_parent e, e_children e)) (es q)"
  shows "tree_inv es'"
proof -
  have bwd: "\<exists>e. es q = Some e \<and> e_prefix e = e_prefix e' \<and> e_parent e = e_parent e' \<and> e_children e = e_children e'"
    if "es' q = Some e'" for q e'
    using eq[of q] that by (cases "es q") auto
  have fwd: "\<exists>e'. es' q = Some e' \<and> e_prefix e' = e_prefix e \<and> e_parent e' = e_parent e \<and> e_children e' = e_children e"
    if "es q = Some e" for q e
    using eq[of q] that by (cases "es' q") auto
  show ?thesis
    unfolding tree_inv_def
  proof (intro conjI allI impI)
    fix q q' e e' assume "es' q = Some e" "es' q' = Some e'" "e_prefix e = e_prefix e'"
    then show "q = q'"
      using tree_inv_inj[OF inv] bwd by metis
  next
    fix q e' assume "es' q = Some e'"
    then obtain e where e: "es q = Some e" "e_prefix e = e_prefix e'" "e_parent e = e_parent e'"
      using bwd by blast
    show "if e_prefix e' = [] then e_parent e' = None
        else \<exists>p pe. e_parent e' = Some p \<and> es' p = Some pe \<and> e_prefix pe = butlast (e_prefix e')"
      using tree_inv_root[OF inv e(1)] tree_inv_parent[OF inv e(1)] fwd e(2,3) by metis
  next
    fix q e' assume "es' q = Some e'"
    then obtain e where e: "es q = Some e" "e_children e = e_children e'"
      using bwd by blast
    show "distinct (e_children e')"
      using tree_inv_children[OF inv e(1)] e(2) by simp
    fix c show "c \<in> set (e_children e') \<longleftrightarrow> (\<exists>ce. es' c = Some ce \<and> e_parent ce = Some q)"
      using tree_inv_children[OF inv e(1)] e(2) bwd fwd by metis
  qed
qed

lemma nt_update_inv:
  assumes f: "\<And>e. e_hash (f e) = e_hash e" "\<And>e. e_prefix (f e) = e_prefix e"
    "\<And>e. e_parent (f e) = e_parent e" "\<And>e. e_children (f e) = e_children e"
    and inv: "nt_inv wire t"
  shows "nt_inv wire (nt_update r f t)"
proof -
  have "tree_inv ((nt_entries t)(r := map_option f (nt_entries t r)))"
    by (rule tree_inv_fields[OF nt_invD(7)[OF inv]]) (simp add: option.map_comp o_def f)
  moreover have "dom ((nt_entries t)(r := map_option f (nt_entries t r))) = dom (nt_entries t)"
    by (auto simp: dom_def)
  moreover have "buckets_inv wire (nt_update r f t)"
    using inv calculation(2) unfolding nt_inv_def buckets_inv_def nt_update_def live_def bucket_of_def
    by (auto simp: f)
  ultimately show ?thesis
    by (simp add: nt_inv_def nt_update_def)
qed

lemma findExactMatch_update:
  assumes "\<And>e. e_hash (f e) = e_hash e" "\<And>e. e_prefix (f e) = e_prefix e"
  shows "findExactMatch wire m (nt_update r f t) = findExactMatch wire m t"
  unfolding findExactMatch_def Let_def
  by (intro find_cong) (auto simp: nt_update_def bucket_of_def assms split: option.splits)

section \<open>Slots\<close>

text \<open>The entries of a table are objects with the name they are for and a pointer back to the
  entry of the name tree they hang off; \<open>h\<close> gives both for the objects of the table.\<close>

definition linked ::
  "(nt_entry \<Rightarrow> nat option) \<Rightarrow> (component \<Rightarrow> byte list) \<Rightarrow> name_tree \<Rightarrow> (nat \<Rightarrow> (name \<times> nt_ref option) option) \<Rightarrow> bool" where
  "linked get wire t h \<longleftrightarrow> nt_inv wire t \<and>
     (\<forall>n x. slot_at get wire t n = Some x \<longrightarrow> (\<exists>r. h x = Some (n, Some r))) \<and>
     (\<forall>x n r. h x = Some (n, Some r) \<longrightarrow> nt_prefix t r = Some n \<and> slot_at get wire t n = Some x)"

lemma linked_inv: "linked get wire t h \<Longrightarrow> nt_inv wire t"
  by (simp add: linked_def)

lemma linked_slot: "linked get wire t h \<Longrightarrow> slot_at get wire t n = Some x \<Longrightarrow> \<exists>r. h x = Some (n, Some r)"
  unfolding linked_def by blast

lemma linked_object:
  "linked get wire t h \<Longrightarrow> h x = Some (n, Some r) \<Longrightarrow> nt_prefix t r = Some n \<and> slot_at get wire t n = Some x"
  unfolding linked_def by blast

lemma linked_alloc: "linked get wire t h \<Longrightarrow> h x = None \<Longrightarrow> linked get wire t (h(x \<mapsto> (n, None)))"
  unfolding linked_def by (auto, metis option.distinct(1))

lemma linked_inj:
  "linked get wire t h \<Longrightarrow> slot_at get wire t n = Some x \<Longrightarrow> slot_at get wire t m = Some x \<Longrightarrow> n = m"
  using linked_slot by (metis Pair_inject option.inject)

text \<open>Operations of the tree that leave a slot alone: the map is the same and the entries that
  carry something stay where they are.\<close>

definition slot_frame ::
  "(nt_entry \<Rightarrow> 'v option) \<Rightarrow> (component \<Rightarrow> byte list) \<Rightarrow> name_tree \<Rightarrow> name_tree \<Rightarrow> bool" where
  "slot_frame get wire t t' \<longleftrightarrow> slot_at get wire t' = slot_at get wire t \<and>
     (\<forall>r n. nt_prefix t r = Some n \<longrightarrow> slot_at get wire t n \<noteq> None \<longrightarrow> nt_prefix t' r = Some n)"

lemma slot_frame_refl [simp]: "slot_frame get wire t t"
  by (simp add: slot_frame_def)

lemma slot_frame_trans: "slot_frame get wire a b \<Longrightarrow> slot_frame get wire b c \<Longrightarrow> slot_frame get wire a c"
  by (simp add: slot_frame_def)

lemma slot_frame_at: "slot_frame get wire t t' \<Longrightarrow> slot_at get wire t' = slot_at get wire t"
  by (simp add: slot_frame_def)

lemma linked_frame:
  assumes "linked get wire t h" and "nt_inv wire t'" and "slot_frame get wire t t'"
  shows "linked get wire t' h"
  using assms unfolding linked_def slot_frame_def by (metis option.distinct(1))

locale nt_attr =
  fixes get :: "nt_entry \<Rightarrow> 'v option"
  assumes get_children: "get (e\<lparr>e_children := cs\<rparr>) = get e"
    and get_bare: "bare e \<Longrightarrow> get e = None"
begin

lemma get_same: "same_but_children e e' \<Longrightarrow> get e' = get e"
  unfolding same_but_children_def by (metis get_children)

lemma slot_at_iff:
  assumes "nt_inv wire t"
  shows "slot_at get wire t n = Some x \<longleftrightarrow>
    (\<exists>r e. nt_entries t r = Some e \<and> e_prefix e = n \<and> get e = Some x)"
proof -
  have "slot_at get wire t n = Some x \<longleftrightarrow>
      (\<exists>r. findExactMatch wire n t = Some r \<and> Option.bind (nt_entries t r) get = Some x)"
    by (simp add: slot_at_def split: option.split)
  also have "\<dots> \<longleftrightarrow> (\<exists>r e. nt_entries t r = Some e \<and> e_prefix e = n \<and> get e = Some x)"
    unfolding findExactMatch_iff[OF assms] nt_prefix_def bind_eq_Some_conv by fastforce
  finally show ?thesis .
qed

lemma slot_at_entry:
  assumes "nt_inv wire t" and "nt_entries t r = Some e"
  shows "slot_at get wire t (e_prefix e) = get e"
proof -
  have "findExactMatch wire (e_prefix e) t = Some r"
    using findExactMatch_iff[OF assms(1)] assms(2) by (simp add: nt_prefix_def)
  then show ?thesis
    using assms(2) by (simp add: slot_at_def)
qed

lemma slot_at_grows:
  assumes "nt_inv wire t" and "nt_inv wire t'" and "nt_grows t t'"
  shows "slot_at get wire t' = slot_at get wire t"
proof -
  have "slot_at get wire t' n = Some x \<longleftrightarrow> slot_at get wire t n = Some x" for n x
  proof
    assume "slot_at get wire t' n = Some x"
    then obtain r e' where e': "nt_entries t' r = Some e'" "e_prefix e' = n" "get e' = Some x"
      unfolding slot_at_iff[OF assms(2)] by blast
    then obtain e where e: "nt_entries t r = Some e"
      using assms(3) get_bare unfolding nt_grows_def by fastforce
    then have "same_but_children e e'"
      using nt_grows_entry[OF assms(3) e] e'(1) by simp
    with e e' show "slot_at get wire t n = Some x"
      unfolding slot_at_iff[OF assms(1)] using get_same same_but_childrenD(2) by metis
  next
    assume "slot_at get wire t n = Some x"
    then obtain r e where e: "nt_entries t r = Some e" "e_prefix e = n" "get e = Some x"
      unfolding slot_at_iff[OF assms(1)] by blast
    with nt_grows_entry[OF assms(3) e(1)] show "slot_at get wire t' n = Some x"
      unfolding slot_at_iff[OF assms(2)] using get_same same_but_childrenD(2) by metis
  qed
  then show ?thesis
    by (intro ext option.expand) (metis not_None_eq, metis option.collapse option.inject)
qed

lemma slot_at_shrinks:
  assumes "nt_inv wire t" and "nt_inv wire t'" and "nt_shrinks t t'"
  shows "slot_at get wire t' = slot_at get wire t"
proof -
  have "slot_at get wire t' n = Some x \<longleftrightarrow> slot_at get wire t n = Some x" for n x
  proof
    assume "slot_at get wire t' n = Some x"
    then obtain r e' where e': "nt_entries t' r = Some e'" "e_prefix e' = n" "get e' = Some x"
      unfolding slot_at_iff[OF assms(2)] by blast
    with nt_shrinks_entry[OF assms(3) e'(1)] show "slot_at get wire t n = Some x"
      unfolding slot_at_iff[OF assms(1)] using get_same same_but_childrenD(2) by metis
  next
    assume "slot_at get wire t n = Some x"
    then obtain r e where e: "nt_entries t r = Some e" "e_prefix e = n" "get e = Some x"
      unfolding slot_at_iff[OF assms(1)] by blast
    have "\<not> bare e"
      using get_bare e(3) by auto
    from nt_shrinks_keeps[OF assms(3) e(1) this] e show "slot_at get wire t' n = Some x"
      unfolding slot_at_iff[OF assms(2)] using get_same same_but_childrenD(2) by metis
  qed
  then show ?thesis
    by (intro ext option.expand) (metis not_None_eq, metis option.collapse option.inject)
qed

lemma find_slot:
  assumes inv: "nt_inv wire t"
  shows "Option.bind (List.find (selected (\<lambda>e. get e \<noteq> None) t) (matches wire n t))
      (\<lambda>r. Option.bind (nt_entries t r) get) = longest_match (slot_at get wire t) n"
proof -
  have step: "(case findExactMatch wire p t of None \<Rightarrow> x
      | Some r \<Rightarrow> if selected (\<lambda>e. get e \<noteq> None) t r then Option.bind (nt_entries t r) get else x) =
      (case slot_at get wire t p of None \<Rightarrow> x | Some y \<Rightarrow> Some y)" for p and x :: "'v option"
    by (auto simp: slot_at_def selected_def split: option.splits)
  show ?thesis
  proof (induction n rule: rev_induct)
    case Nil
    show ?case
      using step[where p = "[]" and x = None] by (auto simp: matches_Nil longest_match_Nil split: option.splits if_splits)
  next
    case (snoc c n)
    show ?case
      using step[where p = "n @ [c]" and x = "longest_match (slot_at get wire t) n"] snoc
      by (auto simp: matches_snoc longest_match_snoc split: option.splits if_splits)
  qed
qed

lemma finite_slots: "nt_inv wire t \<Longrightarrow> finite (dom (slot_at get wire t))"
proof -
  assume inv: "nt_inv wire t"
  have "finite (live t)"
    using nt_invD(5)[OF inv] by (metis List.finite_set)
  moreover have "dom (slot_at get wire t) \<subseteq> (\<lambda>r. e_prefix (the (nt_entries t r))) ` live t"
  proof
    fix n assume "n \<in> dom (slot_at get wire t)"
    then obtain r e where "nt_entries t r = Some e" "e_prefix e = n"
      using slot_at_iff[OF inv] by blast
    then show "n \<in> (\<lambda>r. e_prefix (the (nt_entries t r))) ` live t"
      by (intro image_eqI[of _ _ r]) (auto simp: live_def)
  qed
  ultimately show ?thesis
    using finite_surj by blast
qed

lemma slot_frame_grows:
  assumes "nt_inv wire t" and "nt_inv wire t'" and "nt_grows t t'"
  shows "slot_frame get wire t t'"
  unfolding slot_frame_def using slot_at_grows[OF assms] nt_grows_prefix[OF assms(3)] by simp

lemma slot_frame_shrinks:
  assumes "nt_inv wire t" and "nt_inv wire t'" and "nt_shrinks t t'"
  shows "slot_frame get wire t t'"
  unfolding slot_frame_def
proof (intro conjI allI impI)
  show "slot_at get wire t' = slot_at get wire t"
    by (rule slot_at_shrinks[OF assms])
  fix r n assume r: "nt_prefix t r = Some n" "slot_at get wire t n \<noteq> None"
  then obtain e where e: "nt_entries t r = Some e" "e_prefix e = n"
    by (auto simp: nt_prefix_def)
  then have "get e \<noteq> None"
    using r slot_at_entry[OF assms(1) e(1)] by simp
  then have "\<not> bare e"
    using get_bare by auto
  from nt_shrinks_keeps[OF assms(3) e(1) this] e(2) show "nt_prefix t' r = Some n"
    using same_but_childrenD(2) by (auto simp: nt_prefix_def)
qed

lemma slot_at_update:
  assumes inv: "nt_inv wire t" and e: "nt_entries t r = Some e"
    and f: "\<And>e. e_hash (f e) = e_hash e" "\<And>e. e_prefix (f e) = e_prefix e"
  shows "slot_at get wire (nt_update r f t) = (slot_at get wire t)(e_prefix e := get (f e))"
proof
  fix m
  have ex: "findExactMatch wire m (nt_update r f t) = findExactMatch wire m t"
    by (rule findExactMatch_update[OF f])
  have here: "findExactMatch wire m t = Some r \<longleftrightarrow> m = e_prefix e"
    using findExactMatch_iff[OF inv, of m r] e by (auto simp: nt_prefix_def)
  show "slot_at get wire (nt_update r f t) m = ((slot_at get wire t)(e_prefix e := get (f e))) m"
  proof (cases "m = e_prefix e")
    case True
    then show ?thesis
      using here e unfolding slot_at_def ex by (simp add: nt_update_def)
  next
    case False
    then have "nt_entries (nt_update r f t) q = nt_entries t q" if "findExactMatch wire m t = Some q" for q
      using that here by (auto simp: nt_update_def)
    then show ?thesis
      using False unfolding slot_at_def ex by (auto split: option.split)
  qed
qed

lemma nt_prefix_update: "(\<And>e. e_prefix (f e) = e_prefix e) \<Longrightarrow> nt_prefix (nt_update r f t) q = nt_prefix t q"
  by (simp add: nt_prefix_def nt_update_def option.map_comp o_def)

lemma slot_frame_update:
  assumes inv: "nt_inv wire t" and f: "\<And>e. e_hash (f e) = e_hash e" "\<And>e. e_prefix (f e) = e_prefix e"
    "\<And>e. get (f e) = get e"
  shows "slot_frame get wire t (nt_update r f t)"
proof (cases "nt_entries t r")
  case None
  then have "nt_update r f t = t"
    by (simp add: nt_update_def fun_upd_idem)
  then show ?thesis by simp
next
  case (Some e)
  have "slot_at get wire (nt_update r f t) = slot_at get wire t"
    unfolding slot_at_update[OF inv Some f(1,2)] using slot_at_entry[OF inv Some] f(3) by (simp add: fun_upd_idem)
  then show ?thesis
    unfolding slot_frame_def by (simp add: nt_prefix_update f(2))
qed

end

locale nt_slot = nt_attr get for get :: "nt_entry \<Rightarrow> nat option" +
  fixes put :: "nat option \<Rightarrow> nt_entry \<Rightarrow> nt_entry"
  assumes get_put: "get (put v e) = v"
    and put_frame: "e_hash (put v e) = e_hash e" "e_prefix (put v e) = e_prefix e"
      "e_parent (put v e) = e_parent e" "e_children (put v e) = e_children e"
begin

lemma put_inv:
  assumes "nt_inv wire t"
  shows "nt_inv wire (nt_update r (put v) t)"
  by (rule nt_update_inv[OF _ _ _ _ assms]) (simp_all add: put_frame)

lemma slot_at_put:
  assumes inv: "nt_inv wire t" and r: "nt_prefix t r = Some n"
  shows "slot_at get wire (nt_update r (put v) t) = (slot_at get wire t)(n := v)"
  using r slot_at_update[OF inv, of r _ "put v"] by (auto simp: nt_prefix_def put_frame get_put)

lemma nt_prefix_put: "nt_prefix (nt_update r (put v) t) q = nt_prefix t q"
  by (simp add: nt_prefix_def nt_update_def option.map_comp o_def put_frame)

lemma linked_attach:
  assumes l: "linked get wire t h" and r: "nt_prefix t r = Some n" and none: "slot_at get wire t n = None"
    and x: "h x = Some (n, None)"
  shows "linked get wire (nt_update r (put (Some x)) t) (h(x \<mapsto> (n, Some r)))"
  unfolding linked_def nt_prefix_put slot_at_put[OF linked_inv[OF l] r]
proof (intro conjI allI impI)
  show "nt_inv wire (nt_update r (put (Some x)) t)"
    by (rule put_inv[OF linked_inv[OF l]])
next
  fix m y assume "((slot_at get wire t)(n := Some x)) m = Some y"
  then show "\<exists>q. (h(x \<mapsto> (n, Some r))) y = Some (m, Some q)"
    using linked_slot[OF l, of m y] x by (auto split: if_splits)
next
  fix y m q assume "(h(x \<mapsto> (n, Some r))) y = Some (m, Some q)"
  then show "nt_prefix t q = Some m" "((slot_at get wire t)(n := Some x)) m = Some y"
    using linked_object[OF l, of y m q] r none by (auto split: if_splits)
qed

lemma linked_detach:
  assumes l: "linked get wire t h" and r: "nt_prefix t r = Some n" and x: "slot_at get wire t n = Some x"
  shows "linked get wire (nt_update r (put None) t) (h(x \<mapsto> (n, None)))"
  unfolding linked_def nt_prefix_put slot_at_put[OF linked_inv[OF l] r]
proof (intro conjI allI impI)
  show "nt_inv wire (nt_update r (put None) t)"
    by (rule put_inv[OF linked_inv[OF l]])
next
  fix m y assume "((slot_at get wire t)(n := None)) m = Some y"
  then show "\<exists>q. (h(x \<mapsto> (n, None))) y = Some (m, Some q)"
    using linked_slot[OF l, of m y] linked_inj[OF l x, of m] by (auto split: if_splits)
next
  fix y m q assume "(h(x \<mapsto> (n, None))) y = Some (m, Some q)"
  then have "y \<noteq> x" "h y = Some (m, Some q)"
    by (auto split: if_splits)
  then show "nt_prefix t q = Some m" "((slot_at get wire t)(n := None)) m = Some y"
    using linked_object[OF l, of y m q] x by (auto split: if_splits)
qed

end

interpretation fib_slot: nt_slot e_fibEntry "\<lambda>v e. e\<lparr>e_fibEntry := v\<rparr>"
  by unfold_locales (simp_all add: bare_def)

interpretation meas_slot: nt_slot e_measurementsEntry "\<lambda>v e. e\<lparr>e_measurementsEntry := v\<rparr>"
  by unfold_locales (simp_all add: bare_def)

interpretation sc_slot: nt_slot e_strategyChoiceEntry "\<lambda>v e. e\<lparr>e_strategyChoiceEntry := v\<rparr>"
  by unfold_locales (simp_all add: bare_def)

text \<open>What an operation on one table has to leave alone in the tree for the other tables.\<close>

definition tables_frame :: "(component \<Rightarrow> byte list) \<Rightarrow> name_tree \<Rightarrow> name_tree \<Rightarrow> bool" where
  "tables_frame wire t t' \<longleftrightarrow> slot_frame e_fibEntry wire t t' \<and> slot_frame e_measurementsEntry wire t t' \<and>
     slot_frame e_strategyChoiceEntry wire t t'"

lemma tables_frame_refl [simp]: "tables_frame wire t t"
  by (simp add: tables_frame_def)

lemma tables_frame_trans: "tables_frame wire a b \<Longrightarrow> tables_frame wire b c \<Longrightarrow> tables_frame wire a c"
  unfolding tables_frame_def using slot_frame_trans by blast

lemma tables_frame_grows: "nt_inv wire t \<Longrightarrow> nt_inv wire t' \<Longrightarrow> nt_grows t t' \<Longrightarrow> tables_frame wire t t'"
  by (simp add: tables_frame_def fib_slot.slot_frame_grows meas_slot.slot_frame_grows sc_slot.slot_frame_grows)

lemma tables_frame_shrinks: "nt_inv wire t \<Longrightarrow> nt_inv wire t' \<Longrightarrow> nt_shrinks t t' \<Longrightarrow> tables_frame wire t t'"
  by (simp add: tables_frame_def fib_slot.slot_frame_shrinks meas_slot.slot_frame_shrinks sc_slot.slot_frame_shrinks)

lemma tables_frame_pit: "nt_inv wire t \<Longrightarrow> tables_frame wire t (nt_update r (\<lambda>e. e\<lparr>e_pitEntries := g e\<rparr>) t)"
  unfolding tables_frame_def
  by (intro conjI fib_slot.slot_frame_update meas_slot.slot_frame_update sc_slot.slot_frame_update) simp_all

end
