(* ===== verification/Pit_Table.thy ===== *)
theory Pit_Table
  imports Name_Tree_Slots Packets
begin

text \<open>
  The pending Interest table of \<^verbatim>\<open>src/daemon/table/pit.cpp\<close> and \<^verbatim>\<open>pit-entry.cpp\<close>, its in- and
  out-records (\<^verbatim>\<open>pit-face-record.cpp\<close>, \<^verbatim>\<open>pit-in-record.cpp\<close>, \<^verbatim>\<open>pit-out-record.cpp\<close>), and the
  parts of the name tree that take a PIT entry.  PIT entries are objects in a store.  A
  scheduled timer is a field of the entry with its deadline and the arguments of its
  callback; cancelling clears the field.  What belongs to ndn-cxx is a parameter: the
  encoding of components, \<^verbatim>\<open>Interest::matchesData\<close> and the default Interest lifetime.
\<close>

section \<open>Records\<close>

record ndn_cxx =
  cx_wire :: "component \<Rightarrow> byte list"
  cx_matchesData :: "interest \<Rightarrow> data \<Rightarrow> bool"
  cx_DEFAULT_INTEREST_LIFETIME :: int

definition TimePoint_min :: time where "TimePoint_min = - (2 ^ 63)"

record in_record =
  ir_face :: face_ptr
  ir_lastNonce :: u32
  ir_lastRenewed :: time
  ir_expiry :: time
  ir_interest :: "interest option"

record out_record =
  or_face :: face_ptr
  or_lastNonce :: u32
  or_lastRenewed :: time
  or_expiry :: time
  or_incomingNack :: "nack_reason option"

definition newInRecord :: "face_ptr \<Rightarrow> in_record" where
  "newInRecord face = \<lparr>ir_face = face, ir_lastNonce = 0, ir_lastRenewed = TimePoint_min,
     ir_expiry = TimePoint_min, ir_interest = None\<rparr>"

definition newOutRecord :: "face_ptr \<Rightarrow> out_record" where
  "newOutRecord face = \<lparr>or_face = face, or_lastNonce = 0, or_lastRenewed = TimePoint_min,
     or_expiry = TimePoint_min, or_incomingNack = None\<rparr>"

text \<open>The lifetime used by \<^verbatim>\<open>FaceRecord::update\<close>, in nanoseconds.\<close>

definition record_lifetime :: "ndn_cxx \<Rightarrow> interest \<Rightarrow> time" where
  "record_lifetime cx interest =
    (let lifetime = i_lifetime interest;
         lifetime = (if lifetime < 0 then cx_DEFAULT_INTEREST_LIFETIME cx else lifetime)
     in milliseconds lifetime)"

definition update_inRecord :: "ndn_cxx \<Rightarrow> time \<Rightarrow> interest \<Rightarrow> in_record \<Rightarrow> in_record" where
  "update_inRecord cx now interest r =
    r\<lparr>ir_lastNonce := i_nonce interest, ir_lastRenewed := now,
      ir_expiry := now + record_lifetime cx interest, ir_interest := Some interest\<rparr>"

definition update_outRecord :: "ndn_cxx \<Rightarrow> time \<Rightarrow> interest \<Rightarrow> out_record \<Rightarrow> out_record" where
  "update_outRecord cx now interest r =
    r\<lparr>or_lastNonce := i_nonce interest, or_lastRenewed := now,
      or_expiry := now + record_lifetime cx interest\<rparr>"

definition setIncomingNack :: "nack \<Rightarrow> out_record \<Rightarrow> out_record \<times> bool" where
  "setIncomingNack nack r =
    (if i_nonce (n_interest nack) \<noteq> or_lastNonce r then (r, False)
     else (r\<lparr>or_incomingNack := Some (n_reason nack)\<rparr>, True))"

section \<open>Entries\<close>

text \<open>\<^verbatim>\<open>pe_retxInterval\<close> is the strategy information of the exponential retransmission
  suppression, when it is present.\<close>

record pit_entry =
  pe_interest :: interest
  pe_inRecords :: "in_record list"
  pe_outRecords :: "out_record list"
  pe_unsatisfyTimer :: "time option"
  pe_stragglerTimer :: "(time \<times> bool \<times> int) option"
  pe_nameTreeEntry :: "nt_ref option"
  pe_retxInterval :: "time option"

abbreviation pe_name :: "pit_entry \<Rightarrow> name" where
  "pe_name e \<equiv> i_name (pe_interest e)"

definition newPitEntry :: "interest \<Rightarrow> pit_entry" where
  "newPitEntry interest = \<lparr>pe_interest = interest, pe_inRecords = [], pe_outRecords = [],
     pe_unsatisfyTimer = None, pe_stragglerTimer = None, pe_nameTreeEntry = None,
     pe_retxInterval = None\<rparr>"

definition getInRecord :: "face_ptr \<Rightarrow> pit_entry \<Rightarrow> in_record option" where
  "getInRecord face e = List.find (\<lambda>r. ir_face r = face) (pe_inRecords e)"

definition insertOrUpdateInRecord :: "ndn_cxx \<Rightarrow> time \<Rightarrow> face_ptr \<Rightarrow> interest \<Rightarrow> pit_entry \<Rightarrow> pit_entry" where
  "insertOrUpdateInRecord cx now face interest e =
    (let e = (if getInRecord face e = None
              then e\<lparr>pe_inRecords := newInRecord face # pe_inRecords e\<rparr> else e)
     in e\<lparr>pe_inRecords := update_first (\<lambda>r. ir_face r = face)
            (update_inRecord cx now interest) (pe_inRecords e)\<rparr>)"

definition deleteInRecord :: "face_ptr \<Rightarrow> pit_entry \<Rightarrow> pit_entry" where
  "deleteInRecord face e = e\<lparr>pe_inRecords := remove_first (\<lambda>r. ir_face r = face) (pe_inRecords e)\<rparr>"

definition clearInRecords :: "pit_entry \<Rightarrow> pit_entry" where
  "clearInRecords e = e\<lparr>pe_inRecords := []\<rparr>"

definition getOutRecord :: "face_ptr \<Rightarrow> pit_entry \<Rightarrow> out_record option" where
  "getOutRecord face e = List.find (\<lambda>r. or_face r = face) (pe_outRecords e)"

definition insertOrUpdateOutRecord :: "ndn_cxx \<Rightarrow> time \<Rightarrow> face_ptr \<Rightarrow> interest \<Rightarrow> pit_entry \<Rightarrow> pit_entry" where
  "insertOrUpdateOutRecord cx now face interest e =
    (let e = (if getOutRecord face e = None
              then e\<lparr>pe_outRecords := newOutRecord face # pe_outRecords e\<rparr> else e)
     in e\<lparr>pe_outRecords := update_first (\<lambda>r. or_face r = face)
            (update_outRecord cx now interest) (pe_outRecords e)\<rparr>)"

definition deleteOutRecord :: "face_ptr \<Rightarrow> pit_entry \<Rightarrow> pit_entry" where
  "deleteOutRecord face e = e\<lparr>pe_outRecords := remove_first (\<lambda>r. or_face r = face) (pe_outRecords e)\<rparr>"

section \<open>The table\<close>

record pit =
  pit_entries :: "pit_ref \<Rightarrow> pit_entry option"
  pit_next :: pit_ref
  pit_nItems :: u64

definition Pit :: pit where
  "Pit = \<lparr>pit_entries = (\<lambda>_. None), pit_next = 0, pit_nItems = 0\<rparr>"

definition pit_update :: "pit_ref \<Rightarrow> (pit_entry \<Rightarrow> pit_entry) \<Rightarrow> pit \<Rightarrow> pit" where
  "pit_update x g p = p\<lparr>pit_entries := (pit_entries p)(x := map_option g (pit_entries p x))\<rparr>"

text \<open>\<^verbatim>\<open>name_tree::Entry::insertPitEntry\<close> and \<^verbatim>\<open>erasePitEntry\<close>\<close>

definition insertPitEntry :: "nt_ref \<Rightarrow> pit_ref \<Rightarrow> name_tree \<times> pit \<Rightarrow> (name_tree \<times> pit) option" where
  "insertPitEntry r x s = do {
     let (t, p) = s;
     _ \<leftarrow> nt_entries t r;
     pe \<leftarrow> pit_entries p x;
     if pe_nameTreeEntry pe \<noteq> None then None
     else Some (nt_update r (\<lambda>e. e\<lparr>e_pitEntries := e_pitEntries e @ [x]\<rparr>) t,
                pit_update x (\<lambda>pe. pe\<lparr>pe_nameTreeEntry := Some r\<rparr>) p)
   }"

definition erasePitEntry :: "nt_ref \<Rightarrow> pit_ref \<Rightarrow> name_tree \<times> pit \<Rightarrow> (name_tree \<times> pit) option" where
  "erasePitEntry r x s = do {
     let (t, p) = s;
     e \<leftarrow> nt_entries t r;
     pe \<leftarrow> pit_entries p x;
     if pe_nameTreeEntry pe \<noteq> Some r then None
     else do {
       xs \<leftarrow> swap_remove x (e_pitEntries e);
       Some (nt_update r (\<lambda>e. e\<lparr>e_pitEntries := xs\<rparr>) t,
             pit_update x (\<lambda>pe. pe\<lparr>pe_nameTreeEntry := None\<rparr>) p)
     }
   }"

text \<open>\<^verbatim>\<open>NameTree::get(const pit::Entry&)\<close>; it may insert into the tree.\<close>

definition nt_get_pit :: "ndn_cxx \<Rightarrow> pit_entry \<Rightarrow> name_tree \<Rightarrow> (name_tree \<times> nt_ref) option" where
  "nt_get_pit cx pe t = do {
     r \<leftarrow> pe_nameTreeEntry pe;
     e \<leftarrow> nt_entries t r;
     if length (e_prefix e) = length (pe_name pe) then Some (t, r)
     else if pe_name pe = [] \<or> \<not> isImplicitSha256Digest (last (pe_name pe)) then None
     else if e_prefix e \<noteq> butlast (pe_name pe) then None
     else nt_lookup (cx_wire cx) (pe_name pe) t
   }"

text \<open>\<^verbatim>\<open>NameTree::findLongestPrefixMatch(const pit::Entry&)\<close>\<close>

definition nt_lpm_pit :: "ndn_cxx \<Rightarrow> pit_entry \<Rightarrow> name_tree \<Rightarrow> nt_ref option" where
  "nt_lpm_pit cx pe t = do {
     r \<leftarrow> pe_nameTreeEntry pe;
     e \<leftarrow> nt_entries t r;
     if length (e_prefix e) = length (pe_name pe) then Some r
     else if pe_name pe = [] \<or> \<not> isImplicitSha256Digest (last (pe_name pe)) then None
     else if e_prefix e \<noteq> butlast (pe_name pe) then None
     else (case findExactMatch (cx_wire cx) (pe_name pe) t of
             None \<Rightarrow> Some r
           | Some exact \<Rightarrow> Some exact)
   }"

definition isEndWithDigest :: "name \<Rightarrow> bool" where
  "isEndWithDigest name = (name \<noteq> [] \<and> isImplicitSha256Digest (last name))"

text \<open>The loop of \<^verbatim>\<open>find_if\<close> in \<^verbatim>\<open>findOrInsert\<close>, with its assertion.\<close>

fun find_pit_entry :: "interest \<Rightarrow> nat \<Rightarrow> pit \<Rightarrow> pit_ref list \<Rightarrow> pit_ref option option" where
  "find_pit_entry interest nteNameLen p [] = Some None"
| "find_pit_entry interest nteNameLen p (x # xs) =
    (case pit_entries p x of
       None \<Rightarrow> None
     | Some pe \<Rightarrow>
         if take nteNameLen (pe_name pe) \<noteq> take nteNameLen (i_name interest) then None
         else if drop nteNameLen (pe_name pe) = drop nteNameLen (i_name interest) \<and>
                 i_selectors (pe_interest pe) = i_selectors interest
         then Some (Some x)
         else find_pit_entry interest nteNameLen p xs)"

definition findOrInsert ::
  "ndn_cxx \<Rightarrow> interest \<Rightarrow> bool \<Rightarrow> name_tree \<times> pit \<Rightarrow> (name_tree \<times> pit \<times> pit_ref option \<times> bool) option" where
  "findOrInsert cx interest allowInsert s = do {
     let (t, p) = s;
     let name = i_name interest;
     (t, nte) \<leftarrow> nt_lookup (cx_wire cx) (if isEndWithDigest name then butlast name else name) t;
     e \<leftarrow> nt_entries t nte;
     it \<leftarrow> find_pit_entry interest (length (e_prefix e)) p (e_pitEntries e);
     (case it of
        Some x \<Rightarrow> Some (t, p, Some x, False)
      | None \<Rightarrow>
          if \<not> allowInsert then Some (t, p, None, True)
          else do {
            let x = pit_next p;
            let p = p\<lparr>pit_entries := (pit_entries p)(x \<mapsto> newPitEntry interest), pit_next := x + 1\<rparr>;
            (t, p) \<leftarrow> insertPitEntry nte x (t, p);
            Some (t, p\<lparr>pit_nItems := pit_nItems p + 1\<rparr>, Some x, True)
          })
   }"

definition hasPitEntries :: entry_selector where
  "hasPitEntries e = (e_pitEntries e \<noteq> [])"

text \<open>\<^verbatim>\<open>findAllDataMatches\<close>, the two loops over the matching entries of the tree.\<close>

fun pit_matches_at :: "ndn_cxx \<Rightarrow> data \<Rightarrow> pit \<Rightarrow> pit_ref list \<Rightarrow> pit_ref list option" where
  "pit_matches_at cx d p [] = Some []"
| "pit_matches_at cx d p (x # xs) = do {
     pe \<leftarrow> pit_entries p x;
     rest \<leftarrow> pit_matches_at cx d p xs;
     Some (if cx_matchesData cx (pe_interest pe) d then x # rest else rest)
   }"

fun data_matches_loop :: "ndn_cxx \<Rightarrow> data \<Rightarrow> name_tree \<times> pit \<Rightarrow> nt_ref list \<Rightarrow> pit_ref list option" where
  "data_matches_loop cx d s [] = Some []"
| "data_matches_loop cx d s (r # rs) = do {
     e \<leftarrow> nt_entries (fst s) r;
     ms \<leftarrow> pit_matches_at cx d (snd s) (e_pitEntries e);
     rest \<leftarrow> data_matches_loop cx d s rs;
     Some (ms @ rest)
   }"

definition findAllDataMatches :: "ndn_cxx \<Rightarrow> data \<Rightarrow> name_tree \<times> pit \<Rightarrow> pit_ref list option" where
  "findAllDataMatches cx d s = do {
     ntMatches \<leftarrow> findAllMatches (cx_wire cx) (d_name d) hasPitEntries (fst s);
     data_matches_loop cx d s ntMatches
   }"

definition pit_erase :: "ndn_cxx \<Rightarrow> pit_ref \<Rightarrow> name_tree \<times> pit \<Rightarrow> (name_tree \<times> pit) option" where
  "pit_erase cx x s = do {
     let (t, p) = s;
     pe \<leftarrow> pit_entries p x;
     (t, nte) \<leftarrow> nt_get_pit cx pe t;
     (t, p) \<leftarrow> erasePitEntry nte x (t, p);
     (t, _) \<leftarrow> eraseEntryIfEmpty nte t;
     Some (t, p\<lparr>pit_nItems := pit_nItems p - 1\<rparr>)
   }"

end
