(* ===== verification/Fib_Table.thy ===== *)
theory Fib_Table
  imports Name_Tree_Slots Packets
begin

text \<open>
  The forwarding information base of \<^verbatim>\<open>src/daemon/table/fib.cpp\<close> and \<^verbatim>\<open>fib-entry.cpp\<close>.  FIB
  entries are objects in a store; address 0 is the static empty entry.  The operations work on
  the name tree and this store; \<^const>\<open>None\<close> stands for a failed assertion or the use of an
  entry that is not in the store.
\<close>

section \<open>Entries\<close>

record next_hop =
  nh_face :: face_ptr
  nh_cost :: u64

record fib_entry =
  fe_prefix :: name
  fe_nextHops :: "next_hop list"
  fe_nameTreeEntry :: "nt_ref option"

definition newFibEntry :: "name \<Rightarrow> fib_entry" where
  "newFibEntry prfx = \<lparr>fe_prefix = prfx, fe_nextHops = [], fe_nameTreeEntry = None\<rparr>"

definition findNextHop :: "face_ptr \<Rightarrow> fib_entry \<Rightarrow> next_hop option" where
  "findNextHop face e = List.find (\<lambda>nexthop. nh_face nexthop = face) (fe_nextHops e)"

definition hasNextHops :: "fib_entry \<Rightarrow> bool" where
  "hasNextHops e = (fe_nextHops e \<noteq> [])"

definition hasNextHop :: "face_ptr \<Rightarrow> fib_entry \<Rightarrow> bool" where
  "hasNextHop face e = (findNextHop face e \<noteq> None)"

text \<open>\<^verbatim>\<open>std::sort\<close> by cost; it leaves the order of equal costs open, the model keeps it.\<close>

definition sortNextHops :: "fib_entry \<Rightarrow> fib_entry" where
  "sortNextHops e = e\<lparr>fe_nextHops := sort_key nh_cost (fe_nextHops e)\<rparr>"

definition addNextHop :: "face_ptr \<Rightarrow> u64 \<Rightarrow> fib_entry \<Rightarrow> fib_entry" where
  "addNextHop face cost e =
    (let e = (if findNextHop face e = None
              then e\<lparr>fe_nextHops := fe_nextHops e @ [\<lparr>nh_face = face, nh_cost = 0\<rparr>]\<rparr> else e);
         e = e\<lparr>fe_nextHops := update_first (\<lambda>nexthop. nh_face nexthop = face)
                (\<lambda>nexthop. nexthop\<lparr>nh_cost := cost\<rparr>) (fe_nextHops e)\<rparr>
     in sortNextHops e)"

definition removeNextHop :: "face_ptr \<Rightarrow> fib_entry \<Rightarrow> fib_entry" where
  "removeNextHop face e =
    e\<lparr>fe_nextHops := remove_first (\<lambda>nexthop. nh_face nexthop = face) (fe_nextHops e)\<rparr>"

section \<open>The table\<close>

record fib =
  fib_entries :: "fib_ref \<Rightarrow> fib_entry option"
  fib_next :: fib_ref
  fib_nItems :: u64

definition s_emptyEntry :: fib_ref where "s_emptyEntry = 0"

definition Fib :: fib where
  "Fib = \<lparr>fib_entries = [s_emptyEntry \<mapsto> newFibEntry []], fib_next = 1, fib_nItems = 0\<rparr>"

definition fib_update :: "fib_ref \<Rightarrow> (fib_entry \<Rightarrow> fib_entry) \<Rightarrow> fib \<Rightarrow> fib" where
  "fib_update x g f = f\<lparr>fib_entries := (fib_entries f)(x := map_option g (fib_entries f x))\<rparr>"

text \<open>\<^verbatim>\<open>name_tree::Entry::setFibEntry\<close>\<close>

definition setFibEntry ::
  "nt_ref \<Rightarrow> fib_ref option \<Rightarrow> name_tree \<times> fib \<Rightarrow> (name_tree \<times> fib) option" where
  "setFibEntry r fibEntry s = do {
     let (t, f) = s;
     e \<leftarrow> nt_entries t r;
     _ \<leftarrow> (case fibEntry of None \<Rightarrow> Some ()
         | Some x \<Rightarrow> (case fib_entries f x of None \<Rightarrow> None
             | Some fe \<Rightarrow> if fe_nameTreeEntry fe = None then Some () else None));
     let f = (case e_fibEntry e of None \<Rightarrow> f
         | Some old \<Rightarrow> fib_update old (\<lambda>fe. fe\<lparr>fe_nameTreeEntry := None\<rparr>) f);
     let t = nt_update r (\<lambda>e. e\<lparr>e_fibEntry := fibEntry\<rparr>) t;
     let f = (case fibEntry of None \<Rightarrow> f
         | Some x \<Rightarrow> fib_update x (\<lambda>fe. fe\<lparr>fe_nameTreeEntry := Some r\<rparr>) f);
     Some (t, f)
   }"

definition hasFibEntry :: entry_selector where
  "hasFibEntry e = (e_fibEntry e \<noteq> None)"

definition fib_entry_of :: "nt_ref option \<Rightarrow> name_tree \<Rightarrow> fib_ref option" where
  "fib_entry_of nte t = (case nte of
     None \<Rightarrow> Some s_emptyEntry
   | Some r \<Rightarrow> (case nt_entries t r of None \<Rightarrow> None | Some e \<Rightarrow> e_fibEntry e))"

definition fib_findLongestPrefixMatch ::
  "(component \<Rightarrow> byte list) \<Rightarrow> name \<Rightarrow> name_tree \<Rightarrow> fib_ref option" where
  "fib_findLongestPrefixMatch wire prfx t =
    fib_entry_of (nt_findLongestPrefixMatch wire prfx hasFibEntry t) t"

definition fib_lpm_nte :: "nt_ref \<Rightarrow> name_tree \<Rightarrow> fib_ref option" where
  "fib_lpm_nte r t = do {
     e \<leftarrow> nt_entries t r;
     (case e_fibEntry e of
        Some x \<Rightarrow> Some x
      | None \<Rightarrow> do { nte \<leftarrow> nt_lpm_entry hasFibEntry t (Some r); fib_entry_of nte t })
   }"

definition fib_findExactMatch ::
  "(component \<Rightarrow> byte list) \<Rightarrow> name \<Rightarrow> name_tree \<Rightarrow> fib_ref option" where
  "fib_findExactMatch wire prfx t =
    (case findExactMatch wire prfx t of
       None \<Rightarrow> None
     | Some r \<Rightarrow> (case nt_entries t r of None \<Rightarrow> None | Some e \<Rightarrow> e_fibEntry e))"

definition fib_insert ::
  "(component \<Rightarrow> byte list) \<Rightarrow> name \<Rightarrow> name_tree \<times> fib \<Rightarrow> (name_tree \<times> fib \<times> fib_ref \<times> bool) option" where
  "fib_insert wire prfx s = do {
     let (t, f) = s;
     (t, r) \<leftarrow> nt_lookup wire prfx t;
     e \<leftarrow> nt_entries t r;
     (case e_fibEntry e of
        Some x \<Rightarrow> Some (t, f, x, False)
      | None \<Rightarrow> do {
          let x = fib_next f;
          let f = f\<lparr>fib_entries := (fib_entries f)(x \<mapsto> newFibEntry prfx), fib_next := x + 1\<rparr>;
          (t, f) \<leftarrow> setFibEntry r (Some x) (t, f);
          Some (t, f\<lparr>fib_nItems := fib_nItems f + 1\<rparr>, x, True)
        })
   }"

definition fib_erase_nte :: "nt_ref \<Rightarrow> name_tree \<times> fib \<Rightarrow> (name_tree \<times> fib) option" where
  "fib_erase_nte r s = do {
     (t, f) \<leftarrow> setFibEntry r None s;
     (t, _) \<leftarrow> eraseEntryIfEmpty r t;
     Some (t, f\<lparr>fib_nItems := fib_nItems f - 1\<rparr>)
   }"

definition fib_erase ::
  "(component \<Rightarrow> byte list) \<Rightarrow> name \<Rightarrow> name_tree \<times> fib \<Rightarrow> (name_tree \<times> fib) option" where
  "fib_erase wire prfx s =
    (case findExactMatch wire prfx (fst s) of
       None \<Rightarrow> Some s
     | Some r \<Rightarrow> fib_erase_nte r s)"

definition fib_erase_entry :: "fib_ref \<Rightarrow> name_tree \<times> fib \<Rightarrow> (name_tree \<times> fib) option" where
  "fib_erase_entry x s = do {
     fe \<leftarrow> fib_entries (snd s) x;
     (case fe_nameTreeEntry fe of
        None \<Rightarrow> Some s
      | Some r \<Rightarrow> fib_erase_nte r s)
   }"

text \<open>\<^verbatim>\<open>removeNextHopFromAllEntries\<close>: the loop over the enumeration collects the entries left
  without next hop, a second loop erases them.\<close>

fun remove_loop ::
  "face_ptr \<Rightarrow> name_tree \<Rightarrow> nt_ref list \<Rightarrow> fib \<Rightarrow> fib_ref list \<Rightarrow> (fib \<times> fib_ref list) option" where
  "remove_loop face t [] f toErase = Some (f, toErase)"
| "remove_loop face t (r # rs) f toErase = do {
     e \<leftarrow> nt_entries t r;
     x \<leftarrow> e_fibEntry e;
     fe \<leftarrow> fib_entries f x;
     let f = fib_update x (removeNextHop face) f;
     remove_loop face t rs f
       (if hasNextHops (removeNextHop face fe) then toErase else toErase @ [x])
   }"

fun erase_all :: "fib_ref list \<Rightarrow> name_tree \<times> fib \<Rightarrow> (name_tree \<times> fib) option" where
  "erase_all [] s = Some s"
| "erase_all (x # xs) s = do { s \<leftarrow> fib_erase_entry x s; erase_all xs s }"

definition removeNextHopFromAllEntries ::
  "face_ptr \<Rightarrow> name_tree \<times> fib \<Rightarrow> (name_tree \<times> fib) option" where
  "removeNextHopFromAllEntries face s = do {
     let (t, f) = s;
     (f, toErase) \<leftarrow> remove_loop face t (fullEnumerate hasFibEntry t) f [];
     erase_all toErase (t, f)
   }"

end
