(* ===== verification/Measurements_Table.thy ===== *)
theory Measurements_Table
  imports Pit_Table Fib_Table
begin

text \<open>
  The measurements table of \<^verbatim>\<open>src/daemon/table/measurements.cpp\<close>: entries with a lifetime that
  strategies attach to names.  Entries are objects in a store; the scheduled clean-up is a
  field with its deadline.  \<open>me_items\<close> are the strategy information items of the entry by
  type, their contents belong to the strategies.
\<close>

record measurements_entry =
  me_name :: name
  me_expiry :: time
  me_cleanup :: "time option"
  me_nameTreeEntry :: "nt_ref option"
  me_items :: "(int \<times> nat) list"

record measurements =
  ms_entries :: "measurements_ref \<Rightarrow> measurements_entry option"
  ms_next :: measurements_ref
  ms_nItems :: u64

definition Measurements :: measurements where
  "Measurements = \<lparr>ms_entries = (\<lambda>_. None), ms_next = 0, ms_nItems = 0\<rparr>"

definition newMeasurementsEntry :: "name \<Rightarrow> measurements_entry" where
  "newMeasurementsEntry name = \<lparr>me_name = name, me_expiry = TimePoint_min, me_cleanup = None,
     me_nameTreeEntry = None, me_items = []\<rparr>"

definition ms_update :: "measurements_ref \<Rightarrow> (measurements_entry \<Rightarrow> measurements_entry) \<Rightarrow> measurements \<Rightarrow> measurements" where
  "ms_update x g m = m\<lparr>ms_entries := (ms_entries m)(x := map_option g (ms_entries m x))\<rparr>"

text \<open>\<^verbatim>\<open>name_tree::Entry::setMeasurementsEntry\<close>\<close>

definition setMeasurementsEntry ::
  "nt_ref \<Rightarrow> measurements_ref option \<Rightarrow> name_tree \<times> measurements \<Rightarrow> (name_tree \<times> measurements) option" where
  "setMeasurementsEntry r measurementsEntry s = do {
     let (t, m) = s;
     e \<leftarrow> nt_entries t r;
     _ \<leftarrow> (case measurementsEntry of None \<Rightarrow> Some ()
         | Some x \<Rightarrow> (case ms_entries m x of None \<Rightarrow> None
             | Some me \<Rightarrow> if me_nameTreeEntry me = None then Some () else None));
     let m = (case e_measurementsEntry e of None \<Rightarrow> m
         | Some old \<Rightarrow> ms_update old (\<lambda>me. me\<lparr>me_nameTreeEntry := None\<rparr>) m);
     let t = nt_update r (\<lambda>e. e\<lparr>e_measurementsEntry := measurementsEntry\<rparr>) t;
     let m = (case measurementsEntry of None \<Rightarrow> m
         | Some x \<Rightarrow> ms_update x (\<lambda>me. me\<lparr>me_nameTreeEntry := Some r\<rparr>) m);
     Some (t, m)
   }"

definition getInitialLifetime :: time where "getInitialLifetime = 4 * 1000000000"

definition ms_get_nte ::
  "time \<Rightarrow> nt_ref \<Rightarrow> name_tree \<times> measurements \<Rightarrow> (name_tree \<times> measurements \<times> measurements_ref) option" where
  "ms_get_nte now r s = do {
     let (t, m) = s;
     e \<leftarrow> nt_entries t r;
     (case e_measurementsEntry e of
        Some x \<Rightarrow> Some (t, m, x)
      | None \<Rightarrow> do {
          let x = ms_next m;
          let m = m\<lparr>ms_entries := (ms_entries m)(x \<mapsto> newMeasurementsEntry (e_prefix e)), ms_next := x + 1\<rparr>;
          (t, m) \<leftarrow> setMeasurementsEntry r (Some x) (t, m);
          let m = m\<lparr>ms_nItems := ms_nItems m + 1\<rparr>;
          let m = ms_update x (\<lambda>me. me\<lparr>me_expiry := now + getInitialLifetime,
                                       me_cleanup := Some (now + getInitialLifetime)\<rparr>) m;
          Some (t, m, x)
        })
   }"

definition ms_get ::
  "ndn_cxx \<Rightarrow> time \<Rightarrow> name \<Rightarrow> name_tree \<times> measurements \<Rightarrow> (name_tree \<times> measurements \<times> measurements_ref) option" where
  "ms_get cx now name s = do {
     (t, r) \<leftarrow> nt_lookup (cx_wire cx) name (fst s);
     ms_get_nte now r (t, snd s)
   }"

definition ms_get_fib ::
  "ndn_cxx \<Rightarrow> time \<Rightarrow> fib_entry \<Rightarrow> name_tree \<times> measurements \<Rightarrow> (name_tree \<times> measurements \<times> measurements_ref) option" where
  "ms_get_fib cx now fe s =
    (case fe_nameTreeEntry fe of
       Some r \<Rightarrow> ms_get_nte now r s
     | None \<Rightarrow>
         if fe_prefix fe \<noteq> [] then None
         else do {
           (t, r) \<leftarrow> nt_lookup (cx_wire cx) (fe_prefix fe) (fst s);
           ms_get_nte now r (t, snd s)
         })"

definition ms_get_pit ::
  "ndn_cxx \<Rightarrow> time \<Rightarrow> pit_entry \<Rightarrow> name_tree \<times> measurements \<Rightarrow> (name_tree \<times> measurements \<times> measurements_ref) option" where
  "ms_get_pit cx now pe s = do {
     (t, r) \<leftarrow> nt_get_pit cx pe (fst s);
     ms_get_nte now r (t, snd s)
   }"

text \<open>\<^verbatim>\<open>getParent\<close>: the inner \<^const>\<open>None\<close> is the null pointer for the root.\<close>

definition ms_getParent ::
  "time \<Rightarrow> measurements_ref \<Rightarrow> name_tree \<times> measurements \<Rightarrow> (name_tree \<times> measurements \<times> measurements_ref option) option" where
  "ms_getParent now child s = do {
     me \<leftarrow> ms_entries (snd s) child;
     if me_name me = [] then Some (fst s, snd s, None)
     else do {
       nteChild \<leftarrow> me_nameTreeEntry me;
       e \<leftarrow> nt_entries (fst s) nteChild;
       nte \<leftarrow> e_parent e;
       (t, m, x) \<leftarrow> ms_get_nte now nte s;
       Some (t, m, Some x)
     }
   }"

definition ms_selector :: "(measurements_entry \<Rightarrow> bool) \<Rightarrow> measurements \<Rightarrow> entry_selector" where
  "ms_selector pred m e =
    (case e_measurementsEntry e of
       None \<Rightarrow> False
     | Some x \<Rightarrow> (case ms_entries m x of None \<Rightarrow> False | Some me \<Rightarrow> pred me))"

definition ms_findLongestPrefixMatch ::
  "ndn_cxx \<Rightarrow> name \<Rightarrow> (measurements_entry \<Rightarrow> bool) \<Rightarrow> name_tree \<times> measurements \<Rightarrow> measurements_ref option" where
  "ms_findLongestPrefixMatch cx name pred s =
    (case nt_findLongestPrefixMatch (cx_wire cx) name (ms_selector pred (snd s)) (fst s) of
       None \<Rightarrow> None
     | Some r \<Rightarrow> Option.bind (nt_entries (fst s) r) e_measurementsEntry)"

definition ms_lpm_pit ::
  "ndn_cxx \<Rightarrow> pit_entry \<Rightarrow> (measurements_entry \<Rightarrow> bool) \<Rightarrow> name_tree \<times> measurements \<Rightarrow> (name_tree \<times> measurements_ref option) option" where
  "ms_lpm_pit cx pe pred s = do {
     (t, nte) \<leftarrow> nt_get_pit cx pe (fst s);
     match \<leftarrow> nt_lpm_entry (ms_selector pred (snd s)) t (Some nte);
     Some (t, Option.bind match (\<lambda>r. Option.bind (nt_entries t r) e_measurementsEntry))
   }"

definition ms_findExactMatch ::
  "ndn_cxx \<Rightarrow> name \<Rightarrow> name_tree \<times> measurements \<Rightarrow> (name_tree \<times> measurements_ref option) option" where
  "ms_findExactMatch cx name s = do {
     (t, r) \<leftarrow> nt_lookup (cx_wire cx) name (fst s);
     e \<leftarrow> nt_entries t r;
     Some (t, e_measurementsEntry e)
   }"

definition extendLifetime ::
  "time \<Rightarrow> measurements_ref \<Rightarrow> time \<Rightarrow> name_tree \<times> measurements \<Rightarrow> measurements option" where
  "extendLifetime now x lifetime s = do {
     let (t, m) = s;
     me \<leftarrow> ms_entries m x;
     (case me_nameTreeEntry me of
        None \<Rightarrow> Some m
      | Some r \<Rightarrow> do {
          e \<leftarrow> nt_entries t r;
          if e_measurementsEntry e \<noteq> Some x then Some m
          else do {
            let expiry = now + lifetime;
            if me_expiry me \<ge> expiry then Some m
            else Some (ms_update x (\<lambda>me. me\<lparr>me_expiry := expiry, me_cleanup := Some (now + lifetime)\<rparr>) m)
          }
        })
   }"

text \<open>The clean-up callback.\<close>

definition ms_cleanup ::
  "measurements_ref \<Rightarrow> name_tree \<times> measurements \<Rightarrow> (name_tree \<times> measurements) option" where
  "ms_cleanup x s = do {
     let (t, m) = s;
     me \<leftarrow> ms_entries m x;
     (case me_nameTreeEntry me of
        None \<Rightarrow> Some (t, m)
      | Some r \<Rightarrow> do {
          (t, m) \<leftarrow> setMeasurementsEntry r None (t, m);
          (t, _) \<leftarrow> eraseEntryIfEmpty r t;
          Some (t, m\<lparr>ms_nItems := ms_nItems m - 1\<rparr>)
        })
   }"

text \<open>The clean-up timer of an entry fires at its deadline.\<close>

definition ms_timer ::
  "time \<Rightarrow> measurements_ref \<Rightarrow> name_tree \<times> measurements \<Rightarrow> (name_tree \<times> measurements) option" where
  "ms_timer now x s =
    (case ms_entries (snd s) x of
       None \<Rightarrow> Some s
     | Some me \<Rightarrow>
         (case me_cleanup me of
            None \<Rightarrow> Some s
          | Some deadline \<Rightarrow>
              if deadline \<le> now
              then ms_cleanup x (fst s, ms_update x (\<lambda>me. me\<lparr>me_cleanup := None\<rparr>) (snd s))
              else Some s))"

section \<open>The FIB entry for a PIT entry and for a measurements entry\<close>

definition fib_lpm_pit :: "ndn_cxx \<Rightarrow> pit_entry \<Rightarrow> name_tree \<Rightarrow> fib_ref option" where
  "fib_lpm_pit cx pe t = do {
     nte \<leftarrow> nt_lpm_pit cx pe t;
     fib_lpm_nte nte t
   }"

definition fib_lpm_ms :: "measurements_entry \<Rightarrow> name_tree \<Rightarrow> fib_ref option" where
  "fib_lpm_ms me t = do {
     nte \<leftarrow> me_nameTreeEntry me;
     fib_lpm_nte nte t
   }"

end
