(* ===== verification/Strategy_Choice.thy ===== *)
theory Strategy_Choice
  imports Partial_Enumerate Measurements_Table
begin

text \<open>
  The strategy choice table of \<^verbatim>\<open>src/daemon/table/strategy-choice.cpp\<close>: the strategies that are
  installed, the strategy chosen for a prefix, and the strategy in effect for a name.
  Choosing another strategy for a prefix clears the strategy information on the part of the
  name tree it is in effect for; the record \<open>tables\<close> holds the tables that share the name
  tree.  A strategy object is identified by its address.
\<close>

section \<open>State\<close>

datatype strategy_kind = BestRouteStrategy | BestRouteStrategy2 | MulticastStrategy | BroadcastStrategy
  | ClientControlStrategy | NccStrategy | AccessStrategy | LocationRouteStrategy

record strategy =
  st_ptr :: nat
  st_name :: name
  st_kind :: strategy_kind

record strategy_choice_entry =
  sce_prefix :: name
  sce_strategy :: "strategy option"
  sce_nameTreeEntry :: "nt_ref option"

definition newStrategyChoiceEntry :: "name \<Rightarrow> strategy_choice_entry" where
  "newStrategyChoiceEntry prfx = \<lparr>sce_prefix = prfx, sce_strategy = None, sce_nameTreeEntry = None\<rparr>"

text \<open>\<^verbatim>\<open>m_strategyInstances\<close> is a \<^verbatim>\<open>std::map\<close>: an association list in the order of its keys.\<close>

record strategy_choice =
  sc_entries :: "strategy_choice_ref \<Rightarrow> strategy_choice_entry option"
  sc_next :: strategy_choice_ref
  sc_nItems :: u64
  sc_instances :: "(name \<times> strategy) list"

record tables =
  tb_nt :: name_tree
  tb_fib :: fib
  tb_pit :: pit
  tb_ms :: measurements
  tb_sc :: strategy_choice

definition sc_update ::
  "strategy_choice_ref \<Rightarrow> (strategy_choice_entry \<Rightarrow> strategy_choice_entry) \<Rightarrow> strategy_choice \<Rightarrow> strategy_choice" where
  "sc_update x g c = c\<lparr>sc_entries := (sc_entries c)(x := map_option g (sc_entries c x))\<rparr>"

text \<open>\<^verbatim>\<open>name_tree::Entry::setStrategyChoiceEntry\<close>\<close>

definition setStrategyChoiceEntry ::
  "nt_ref \<Rightarrow> strategy_choice_ref option \<Rightarrow> name_tree \<times> strategy_choice \<Rightarrow> (name_tree \<times> strategy_choice) option" where
  "setStrategyChoiceEntry r strategyChoiceEntry s = do {
     let (t, c) = s;
     e \<leftarrow> nt_entries t r;
     _ \<leftarrow> (case strategyChoiceEntry of None \<Rightarrow> Some ()
         | Some x \<Rightarrow> (case sc_entries c x of None \<Rightarrow> None
             | Some se \<Rightarrow> if sce_nameTreeEntry se = None then Some () else None));
     let c = (case e_strategyChoiceEntry e of None \<Rightarrow> c
         | Some old \<Rightarrow> sc_update old (\<lambda>se. se\<lparr>sce_nameTreeEntry := None\<rparr>) c);
     let t = nt_update r (\<lambda>e. e\<lparr>e_strategyChoiceEntry := strategyChoiceEntry\<rparr>) t;
     let c = (case strategyChoiceEntry of None \<Rightarrow> c
         | Some x \<Rightarrow> sc_update x (\<lambda>se. se\<lparr>sce_nameTreeEntry := Some r\<rparr>) c);
     Some (t, c)
   }"

section \<open>Installed strategies\<close>

fun getStrategy_loop :: "name \<Rightarrow> strategy option \<Rightarrow> (name \<times> strategy) list \<Rightarrow> strategy option" where
  "getStrategy_loop strategyName candidate [] = candidate"
| "getStrategy_loop strategyName candidate ((k, st) # rest) =
    (if \<not> prefix strategyName k then candidate
     else if length k - length strategyName = 0 then Some st
     else if length k - length strategyName = 1 then getStrategy_loop strategyName (Some st) rest
     else getStrategy_loop strategyName candidate rest)"

definition getStrategy :: "name \<Rightarrow> strategy_choice \<Rightarrow> strategy option" where
  "getStrategy strategyName c =
    getStrategy_loop strategyName None (dropWhile (\<lambda>(k, _). k < strategyName) (sc_instances c))"

definition hasStrategy :: "name \<Rightarrow> bool \<Rightarrow> strategy_choice \<Rightarrow> bool" where
  "hasStrategy strategyName isExact c =
    (if isExact then map_of (sc_instances c) strategyName \<noteq> None
     else getStrategy strategyName c \<noteq> None)"

definition install :: "strategy \<Rightarrow> strategy_choice \<Rightarrow> strategy_choice \<times> bool" where
  "install strategy c =
    (if hasStrategy (st_name strategy) True c then (c, False)
     else (c\<lparr>sc_instances := map_assign (st_name strategy) strategy (sc_instances c)\<rparr>, True))"

section \<open>The effective strategy\<close>

definition hasStrategyChoiceEntry :: entry_selector where
  "hasStrategyChoiceEntry e = (e_strategyChoiceEntry e \<noteq> None)"

definition sce_getStrategy :: "strategy_choice_ref \<Rightarrow> strategy_choice \<Rightarrow> strategy option" where
  "sce_getStrategy x c = do { se \<leftarrow> sc_entries c x; sce_strategy se }"

definition findEffectiveStrategy ::
  "(component \<Rightarrow> byte list) \<Rightarrow> name \<Rightarrow> name_tree \<times> strategy_choice \<Rightarrow> strategy option" where
  "findEffectiveStrategy wire prfx s = do {
     nte \<leftarrow> nt_findLongestPrefixMatch wire prfx hasStrategyChoiceEntry (fst s);
     e \<leftarrow> nt_entries (fst s) nte;
     x \<leftarrow> e_strategyChoiceEntry e;
     sce_getStrategy x (snd s)
   }"

definition effective_nte :: "nt_ref \<Rightarrow> name_tree \<times> strategy_choice \<Rightarrow> strategy option" where
  "effective_nte r s = do {
     e \<leftarrow> nt_entries (fst s) r;
     (case e_strategyChoiceEntry e of
        Some x \<Rightarrow> sce_getStrategy x (snd s)
      | None \<Rightarrow> do {
          nte \<leftarrow> nt_lpm_entry hasStrategyChoiceEntry (fst s) (Some r);
          q \<leftarrow> nte;
          e \<leftarrow> nt_entries (fst s) q;
          x \<leftarrow> e_strategyChoiceEntry e;
          sce_getStrategy x (snd s)
        })
   }"

text \<open>For a PIT entry the name tree entry is obtained with \<^verbatim>\<open>get\<close>, which may insert one.\<close>

definition effective_pit :: "ndn_cxx \<Rightarrow> pit_entry \<Rightarrow> tables \<Rightarrow> (tables \<times> strategy) option" where
  "effective_pit cx pe tb = do {
     (t, nte) \<leftarrow> nt_get_pit cx pe (tb_nt tb);
     st \<leftarrow> effective_nte nte (t, tb_sc tb);
     Some (tb\<lparr>tb_nt := t\<rparr>, st)
   }"

definition effective_ms :: "measurements_entry \<Rightarrow> tables \<Rightarrow> strategy option" where
  "effective_ms me tb = do {
     nte \<leftarrow> me_nameTreeEntry me;
     effective_nte nte (tb_nt tb, tb_sc tb)
   }"

section \<open>Changing the strategy of a prefix\<close>

definition clear_pit_info :: "pit_entry \<Rightarrow> pit_entry" where
  "clear_pit_info pe = pe\<lparr>pe_retxInterval := None\<rparr>"

definition clear_ms_info :: "measurements_entry \<Rightarrow> measurements_entry" where
  "clear_ms_info me = me\<lparr>me_items := []\<rparr>"

definition clearStrategyInfo :: "nt_ref \<Rightarrow> tables \<Rightarrow> tables option" where
  "clearStrategyInfo nte tb = do {
     e \<leftarrow> nt_entries (tb_nt tb) nte;
     let tb = tb\<lparr>tb_pit := fold (\<lambda>x. pit_update x clear_pit_info) (e_pitEntries e) (tb_pit tb)\<rparr>;
     Some (case e_measurementsEntry e of
         None \<Rightarrow> tb
       | Some x \<Rightarrow> tb\<lparr>tb_ms := ms_update x clear_ms_info (tb_ms tb)\<rparr>)
   }"

fun clear_all :: "nt_ref list \<Rightarrow> tables \<Rightarrow> tables option" where
  "clear_all [] tb = Some tb"
| "clear_all (r # rs) tb = do { tb \<leftarrow> clearStrategyInfo r tb; clear_all rs tb }"

definition changed_subtree :: "nt_ref option \<Rightarrow> subtree_selector" where
  "changed_subtree rootNte r e =
    (if Some r = rootNte then (True, True)
     else if e_strategyChoiceEntry e \<noteq> None then (False, False)
     else (True, True))"

definition changeStrategy ::
  "(component \<Rightarrow> byte list) \<Rightarrow> strategy_choice_ref \<Rightarrow> strategy \<Rightarrow> strategy \<Rightarrow> tables \<Rightarrow> tables option" where
  "changeStrategy wire entry oldStrategy newStrategy tb =
    (if st_ptr oldStrategy = st_ptr newStrategy then Some tb
     else do {
       se \<leftarrow> sc_entries (tb_sc tb) entry;
       ntChanged \<leftarrow> partialEnumerate wire (sce_prefix se) (changed_subtree (sce_nameTreeEntry se)) (tb_nt tb);
       clear_all ntChanged tb
     })"

definition sc_insert ::
  "(component \<Rightarrow> byte list) \<Rightarrow> name \<Rightarrow> name \<Rightarrow> tables \<Rightarrow> (tables \<times> bool) option" where
  "sc_insert wire prfx strategyName tb =
    (case getStrategy strategyName (tb_sc tb) of
       None \<Rightarrow> Some (tb, False)
     | Some strategy \<Rightarrow> do {
         (t, nte) \<leftarrow> nt_lookup wire prfx (tb_nt tb);
         let tb = tb\<lparr>tb_nt := t\<rparr>;
         e \<leftarrow> nt_entries t nte;
         (case e_strategyChoiceEntry e of
            Some x \<Rightarrow> do {
              oldStrategy \<leftarrow> sce_getStrategy x (tb_sc tb);
              if st_name oldStrategy = st_name strategy then Some (tb, True)
              else do {
                tb \<leftarrow> changeStrategy wire x oldStrategy strategy tb;
                Some (tb\<lparr>tb_sc := sc_update x (\<lambda>se. se\<lparr>sce_strategy := Some strategy\<rparr>) (tb_sc tb)\<rparr>, True)
              }
            }
          | None \<Rightarrow> do {
              oldStrategy \<leftarrow> findEffectiveStrategy wire prfx (t, tb_sc tb);
              let c = tb_sc tb;
              let x = sc_next c;
              let c = c\<lparr>sc_entries := (sc_entries c)(x \<mapsto> newStrategyChoiceEntry prfx), sc_next := x + 1\<rparr>;
              (t, c) \<leftarrow> setStrategyChoiceEntry nte (Some x) (t, c);
              let tb = tb\<lparr>tb_nt := t, tb_sc := c\<lparr>sc_nItems := sc_nItems c + 1\<rparr>\<rparr>;
              tb \<leftarrow> changeStrategy wire x oldStrategy strategy tb;
              Some (tb\<lparr>tb_sc := sc_update x (\<lambda>se. se\<lparr>sce_strategy := Some strategy\<rparr>) (tb_sc tb)\<rparr>, True)
            })
       })"

definition sc_erase :: "(component \<Rightarrow> byte list) \<Rightarrow> name \<Rightarrow> tables \<Rightarrow> tables option" where
  "sc_erase wire prfx tb =
    (if prfx = [] then None
     else (case findExactMatch wire prfx (tb_nt tb) of
         None \<Rightarrow> Some tb
       | Some nte \<Rightarrow> do {
           e \<leftarrow> nt_entries (tb_nt tb) nte;
           (case e_strategyChoiceEntry e of
              None \<Rightarrow> Some tb
            | Some x \<Rightarrow> do {
                oldStrategy \<leftarrow> sce_getStrategy x (tb_sc tb);
                parentStrategy \<leftarrow> findEffectiveStrategy wire (butlast prfx) (tb_nt tb, tb_sc tb);
                tb \<leftarrow> changeStrategy wire x oldStrategy parentStrategy tb;
                (t, c) \<leftarrow> setStrategyChoiceEntry nte None (tb_nt tb, tb_sc tb);
                (t, _) \<leftarrow> eraseEntryIfEmpty nte t;
                Some (tb\<lparr>tb_nt := t, tb_sc := c\<lparr>sc_nItems := sc_nItems c - 1\<rparr>\<rparr>)
              })
         }))"

definition sc_get :: "(component \<Rightarrow> byte list) \<Rightarrow> name \<Rightarrow> tables \<Rightarrow> name option option" where
  "sc_get wire prfx tb =
    (case findExactMatch wire prfx (tb_nt tb) of
       None \<Rightarrow> Some None
     | Some nte \<Rightarrow> do {
         e \<leftarrow> nt_entries (tb_nt tb) nte;
         (case e_strategyChoiceEntry e of
            None \<Rightarrow> Some None
          | Some x \<Rightarrow> do { st \<leftarrow> sce_getStrategy x (tb_sc tb); Some (Some (st_name st)) })
       })"

definition setDefaultStrategy ::
  "(component \<Rightarrow> byte list) \<Rightarrow> strategy \<Rightarrow> name_tree \<times> strategy_choice \<Rightarrow> (name_tree \<times> strategy_choice) option" where
  "setDefaultStrategy wire strategy s = do {
     let c = fst (install strategy (snd s));
     (t, nte) \<leftarrow> nt_lookup wire [] (fst s);
     let x = sc_next c;
     let c = c\<lparr>sc_entries := (sc_entries c)(x \<mapsto> newStrategyChoiceEntry []), sc_next := x + 1\<rparr>;
     (t, c) \<leftarrow> setStrategyChoiceEntry nte (Some x) (t, c);
     let c = c\<lparr>sc_nItems := sc_nItems c + 1\<rparr>;
     Some (t, sc_update x (\<lambda>se. se\<lparr>sce_strategy := Some strategy\<rparr>) c)
   }"

definition StrategyChoice ::
  "(component \<Rightarrow> byte list) \<Rightarrow> name_tree \<Rightarrow> strategy \<Rightarrow> (name_tree \<times> strategy_choice) option" where
  "StrategyChoice wire t defaultStrategy =
    setDefaultStrategy wire defaultStrategy
      (t, \<lparr>sc_entries = (\<lambda>_. None), sc_next = 0, sc_nItems = 0, sc_instances = []\<rparr>)"

end
