(* ===== verification/Strategies.thy ===== *)
theory Strategies
  imports Strategy_Choice Content_Store
begin

text \<open>
  The forwarding strategies of \<^verbatim>\<open>src/daemon/fw\<close> and the actions of the forwarder they
  are built from.  A trigger works on one PIT entry: the context holds the entry, the packets sent
  so far and the counters of the outgoing packets, and an action of the strategy is an
  operation on the context.  What a trigger only reads is the environment: the time, the
  faces, and the next random nonce.  A failed assertion is \<^const>\<open>None\<close>.
\<close>

unbundle bit_operations_syntax

section \<open>Context\<close>

datatype fw_output = SentInterest face_ptr interest | SentData face_ptr data | SentNack face_ptr nack

record fw_env =
  en_cx :: ndn_cxx
  en_now :: time
  en_faces :: "face_ptr \<Rightarrow> face_info"
  en_faceTable :: "u64 \<Rightarrow> face_ptr option"
  en_random :: u32

record fw_ctx =
  fc_entry :: pit_entry
  fc_out :: "fw_output list"
  fc_nOutInterests :: u64
  fc_nOutNacks :: u64

definition fc_update :: "(pit_entry \<Rightarrow> pit_entry) \<Rightarrow> fw_ctx \<Rightarrow> fw_ctx" where
  "fc_update g c = c\<lparr>fc_entry := g (fc_entry c)\<rparr>"

section \<open>Algorithms on PIT entries (\<^verbatim>\<open>pit-algorithm.cpp\<close>)\<close>

definition LOCALHOST :: name where
  "LOCALHOST = [Generic [108, 111, 99, 97, 108, 104, 111, 115, 116]]"

definition LOCALHOP :: name where
  "LOCALHOP = [Generic [108, 111, 99, 97, 108, 104, 111, 112]]"

definition violatesScope :: "fw_env \<Rightarrow> pit_entry \<Rightarrow> face_ptr \<Rightarrow> bool" where
  "violatesScope env pitEntry outFace =
    (if f_scope (en_faces env outFace) = ScopeLocal then False
     else if prefix LOCALHOST (pe_name pitEntry) then True
     else if prefix LOCALHOP (pe_name pitEntry) then
       list_all (\<lambda>inRecord. f_scope (en_faces env (ir_face inRecord)) \<noteq> ScopeLocal) (pe_inRecords pitEntry)
     else False)"

definition canForwardToLegacy :: "fw_env \<Rightarrow> pit_entry \<Rightarrow> face_ptr \<Rightarrow> bool" where
  "canForwardToLegacy env pitEntry face =
    (let now = en_now env;
         hasUnexpiredOutRecord = list_ex (\<lambda>r. or_face r = face \<and> or_expiry r \<ge> now) (pe_outRecords pitEntry);
         hasUnexpiredOtherInRecord = list_ex (\<lambda>r. ir_face r \<noteq> face \<and> ir_expiry r \<ge> now) (pe_inRecords pitEntry)
     in if hasUnexpiredOutRecord then False
        else if \<not> hasUnexpiredOtherInRecord then False
        else \<not> violatesScope env pitEntry face)"

definition DUPLICATE_NONCE_NONE :: int where "DUPLICATE_NONCE_NONE = 0"
definition DUPLICATE_NONCE_IN_SAME :: int where "DUPLICATE_NONCE_IN_SAME = 1"
definition DUPLICATE_NONCE_IN_OTHER :: int where "DUPLICATE_NONCE_IN_OTHER = 2"
definition DUPLICATE_NONCE_OUT_SAME :: int where "DUPLICATE_NONCE_OUT_SAME = 4"
definition DUPLICATE_NONCE_OUT_OTHER :: int where "DUPLICATE_NONCE_OUT_OTHER = 8"

definition findDuplicateNonce :: "pit_entry \<Rightarrow> u32 \<Rightarrow> face_ptr \<Rightarrow> int" where
  "findDuplicateNonce pitEntry nonce face =
    (let dnw = DUPLICATE_NONCE_NONE;
         dnw = fold (\<lambda>r dnw. if ir_lastNonce r = nonce then
                 (if ir_face r = face then dnw OR DUPLICATE_NONCE_IN_SAME else dnw OR DUPLICATE_NONCE_IN_OTHER)
                 else dnw) (pe_inRecords pitEntry) dnw
     in fold (\<lambda>r dnw. if or_lastNonce r = nonce then
           (if or_face r = face then dnw OR DUPLICATE_NONCE_OUT_SAME else dnw OR DUPLICATE_NONCE_OUT_OTHER)
           else dnw) (pe_outRecords pitEntry) dnw)"

definition hasPendingOutRecords :: "fw_env \<Rightarrow> pit_entry \<Rightarrow> bool" where
  "hasPendingOutRecords env pitEntry = list_ex (\<lambda>r. or_expiry r \<ge> en_now env) (pe_outRecords pitEntry)"

section \<open>Timers of a PIT entry\<close>

definition setUnsatisfyTimer :: "pit_entry \<Rightarrow> pit_entry option" where
  "setUnsatisfyTimer pe =
    map_option (\<lambda>lastExpiring. pe\<lparr>pe_unsatisfyTimer := Some (ir_expiry lastExpiring)\<rparr>)
      (max_element (\<lambda>a b. ir_expiry a < ir_expiry b) (pe_inRecords pe))"

definition setStragglerTimer :: "time \<Rightarrow> bool \<Rightarrow> int \<Rightarrow> pit_entry \<Rightarrow> pit_entry" where
  "setStragglerTimer now isSatisfied dataFreshnessPeriod pe =
    pe\<lparr>pe_stragglerTimer := Some (now + milliseconds 2000, isSatisfied, dataFreshnessPeriod)\<rparr>"

definition cancelUnsatisfyAndStragglerTimer :: "pit_entry \<Rightarrow> pit_entry" where
  "cancelUnsatisfyAndStragglerTimer pe = pe\<lparr>pe_unsatisfyTimer := None, pe_stragglerTimer := None\<rparr>"

section \<open>Actions\<close>

definition compare_pickInterest :: "face_ptr \<Rightarrow> in_record \<Rightarrow> in_record \<Rightarrow> bool" where
  "compare_pickInterest outFace a b =
    (let isOutFaceA = (ir_face a = outFace); isOutFaceB = (ir_face b = outFace)
     in if \<not> isOutFaceA \<and> isOutFaceB then False
        else if isOutFaceA \<and> \<not> isOutFaceB then True
        else ir_lastRenewed a > ir_lastRenewed b)"

definition onOutgoingInterest :: "fw_env \<Rightarrow> face_ptr \<Rightarrow> bool \<Rightarrow> fw_ctx \<Rightarrow> fw_ctx option" where
  "onOutgoingInterest env outFace wantNewNonce c =
    (if f_id (en_faces env outFace) = INVALID_FACEID then Some c
     else if violatesScope env (fc_entry c) outFace then Some c
     else do {
       pickedInRecord \<leftarrow> max_element (compare_pickInterest outFace) (pe_inRecords (fc_entry c));
       interest \<leftarrow> ir_interest pickedInRecord;
       let interest = (if wantNewNonce then interest\<lparr>i_nonce := en_random env\<rparr> else interest);
       Some (c\<lparr>fc_entry := insertOrUpdateOutRecord (en_cx env) (en_now env) outFace interest (fc_entry c),
               fc_out := fc_out c @ [SentInterest outFace interest],
               fc_nOutInterests := fc_nOutInterests c + 1\<rparr>)
     })"

text \<open>The default freshness period of \<^verbatim>\<open>setStragglerTimer\<close> is \<open>-1\<close>, that of no period.\<close>

definition onInterestReject :: "fw_env \<Rightarrow> fw_ctx \<Rightarrow> fw_ctx" where
  "onInterestReject env c =
    (if hasPendingOutRecords env (fc_entry c) then c
     else fc_update (\<lambda>pe. setStragglerTimer (en_now env) False (-1) (cancelUnsatisfyAndStragglerTimer pe)) c)"

definition onOutgoingNack :: "fw_env \<Rightarrow> face_ptr \<Rightarrow> nack_reason \<Rightarrow> fw_ctx \<Rightarrow> fw_ctx option" where
  "onOutgoingNack env outFace reason c =
    (if f_id (en_faces env outFace) = INVALID_FACEID then Some c
     else (case getInRecord outFace (fc_entry c) of
         None \<Rightarrow> Some c
       | Some inRecord \<Rightarrow>
           if f_linkType (en_faces env outFace) = MultiAccess then Some c
           else do {
             interest \<leftarrow> ir_interest inRecord;
             Some (c\<lparr>fc_entry := deleteInRecord outFace (fc_entry c),
                     fc_out := fc_out c @ [SentNack outFace \<lparr>n_interest = interest, n_reason = reason\<rparr>],
                     fc_nOutNacks := fc_nOutNacks c + 1\<rparr>)
           }))"

fun send_each :: "('a \<Rightarrow> fw_ctx \<Rightarrow> fw_ctx option) \<Rightarrow> 'a list \<Rightarrow> fw_ctx \<Rightarrow> fw_ctx option" where
  "send_each f [] c = Some c"
| "send_each f (x # xs) c = do { c \<leftarrow> f x c; send_each f xs c }"

text \<open>\<^verbatim>\<open>sendNacks\<close>; the order of an \<^verbatim>\<open>unordered_set\<close> is not specified, here it is that of
  the in-records.\<close>

definition sendNacks :: "fw_env \<Rightarrow> nack_reason \<Rightarrow> face_ptr list \<Rightarrow> fw_ctx \<Rightarrow> fw_ctx option" where
  "sendNacks env reason exceptFaces c =
    (let downstreams = remdups (map ir_face (pe_inRecords (fc_entry c)));
         downstreams = filter (\<lambda>face. face \<notin> set exceptFaces) downstreams
     in send_each (\<lambda>downstream. onOutgoingNack env downstream reason) downstreams c)"

section \<open>Retransmission suppression\<close>

datatype retx_result = RetxNew | RetxForward | RetxSuppress

definition getLastOutgoing :: "pit_entry \<Rightarrow> time option" where
  "getLastOutgoing pe =
    map_option or_lastRenewed (max_element (\<lambda>a b. or_lastRenewed a < or_lastRenewed b) (pe_outRecords pe))"

text \<open>Intervals are multiples of a microsecond below \<open>2 ^ 24\<close> of them and the multiplier is an
  integer, so that the product in \<^verbatim>\<open>float\<close> is exact.\<close>

record retx_exponential =
  rx_initialInterval :: time
  rx_multiplier :: int
  rx_maxInterval :: time

definition RetxSuppressionExponential :: "time \<Rightarrow> int \<Rightarrow> time \<Rightarrow> retx_exponential option" where
  "RetxSuppressionExponential initialInterval multiplier maxInterval =
    (if initialInterval > 0 \<and> multiplier \<ge> 1 \<and> maxInterval \<ge> initialInterval
     then Some \<lparr>rx_initialInterval = initialInterval, rx_multiplier = multiplier, rx_maxInterval = maxInterval\<rparr>
     else None)"

definition decide_exponential :: "retx_exponential \<Rightarrow> fw_env \<Rightarrow> pit_entry \<Rightarrow> (retx_result \<times> pit_entry) option" where
  "decide_exponential rx env pe =
    (if \<not> hasPendingOutRecords env pe then Some (RetxNew, pe)
     else do {
       lastOutgoing \<leftarrow> getLastOutgoing pe;
       let sinceLastOutgoing = en_now env - lastOutgoing;
       let suppressionInterval = (case pe_retxInterval pe of None \<Rightarrow> rx_initialInterval rx | Some i \<Rightarrow> i);
       let pe = pe\<lparr>pe_retxInterval := Some suppressionInterval\<rparr>;
       if sinceLastOutgoing < suppressionInterval then Some (RetxSuppress, pe)
       else Some (RetxForward,
         pe\<lparr>pe_retxInterval := Some (min (rx_maxInterval rx) (suppressionInterval * rx_multiplier rx))\<rparr>)
     })"

definition decide_fixed :: "time \<Rightarrow> fw_env \<Rightarrow> pit_entry \<Rightarrow> (retx_result \<times> pit_entry) option" where
  "decide_fixed minRetxInterval env pe =
    (if \<not> hasPendingOutRecords env pe then Some (RetxNew, pe)
     else do {
       lastOutgoing \<leftarrow> getLastOutgoing pe;
       Some (if en_now env - lastOutgoing < minRetxInterval then RetxSuppress else RetxForward, pe)
     })"

section \<open>Best route (version 4)\<close>

definition br2_retxSuppression :: retx_exponential where
  "br2_retxSuppression = \<lparr>rx_initialInterval = milliseconds 10, rx_multiplier = 2, rx_maxInterval = milliseconds 250\<rparr>"

definition predicate_NextHop_eligible :: "fw_env \<Rightarrow> pit_entry \<Rightarrow> next_hop \<Rightarrow> u64 \<Rightarrow> bool \<Rightarrow> time \<Rightarrow> bool" where
  "predicate_NextHop_eligible env pe nexthop currentDownstream wantUnused now =
    (let upstream = nh_face nexthop
     in if f_id (en_faces env upstream) = currentDownstream then False
        else if violatesScope env pe upstream then False
        else if wantUnused \<and> (case getOutRecord upstream pe of None \<Rightarrow> False | Some outRecord \<Rightarrow> or_expiry outRecord > now)
        then False
        else True)"

fun earliest_loop :: "fw_env \<Rightarrow> pit_entry \<Rightarrow> u64 \<Rightarrow> next_hop option \<Rightarrow> time \<Rightarrow> next_hop list \<Rightarrow> next_hop option option" where
  "earliest_loop env pe currentDownstream found earliestRenewed [] = Some found"
| "earliest_loop env pe currentDownstream found earliestRenewed (it # rest) =
    (if \<not> predicate_NextHop_eligible env pe it currentDownstream False TimePoint_min
     then earliest_loop env pe currentDownstream found earliestRenewed rest
     else (case getOutRecord (nh_face it) pe of
         None \<Rightarrow> None
       | Some outRecord \<Rightarrow>
           if or_lastRenewed outRecord < earliestRenewed
           then earliest_loop env pe currentDownstream (Some it) (or_lastRenewed outRecord) rest
           else earliest_loop env pe currentDownstream found earliestRenewed rest))"

definition findEligibleNextHopWithEarliestOutRecord ::
  "fw_env \<Rightarrow> pit_entry \<Rightarrow> next_hop list \<Rightarrow> u64 \<Rightarrow> next_hop option option" where
  "findEligibleNextHopWithEarliestOutRecord env pe nexthops currentDownstream =
    earliest_loop env pe currentDownstream None TimePoint_max nexthops"

definition br2_afterReceiveInterest ::
  "fw_env \<Rightarrow> face_ptr \<Rightarrow> interest \<Rightarrow> fib_entry \<Rightarrow> fw_ctx \<Rightarrow> fw_ctx option" where
  "br2_afterReceiveInterest env inFace interest fibEntry c = do {
     let nexthops = fe_nextHops fibEntry;
     let inFaceId = f_id (en_faces env inFace);
     (suppression, pe) \<leftarrow> decide_exponential br2_retxSuppression env (fc_entry c);
     let c = c\<lparr>fc_entry := pe\<rparr>;
     (case suppression of
        RetxNew \<Rightarrow>
          (case List.find (\<lambda>nh. predicate_NextHop_eligible env pe nh inFaceId False TimePoint_min) nexthops of
             None \<Rightarrow> do { c \<leftarrow> onOutgoingNack env inFace NoRoute c; Some (onInterestReject env c) }
           | Some it \<Rightarrow> onOutgoingInterest env (nh_face it) False c)
      | RetxSuppress \<Rightarrow> Some c
      | RetxForward \<Rightarrow>
          (case List.find (\<lambda>nh. predicate_NextHop_eligible env pe nh inFaceId True (en_now env)) nexthops of
             Some it \<Rightarrow> onOutgoingInterest env (nh_face it) False c
           | None \<Rightarrow> do {
               it \<leftarrow> findEligibleNextHopWithEarliestOutRecord env pe nexthops inFaceId;
               (case it of None \<Rightarrow> Some c | Some it \<Rightarrow> onOutgoingInterest env (nh_face it) False c)
             }))
   }"

fun nack_code :: "nack_reason \<Rightarrow> int" where
  "nack_code NackNone = 0"
| "nack_code Congestion = 50"
| "nack_code Duplicate = 100"
| "nack_code NoRoute = 150"

definition compareLessSevere :: "nack_reason \<Rightarrow> nack_reason \<Rightarrow> nack_reason" where
  "compareLessSevere x y =
    (if x = NackNone then y else if y = NackNone then x
     else if nack_code y < nack_code x then y else x)"

definition nack_scan :: "out_record \<Rightarrow> nat \<times> face_ptr option \<times> nack_reason \<Rightarrow> nat \<times> face_ptr option \<times> nack_reason" where
  "nack_scan outR acc =
    (case acc of (nOutRecordsNotNacked, lastFaceNotNacked, leastSevereReason) \<Rightarrow>
      (case or_incomingNack outR of
         None \<Rightarrow> (nOutRecordsNotNacked + 1, Some (or_face outR), leastSevereReason)
       | Some reason \<Rightarrow> (nOutRecordsNotNacked, lastFaceNotNacked, compareLessSevere leastSevereReason reason)))"

definition br2_afterReceiveNack ::
  "fw_env \<Rightarrow> face_ptr \<Rightarrow> nack \<Rightarrow> fib_entry \<Rightarrow> fw_ctx \<Rightarrow> fw_ctx option" where
  "br2_afterReceiveNack env inFace nack fibEntry c =
    (case fold nack_scan (pe_outRecords (fc_entry c)) (0, None, NackNone) of
       (nOutRecordsNotNacked, lastFaceNotNacked, leastSevereReason) \<Rightarrow>
         (if nOutRecordsNotNacked = 1 then
            (case lastFaceNotNacked of
               None \<Rightarrow> None
             | Some face \<Rightarrow>
                 if getInRecord face (fc_entry c) \<noteq> None then onOutgoingNack env face leastSevereReason c
                 else Some c)
          else if nOutRecordsNotNacked > 0 then Some c
          else sendNacks env leastSevereReason [] c))"

section \<open>The other strategies\<close>

definition br_afterReceiveInterest ::
  "fw_env \<Rightarrow> face_ptr \<Rightarrow> interest \<Rightarrow> fib_entry \<Rightarrow> fw_ctx \<Rightarrow> fw_ctx option" where
  "br_afterReceiveInterest env inFace interest fibEntry c =
    (if hasPendingOutRecords env (fc_entry c) then Some c
     else (case List.find (\<lambda>nexthop. canForwardToLegacy env (fc_entry c) (nh_face nexthop)) (fe_nextHops fibEntry) of
         None \<Rightarrow> Some (onInterestReject env c)
       | Some it \<Rightarrow> onOutgoingInterest env (nh_face it) False c))"

definition multicast_afterReceiveInterest ::
  "fw_env \<Rightarrow> face_ptr \<Rightarrow> interest \<Rightarrow> fib_entry \<Rightarrow> fw_ctx \<Rightarrow> fw_ctx option" where
  "multicast_afterReceiveInterest env inFace interest fibEntry c = do {
     c \<leftarrow> send_each (\<lambda>it c. if canForwardToLegacy env (fc_entry c) (nh_face it)
              then onOutgoingInterest env (nh_face it) False c else Some c) (fe_nextHops fibEntry) c;
     Some (if \<not> hasPendingOutRecords env (fc_entry c) then onInterestReject env c else c)
   }"

definition client_control_afterReceiveInterest ::
  "fw_env \<Rightarrow> face_ptr \<Rightarrow> interest \<Rightarrow> fib_entry \<Rightarrow> fw_ctx \<Rightarrow> fw_ctx option" where
  "client_control_afterReceiveInterest env inFace interest fibEntry c =
    (case i_nextHopFaceId interest of
       None \<Rightarrow> br_afterReceiveInterest env inFace interest fibEntry c
     | Some outFaceId \<Rightarrow>
         (case en_faceTable env outFaceId of
            None \<Rightarrow> Some (onInterestReject env c)
          | Some outFace \<Rightarrow> onOutgoingInterest env outFace False c))"

section \<open>Dispatch\<close>

text \<open>The virtual functions of \<^verbatim>\<open>Strategy\<close>, with the defaults that do nothing.\<close>

record strategy_impl =
  s_afterReceiveInterest :: "fw_env \<Rightarrow> face_ptr \<Rightarrow> interest \<Rightarrow> fib_entry \<Rightarrow> fw_ctx \<Rightarrow> fw_ctx option"
  s_afterReceiveNack :: "fw_env \<Rightarrow> face_ptr \<Rightarrow> nack \<Rightarrow> fib_entry \<Rightarrow> fw_ctx \<Rightarrow> fw_ctx option"
  s_beforeSatisfyInterest :: "fw_env \<Rightarrow> face_ptr \<Rightarrow> data \<Rightarrow> fw_ctx \<Rightarrow> fw_ctx option"
  s_beforeExpirePendingInterest :: "fw_env \<Rightarrow> fw_ctx \<Rightarrow> fw_ctx option"

definition default_impl ::
  "(fw_env \<Rightarrow> face_ptr \<Rightarrow> interest \<Rightarrow> fib_entry \<Rightarrow> fw_ctx \<Rightarrow> fw_ctx option) \<Rightarrow> strategy_impl" where
  "default_impl f = \<lparr>s_afterReceiveInterest = f, s_afterReceiveNack = (\<lambda>_ _ _ _ c. Some c),
     s_beforeSatisfyInterest = (\<lambda>_ _ _ c. Some c), s_beforeExpirePendingInterest = (\<lambda>_ c. Some c)\<rparr>"

definition br2_impl :: strategy_impl where
  "br2_impl = (default_impl br2_afterReceiveInterest)\<lparr>s_afterReceiveNack := br2_afterReceiveNack\<rparr>"

text \<open>The strategies by kind; \<open>other\<close> are those not modelled here.\<close>

fun impl_of :: "(strategy_kind \<Rightarrow> strategy_impl) \<Rightarrow> strategy_kind \<Rightarrow> strategy_impl" where
  "impl_of other BestRouteStrategy2 = br2_impl"
| "impl_of other BestRouteStrategy = default_impl br_afterReceiveInterest"
| "impl_of other MulticastStrategy = default_impl multicast_afterReceiveInterest"
| "impl_of other BroadcastStrategy = default_impl multicast_afterReceiveInterest"
| "impl_of other ClientControlStrategy = default_impl client_control_afterReceiveInterest"
| "impl_of other k = other k"

end
