(* ===== verification/Dead_Nonce_List.thy ===== *)
theory Dead_Nonce_List
  imports City_Hash "HOL-Library.Multiset"
begin

text \<open>
  The dead nonce list of \<^verbatim>\<open>src/daemon/table/dead-nonce-list.cpp\<close>: a FIFO of hashes of
  (name, nonce) pairs whose capacity is steered by marks inserted at a fixed interval.  The
  multi-index container (a queue with a hash index on the same elements) is the list of its
  elements in queue order.  The encoding of a name comes from ndn-cxx and is the parameter
  \<open>wireEncode\<close>.  The two timers are the operations \<^verbatim>\<open>mark\<close> and \<^verbatim>\<open>adjustCapacity\<close>,
  which may fire in any order between additions.
\<close>

type_synonym dnl_entry = u64

definition MIN_LIFETIME :: time where "MIN_LIFETIME = milliseconds 1"
definition INITIAL_CAPACITY :: nat where "INITIAL_CAPACITY = 2 ^ 7"
definition MIN_CAPACITY :: nat where "MIN_CAPACITY = 2 ^ 3"
definition MAX_CAPACITY :: nat where "MAX_CAPACITY = 2 ^ 24"
definition MARK :: dnl_entry where "MARK = 0"
definition EXPECTED_MARK_COUNT :: nat where "EXPECTED_MARK_COUNT = 5"
definition EVICT_LIMIT :: nat where "EVICT_LIMIT = 2 ^ 6"

text \<open>\<^verbatim>\<open>static_cast<size_t>(m_capacity * CAPACITY_UP)\<close> with \<^verbatim>\<open>CAPACITY_UP = 1.2\<close> and
  \<^verbatim>\<open>CAPACITY_DOWN = 0.9\<close>.  The capacity is at most \<open>2 ^ 24\<close>, so the double product is
  within a relative error of \<open>2 ^ (-52)\<close> of the exact one and is exact where that is an
  integer: truncation gives the integer quotient.\<close>

definition capacity_up :: "nat \<Rightarrow> nat" where "capacity_up c = 12 * c div 10"
definition capacity_down :: "nat \<Rightarrow> nat" where "capacity_down c = 9 * c div 10"

record dead_nonce_list =
  dnl_lifetime :: time
  dnl_queue :: "dnl_entry list"
  dnl_capacity :: nat
  dnl_markInterval :: time
  dnl_actualMarkCounts :: "nat multiset"

datatype dnl_error = LifetimeTooSmall

definition DeadNonceList :: "time \<Rightarrow> dnl_error + dead_nonce_list" where
  "DeadNonceList lifetime =
    (if lifetime < MIN_LIFETIME then Inl LifetimeTooSmall
     else Inr \<lparr>dnl_lifetime = lifetime, dnl_queue = replicate EXPECTED_MARK_COUNT MARK,
               dnl_capacity = INITIAL_CAPACITY,
               dnl_markInterval = lifetime div int EXPECTED_MARK_COUNT,
               dnl_actualMarkCounts = {#}\<rparr>)"

text \<open>The hash of a buffer from its first byte is always defined
  (\<open>defined_CityHash64WithSeed\<close> below), so the last branch is never taken.\<close>

definition makeEntry :: "(name \<Rightarrow> byte list) \<Rightarrow> name \<Rightarrow> u32 \<Rightarrow> dnl_entry" where
  "makeEntry wireEncode n nonce =
    (let nameWire = wireEncode n
     in case CityHash64WithSeed nameWire 0 (length nameWire) (ucast nonce) of
          Some h \<Rightarrow> h | None \<Rightarrow> MARK)"

definition countMarks :: "dead_nonce_list \<Rightarrow> nat" where
  "countMarks d = count_list (dnl_queue d) MARK"

definition dnl_size :: "dead_nonce_list \<Rightarrow> nat" where
  "dnl_size d = length (dnl_queue d) - countMarks d"

definition dnl_has :: "(name \<Rightarrow> byte list) \<Rightarrow> dead_nonce_list \<Rightarrow> name \<Rightarrow> u32 \<Rightarrow> bool" where
  "dnl_has wireEncode d n nonce = (makeEntry wireEncode n nonce \<in> set (dnl_queue d))"

definition evictEntries :: "dead_nonce_list \<Rightarrow> dead_nonce_list" where
  "evictEntries d =
    (let nOverCapacity = int (length (dnl_queue d)) - int (dnl_capacity d)
     in if nOverCapacity \<le> 0 then d
        else d\<lparr>dnl_queue := drop (nat (min nOverCapacity (int EVICT_LIMIT))) (dnl_queue d)\<rparr>)"

definition dnl_add :: "(name \<Rightarrow> byte list) \<Rightarrow> name \<Rightarrow> u32 \<Rightarrow> dead_nonce_list \<Rightarrow> dead_nonce_list" where
  "dnl_add wireEncode n nonce d =
    evictEntries (d\<lparr>dnl_queue := dnl_queue d @ [makeEntry wireEncode n nonce]\<rparr>)"

definition dnl_mark :: "dead_nonce_list \<Rightarrow> dead_nonce_list" where
  "dnl_mark d =
    (let d = d\<lparr>dnl_queue := dnl_queue d @ [MARK]\<rparr>
     in d\<lparr>dnl_actualMarkCounts := add_mset (countMarks d) (dnl_actualMarkCounts d)\<rparr>)"

text \<open>\<^verbatim>\<open>equal_range(5).second == begin()\<close> says that every recorded count is above the
  expected one, \<^verbatim>\<open>equal_range(5).first == end()\<close> that every one is below.\<close>

definition adjustCapacity :: "dead_nonce_list \<Rightarrow> dead_nonce_list" where
  "adjustCapacity d =
    (let d =
       (if \<forall>c \<in># dnl_actualMarkCounts d. EXPECTED_MARK_COUNT < c then
          d\<lparr>dnl_capacity := max MIN_CAPACITY (capacity_down (dnl_capacity d))\<rparr>
        else if \<forall>c \<in># dnl_actualMarkCounts d. c < EXPECTED_MARK_COUNT then
          d\<lparr>dnl_capacity := min MAX_CAPACITY (capacity_up (dnl_capacity d))\<rparr>
        else d)
     in evictEntries (d\<lparr>dnl_actualMarkCounts := {#}\<rparr>))"

text \<open>Everything that can happen to the list after its construction.\<close>

datatype dnl_op = Add name u32 | Mark | AdjustCapacity

fun dnl_exec :: "(name \<Rightarrow> byte list) \<Rightarrow> dnl_op \<Rightarrow> dead_nonce_list \<Rightarrow> dead_nonce_list" where
  "dnl_exec wireEncode (Add n nonce) d = dnl_add wireEncode n nonce d"
| "dnl_exec wireEncode Mark d = dnl_mark d"
| "dnl_exec wireEncode AdjustCapacity d = adjustCapacity d"

inductive dnl_reachable :: "(name \<Rightarrow> byte list) \<Rightarrow> dead_nonce_list \<Rightarrow> bool"
  for wireEncode where
  init: "DeadNonceList lifetime = Inr d \<Longrightarrow> dnl_reachable wireEncode d"
| step: "dnl_reachable wireEncode d \<Longrightarrow> dnl_reachable wireEncode (dnl_exec wireEncode op d)"

definition dnl_inv :: "dead_nonce_list \<Rightarrow> bool" where
  "dnl_inv d \<longleftrightarrow> MIN_CAPACITY \<le> dnl_capacity d \<and> dnl_capacity d \<le> MAX_CAPACITY"

text \<open>Number of elements an operation sequence pushes.\<close>

fun pushes :: "dnl_op list \<Rightarrow> nat" where
  "pushes [] = 0"
| "pushes (AdjustCapacity # ops) = pushes ops"
| "pushes (op # ops) = Suc (pushes ops)"

section \<open>Lemmas\<close>

lemmas dnl_consts = MIN_CAPACITY_def MAX_CAPACITY_def INITIAL_CAPACITY_def
  EXPECTED_MARK_COUNT_def EVICT_LIMIT_def

lemma defined_CityHash64WithSeed:
  "s + len \<le> length buf \<Longrightarrow> CityHash64WithSeed buf s len seed \<noteq> None"
  unfolding CityHash64WithSeed_def CityHash64WithSeeds_def
  by (intro defined_intros defined_CityHash64)

lemma evictEntries_capacity [simp]: "dnl_capacity (evictEntries d) = dnl_capacity d"
  by (simp add: evictEntries_def Let_def)

lemma dnl_inv_init: "DeadNonceList lifetime = Inr d \<Longrightarrow> dnl_inv d"
  by (auto simp: DeadNonceList_def dnl_inv_def dnl_consts split: if_splits)

lemma dnl_inv_exec: "dnl_inv d \<Longrightarrow> dnl_inv (dnl_exec wireEncode op d)"
proof (cases op)
  case AdjustCapacity
  assume "dnl_inv d"
  then show ?thesis
    by (auto simp: AdjustCapacity adjustCapacity_def dnl_inv_def Let_def capacity_up_def
        capacity_down_def dnl_consts)
qed (auto simp: dnl_add_def dnl_mark_def dnl_inv_def Let_def)

lemma dnl_reachable_inv: "dnl_reachable wireEncode d \<Longrightarrow> dnl_inv d"
  by (induction rule: dnl_reachable.induct) (auto intro: dnl_inv_init dnl_inv_exec)

text \<open>Eviction removes from the front and never goes below the capacity, so the most
  recent \<^const>\<open>MIN_CAPACITY\<close> elements survive every operation.\<close>

definition recent :: "nat \<Rightarrow> 'a list \<Rightarrow> 'a list" where
  "recent n xs = drop (length xs - n) xs"

lemma recent_drop: "n + k \<le> length xs \<Longrightarrow> recent n (drop k xs) = recent n xs"
  by (simp add: recent_def)

lemma recent_subset: "set (recent n xs) \<subseteq> set xs"
  by (simp add: recent_def set_drop_subset)

lemma recent_snoc: "x \<in> set (recent n xs) \<Longrightarrow> x \<in> set (recent (Suc n) (xs @ [y]))"
  by (auto simp: recent_def Suc_diff_le not_le)

lemma recent_mono: "m \<le> n \<Longrightarrow> x \<in> set (recent m xs) \<Longrightarrow> x \<in> set (recent n xs)"
  by (metis recent_def diff_le_mono2 set_drop_subset_set_drop subsetD)

lemma recent_evict:
  assumes "n \<le> dnl_capacity d"
  shows "recent n (dnl_queue (evictEntries d)) = recent n (dnl_queue d)"
  using assms by (auto simp: evictEntries_def Let_def intro!: recent_drop)

lemma recent_exec:
  assumes inv: "dnl_inv d" and e: "e \<in> set (recent k (dnl_queue d))"
    and k: "k + pushes [op] \<le> MIN_CAPACITY"
  shows "e \<in> set (recent (k + pushes [op]) (dnl_queue (dnl_exec wireEncode op d)))"
proof (cases op)
  case (Add n nonce)
  let ?d = "d\<lparr>dnl_queue := dnl_queue d @ [makeEntry wireEncode n nonce]\<rparr>"
  have "recent (Suc k) (dnl_queue (evictEntries ?d)) = recent (Suc k) (dnl_queue ?d)"
    by (rule recent_evict) (use inv k Add in \<open>simp add: dnl_inv_def\<close>)
  with e Add show ?thesis
    by (simp add: dnl_add_def recent_snoc)
next
  case Mark
  with e show ?thesis
    by (simp add: dnl_mark_def Let_def recent_snoc)
next
  case AdjustCapacity
  let ?c = "dnl_capacity (adjustCapacity d)"
  have "MIN_CAPACITY \<le> ?c"
    using dnl_inv_exec[OF inv, of wireEncode AdjustCapacity] by (simp add: dnl_inv_def)
  moreover obtain d' where d': "adjustCapacity d = evictEntries d'" "dnl_queue d' = dnl_queue d"
    by (auto simp: adjustCapacity_def Let_def)
  ultimately have "recent k (dnl_queue (adjustCapacity d)) = recent k (dnl_queue d)"
    using k by (simp add: AdjustCapacity recent_evict)
  with e AdjustCapacity show ?thesis
    by simp
qed

lemma pushes_Cons: "pushes (op # ops) = pushes [op] + pushes ops"
  by (cases op) auto

lemma recent_exec_seq:
  "dnl_inv d \<Longrightarrow> e \<in> set (recent k (dnl_queue d)) \<Longrightarrow> k + pushes ops \<le> MIN_CAPACITY \<Longrightarrow>
   e \<in> set (recent (k + pushes ops) (dnl_queue (fold (dnl_exec wireEncode) ops d)))"
proof (induction ops arbitrary: d k)
  case (Cons op ops)
  have "e \<in> set (recent (k + pushes [op]) (dnl_queue (dnl_exec wireEncode op d)))"
    using Cons.prems pushes_Cons[of op ops] by (intro recent_exec) auto
  with Cons.prems have "e \<in> set (recent (k + pushes [op] + pushes ops)
      (dnl_queue (fold (dnl_exec wireEncode) ops (dnl_exec wireEncode op d))))"
    using pushes_Cons[of op ops] by (intro Cons.IH dnl_inv_exec) auto
  then show ?case
    using pushes_Cons[of op ops] by (simp add: add.assoc)
qed simp

section \<open>Properties\<close>

text \<open>C14. The capacity of the list stays between \<open>2 ^ 3\<close> and \<open>2 ^ 24\<close> whatever
  additions, marks and capacity adjustments follow the construction.\<close>

theorem dnl_capacity_bounds:
  assumes "dnl_reachable wireEncode d"
  shows "8 \<le> dnl_capacity d \<and> dnl_capacity d \<le> 16777216"
  using dnl_reachable_inv[OF assms] by (simp add: dnl_inv_def dnl_consts)

theorem dnl_capacity_bounds_witness:
  "\<exists>d. DeadNonceList (milliseconds 6000) = Inr d \<and>
     8 \<le> dnl_capacity (dnl_exec (\<lambda>_. []) AdjustCapacity d) \<and>
     dnl_capacity (dnl_exec (\<lambda>_. []) AdjustCapacity d) \<le> 16777216"
proof -
  obtain d where d: "DeadNonceList (milliseconds 6000) = Inr d"
    by (simp add: DeadNonceList_def MIN_LIFETIME_def)
  then show ?thesis
    using dnl_capacity_bounds[OF dnl_reachable.step[OF dnl_reachable.init[OF d]],
        of "\<lambda>_. []" AdjustCapacity]
    by blast
qed

lemma dnl_remembers_ok:
  assumes "dnl_inv d" and "pushes ops < MIN_CAPACITY"
  shows "dnl_has wireEncode (fold (dnl_exec wireEncode) ops (dnl_add wireEncode n nonce d)) n nonce"
proof -
  let ?d = "d\<lparr>dnl_queue := dnl_queue d @ [makeEntry wireEncode n nonce]\<rparr>"
  have "recent 1 (dnl_queue (evictEntries ?d)) = recent 1 (dnl_queue ?d)"
    by (rule recent_evict) (use assms in \<open>simp add: dnl_inv_def dnl_consts\<close>)
  then have "makeEntry wireEncode n nonce \<in> set (recent 1 (dnl_queue (dnl_add wireEncode n nonce d)))"
    by (simp add: dnl_add_def recent_def)
  moreover have "dnl_inv (dnl_add wireEncode n nonce d)"
    using dnl_inv_exec[OF assms(1), of wireEncode "Add n nonce"] by simp
  ultimately show ?thesis
    using recent_exec_seq[of _ _ 1 ops] assms(2) recent_subset
    by (fastforce simp: dnl_has_def)
qed

text \<open>C15. A dead nonce is remembered: after it is added, it is found again as long as
  fewer than \<^const>\<open>MIN_CAPACITY\<close> further elements (nonces or marks) are pushed, whatever
  capacity adjustments happen in between.\<close>

theorem dnl_remembers:
  assumes "dnl_inv d" and "pushes ops < MIN_CAPACITY"
  shows "dnl_has wireEncode (fold (dnl_exec wireEncode) ops (dnl_add wireEncode n nonce d)) n nonce"
  by (rule dnl_remembers_ok[OF assms])

theorem dnl_remembers_witness:
  "\<exists>d. DeadNonceList (milliseconds 1) = Inr d \<and>
     dnl_has (\<lambda>_. [1]) (fold (dnl_exec (\<lambda>_. [1])) [Mark, AdjustCapacity, Add [] 3]
        (dnl_add (\<lambda>_. [1]) [Generic [2]] 7 d)) [Generic [2]] 7"
proof -
  obtain d where d: "DeadNonceList (milliseconds 1) = Inr d"
    by (simp add: DeadNonceList_def MIN_LIFETIME_def)
  show ?thesis
    using d dnl_remembers[OF dnl_inv_init[OF d], of "[Mark, AdjustCapacity, Add [] 3]"]
    by (simp add: dnl_consts)
qed

text \<open>Eviction removes at most \<^const>\<open>EVICT_LIMIT\<close> elements, the oldest ones, and
  stops at the capacity, so the assertion after its loop holds; a list within its capacity
  is left alone.\<close>

theorem evictEntries_spec:
  "dnl_queue (evictEntries d) =
     drop (min (length (dnl_queue d) - dnl_capacity d) EVICT_LIMIT) (dnl_queue d) \<and>
   length (dnl_queue (evictEntries d)) =
     (if length (dnl_queue d) \<le> dnl_capacity d then length (dnl_queue d)
      else max (dnl_capacity d) (length (dnl_queue d) - EVICT_LIMIT))"
proof (cases "length (dnl_queue d) \<le> dnl_capacity d")
  case False
  then have "nat (min (int (length (dnl_queue d)) - int (dnl_capacity d)) (int EVICT_LIMIT)) =
      min (length (dnl_queue d) - dnl_capacity d) EVICT_LIMIT"
    by (auto simp: min_def)
  with False show ?thesis
    by (auto simp: evictEntries_def Let_def)
qed (simp add: evictEntries_def)

end
