(* ===== verification/Forwarder.thy ===== *)
theory Forwarder
  imports Strategies Dead_Nonce_List
begin

text \<open>
  The forwarder of \<^verbatim>\<open>src/daemon/fw/forwarder.cpp\<close>: the pipelines an incoming Interest, Data or
  Nack goes through, the timers of PIT entries, and the table of faces
  (\<^verbatim>\<open>face-table.cpp\<close>).  The state holds the tables, the content store, the dead nonce
  list, the faces, the counters and the packets sent so far.  What is not part of the
  repository is the parameter \<open>fw_lib\<close>: ndn-cxx, the random nonces, and the strategies that
  are not modelled.  A failed assertion or a loop that does not end is \<^const>\<open>None\<close>.
\<close>

section \<open>State\<close>

record fw_lib =
  lib_cx :: ndn_cxx
  lib_wireName :: "name \<Rightarrow> byte list"
  lib_successor :: "name \<Rightarrow> name"
  lib_random :: "time \<Rightarrow> u32"
  lib_other :: "strategy_kind \<Rightarrow> strategy_impl"

record forwarder =
  fw_tables :: tables
  fw_cs :: cs
  fw_dnl :: dead_nonce_list
  fw_regions :: "name list"
  fw_faces :: "face_ptr \<Rightarrow> face_info"
  fw_faceTable :: "u64 \<Rightarrow> face_ptr option"
  fw_lastFaceId :: u64
  fw_nInInterests :: u64
  fw_nOutInterests :: u64
  fw_nInData :: u64
  fw_nOutData :: u64
  fw_nInNacks :: u64
  fw_nOutNacks :: u64
  fw_out :: "fw_output list"

abbreviation fw_pit :: "forwarder \<Rightarrow> pit" where
  "fw_pit s \<equiv> tb_pit (fw_tables s)"

definition fw_send :: "fw_output \<Rightarrow> forwarder \<Rightarrow> forwarder" where
  "fw_send pkt s = s\<lparr>fw_out := fw_out s @ [pkt]\<rparr>"

definition fw_setPit :: "name_tree \<Rightarrow> pit \<Rightarrow> forwarder \<Rightarrow> forwarder" where
  "fw_setPit t p s = s\<lparr>fw_tables := (fw_tables s)\<lparr>tb_nt := t, tb_pit := p\<rparr>\<rparr>"

text \<open>Writing to the PIT entry a pointer refers to.\<close>

definition fw_entry :: "pit_ref \<Rightarrow> (pit_entry \<Rightarrow> pit_entry) \<Rightarrow> forwarder \<Rightarrow> forwarder" where
  "fw_entry x g s = s\<lparr>fw_tables := (fw_tables s)\<lparr>tb_pit := pit_update x g (fw_pit s)\<rparr>\<rparr>"

definition fw_env_of :: "fw_lib \<Rightarrow> time \<Rightarrow> forwarder \<Rightarrow> fw_env" where
  "fw_env_of lib now s = \<lparr>en_cx = lib_cx lib, en_now = now, en_faces = fw_faces s,
     en_faceTable = fw_faceTable s, en_random = lib_random lib now\<rparr>"

section \<open>Dispatch to the strategy\<close>

definition fw_ctx_of :: "pit_entry \<Rightarrow> forwarder \<Rightarrow> fw_ctx" where
  "fw_ctx_of pe s = \<lparr>fc_entry = pe, fc_out = fw_out s, fc_nOutInterests = fw_nOutInterests s,
     fc_nOutNacks = fw_nOutNacks s\<rparr>"

definition fw_leave :: "pit_ref \<Rightarrow> fw_ctx \<Rightarrow> forwarder \<Rightarrow> forwarder" where
  "fw_leave x c s = (fw_entry x (\<lambda>_. fc_entry c) s)\<lparr>fw_out := fc_out c,
     fw_nOutInterests := fc_nOutInterests c, fw_nOutNacks := fc_nOutNacks c\<rparr>"

definition dispatchToStrategy ::
  "fw_lib \<Rightarrow> time \<Rightarrow> pit_ref \<Rightarrow> (strategy_impl \<Rightarrow> fw_env \<Rightarrow> fw_ctx \<Rightarrow> fw_ctx option) \<Rightarrow> forwarder \<Rightarrow> forwarder option" where
  "dispatchToStrategy lib now pitEntry trigger s = do {
     pe \<leftarrow> pit_entries (fw_pit s) pitEntry;
     (tb, strategy) \<leftarrow> effective_pit (lib_cx lib) pe (fw_tables s);
     let s = s\<lparr>fw_tables := tb\<rparr>;
     c \<leftarrow> trigger (impl_of (lib_other lib) (st_kind strategy)) (fw_env_of lib now s) (fw_ctx_of pe s);
     Some (fw_leave pitEntry c s)
   }"

section \<open>Outgoing Data\<close>

definition onOutgoingData :: "data \<Rightarrow> face_ptr \<Rightarrow> forwarder \<Rightarrow> forwarder" where
  "onOutgoingData data outFace s =
    (if f_id (fw_faces s outFace) = INVALID_FACEID then s
     else if f_scope (fw_faces s outFace) = ScopeNonLocal \<and> prefix LOCALHOST (d_name data) then s
     else (fw_send (SentData outFace data) s)\<lparr>fw_nOutData := fw_nOutData s + 1\<rparr>)"

section \<open>Dead nonces\<close>

definition insertDeadNonceList ::
  "fw_lib \<Rightarrow> pit_entry \<Rightarrow> bool \<Rightarrow> int \<Rightarrow> face_ptr option \<Rightarrow> dead_nonce_list \<Rightarrow> dead_nonce_list" where
  "insertDeadNonceList lib pitEntry isSatisfied dataFreshnessPeriod upstream dnl =
    (let needDnl =
       (if isSatisfied then
          (let hasFreshnessPeriod = (dataFreshnessPeriod \<ge> 0)
           in mustBeFresh (i_selectors (pe_interest pitEntry)) \<and>
              (hasFreshnessPeriod \<and> milliseconds dataFreshnessPeriod < dnl_lifetime dnl))
        else True)
     in if \<not> needDnl then dnl
        else (case upstream of
            None \<Rightarrow> fold (\<lambda>outRecord. dnl_add (lib_wireName lib) (pe_name pitEntry) (or_lastNonce outRecord))
                     (pe_outRecords pitEntry) dnl
          | Some face \<Rightarrow>
              (case getOutRecord face pitEntry of
                 None \<Rightarrow> dnl
               | Some outRecord \<Rightarrow> dnl_add (lib_wireName lib) (pe_name pitEntry) (or_lastNonce outRecord) dnl)))"

section \<open>Interests\<close>

definition onInterestLoop :: "face_ptr \<Rightarrow> interest \<Rightarrow> forwarder \<Rightarrow> forwarder" where
  "onInterestLoop inFace interest s =
    (if f_linkType (fw_faces s inFace) = MultiAccess then s
     else fw_send (SentNack inFace \<lparr>n_interest = interest, n_reason = Duplicate\<rparr>) s)"

definition isInProducerRegion :: "(u32 \<times> name) list \<Rightarrow> name list \<Rightarrow> bool" where
  "isInProducerRegion delegations regions =
    list_ex (\<lambda>regionName. list_ex (\<lambda>delegation. prefix (snd delegation) regionName) delegations) regions"

text \<open>The loop that chooses a delegation in the default-free zone: the FIB entry, and the
  delegation that is selected.\<close>

fun delegation_loop :: "fw_lib \<Rightarrow> forwarder \<Rightarrow> fib_ref \<Rightarrow> (u32 \<times> name) list \<Rightarrow> (fib_ref \<times> name option) option" where
  "delegation_loop lib s fibEntry [] = Some (fibEntry, None)"
| "delegation_loop lib s fibEntry (delegation # rest) = do {
     fibEntry \<leftarrow> fib_findLongestPrefixMatch (cx_wire (lib_cx lib)) (snd delegation) (tb_nt (fw_tables s));
     fe \<leftarrow> fib_entries (tb_fib (fw_tables s)) fibEntry;
     if hasNextHops fe then Some (fibEntry, Some (snd delegation))
     else delegation_loop lib s fibEntry rest
   }"

definition lookup_fibEntry ::
  "fw_lib \<Rightarrow> pit_entry \<Rightarrow> interest \<Rightarrow> forwarder \<Rightarrow> (fib_ref \<times> name option) option" where
  "lookup_fibEntry lib pe interest s =
    (let cx = lib_cx lib; t = tb_nt (fw_tables s);
         byName = map_option (\<lambda>x. (x, None)) (fib_lpm_pit cx pe t)
     in case i_link interest of
          NoLink \<Rightarrow> byName
        | MalformedLink \<Rightarrow> None
        | LinkObject delegations \<Rightarrow>
            if isInProducerRegion delegations (fw_regions s) then byName
            else (case i_selectedDelegation interest of
                Some d \<Rightarrow> map_option (\<lambda>x. (x, None)) (fib_findLongestPrefixMatch (cx_wire cx) d t)
              | None \<Rightarrow>
                  (case delegations of
                     [] \<Rightarrow> None
                   | first # _ \<Rightarrow> do {
                       fibEntry \<leftarrow> fib_findLongestPrefixMatch (cx_wire cx) (snd first) t;
                       fe \<leftarrow> fib_entries (tb_fib (fw_tables s)) fibEntry;
                       let isDefaultFreeZone = (\<not> (fe_prefix fe = [] \<and> hasNextHops fe));
                       if isDefaultFreeZone then delegation_loop lib s fibEntry delegations
                       else Some (fibEntry, None)
                     })))"

text \<open>\<^verbatim>\<open>setSelectedDelegation\<close> changes the Interest object, which the in-record shares.  (The
  PIT entry may share it too, where only name and selectors are read.)\<close>

definition selectDelegation :: "face_ptr \<Rightarrow> name option \<Rightarrow> pit_entry \<Rightarrow> pit_entry" where
  "selectDelegation face delegation pe =
    (case delegation of
       None \<Rightarrow> pe
     | Some d \<Rightarrow> pe\<lparr>pe_inRecords := update_first (\<lambda>r. ir_face r = face)
           (\<lambda>r. r\<lparr>ir_interest := map_option (\<lambda>i. i\<lparr>i_selectedDelegation := Some d\<rparr>) (ir_interest r)\<rparr>)
           (pe_inRecords pe)\<rparr>)"

definition onContentStoreMiss ::
  "fw_lib \<Rightarrow> time \<Rightarrow> face_ptr \<Rightarrow> pit_ref \<Rightarrow> interest \<Rightarrow> forwarder \<Rightarrow> forwarder option" where
  "onContentStoreMiss lib now inFace pitEntry interest s = do {
     pe \<leftarrow> pit_entries (fw_pit s) pitEntry;
     pe \<leftarrow> setUnsatisfyTimer (insertOrUpdateInRecord (lib_cx lib) now inFace interest pe);
     (fibEntry, delegation) \<leftarrow> lookup_fibEntry lib pe interest s;
     fe \<leftarrow> fib_entries (tb_fib (fw_tables s)) fibEntry;
     let s = fw_entry pitEntry (\<lambda>_. selectDelegation inFace delegation pe) s;
     let interest = (case delegation of None \<Rightarrow> interest | Some d \<Rightarrow> interest\<lparr>i_selectedDelegation := Some d\<rparr>);
     dispatchToStrategy lib now pitEntry
       (\<lambda>impl env. s_afterReceiveInterest impl env inFace interest fe) s
   }"

definition onContentStoreHit :: "time \<Rightarrow> face_ptr \<Rightarrow> pit_ref \<Rightarrow> data \<Rightarrow> forwarder \<Rightarrow> forwarder" where
  "onContentStoreHit now inFace pitEntry data s =
    onOutgoingData data inFace (fw_entry pitEntry (setStragglerTimer now True (d_freshness data)) s)"

definition onIncomingInterest :: "fw_lib \<Rightarrow> time \<Rightarrow> face_ptr \<Rightarrow> interest \<Rightarrow> forwarder \<Rightarrow> forwarder option" where
  "onIncomingInterest lib now inFace interest s =
    (let s = s\<lparr>fw_nInInterests := fw_nInInterests s + 1\<rparr>
     in if f_scope (fw_faces s inFace) = ScopeNonLocal \<and> prefix LOCALHOST (i_name interest) then Some s
        else if dnl_has (lib_wireName lib) (fw_dnl s) (i_name interest) (i_nonce interest)
        then Some (onInterestLoop inFace interest s)
        else do {
          (t, p, entry, _) \<leftarrow> findOrInsert (lib_cx lib) interest True (tb_nt (fw_tables s), fw_pit s);
          let s = fw_setPit t p s;
          pitEntry \<leftarrow> entry;
          pe \<leftarrow> pit_entries p pitEntry;
          if findDuplicateNonce pe (i_nonce interest) inFace \<noteq> DUPLICATE_NONCE_NONE
          then Some (onInterestLoop inFace interest s)
          else do {
            let s = fw_entry pitEntry cancelUnsatisfyAndStragglerTimer s;
            if pe_inRecords pe = [] then
              (case cs_find (cx_matchesData (lib_cx lib)) (lib_successor lib) now interest (fw_cs s) of
                 None \<Rightarrow> None
               | Some (Inl _) \<Rightarrow> None
               | Some (Inr (hit, cs)) \<Rightarrow>
                   let s = s\<lparr>fw_cs := cs\<rparr>
                   in (case hit of
                         Some data \<Rightarrow> Some (onContentStoreHit now inFace pitEntry data s)
                       | None \<Rightarrow> onContentStoreMiss lib now inFace pitEntry interest s))
            else onContentStoreMiss lib now inFace pitEntry interest s
          }
        })"

definition startProcessInterest :: "fw_lib \<Rightarrow> time \<Rightarrow> face_ptr \<Rightarrow> interest \<Rightarrow> forwarder \<Rightarrow> forwarder option" where
  "startProcessInterest lib now face interest s =
    (if i_link interest = MalformedLink then Some s else onIncomingInterest lib now face interest s)"

definition onInterestFinalize :: "fw_lib \<Rightarrow> pit_ref \<Rightarrow> bool \<Rightarrow> int \<Rightarrow> forwarder \<Rightarrow> forwarder option" where
  "onInterestFinalize lib pitEntry isSatisfied dataFreshnessPeriod s = do {
     pe \<leftarrow> pit_entries (fw_pit s) pitEntry;
     let s = s\<lparr>fw_dnl := insertDeadNonceList lib pe isSatisfied dataFreshnessPeriod None (fw_dnl s)\<rparr>;
     let s = fw_entry pitEntry cancelUnsatisfyAndStragglerTimer s;
     (t, p) \<leftarrow> pit_erase (lib_cx lib) pitEntry (tb_nt (fw_tables s), fw_pit s);
     Some (fw_setPit t p s)
   }"

definition onInterestUnsatisfied :: "fw_lib \<Rightarrow> time \<Rightarrow> pit_ref \<Rightarrow> forwarder \<Rightarrow> forwarder option" where
  "onInterestUnsatisfied lib now pitEntry s = do {
     s \<leftarrow> dispatchToStrategy lib now pitEntry s_beforeExpirePendingInterest s;
     onInterestFinalize lib pitEntry False (-1) s
   }"

section \<open>Data\<close>

definition onDataUnsolicited :: "time \<Rightarrow> face_ptr \<Rightarrow> data \<Rightarrow> forwarder \<Rightarrow> forwarder option" where
  "onDataUnsolicited now inFace data s =
    (if f_scope (fw_faces s inFace) = ScopeLocal then
       (case cs_insert now data True (fw_cs s) of Inl _ \<Rightarrow> None | Inr cs \<Rightarrow> Some (s\<lparr>fw_cs := cs\<rparr>))
     else Some s)"

text \<open>The body of the loop over the matching PIT entries.\<close>

definition satisfyEntry ::
  "fw_lib \<Rightarrow> time \<Rightarrow> face_ptr \<Rightarrow> data \<Rightarrow> pit_ref \<Rightarrow> forwarder \<times> face_ptr list \<Rightarrow> (forwarder \<times> face_ptr list) option" where
  "satisfyEntry lib now inFace data pitEntry st = do {
     let (s, pendingDownstreams) = st;
     let s = fw_entry pitEntry cancelUnsatisfyAndStragglerTimer s;
     pe \<leftarrow> pit_entries (fw_pit s) pitEntry;
     let pendingDownstreams = pendingDownstreams @ map ir_face (filter (\<lambda>r. ir_expiry r > now) (pe_inRecords pe));
     s \<leftarrow> dispatchToStrategy lib now pitEntry (\<lambda>impl env. s_beforeSatisfyInterest impl env inFace data) s;
     pe \<leftarrow> pit_entries (fw_pit s) pitEntry;
     let s = s\<lparr>fw_dnl := insertDeadNonceList lib pe True (d_freshness data) (Some inFace) (fw_dnl s)\<rparr>;
     let s = fw_entry pitEntry (\<lambda>pe. setStragglerTimer now True (d_freshness data)
               (deleteOutRecord inFace (clearInRecords pe))) s;
     Some (s, pendingDownstreams)
   }"

fun satisfy_all ::
  "fw_lib \<Rightarrow> time \<Rightarrow> face_ptr \<Rightarrow> data \<Rightarrow> pit_ref list \<Rightarrow> forwarder \<times> face_ptr list \<Rightarrow> (forwarder \<times> face_ptr list) option" where
  "satisfy_all lib now inFace data [] st = Some st"
| "satisfy_all lib now inFace data (x # xs) st = do {
     st \<leftarrow> satisfyEntry lib now inFace data x st;
     satisfy_all lib now inFace data xs st
   }"

text \<open>\<^verbatim>\<open>pendingDownstreams\<close> is a \<^verbatim>\<open>std::set\<close> of pointers, in the order of the addresses.\<close>

definition send_downstreams :: "face_ptr \<Rightarrow> data \<Rightarrow> face_ptr list \<Rightarrow> forwarder \<Rightarrow> forwarder" where
  "send_downstreams inFace data pendingDownstreams s =
    fold (\<lambda>pendingDownstream s. if pendingDownstream = inFace then s
            else onOutgoingData data pendingDownstream s)
      (sort (remdups pendingDownstreams)) s"

definition onIncomingData :: "fw_lib \<Rightarrow> time \<Rightarrow> face_ptr \<Rightarrow> data \<Rightarrow> forwarder \<Rightarrow> forwarder option" where
  "onIncomingData lib now inFace data s =
    (let s = s\<lparr>fw_nInData := fw_nInData s + 1\<rparr>
     in if f_scope (fw_faces s inFace) = ScopeNonLocal \<and> prefix LOCALHOST (d_name data) then Some s
        else do {
          pitMatches \<leftarrow> findAllDataMatches (lib_cx lib) data (tb_nt (fw_tables s), fw_pit s);
          if pitMatches = [] then onDataUnsolicited now inFace data s
          else (case cs_insert now data False (fw_cs s) of
              Inl _ \<Rightarrow> None
            | Inr cs \<Rightarrow> do {
                (s, pendingDownstreams) \<leftarrow> satisfy_all lib now inFace data pitMatches (s\<lparr>fw_cs := cs\<rparr>, []);
                Some (send_downstreams inFace data pendingDownstreams s)
              })
        })"

section \<open>Nacks\<close>

definition onIncomingNack :: "fw_lib \<Rightarrow> time \<Rightarrow> face_ptr \<Rightarrow> nack \<Rightarrow> forwarder \<Rightarrow> forwarder option" where
  "onIncomingNack lib now inFace nack s =
    (let s = s\<lparr>fw_nInNacks := fw_nInNacks s + 1\<rparr>
     in if f_linkType (fw_faces s inFace) = MultiAccess then Some s
        else do {
          (t, p, entry, _) \<leftarrow> findOrInsert (lib_cx lib) (n_interest nack) False (tb_nt (fw_tables s), fw_pit s);
          let s = fw_setPit t p s;
          (case entry of
             None \<Rightarrow> Some s
           | Some pitEntry \<Rightarrow> do {
               pe \<leftarrow> pit_entries p pitEntry;
               (case getOutRecord inFace pe of
                  None \<Rightarrow> Some s
                | Some outRecord \<Rightarrow>
                    if i_nonce (n_interest nack) \<noteq> or_lastNonce outRecord then Some s
                    else do {
                      let pe = pe\<lparr>pe_outRecords := update_first (\<lambda>r. or_face r = inFace)
                                    (\<lambda>r. fst (setIncomingNack nack r)) (pe_outRecords pe)\<rparr>;
                      let s = fw_entry pitEntry (\<lambda>_. pe) s;
                      fibEntry \<leftarrow> fib_lpm_pit (lib_cx lib) pe (tb_nt (fw_tables s));
                      fe \<leftarrow> fib_entries (tb_fib (fw_tables s)) fibEntry;
                      dispatchToStrategy lib now pitEntry
                        (\<lambda>impl env. s_afterReceiveNack impl env inFace nack fe) s
                    })
             })
        })"

definition startProcessNack :: "fw_lib \<Rightarrow> time \<Rightarrow> face_ptr \<Rightarrow> nack \<Rightarrow> forwarder \<Rightarrow> forwarder option" where
  "startProcessNack lib now face nack s =
    (if i_link (n_interest nack) = MalformedLink then Some s else onIncomingNack lib now face nack s)"

section \<open>Timers\<close>

text \<open>A timer that is due fires and is no longer scheduled.\<close>

definition unsatisfyTimer_fires :: "fw_lib \<Rightarrow> time \<Rightarrow> pit_ref \<Rightarrow> forwarder \<Rightarrow> forwarder option" where
  "unsatisfyTimer_fires lib now pitEntry s = do {
     pe \<leftarrow> pit_entries (fw_pit s) pitEntry;
     (case pe_unsatisfyTimer pe of
        None \<Rightarrow> Some s
      | Some deadline \<Rightarrow>
          if deadline \<le> now
          then onInterestUnsatisfied lib now pitEntry (fw_entry pitEntry (\<lambda>pe. pe\<lparr>pe_unsatisfyTimer := None\<rparr>) s)
          else Some s)
   }"

definition stragglerTimer_fires :: "fw_lib \<Rightarrow> time \<Rightarrow> pit_ref \<Rightarrow> forwarder \<Rightarrow> forwarder option" where
  "stragglerTimer_fires lib now pitEntry s = do {
     pe \<leftarrow> pit_entries (fw_pit s) pitEntry;
     (case pe_stragglerTimer pe of
        None \<Rightarrow> Some s
      | Some (deadline, isSatisfied, dataFreshnessPeriod) \<Rightarrow>
          if deadline \<le> now
          then onInterestFinalize lib pitEntry isSatisfied dataFreshnessPeriod
                 (fw_entry pitEntry (\<lambda>pe. pe\<lparr>pe_stragglerTimer := None\<rparr>) s)
          else Some s)
   }"

section \<open>Faces\<close>

definition FACEID_RESERVED_MAX :: u64 where "FACEID_RESERVED_MAX = 255"

definition faceTable_addImpl :: "face_ptr \<Rightarrow> u64 \<Rightarrow> forwarder \<Rightarrow> forwarder" where
  "faceTable_addImpl face faceId s =
    s\<lparr>fw_faces := (fw_faces s)(face := (fw_faces s face)\<lparr>f_id := faceId\<rparr>),
      fw_faceTable := (fw_faceTable s)(faceId \<mapsto> face)\<rparr>"

definition faceTable_add :: "face_ptr \<Rightarrow> forwarder \<Rightarrow> forwarder option" where
  "faceTable_add face s =
    (if f_id (fw_faces s face) \<noteq> INVALID_FACEID \<and> fw_faceTable s (f_id (fw_faces s face)) \<noteq> None then Some s
     else
       let faceId = fw_lastFaceId s + 1; s = s\<lparr>fw_lastFaceId := faceId\<rparr>
       in if faceId > FACEID_RESERVED_MAX then Some (faceTable_addImpl face faceId s) else None)"

definition faceTable_addReserved :: "face_ptr \<Rightarrow> u64 \<Rightarrow> forwarder \<Rightarrow> forwarder option" where
  "faceTable_addReserved face faceId s =
    (if f_id (fw_faces s face) = INVALID_FACEID \<and> fw_faceTable s (f_id (fw_faces s face)) = None \<and>
        faceId \<le> FACEID_RESERVED_MAX
     then Some (faceTable_addImpl face faceId s) else None)"

definition faceTable_remove :: "face_ptr \<Rightarrow> forwarder \<Rightarrow> forwarder option" where
  "faceTable_remove face s = do {
     let s = s\<lparr>fw_faceTable := (fw_faceTable s)(f_id (fw_faces s face) := None),
               fw_faces := (fw_faces s)(face := (fw_faces s face)\<lparr>f_id := INVALID_FACEID\<rparr>)\<rparr>;
     (t, f) \<leftarrow> removeNextHopFromAllEntries face (tb_nt (fw_tables s), tb_fib (fw_tables s));
     Some (s\<lparr>fw_tables := (fw_tables s)\<lparr>tb_nt := t, tb_fib := f\<rparr>\<rparr>)
   }"

section \<open>Events\<close>

text \<open>Everything that happens to the forwarder: packets that arrive, timers that fire (of PIT
  entries, measurements entries, the content store and the dead nonce list), faces that come
  and go, and the commands of the FIB and strategy choice managers.\<close>

text \<open>A command for face 0 is about the face it came from, its IncomingFaceId tag.\<close>

definition setFaceForSelfRegistration :: "u64 option \<Rightarrow> u64 \<Rightarrow> u64 option" where
  "setFaceForSelfRegistration incomingFaceIdTag faceId =
    (let isSelfRegistration = (faceId = 0)
     in if isSelfRegistration then incomingFaceIdTag else Some faceId)"

definition fibManager_addNextHop ::
  "fw_lib \<Rightarrow> u64 option \<Rightarrow> name \<Rightarrow> u64 \<Rightarrow> u64 \<Rightarrow> forwarder \<Rightarrow> (forwarder \<times> nat) option" where
  "fibManager_addNextHop lib tag prfx faceId cost s = do {
     faceId \<leftarrow> setFaceForSelfRegistration tag faceId;
     (case fw_faceTable s faceId of
        None \<Rightarrow> Some (s, 410)
      | Some face \<Rightarrow> do {
          (t, f, entry, _) \<leftarrow> fib_insert (cx_wire (lib_cx lib)) prfx (tb_nt (fw_tables s), tb_fib (fw_tables s));
          let f = fib_update entry (addNextHop face cost) f;
          Some (s\<lparr>fw_tables := (fw_tables s)\<lparr>tb_nt := t, tb_fib := f\<rparr>\<rparr>, 200)
        })
   }"

definition fibManager_removeNextHop ::
  "fw_lib \<Rightarrow> u64 option \<Rightarrow> name \<Rightarrow> u64 \<Rightarrow> forwarder \<Rightarrow> (forwarder \<times> nat) option" where
  "fibManager_removeNextHop lib tag prfx faceId s = do {
     faceId \<leftarrow> setFaceForSelfRegistration tag faceId;
     (case fw_faceTable s faceId of
        None \<Rightarrow> Some (s, 200)
      | Some face \<Rightarrow>
          (case fib_findExactMatch (cx_wire (lib_cx lib)) prfx (tb_nt (fw_tables s)) of
             None \<Rightarrow> Some (s, 200)
           | Some entry \<Rightarrow> do {
               let f = fib_update entry (removeNextHop face) (tb_fib (fw_tables s));
               fe \<leftarrow> fib_entries f entry;
               (t, f) \<leftarrow> (if \<not> hasNextHops fe then fib_erase_entry entry (tb_nt (fw_tables s), f)
                         else Some (tb_nt (fw_tables s), f));
               Some (s\<lparr>fw_tables := (fw_tables s)\<lparr>tb_nt := t, tb_fib := f\<rparr>\<rparr>, 200)
             }))
   }"

definition setStrategy :: "fw_lib \<Rightarrow> name \<Rightarrow> name \<Rightarrow> forwarder \<Rightarrow> (forwarder \<times> nat \<times> name option) option" where
  "setStrategy lib prfx selectedStrategy s =
    (if \<not> hasStrategy selectedStrategy False (tb_sc (fw_tables s)) then Some (s, 504, None)
     else do {
       (tb, ok) \<leftarrow> sc_insert (cx_wire (lib_cx lib)) prfx selectedStrategy (fw_tables s);
       let s = s\<lparr>fw_tables := tb\<rparr>;
       if ok then do {
         current \<leftarrow> sc_get (cx_wire (lib_cx lib)) prfx tb;
         strategyName \<leftarrow> current;
         Some (s, 200, Some strategyName)
       }
       else Some (s, 405, None)
     })"

definition unsetStrategy :: "fw_lib \<Rightarrow> name \<Rightarrow> forwarder \<Rightarrow> forwarder option" where
  "unsetStrategy lib prfx s = do {
     tb \<leftarrow> sc_erase (cx_wire (lib_cx lib)) prfx (fw_tables s);
     Some (s\<lparr>fw_tables := tb\<rparr>)
   }"

section \<open>Construction\<close>

text \<open>The names of the strategies, ndn:/localhost/nfd/strategy/<name>/<version>.\<close>

definition strategy_uri :: "string \<Rightarrow> byte \<Rightarrow> name" where
  "strategy_uri s version =
    LOCALHOST @ map (\<lambda>c. Generic (map of_char c)) [''nfd'', ''strategy'', s] @ [Generic [0xFD, version]]"

fun STRATEGY_NAME :: "strategy_kind \<Rightarrow> name" where
  "STRATEGY_NAME AccessStrategy = strategy_uri ''access'' 1"
| "STRATEGY_NAME BestRouteStrategy = strategy_uri ''best-route'' 1"
| "STRATEGY_NAME BestRouteStrategy2 = strategy_uri ''best-route'' 4"
| "STRATEGY_NAME BroadcastStrategy = strategy_uri ''broadcast'' 2"
| "STRATEGY_NAME ClientControlStrategy = strategy_uri ''client-control'' 1"
| "STRATEGY_NAME LocationRouteStrategy = strategy_uri ''location-route'' 0"
| "STRATEGY_NAME MulticastStrategy = strategy_uri ''multicast'' 1"
| "STRATEGY_NAME NccStrategy = strategy_uri ''ncc'' 1"

text \<open>The strategies that register themselves, each with an address of its own.\<close>

definition strategy_factories :: "strategy list" where
  "strategy_factories = map (\<lambda>(ptr, k). \<lparr>st_ptr = ptr, st_name = STRATEGY_NAME k, st_kind = k\<rparr>)
    [(1, AccessStrategy), (2, BestRouteStrategy), (3, BestRouteStrategy2), (4, BroadcastStrategy),
     (5, ClientControlStrategy), (6, LocationRouteStrategy), (7, MulticastStrategy), (8, NccStrategy)]"

definition makeDefaultStrategy :: strategy where
  "makeDefaultStrategy = \<lparr>st_ptr = 0, st_name = STRATEGY_NAME BestRouteStrategy2, st_kind = BestRouteStrategy2\<rparr>"

definition installStrategies :: "strategy list \<Rightarrow> strategy_choice \<Rightarrow> strategy_choice" where
  "installStrategies factories c =
    fold (\<lambda>st c. if \<not> hasStrategy (st_name st) True c then fst (install st c) else c) factories c"

text \<open>\<open>faces\<close> gives the scope and link type of the face objects, which have no id yet.\<close>

definition Forwarder :: "fw_lib \<Rightarrow> (face_ptr \<Rightarrow> face_info) \<Rightarrow> forwarder option" where
  "Forwarder lib faces = do {
     (t, c) \<leftarrow> StrategyChoice (cx_wire (lib_cx lib)) (NameTree 1024) makeDefaultStrategy;
     (case (Cs 10 (PriorityFifo PriorityFifoPolicy), DeadNonceList (milliseconds 6000)) of
        (Inr cs, Inr dnl) \<Rightarrow>
          Some \<lparr>fw_tables = \<lparr>tb_nt = t, tb_fib = Fib, tb_pit = Pit, tb_ms = Measurements,
                  tb_sc = installStrategies strategy_factories c\<rparr>,
                fw_cs = cs, fw_dnl = dnl, fw_regions = [], fw_faces = (\<lambda>f. (faces f)\<lparr>f_id := INVALID_FACEID\<rparr>),
                fw_faceTable = (\<lambda>_. None), fw_lastFaceId = FACEID_RESERVED_MAX,
                fw_nInInterests = 0, fw_nOutInterests = 0, fw_nInData = 0, fw_nOutData = 0, fw_nInNacks = 0, fw_nOutNacks = 0,
                fw_out = []\<rparr>
      | _ \<Rightarrow> None)
   }"

end
