(* ===== verification/Pit_Correct.thy ===== *)
theory Pit_Correct
  imports Pit_Table
begin

text \<open>
  Correctness of the PIT.  The invariant says that the lists of PIT entries in the name tree
  and the back pointers of the entries agree, that an entry hangs off its name without a
  trailing digest, that no two attached entries have the same name and selectors, that an
  entry has one in-record and one out-record for a face, and that the item count is right.
\<close>

section \<open>Invariant\<close>

text \<open>The name whose tree entry a PIT entry hangs off.\<close>

definition pit_key :: "name \<Rightarrow> name" where
  "pit_key n = (if isEndWithDigest n then butlast n else n)"

definition pit_list :: "name_tree \<Rightarrow> nt_ref \<Rightarrow> pit_ref list" where
  "pit_list t r = (case nt_entries t r of None \<Rightarrow> [] | Some e \<Rightarrow> e_pitEntries e)"

definition attached :: "pit \<Rightarrow> pit_ref \<Rightarrow> pit_entry \<Rightarrow> nt_ref \<Rightarrow> bool" where
  "attached p x pe r \<longleftrightarrow> pit_entries p x = Some pe \<and> pe_nameTreeEntry pe = Some r"

text \<open>At most one record for a face, and the in-records hold Interests of this name.\<close>

definition pe_wf :: "pit_entry \<Rightarrow> bool" where
  "pe_wf pe \<longleftrightarrow> distinct (map ir_face (pe_inRecords pe)) \<and> distinct (map or_face (pe_outRecords pe)) \<and>
     (\<forall>r \<in> set (pe_inRecords pe). \<exists>i. ir_interest r = Some i \<and> i_name i = pe_name pe)"

definition pit_inv :: "ndn_cxx \<Rightarrow> name_tree \<times> pit \<Rightarrow> bool" where
  "pit_inv cx s \<longleftrightarrow> nt_inv (cx_wire cx) (fst s) \<and>
     (\<forall>r. distinct (pit_list (fst s) r) \<and> (\<forall>x. x \<in> set (pit_list (fst s) r) \<longleftrightarrow> (\<exists>pe. attached (snd s) x pe r))) \<and>
     (\<forall>x pe r. attached (snd s) x pe r \<longrightarrow> nt_prefix (fst s) r = Some (pit_key (pe_name pe))) \<and>
     (\<forall>x pe r y pe' r'. attached (snd s) x pe r \<longrightarrow> attached (snd s) y pe' r' \<longrightarrow> pe_name pe = pe_name pe' \<longrightarrow>
        i_selectors (pe_interest pe) = i_selectors (pe_interest pe') \<longrightarrow> x = y) \<and>
     (\<forall>x pe. pit_entries (snd s) x = Some pe \<longrightarrow> x < pit_next (snd s) \<and> pe_wf pe) \<and>
     pit_nItems (snd s) = of_nat (card {x. \<exists>pe r. attached (snd s) x pe r})"

lemma pit_invD:
  assumes "pit_inv cx (t, p)"
  shows "nt_inv (cx_wire cx) t" "distinct (pit_list t r)"
    "x \<in> set (pit_list t r) \<longleftrightarrow> (\<exists>pe. attached p x pe r)"
    "attached p x pe r \<Longrightarrow> nt_prefix t r = Some (pit_key (pe_name pe))"
    "attached p x pe r \<Longrightarrow> attached p y pe' r' \<Longrightarrow> pe_name pe = pe_name pe' \<Longrightarrow>
      i_selectors (pe_interest pe) = i_selectors (pe_interest pe') \<Longrightarrow> x = y"
    "pit_entries p x = Some pe \<Longrightarrow> x < pit_next p" "pit_entries p x = Some pe \<Longrightarrow> pe_wf pe"
    "pit_nItems p = of_nat (card {x. \<exists>pe r. attached p x pe r})"
  using assms unfolding pit_inv_def fst_conv snd_conv by blast+

lemma pit_finite: "pit_inv cx (t, p) \<Longrightarrow> finite {x. \<exists>pe r. attached p x pe r}"
  by (rule finite_subset[of _ "{..<pit_next p}"]) (auto simp: attached_def dest: pit_invD(6))

lemma pit_fresh: "pit_inv cx (t, p) \<Longrightarrow> pit_entries p (pit_next p) = None"
  using pit_invD(6) by (cases "pit_entries p (pit_next p)") blast+

section \<open>Steps of the name tree\<close>

definition pit_frame :: "name_tree \<Rightarrow> name_tree \<Rightarrow> bool" where
  "pit_frame t t' \<longleftrightarrow> (\<forall>r. pit_list t' r = pit_list t r) \<and>
     (\<forall>r n. nt_prefix t r = Some n \<longrightarrow> pit_list t r \<noteq> [] \<longrightarrow> nt_prefix t' r = Some n)"

lemma pit_frame_refl [simp]: "pit_frame t t"
  by (simp add: pit_frame_def)

lemma pit_frame_trans: "pit_frame a b \<Longrightarrow> pit_frame b c \<Longrightarrow> pit_frame a c"
  by (simp add: pit_frame_def)

lemma pit_frame_grows:
  assumes "nt_grows t t'"
  shows "pit_frame t t'"
  unfolding pit_frame_def
proof (intro conjI allI impI)
  fix r show "pit_list t' r = pit_list t r"
  proof (cases "nt_entries t r")
    case None
    show ?thesis
    proof (cases "nt_entries t' r")
      case (Some e')
      then have "bare e'"
        using assms None unfolding nt_grows_def by blast
      then show ?thesis
        using None Some by (simp add: pit_list_def bare_def)
    qed (simp add: pit_list_def None)
  next
    case (Some e)
    then show ?thesis
      using nt_grows_entry[OF assms Some] same_but_childrenD(5) by (auto simp: pit_list_def)
  qed
next
  fix r n assume "nt_prefix t r = Some n"
  then show "nt_prefix t' r = Some n"
    by (rule nt_grows_prefix[OF assms])
qed

lemma pit_frame_shrinks:
  assumes "nt_shrinks t t'"
  shows "pit_frame t t'"
  unfolding pit_frame_def
proof (intro conjI allI impI)
  fix r show "pit_list t' r = pit_list t r"
  proof (cases "nt_entries t' r")
    case None
    show ?thesis
    proof (cases "nt_entries t r")
      case (Some e)
      then have "bare e"
        using assms None unfolding nt_shrinks_def by blast
      then show ?thesis
        using None Some by (simp add: pit_list_def bare_def)
    qed (simp add: pit_list_def None)
  next
    case (Some e')
    then show ?thesis
      using nt_shrinks_entry[OF assms Some] same_but_childrenD(5) by (auto simp: pit_list_def)
  qed
next
  fix r n assume r: "nt_prefix t r = Some n" "pit_list t r \<noteq> []"
  then obtain e where e: "nt_entries t r = Some e" "e_prefix e = n" "e_pitEntries e \<noteq> []"
    by (auto simp: nt_prefix_def pit_list_def)
  then have "\<not> bare e"
    by (simp add: bare_def)
  from nt_shrinks_keeps[OF assms e(1) this] e(2) show "nt_prefix t' r = Some n"
    using same_but_childrenD(2) by (auto simp: nt_prefix_def)
qed

lemma pit_frame_update:
  assumes "\<And>e. e_prefix (f e) = e_prefix e" "\<And>e. e_pitEntries (f e) = e_pitEntries e"
  shows "pit_frame t (nt_update r f t)"
  by (auto simp: pit_frame_def pit_list_def nt_prefix_def nt_update_def assms split: option.splits)

lemma pit_inv_frame:
  assumes "pit_inv cx (t, p)" and "nt_inv (cx_wire cx) t'" and "pit_frame t t'"
  shows "pit_inv cx (t', p)"
proof -
  have lists: "pit_list t' r = pit_list t r" for r
    using assms(3) by (simp add: pit_frame_def)
  have "nt_prefix t' r = Some (pit_key (pe_name pe))" if "attached p x pe r" for x pe r
  proof -
    have "x \<in> set (pit_list t r)"
      using that pit_invD(3)[OF assms(1)] by blast
    then have "pit_list t r \<noteq> []"
      by auto
    then show ?thesis
      using pit_invD(4)[OF assms(1) that] assms(3) by (simp add: pit_frame_def)
  qed
  then show ?thesis
    using assms(1,2) unfolding pit_inv_def fst_conv snd_conv lists by blast
qed

section \<open>Lookup and insertion\<close>

text \<open>\<open>x\<close> is the PIT entry of the name and selectors of the Interest.\<close>

definition pit_has :: "pit \<Rightarrow> interest \<Rightarrow> pit_ref \<Rightarrow> bool" where
  "pit_has p i x \<longleftrightarrow> (\<exists>pe r. attached p x pe r \<and> pe_name pe = i_name i \<and>
     i_selectors (pe_interest pe) = i_selectors i)"

lemma pit_has_unique: "pit_inv cx (t, p) \<Longrightarrow> pit_has p i x \<Longrightarrow> pit_has p i y \<Longrightarrow> x = y"
  unfolding pit_has_def using pit_invD(5) by (metis (no_types, lifting))

lemma pit_key_take: "take (length (pit_key n)) n = pit_key n"
  by (simp add: pit_key_def take_butlast butlast_conv_take)

lemma pit_key_drop:
  assumes "pit_key m = pit_key n"
  shows "drop (length (pit_key n)) m = drop (length (pit_key n)) n \<longleftrightarrow> m = n"
  using assms pit_key_take[of m] pit_key_take[of n] by (metis append_take_drop_id)

lemma find_pit_entry_ok:
  assumes "\<And>x. x \<in> set xs \<Longrightarrow> \<exists>pe r. attached p x pe r \<and> pit_key (pe_name pe) = pit_key (i_name i)"
  shows "find_pit_entry i (length (pit_key (i_name i))) p xs = Some (List.find (pit_has p i) xs)"
  using assms
proof (induction xs)
  case (Cons x xs)
  have "x \<in> set (x # xs)"
    by simp
  from Cons.prems[OF this] obtain pe r where x: "attached p x pe r" "pit_key (pe_name pe) = pit_key (i_name i)"
    by blast
  have pe: "pit_entries p x = Some pe"
    using x(1) by (simp add: attached_def)
  have take: "take (length (pit_key (i_name i))) (pe_name pe) = take (length (pit_key (i_name i))) (i_name i)"
    using pit_key_take[of "pe_name pe"] pit_key_take[of "i_name i"] x(2) by simp
  have "pit_has p i x \<longleftrightarrow> pe_name pe = i_name i \<and> i_selectors (pe_interest pe) = i_selectors i"
    using x(1) pe by (auto simp: pit_has_def attached_def)
  with Cons pe take pit_key_drop[OF x(2)] show ?case
    by simp
qed simp

lemma find_pit_has:
  assumes inv: "pit_inv cx (t, p)" and r: "nt_prefix t r = Some (pit_key (i_name i))"
  shows "List.find (pit_has p i) (pit_list t r) = Some x \<longleftrightarrow> pit_has p i x"
proof
  assume "List.find (pit_has p i) (pit_list t r) = Some x"
  then show "pit_has p i x"
    using find_Some_in by fast
next
  assume x: "pit_has p i x"
  then obtain pe q where pe: "attached p x pe q" "pe_name pe = i_name i"
    by (auto simp: pit_has_def)
  then have "q = r"
    using pit_invD(4)[OF inv pe(1)] nt_prefix_inj[OF pit_invD(1)[OF inv] _ r] by simp
  then have "x \<in> set (pit_list t r)"
    using pit_invD(3)[OF inv] pe(1) by blast
  then show "List.find (pit_has p i) (pit_list t r) = Some x"
    using pit_has_unique[OF inv _ x] x by (intro distinct_find)
qed

lemma insertPitEntry_ok:
  assumes inv: "pit_inv cx (t, p)" and r: "nt_prefix t r = Some (pit_key (i_name i))"
    and new: "\<And>x. \<not> pit_has p i x"
    and p': "p' = p\<lparr>pit_entries := (pit_entries p)(pit_next p \<mapsto> newPitEntry i), pit_next := pit_next p + 1\<rparr>"
  shows "\<exists>t1 p1. insertPitEntry r (pit_next p) (t, p') = Some (t1, p1) \<and>
    pit_inv cx (t1, p1\<lparr>pit_nItems := pit_nItems p1 + 1\<rparr>) \<and> tables_frame (cx_wire cx) t t1 \<and>
    nt_nItems t1 = nt_nItems t \<and> nt_names t1 = nt_names t \<and>
    pit_entries p1 = (pit_entries p)(pit_next p \<mapsto> (newPitEntry i)\<lparr>pe_nameTreeEntry := Some r\<rparr>)"
proof -
  let ?x = "pit_next p" and ?pe = "(newPitEntry i)\<lparr>pe_nameTreeEntry := Some r\<rparr>"
  let ?t = "nt_update r (\<lambda>e. e\<lparr>e_pitEntries := e_pitEntries e @ [?x]\<rparr>) t"
  let ?p = "pit_update ?x (\<lambda>pe. pe\<lparr>pe_nameTreeEntry := Some r\<rparr>) p'"
  let ?q = "?p\<lparr>pit_nItems := pit_nItems ?p + 1\<rparr>"
  note nt = pit_invD(1)[OF inv]
  obtain e where e: "nt_entries t r = Some e" "e_prefix e = pit_key (i_name i)"
    using r by (auto simp: nt_prefix_def)
  have res: "insertPitEntry r ?x (t, p') = Some (?t, ?p)"
    using e by (simp add: insertPitEntry_def p' newPitEntry_def)
  have ents: "pit_entries ?p = (pit_entries p)(?x \<mapsto> ?pe)"
    by (auto simp: pit_update_def p' fun_eq_iff)
  have nx: "\<not> attached p ?x pe q" for pe q
    using pit_fresh[OF inv] by (simp add: attached_def)
  have att: "attached ?q y pe q \<longleftrightarrow> attached p y pe q \<or> (y = ?x \<and> pe = ?pe \<and> q = r)" for y pe q
    using pit_fresh[OF inv] by (auto simp: attached_def ents newPitEntry_def)
  have lists: "pit_list ?t q = (if q = r then pit_list t r @ [?x] else pit_list t q)" for q
    using e by (auto simp: pit_list_def nt_update_def)
  have prefs: "nt_prefix ?t q = nt_prefix t q" for q
    by (simp add: nt_prefix_def nt_update_def option.map_comp o_def)
  have nt': "nt_inv (cx_wire cx) ?t"
    by (rule nt_update_inv[OF _ _ _ _ nt]) simp_all
  have set: "{y. \<exists>pe q. attached ?q y pe q} = insert ?x {y. \<exists>pe q. attached p y pe q}"
    unfolding att by blast
  have "pit_inv cx (?t, ?q)"
    unfolding pit_inv_def fst_conv snd_conv
  proof (intro conjI allI impI)
    show "nt_inv (cx_wire cx) ?t" by (rule nt')
  next
    fix q
    show "distinct (pit_list ?t q)"
      unfolding lists using pit_invD(2)[OF inv] pit_invD(3)[OF inv, of ?x r] nx by auto
    fix y
    show "y \<in> set (pit_list ?t q) \<longleftrightarrow> (\<exists>pe. attached ?q y pe q)"
      unfolding lists att using pit_invD(3)[OF inv] by auto
  next
    fix y pe q assume "attached ?q y pe q"
    then show "nt_prefix ?t q = Some (pit_key (pe_name pe))"
      unfolding att prefs using pit_invD(4)[OF inv] r by (auto simp: newPitEntry_def)
  next
    fix y pe q z pe' q'
    assume "attached ?q y pe q" "attached ?q z pe' q'" "pe_name pe = pe_name pe'"
      "i_selectors (pe_interest pe) = i_selectors (pe_interest pe')"
    then show "y = z"
      unfolding att using pit_invD(5)[OF inv] new unfolding pit_has_def newPitEntry_def by fastforce
  next
    fix y pe assume "pit_entries ?q y = Some pe"
    then have y: "y = ?x \<and> pe = ?pe \<or> pit_entries p y = Some pe"
      by (auto simp: ents split: if_splits)
    show "y < pit_next ?q"
      using y pit_invD(6)[OF inv] by (auto simp: pit_update_def p' less_Suc_eq)
    show "pe_wf pe"
      using y pit_invD(7)[OF inv] by (auto simp: pe_wf_def newPitEntry_def)
  next
    show "pit_nItems ?q = of_nat (card {y. \<exists>pe q. attached ?q y pe q})"
      unfolding set using nx pit_finite[OF inv] pit_invD(8)[OF inv] by (simp add: pit_update_def p')
  qed
  moreover have "tables_frame (cx_wire cx) t ?t"
    by (rule tables_frame_pit[OF nt])
  moreover have "nt_names ?t = nt_names t"
    unfolding nt_names_def prefs ..
  ultimately show ?thesis
    using res ents by (simp add: nt_update_def)
qed

lemma findOrInsert_ok:
  assumes inv: "pit_inv cx (t, p)" and cap: "nt_nItems t + length (i_name i) + 1 \<le> maxItems"
  shows "\<exists>t' p' res b. findOrInsert cx i allow (t, p) = Some (t', p', res, b) \<and> pit_inv cx (t', p') \<and>
    tables_frame (cx_wire cx) t t' \<and> nt_nItems t' \<le> nt_nItems t + length (i_name i) + 1 \<and>
    (if \<exists>x. pit_has p i x then p' = p \<and> b = False \<and> (\<exists>x. res = Some x \<and> pit_has p i x)
     else b = True \<and>
       (if allow then \<exists>r. res = Some (pit_next p) \<and>
          pit_entries p' = (pit_entries p)(pit_next p \<mapsto> (newPitEntry i)\<lparr>pe_nameTreeEntry := Some r\<rparr>)
        else res = None \<and> p' = p))"
proof -
  note nt = pit_invD(1)[OF inv]
  have key: "(if isEndWithDigest (i_name i) then butlast (i_name i) else i_name i) = pit_key (i_name i)"
    by (simp add: pit_key_def)
  have klen: "length (pit_key (i_name i)) \<le> length (i_name i)"
    by (simp add: pit_key_def)
  obtain t1 r where L: "nt_lookup (cx_wire cx) (pit_key (i_name i)) t = Some (t1, r)" "nt_inv (cx_wire cx) t1"
    "nt_grows t t1" "nt_prefix t1 r = Some (pit_key (i_name i))"
    "nt_nItems t1 \<le> nt_nItems t + length (pit_key (i_name i)) + 1"
    using nt_lookup_ok[OF nt, of "pit_key (i_name i)"] cap klen by fastforce
  have inv1: "pit_inv cx (t1, p)"
    by (rule pit_inv_frame[OF inv L(2) pit_frame_grows[OF L(3)]])
  have fr1: "tables_frame (cx_wire cx) t t1"
    by (rule tables_frame_grows[OF nt L(2,3)])
  obtain e where e: "nt_entries t1 r = Some e" "e_prefix e = pit_key (i_name i)"
    using L(4) by (auto simp: nt_prefix_def)
  have list: "e_pitEntries e = pit_list t1 r"
    using e by (simp add: pit_list_def)
  have "\<exists>pe r. attached p x pe r \<and> pit_key (pe_name pe) = pit_key (i_name i)" if "x \<in> set (pit_list t1 r)" for x
    using that pit_invD(3,4)[OF inv1] L(4) by (metis option.inject)
  then have found: "find_pit_entry i (length (e_prefix e)) p (e_pitEntries e) =
      Some (List.find (pit_has p i) (pit_list t1 r))"
    unfolding e(2) list by (rule find_pit_entry_ok)
  show ?thesis
  proof (cases "\<exists>x. pit_has p i x")
    case True
    then obtain x where "pit_has p i x" by blast
    then show ?thesis
      using find_pit_has[OF inv1 L(4), of x] inv1 fr1 L(1,5) klen e(1) found True
      by (auto simp: findOrInsert_def key)
  next
    case False
    then have none: "List.find (pit_has p i) (pit_list t1 r) = None"
      by (simp add: find_None_all)
    show ?thesis
    proof (cases allow)
      case True
      let ?p = "p\<lparr>pit_entries := (pit_entries p)(pit_next p \<mapsto> newPitEntry i), pit_next := pit_next p + 1\<rparr>"
      obtain t2 p2 where I: "insertPitEntry r (pit_next p) (t1, ?p) = Some (t2, p2)"
        "pit_inv cx (t2, p2\<lparr>pit_nItems := pit_nItems p2 + 1\<rparr>)" "tables_frame (cx_wire cx) t1 t2"
        "nt_nItems t2 = nt_nItems t1"
        "pit_entries p2 = (pit_entries p)(pit_next p \<mapsto> (newPitEntry i)\<lparr>pe_nameTreeEntry := Some r\<rparr>)"
        using insertPitEntry_ok[OF inv1 L(4) _ refl] False by blast
      then have "findOrInsert cx i allow (t, p) = Some (t2, p2\<lparr>pit_nItems := pit_nItems p2 + 1\<rparr>, Some (pit_next p), True)"
        using L(1) e(1) found none True by (simp add: findOrInsert_def key Let_def)
      then show ?thesis
        using I tables_frame_trans[OF fr1 I(3)] L(5) klen False True by auto
    next
      case allow: False
      then show ?thesis
        using inv1 fr1 L(1,5) klen e(1) found none False by (auto simp: findOrInsert_def key)
    qed
  qed
qed

section \<open>Changes of an entry\<close>

lemma pit_update_inv:
  assumes inv: "pit_inv cx (t, p)"
    and g: "\<And>pe. pe_interest (g pe) = pe_interest pe" "\<And>pe. pe_nameTreeEntry (g pe) = pe_nameTreeEntry pe"
      "\<And>pe. pit_entries p x = Some pe \<Longrightarrow> pe_wf pe \<Longrightarrow> pe_wf (g pe)"
  shows "pit_inv cx (t, pit_update x g p)"
proof -
  let ?p = "pit_update x g p"
  have ents: "pit_entries ?p y = (if y = x then map_option g (pit_entries p x) else pit_entries p y)" for y
    by (simp add: pit_update_def)
  have att: "attached ?p y pe r \<longleftrightarrow> (\<exists>pe0. attached p y pe0 r \<and> pe = (if y = x then g pe0 else pe0))" for y pe r
    unfolding attached_def ents by (auto simp: g(2))
  have some: "(\<exists>pe. attached ?p y pe r) \<longleftrightarrow> (\<exists>pe. attached p y pe r)" for y r
    unfolding att by auto
  have keep: "\<exists>pe0. attached p y pe0 r \<and> pe_interest pe = pe_interest pe0" if "attached ?p y pe r" for y pe r
    using that unfolding att by (auto simp: g(1))
  show ?thesis
    unfolding pit_inv_def fst_conv snd_conv
  proof (intro conjI allI impI)
    show "nt_inv (cx_wire cx) t"
      by (rule pit_invD(1)[OF inv])
  next
    fix r show "distinct (pit_list t r)"
      by (rule pit_invD(2)[OF inv])
    fix y show "y \<in> set (pit_list t r) \<longleftrightarrow> (\<exists>pe. attached ?p y pe r)"
      unfolding some by (rule pit_invD(3)[OF inv])
  next
    fix y pe r assume "attached ?p y pe r"
    from keep[OF this] show "nt_prefix t r = Some (pit_key (pe_name pe))"
      using pit_invD(4)[OF inv] by auto
  next
    fix y pe r z pe' r' assume a: "attached ?p y pe r" "attached ?p z pe' r'" and "pe_name pe = pe_name pe'"
      "i_selectors (pe_interest pe) = i_selectors (pe_interest pe')"
    with keep[OF a(1)] keep[OF a(2)] show "y = z"
      using pit_invD(5)[OF inv] by metis
  next
    fix y pe assume y: "pit_entries ?p y = Some pe"
    then show "y < pit_next ?p" "pe_wf pe"
      using pit_invD(6,7)[OF inv] g(3) unfolding ents by (auto simp: pit_update_def split: if_splits)
  next
    have "{y. \<exists>pe r. attached ?p y pe r} = {y. \<exists>pe r. attached p y pe r}"
      using some by blast
    then show "pit_nItems ?p = of_nat (card {y. \<exists>pe r. attached ?p y pe r})"
      using pit_invD(8)[OF inv] by (simp add: pit_update_def)
  qed
qed

lemma pe_wf_insertOrUpdateInRecord:
  assumes "pe_wf pe" and "i_name i = pe_name pe"
  shows "pe_wf (insertOrUpdateInRecord cx now face i pe)"
proof -
  have faces: "map ir_face (update_first (\<lambda>r. ir_face r = face) (update_inRecord cx now i) rs) = map ir_face rs" for rs
    by (rule map_update_first) (simp add: update_inRecord_def)
  have ints: "\<exists>i. ir_interest r = Some i \<and> i_name i = pe_name pe"
    if "r \<in> set (update_first (\<lambda>r. ir_face r = face) (update_inRecord cx now i) rs)"
      "\<And>r. r \<in> set rs \<Longrightarrow> ir_face r \<noteq> face \<Longrightarrow> \<exists>i. ir_interest r = Some i \<and> i_name i = pe_name pe"
      "distinct (map ir_face rs)" for r rs
    using that set_update_first[OF that(3), of face] assms(2) by (auto simp: update_inRecord_def)
  have new: "getInRecord face pe = None \<longleftrightarrow> face \<notin> ir_face ` set (pe_inRecords pe)"
    by (auto simp: getInRecord_def find_None_all)
  show ?thesis
  proof (cases "getInRecord face pe")
    case None
    then have "face \<notin> ir_face ` set (pe_inRecords pe)"
      using new by simp
    then show ?thesis
      using assms None unfolding pe_wf_def insertOrUpdateInRecord_def Let_def
      by (auto simp: newInRecord_def update_inRecord_def)
  next
    case (Some r0)
    have d: "distinct (map ir_face (pe_inRecords pe))"
      using assms(1) by (simp add: pe_wf_def)
    have "\<exists>i. ir_interest r = Some i \<and> i_name i = pe_name pe" if "r \<in> set (pe_inRecords pe)" for r
      using that assms(1) by (auto simp: pe_wf_def)
    with ints[OF _ _ d] Some d assms show ?thesis
      unfolding pe_wf_def insertOrUpdateInRecord_def Let_def by (simp add: faces)
  qed
qed

lemma pe_wf_insertOrUpdateOutRecord:
  assumes "pe_wf pe"
  shows "pe_wf (insertOrUpdateOutRecord cx now face i pe)"
proof -
  have faces: "map or_face (update_first (\<lambda>r. or_face r = face) (update_outRecord cx now i) rs) = map or_face rs" for rs
    by (rule map_update_first) (simp add: update_outRecord_def)
  have new: "getOutRecord face pe = None \<longleftrightarrow> face \<notin> or_face ` set (pe_outRecords pe)"
    by (auto simp: getOutRecord_def find_None_all)
  show ?thesis
    using assms new unfolding pe_wf_def insertOrUpdateOutRecord_def Let_def
    by (auto simp: faces newOutRecord_def)
qed

lemma pe_wf_deleteInRecord: "pe_wf pe \<Longrightarrow> pe_wf (deleteInRecord face pe)"
  unfolding pe_wf_def deleteInRecord_def
  using remove_first_subset[of "\<lambda>r. ir_face r = face" "pe_inRecords pe"] by (auto intro: remove_first_distinct_map)

lemma pe_wf_deleteOutRecord: "pe_wf pe \<Longrightarrow> pe_wf (deleteOutRecord face pe)"
  unfolding pe_wf_def deleteOutRecord_def by (auto intro: remove_first_distinct_map)

lemma pe_wf_clearInRecords: "pe_wf pe \<Longrightarrow> pe_wf (clearInRecords pe)"
  by (simp add: pe_wf_def clearInRecords_def)

section \<open>Removal\<close>

lemma nt_get_pit_plain:
  assumes inv: "pit_inv cx (t, p)" and a: "attached p x pe r" and "\<not> isEndWithDigest (pe_name pe)"
  shows "nt_get_pit cx pe t = Some (t, r)"
proof -
  have "nt_prefix t r = Some (pe_name pe)"
    using pit_invD(4)[OF inv a] assms(3) by (simp add: pit_key_def)
  then show ?thesis
    using a by (auto simp: nt_get_pit_def attached_def nt_prefix_def)
qed

lemma erasePitEntry_ok:
  assumes inv: "pit_inv cx (t, p)" and a: "attached p x pe r"
  shows "\<exists>t1 p1. erasePitEntry r x (t, p) = Some (t1, p1) \<and>
    pit_inv cx (t1, p1\<lparr>pit_nItems := pit_nItems p1 - 1\<rparr>) \<and> tables_frame (cx_wire cx) t t1 \<and>
    nt_nItems t1 = nt_nItems t \<and> nt_entries t1 r \<noteq> None \<and>
    pit_entries p1 = (pit_entries p)(x \<mapsto> pe\<lparr>pe_nameTreeEntry := None\<rparr>)"
proof -
  note nt = pit_invD(1)[OF inv]
  obtain e where e: "nt_entries t r = Some e"
    using pit_invD(4)[OF inv a] by (auto simp: nt_prefix_def)
  have list: "pit_list t r = e_pitEntries e"
    using e by (simp add: pit_list_def)
  have "x \<in> set (e_pitEntries e)" "distinct (e_pitEntries e)"
    using pit_invD(2)[OF inv, of r] pit_invD(3)[OF inv, of x r] a list by auto
  then obtain xs where xs: "swap_remove x (e_pitEntries e) = Some xs" "distinct xs" "set xs = set (e_pitEntries e) - {x}"
    using swap_remove_ok by metis
  let ?t = "nt_update r (\<lambda>e. e\<lparr>e_pitEntries := xs\<rparr>) t"
  let ?p = "pit_update x (\<lambda>pe. pe\<lparr>pe_nameTreeEntry := None\<rparr>) p"
  let ?q = "?p\<lparr>pit_nItems := pit_nItems ?p - 1\<rparr>"
  have px: "pit_entries p x = Some pe" "pe_nameTreeEntry pe = Some r"
    using a by (simp_all add: attached_def)
  have res: "erasePitEntry r x (t, p) = Some (?t, ?p)"
    using e px xs(1) by (simp add: erasePitEntry_def)
  have ents: "pit_entries ?p = (pit_entries p)(x \<mapsto> pe\<lparr>pe_nameTreeEntry := None\<rparr>)"
    using px by (auto simp: pit_update_def fun_eq_iff)
  have att: "attached ?q y pe' q \<longleftrightarrow> attached p y pe' q \<and> y \<noteq> x" for y pe' q
    using px by (auto simp: attached_def ents)
  have lists: "pit_list ?t q = (if q = r then xs else pit_list t q)" for q
    using e by (auto simp: pit_list_def nt_update_def)
  have prefs: "nt_prefix ?t q = nt_prefix t q" for q
    by (simp add: nt_prefix_def nt_update_def option.map_comp o_def)
  have notin: "y \<in> set (pit_list t q) \<Longrightarrow> y \<noteq> x" if "q \<noteq> r" for y q
    using that pit_invD(3)[OF inv] px by (auto simp: attached_def)
  have nt': "nt_inv (cx_wire cx) ?t"
    by (rule nt_update_inv[OF _ _ _ _ nt]) simp_all
  have set: "{y. \<exists>pe q. attached ?q y pe q} = {y. \<exists>pe q. attached p y pe q} - {x}"
    unfolding att by blast
  have "x \<in> {y. \<exists>pe q. attached p y pe q}"
    using a by blast
  then have card: "card {y. \<exists>pe q. attached p y pe q} = Suc (card ({y. \<exists>pe q. attached p y pe q} - {x}))"
    by (rule card.remove[OF pit_finite[OF inv]])
  have "pit_inv cx (?t, ?q)"
    unfolding pit_inv_def fst_conv snd_conv
  proof (intro conjI allI impI)
    show "nt_inv (cx_wire cx) ?t" by (rule nt')
  next
    fix q
    show "distinct (pit_list ?t q)"
      unfolding lists using pit_invD(2)[OF inv] xs(2) by auto
    fix y
    show "y \<in> set (pit_list ?t q) \<longleftrightarrow> (\<exists>pe. attached ?q y pe q)"
    proof (cases "q = r")
      case True
      then show ?thesis
        unfolding lists att using xs(3) pit_invD(3)[OF inv, of y r] list by auto
    next
      case False
      then show ?thesis
        unfolding lists att using pit_invD(3)[OF inv, of y q] notin[OF False] by auto
    qed
  next
    fix y pe q assume "attached ?q y pe q"
    then show "nt_prefix ?t q = Some (pit_key (pe_name pe))"
      unfolding att prefs using pit_invD(4)[OF inv] by blast
  next
    fix y pe q z pe' q'
    assume "attached ?q y pe q" "attached ?q z pe' q'" "pe_name pe = pe_name pe'"
      "i_selectors (pe_interest pe) = i_selectors (pe_interest pe')"
    then show "y = z"
      unfolding att using pit_invD(5)[OF inv] by blast
  next
    fix y pe' assume "pit_entries ?q y = Some pe'"
    then have y: "y = x \<and> pe' = pe\<lparr>pe_nameTreeEntry := None\<rparr> \<or> pit_entries p y = Some pe'"
      by (auto simp: ents split: if_splits)
    show "y < pit_next ?q"
      using y pit_invD(6)[OF inv] px by (auto simp: pit_update_def)
    show "pe_wf pe'"
      using y pit_invD(7)[OF inv px(1)] pit_invD(7)[OF inv] by (auto simp: pe_wf_def)
  next
    show "pit_nItems ?q = of_nat (card {y. \<exists>pe q. attached ?q y pe q})"
      unfolding set using card pit_invD(8)[OF inv] by (simp add: pit_update_def)
  qed
  moreover have "tables_frame (cx_wire cx) t ?t"
    by (rule tables_frame_pit[OF nt])
  ultimately show ?thesis
    using res ents e by (simp add: nt_update_def)
qed

lemma pit_erase_ok:
  assumes inv: "pit_inv cx (t, p)" and a: "attached p x pe r" and nd: "\<not> isEndWithDigest (pe_name pe)"
  shows "\<exists>t' p'. pit_erase cx x (t, p) = Some (t', p') \<and> pit_inv cx (t', p') \<and>
    tables_frame (cx_wire cx) t t' \<and> nt_nItems t' \<le> nt_nItems t \<and>
    pit_entries p' = (pit_entries p)(x \<mapsto> pe\<lparr>pe_nameTreeEntry := None\<rparr>)"
proof -
  have px: "pit_entries p x = Some pe"
    using a by (simp add: attached_def)
  obtain t1 p1 where E: "erasePitEntry r x (t, p) = Some (t1, p1)"
    "pit_inv cx (t1, p1\<lparr>pit_nItems := pit_nItems p1 - 1\<rparr>)" "tables_frame (cx_wire cx) t t1"
    "nt_nItems t1 = nt_nItems t" "nt_entries t1 r \<noteq> None"
    "pit_entries p1 = (pit_entries p)(x \<mapsto> pe\<lparr>pe_nameTreeEntry := None\<rparr>)"
    using erasePitEntry_ok[OF inv a] by (elim exE conjE)
  note nt1 = pit_invD(1)[OF E(2)]
  obtain e1 where e1: "nt_entries t1 r = Some e1"
    using E(5) by blast
  obtain t2 where t2: "eraseEntryIfEmpty r t1 = Some (t2, isEmpty e1)" "nt_inv (cx_wire cx) t2" "erased r e1 t1 t2"
    using eraseEntryIfEmpty_ok[OF nt1 e1] by blast
  have sh: "nt_shrinks t1 t2" "nt_nItems t2 \<le> nt_nItems t1"
    using t2(3) by (simp_all add: erased_def)
  let ?p = "p1\<lparr>pit_nItems := pit_nItems p1 - 1\<rparr>"
  have "pit_erase cx x (t, p) = Some (t2, ?p)"
    using px nt_get_pit_plain[OF inv a nd] E(1) t2(1) by (simp add: pit_erase_def)
  moreover have "pit_inv cx (t2, ?p)"
    by (rule pit_inv_frame[OF E(2) t2(2) pit_frame_shrinks[OF sh(1)]])
  moreover have "tables_frame (cx_wire cx) t t2"
    by (rule tables_frame_trans[OF E(3) tables_frame_shrinks[OF nt1 t2(2) sh(1)]])
  ultimately show ?thesis
    using E(4,6) sh(2) by simp
qed

text \<open>An entry whose name ends with a digest hangs off the name without it, but erasing goes
  through the entry of the full name, which the lookup creates, and fails its assertion.\<close>

lemma pit_erase_digest:
  assumes inv: "pit_inv cx (t, p)" and a: "attached p x pe r" and d: "isEndWithDigest (pe_name pe)"
    and cap: "nt_nItems t + length (pe_name pe) + 1 \<le> maxItems"
  shows "pit_erase cx x (t, p) = None"
proof -
  have px: "pit_entries p x = Some pe" "pe_nameTreeEntry pe = Some r"
    using a by (simp_all add: attached_def)
  obtain n c where n: "pe_name pe = n @ [c]" "isImplicitSha256Digest c"
    using d by (cases "pe_name pe" rule: rev_cases) (auto simp: isEndWithDigest_def)
  obtain e where e: "nt_entries t r = Some e" "e_prefix e = n"
    using pit_invD(4)[OF inv a] d n(1) by (auto simp: pit_key_def nt_prefix_def)
  obtain t1 r1 where L: "nt_lookup (cx_wire cx) (pe_name pe) t = Some (t1, r1)" "nt_inv (cx_wire cx) t1"
    "nt_grows t t1" "nt_prefix t1 r1 = Some (pe_name pe)"
    using nt_lookup_ok[OF pit_invD(1)[OF inv] cap] by blast
  have "nt_prefix t1 r = Some n"
    using nt_grows_prefix[OF L(3)] e by (simp add: nt_prefix_def)
  then have "r1 \<noteq> r"
    using L(4) n(1) by auto
  then show ?thesis
    using px e L(1) n by (auto simp: pit_erase_def nt_get_pit_def erasePitEntry_def split: option.splits)
qed

section \<open>Matching Data\<close>

definition data_match :: "ndn_cxx \<Rightarrow> data \<Rightarrow> pit \<Rightarrow> pit_ref \<Rightarrow> bool" where
  "data_match cx d p x \<longleftrightarrow> (case pit_entries p x of None \<Rightarrow> False | Some pe \<Rightarrow> cx_matchesData cx (pe_interest pe) d)"

lemma pit_matches_at_ok:
  "(\<And>x. x \<in> set xs \<Longrightarrow> pit_entries p x \<noteq> None) \<Longrightarrow>
   pit_matches_at cx d p xs = Some (filter (data_match cx d p) xs)"
proof (induction xs)
  case (Cons x xs)
  have "pit_entries p x \<noteq> None"
    using Cons.prems list.set_intros(1) by metis
  then obtain pe where "pit_entries p x = Some pe"
    by blast
  with Cons show ?case
    by (simp add: data_match_def)
qed simp

lemma data_matches_loop_ok:
  assumes inv: "pit_inv cx (t, p)"
  shows "(\<And>r. r \<in> set rs \<Longrightarrow> nt_entries t r \<noteq> None) \<Longrightarrow>
    data_matches_loop cx d (t, p) rs = Some (concat (map (\<lambda>r. filter (data_match cx d p) (pit_list t r)) rs))"
proof (induction rs)
  case (Cons r rs)
  have "nt_entries t r \<noteq> None"
    using Cons.prems list.set_intros(1) by metis
  then obtain e where e: "nt_entries t r = Some e"
    by blast
  then have list: "pit_list t r = e_pitEntries e"
    by (simp add: pit_list_def)
  have "pit_entries p x \<noteq> None" if "x \<in> set (pit_list t r)" for x
    using that pit_invD(3)[OF inv, of x r] by (auto simp: attached_def)
  then have "pit_matches_at cx d p (pit_list t r) = Some (filter (data_match cx d p) (pit_list t r))"
    by (rule pit_matches_at_ok)
  with Cons e list show ?case
    by simp
qed simp

lemma matches_distinct:
  assumes "nt_inv wire t"
  shows "distinct (matches wire n t)"
proof -
  have "sorted_wrt (\<lambda>r r'. r \<noteq> r') (matches wire n t)"
    by (rule sorted_wrt_mono_rel[OF _ matches_sorted[OF assms]]) auto
  then show ?thesis
    by (rule sorted_wrt_neq_distinct)
qed

lemma findAllDataMatches_ok:
  assumes inv: "pit_inv cx (t, p)" and dist: "prefix_hashes_distinct (cx_wire cx) (d_name d)"
  shows "\<exists>xs. findAllDataMatches cx d (t, p) = Some xs \<and> distinct xs \<and>
    (\<forall>x. x \<in> set xs \<longleftrightarrow> (\<exists>pe r. attached p x pe r \<and> prefix (pit_key (pe_name pe)) (d_name d) \<and>
       cx_matchesData cx (pe_interest pe) d))"
proof -
  note nt = pit_invD(1)[OF inv]
  let ?rs = "filter (selected hasPitEntries t) (matches (cx_wire cx) (d_name d) t)"
  let ?xs = "concat (map (\<lambda>r. filter (data_match cx d p) (pit_list t r)) ?rs)"
  have sel: "selected hasPitEntries t r \<longleftrightarrow> pit_list t r \<noteq> []" for r
    by (simp add: selected_def hasPitEntries_def pit_list_def split: option.split)
  have live: "nt_entries t r \<noteq> None" if "r \<in> set ?rs" for r
    using that by (auto simp: selected_def split: option.splits)
  have mem: "r \<in> set ?rs \<longleftrightarrow> pit_list t r \<noteq> [] \<and> (\<exists>q. nt_prefix t r = Some q \<and> prefix q (d_name d))" for r
    using in_matches[OF nt, of r "d_name d"] sel by auto
  have "data_matches_loop cx d (t, p) ?rs = Some ?xs"
    by (rule data_matches_loop_ok[OF inv live])
  then have "findAllDataMatches cx d (t, p) = Some ?xs"
    unfolding findAllDataMatches_def fst_conv findAllMatches_ok[OF nt dist] by simp
  moreover have "distinct ?xs"
  proof -
    have r1: "r = r'" if "x \<in> set (pit_list t r)" "x \<in> set (pit_list t r')" for x r r'
      using that pit_invD(3)[OF inv] by (auto simp: attached_def)
    have "distinct (concat (map (\<lambda>r. filter (data_match cx d p) (pit_list t r)) rs))" if "distinct rs" for rs
      using that
    proof (induction rs)
      case (Cons r rs)
      then show ?case
        using r1 pit_invD(2)[OF inv] by (auto simp: distinct_filter)
    qed simp
    then show ?thesis
      using matches_distinct[OF nt] by simp
  qed
  moreover have "x \<in> set ?xs \<longleftrightarrow> (\<exists>pe r. attached p x pe r \<and> prefix (pit_key (pe_name pe)) (d_name d) \<and>
       cx_matchesData cx (pe_interest pe) d)" for x
  proof
    assume "x \<in> set ?xs"
    then obtain r where r: "r \<in> set ?rs" "x \<in> set (pit_list t r)" "data_match cx d p x"
      by auto
    then obtain pe where a: "attached p x pe r"
      using pit_invD(3)[OF inv] by blast
    then show "\<exists>pe r. attached p x pe r \<and> prefix (pit_key (pe_name pe)) (d_name d) \<and> cx_matchesData cx (pe_interest pe) d"
      using mem r(1,3) pit_invD(4)[OF inv a] by (auto simp: data_match_def attached_def)
  next
    assume "\<exists>pe r. attached p x pe r \<and> prefix (pit_key (pe_name pe)) (d_name d) \<and> cx_matchesData cx (pe_interest pe) d"
    then obtain pe r where a: "attached p x pe r" "prefix (pit_key (pe_name pe)) (d_name d)"
      "cx_matchesData cx (pe_interest pe) d"
      by blast
    then have x: "x \<in> set (pit_list t r)" "data_match cx d p x"
      using pit_invD(3)[OF inv] by (auto simp: data_match_def attached_def)
    then have "pit_list t r \<noteq> []"
      by auto
    then have "r \<in> set ?rs"
      using mem pit_invD(4)[OF inv a(1)] a(2) by blast
    with x show "x \<in> set ?xs"
      by auto
  qed
  ultimately show ?thesis
    by blast
qed

section \<open>Properties\<close>

lemma Pit_inv: "power2 k \<Longrightarrow> pit_inv cx (NameTree k, Pit)"
proof -
  have none: "attached Pit x pe r \<longleftrightarrow> False" for x pe r
    by (simp add: attached_def Pit_def)
  have lists: "pit_list (NameTree k) r = []" for r
    by (simp add: pit_list_def NameTree_def)
  assume "power2 k"
  then show ?thesis
    unfolding pit_inv_def fst_conv snd_conv none lists by (simp add: NameTree_inv) (simp add: Pit_def)
qed

text \<open>C34. Finding or inserting a PIT entry always returns.  If the table has an entry for the
  name and selectors of the Interest, that entry (there is only one) is returned and the PIT
  is unchanged; otherwise, if insertion is allowed, a new entry without records is added for
  the Interest and no other entry changes.  The table stays well formed and the tables that
  share the name tree are not affected.\<close>

theorem pit_findOrInsert_spec:
  assumes "pit_inv cx (t, p)" and "nt_nItems t + length (i_name i) + 1 \<le> maxItems"
  shows "\<exists>t' p' res b. findOrInsert cx i allow (t, p) = Some (t', p', res, b) \<and> pit_inv cx (t', p') \<and>
    tables_frame (cx_wire cx) t t' \<and>
    (if \<exists>x. pit_has p i x then p' = p \<and> b = False \<and> (\<exists>x. res = Some x \<and> pit_has p i x)
     else b = True \<and>
       (if allow then \<exists>r. res = Some (pit_next p) \<and>
          pit_entries p' = (pit_entries p)(pit_next p \<mapsto> (newPitEntry i)\<lparr>pe_nameTreeEntry := Some r\<rparr>)
        else res = None \<and> p' = p))"
  using findOrInsert_ok[OF assms, of allow] by (elim exE conjE) (intro exI conjI)

definition cx_example :: ndn_cxx where
  "cx_example = \<lparr>cx_wire = tlv, cx_matchesData = (\<lambda>i d. prefix (i_name i) (fullName d)),
     cx_DEFAULT_INTEREST_LIFETIME = 4000\<rparr>"

definition interest_example :: "name \<Rightarrow> interest" where
  "interest_example n = \<lparr>i_name = n, i_nonce = 7,
     i_selectors = \<lparr>childSelector = -1, mustBeFresh = False, otherSelectors = []\<rparr>,
     i_lifetime = -1, i_link = NoLink, i_selectedDelegation = None, i_nextHopFaceId = None\<rparr>"

theorem pit_findOrInsert_spec_witness:
  "\<exists>t' p'. findOrInsert cx_example (interest_example [Generic [97]]) True (NameTree 8, Pit) = Some (t', p', Some 0, True) \<and>
     pit_inv cx_example (t', p')"
  using pit_findOrInsert_spec[OF Pit_inv[OF power2_8], of "interest_example [Generic [97]]" cx_example True]
  by (auto simp: NameTree_def maxItems_def interest_example_def pit_has_def attached_def Pit_def)

text \<open>C35. Erasing a PIT entry whose name does not end with a digest always returns, detaches
  exactly this entry, keeps the table well formed and does not affect the other tables; for a
  name that ends with a digest it always fails an assertion.\<close>

theorem pit_erase_spec:
  assumes "pit_inv cx (t, p)" and "attached p x pe r" and "nt_nItems t + length (pe_name pe) + 1 \<le> maxItems"
  shows "if isEndWithDigest (pe_name pe) then pit_erase cx x (t, p) = None
    else \<exists>t' p'. pit_erase cx x (t, p) = Some (t', p') \<and> pit_inv cx (t', p') \<and>
      tables_frame (cx_wire cx) t t' \<and> pit_entries p' = (pit_entries p)(x \<mapsto> pe\<lparr>pe_nameTreeEntry := None\<rparr>)"
  using pit_erase_ok[OF assms(1,2)] pit_erase_digest[OF assms(1,2) _ assms(3)] by auto

lemma pit_example:
  "\<exists>t p r. findOrInsert cx_example (interest_example n) True (NameTree 8, Pit) = Some (t, p, Some 0, True) \<and>
     pit_inv cx_example (t, p) \<and> nt_nItems t \<le> length n + 1 \<and>
     pit_entries p = [0 \<mapsto> (newPitEntry (interest_example n))\<lparr>pe_nameTreeEntry := Some r\<rparr>]"
  if "length n \<le> 100"
proof -
  have "\<not> pit_has Pit (interest_example n) x" for x
    by (simp add: pit_has_def attached_def Pit_def)
  then show ?thesis
    using findOrInsert_ok[OF Pit_inv[OF power2_8], of "interest_example n" cx_example True] that
    by (auto simp: NameTree_def maxItems_def interest_example_def Pit_def)
qed

theorem pit_erase_spec_witness:
  "\<exists>t p. findOrInsert cx_example (interest_example [Generic [97], ImplicitDigest [1]]) True (NameTree 8, Pit) =
      Some (t, p, Some 0, True) \<and> pit_erase cx_example 0 (t, p) = None"
proof -
  let ?i = "interest_example [Generic [97], ImplicitDigest [1]]"
  obtain t p r where E: "findOrInsert cx_example ?i True (NameTree 8, Pit) = Some (t, p, Some 0, True)"
    "pit_inv cx_example (t, p)" "nt_nItems t \<le> 3"
    "pit_entries p = [0 \<mapsto> (newPitEntry ?i)\<lparr>pe_nameTreeEntry := Some r\<rparr>]"
    using pit_example[of "[Generic [97], ImplicitDigest [1]]"] by auto
  let ?pe = "(newPitEntry ?i)\<lparr>pe_nameTreeEntry := Some r\<rparr>"
  have "attached p 0 ?pe r"
    by (simp add: attached_def E(4))
  moreover have "isEndWithDigest (pe_name ?pe)" "nt_nItems t + length (pe_name ?pe) + 1 \<le> maxItems"
    using E(3) by (simp_all add: newPitEntry_def interest_example_def isEndWithDigest_def maxItems_def)
  ultimately show ?thesis
    using E(1) pit_erase_spec[OF E(2)] by auto
qed

text \<open>C36. Matching Data: when Data can only match Interests whose name is a prefix of its full
  name, and the prefixes of its name have different hashes, the matches found are exactly the
  attached PIT entries whose Interest matches the Data, each once.\<close>

theorem pit_data_matches_spec:
  assumes inv: "pit_inv cx (t, p)" and dist: "prefix_hashes_distinct (cx_wire cx) (d_name d)"
    and cx: "\<And>i. cx_matchesData cx i d \<Longrightarrow> prefix (i_name i) (fullName d)"
  shows "\<exists>xs. findAllDataMatches cx d (t, p) = Some xs \<and> distinct xs \<and>
    (\<forall>x. x \<in> set xs \<longleftrightarrow> (\<exists>pe r. attached p x pe r \<and> cx_matchesData cx (pe_interest pe) d))"
proof -
  have "prefix (pit_key (i_name i)) (d_name d)" if "cx_matchesData cx i d" for i
  proof -
    have pre: "prefix (i_name i) (d_name d @ [ImplicitDigest (d_digest d)])"
      using cx[OF that] by (simp add: fullName_def)
    show ?thesis
    proof (cases "i_name i = d_name d @ [ImplicitDigest (d_digest d)]")
      case True
      then show ?thesis by (simp add: pit_key_def isEndWithDigest_def)
    next
      case False
      then have "prefix (i_name i) (d_name d)"
        using pre by (simp add: prefix_snoc)
      then show ?thesis
        by (auto simp: pit_key_def intro: prefix_order.trans[OF prefixeq_butlast])
    qed
  qed
  then show ?thesis
    using findAllDataMatches_ok[OF inv dist] by metis
qed

definition data_example :: "name \<Rightarrow> data" where
  "data_example n = \<lparr>d_name = n, d_digest = [1], d_freshness = -1, d_noCache = False\<rparr>"

theorem pit_data_matches_spec_witness:
  "\<exists>t p xs. findOrInsert cx_example (interest_example [Generic [97]]) True (NameTree 8, Pit) =
      Some (t, p, Some 0, True) \<and>
    findAllDataMatches cx_example (data_example [Generic [97], Generic [98]]) (t, p) = Some xs \<and> set xs = {0}"
proof -
  let ?i = "interest_example [Generic [97]]" and ?d = "data_example [Generic [97], Generic [98]]"
  obtain t p r where E: "findOrInsert cx_example ?i True (NameTree 8, Pit) = Some (t, p, Some 0, True)"
    "pit_inv cx_example (t, p)"
    "pit_entries p = [0 \<mapsto> (newPitEntry ?i)\<lparr>pe_nameTreeEntry := Some r\<rparr>]"
    using pit_example[of "[Generic [97]]"] by auto
  have dist: "prefix_hashes_distinct (cx_wire cx_example) (d_name ?d)"
    by code_simp
  have match: "cx_matchesData cx_example i ?d = prefix (i_name i) (fullName ?d)" for i
    by (simp add: cx_example_def)
  obtain xs where xs: "findAllDataMatches cx_example ?d (t, p) = Some xs"
    "\<forall>x. x \<in> set xs \<longleftrightarrow> (\<exists>pe r. attached p x pe r \<and> cx_matchesData cx_example (pe_interest pe) ?d)"
    using pit_data_matches_spec[OF E(2) dist] match by auto
  have "(\<exists>pe r. attached p x pe r \<and> cx_matchesData cx_example (pe_interest pe) ?d) \<longleftrightarrow> x = 0" for x
    unfolding match attached_def E(3)
    by (simp add: newPitEntry_def interest_example_def data_example_def fullName_def)
  then have "set xs = {0}"
    using xs(2) by auto
  with E(1) xs(1) show ?thesis
    by blast
qed

text \<open>Looking for the PIT entry of a Nack without inserting one still inserts the name into
  the name tree: nothing is attached to it and nothing removes it later.\<close>

theorem pit_find_leaves_empty_entry:
  "case findOrInsert cx_example (interest_example [Generic [97]]) False (NameTree 8, Pit) of
     None \<Rightarrow> False
   | Some (t, p, res, _) \<Rightarrow> res = None \<and> nt_nItems t = 2 \<and>
       (case findExactMatch tlv [Generic [97]] t of
          None \<Rightarrow> False
        | Some r \<Rightarrow> map_option isEmpty (nt_entries t r) = Some True)"
  by code_simp

end
