(* ===== verification/Fib_Correct.thy ===== *)
theory Fib_Correct
  imports Fib_Table
begin

text \<open>
  Correctness of the FIB.  The invariant links every FIB entry with the entry of the name tree
  it hangs off, keeps the next hops of an entry sorted by cost and one for a face, and makes
  the item count the number of entries.  The operations are shown to implement those of a
  map from names to next hops, the view \<open>fib_view\<close>, with a longest prefix match.
\<close>

section \<open>Next hops\<close>

definition nexthops_ok :: "next_hop list \<Rightarrow> bool" where
  "nexthops_ok hs \<longleftrightarrow> distinct (map nh_face hs) \<and> sorted (map nh_cost hs)"

lemma sort_nexthops: "distinct (map nh_face hs) \<Longrightarrow> nexthops_ok (sort_key nh_cost hs)"
  unfolding nexthops_ok_def by (simp add: distinct_map)

lemma addNextHop_frame [simp]:
  "fe_prefix (addNextHop face cost e) = fe_prefix e"
  "fe_nameTreeEntry (addNextHop face cost e) = fe_nameTreeEntry e"
  by (simp_all add: addNextHop_def sortNextHops_def Let_def)

lemma removeNextHop_frame [simp]:
  "fe_prefix (removeNextHop face e) = fe_prefix e"
  "fe_nameTreeEntry (removeNextHop face e) = fe_nameTreeEntry e"
  by (simp_all add: removeNextHop_def)

lemma addNextHop_ok:
  assumes "distinct (map nh_face (fe_nextHops e))"
  shows "nexthops_ok (fe_nextHops (addNextHop face cost e))"
proof -
  have faces: "map nh_face (update_first (\<lambda>nexthop. nh_face nexthop = face)
      (\<lambda>nexthop. nexthop\<lparr>nh_cost := cost\<rparr>) hs) = map nh_face hs" for hs face
    by (rule map_update_first) simp
  show ?thesis
    unfolding addNextHop_def Let_def sortNextHops_def
    using assms by (auto intro!: sort_nexthops simp: faces findNextHop_def find_None_all)
qed

text \<open>\<^verbatim>\<open>addNextHop\<close> sets the cost of the face, inserting it if need be, and changes no other.\<close>

lemma addNextHop_set:
  assumes "distinct (map nh_face (fe_nextHops e))"
  shows "set (fe_nextHops (addNextHop face cost e)) =
    insert \<lparr>nh_face = face, nh_cost = cost\<rparr> {h \<in> set (fe_nextHops e). nh_face h \<noteq> face}"
proof (cases "findNextHop face e")
  case None
  let ?hs = "fe_nextHops e @ [\<lparr>nh_face = face, nh_cost = 0\<rparr>]"
  have new: "\<forall>h \<in> set (fe_nextHops e). nh_face h \<noteq> face"
    using None by (simp add: findNextHop_def find_None_all)
  then have dist: "distinct (map nh_face ?hs)"
    using assms by auto
  have "{x \<in> set ?hs. nh_face x = face} = {\<lparr>nh_face = face, nh_cost = 0\<rparr>}"
    "{x \<in> set ?hs. nh_face x \<noteq> face} = {h \<in> set (fe_nextHops e). nh_face h \<noteq> face}"
    using new by auto
  with set_update_first[OF dist, of face] None show ?thesis
    by (simp add: addNextHop_def Let_def sortNextHops_def)
next
  case (Some h)
  then have "h \<in> set (fe_nextHops e)" "nh_face h = face"
    using find_Some_in unfolding findNextHop_def by fast+
  then have "{x \<in> set (fe_nextHops e). nh_face x = face} = {h}"
    using assms by (auto simp: distinct_map inj_on_def)
  moreover have "h\<lparr>nh_cost := cost\<rparr> = \<lparr>nh_face = face, nh_cost = cost\<rparr>"
    using \<open>nh_face h = face\<close> by (cases h) simp
  ultimately show ?thesis
    using set_update_first[OF assms, of face] Some
    by (simp add: addNextHop_def Let_def sortNextHops_def)
qed

lemma remove_first_filter:
  "distinct (map k xs) \<Longrightarrow> remove_first (\<lambda>x. k x = a) xs = filter (\<lambda>x. k x \<noteq> a) xs"
  by (induction xs) (auto intro!: filter_True[symmetric] simp: image_iff dest: sym)

lemma removeNextHop_nextHops:
  assumes "distinct (map nh_face (fe_nextHops e))"
  shows "fe_nextHops (removeNextHop face e) = filter (\<lambda>h. nh_face h \<noteq> face) (fe_nextHops e)"
  using remove_first_filter[OF assms] by (simp add: removeNextHop_def)

lemma nexthops_ok_filter: "nexthops_ok hs \<Longrightarrow> nexthops_ok (filter P hs)"
  by (simp add: nexthops_ok_def distinct_map_filter sorted_filter)

section \<open>Invariant\<close>

definition fib_objects :: "fib \<Rightarrow> nat \<Rightarrow> (name \<times> nt_ref option) option" where
  "fib_objects f x = map_option (\<lambda>fe. (fe_prefix fe, fe_nameTreeEntry fe)) (fib_entries f x)"

abbreviation fib_slots :: "(component \<Rightarrow> byte list) \<Rightarrow> name_tree \<Rightarrow> name \<Rightarrow> fib_ref option" where
  "fib_slots \<equiv> slot_at e_fibEntry"

definition fib_inv :: "(component \<Rightarrow> byte list) \<Rightarrow> name_tree \<times> fib \<Rightarrow> bool" where
  "fib_inv wire s \<longleftrightarrow> linked e_fibEntry wire (fst s) (fib_objects (snd s)) \<and>
     fib_entries (snd s) s_emptyEntry = Some (newFibEntry []) \<and> 
     (\<forall>x fe. fib_entries (snd s) x = Some fe \<longrightarrow> x < fib_next (snd s) \<and> nexthops_ok (fe_nextHops fe)) \<and>
     fib_nItems (snd s) = of_nat (card (dom (fib_slots wire (fst s))))"

text \<open>The FIB a client sees: a map from names to next hops.\<close>

definition fib_view :: "(component \<Rightarrow> byte list) \<Rightarrow> name_tree \<times> fib \<Rightarrow> name \<Rightarrow> next_hop list option" where
  "fib_view wire s n = Option.bind (fib_slots wire (fst s) n)
     (\<lambda>x. map_option fe_nextHops (fib_entries (snd s) x))"

lemma fib_inv_linked: "fib_inv wire s \<Longrightarrow> linked e_fibEntry wire (fst s) (fib_objects (snd s))"
  by (simp add: fib_inv_def)

lemma fib_slot_object:
  assumes "fib_inv wire (t, f)" and "fib_slots wire t n = Some x"
  obtains fe r where "fib_entries f x = Some fe" "fe_prefix fe = n" "fe_nameTreeEntry fe = Some r"
    "nt_prefix t r = Some n"
proof -
  have l: "linked e_fibEntry wire t (fib_objects f)"
    using fib_inv_linked[OF assms(1)] by simp
  obtain r where "fib_objects f x = Some (n, Some r)"
    using linked_slot[OF l assms(2)] by blast
  moreover from this obtain fe where "fib_entries f x = Some fe" "fe_prefix fe = n" "fe_nameTreeEntry fe = Some r"
    by (auto simp: fib_objects_def)
  ultimately show ?thesis
    using linked_object[OF l] by (intro that) auto
qed

lemma fib_view_dom: "fib_inv wire s \<Longrightarrow> dom (fib_view wire s) = dom (fib_slots wire (fst s))"
proof (cases s)
  case (Pair t f)
  assume inv: "fib_inv wire s"
  have "fib_view wire s n = None \<longleftrightarrow> fib_slots wire t n = None" for n
  proof (cases "fib_slots wire t n")
    case (Some x)
    then show ?thesis
      using fib_slot_object[OF inv[unfolded Pair] Some] by (auto simp: fib_view_def Pair)
  qed (simp add: fib_view_def Pair)
  then show ?thesis
    unfolding dom_def Pair by auto
qed

lemma fib_inv_frame:
  assumes "fib_inv wire (t, f)" and "nt_inv wire t'" and "slot_frame e_fibEntry wire t t'"
  shows "fib_inv wire (t', f) \<and> fib_view wire (t', f) = fib_view wire (t, f)"
proof -
  have l: "linked e_fibEntry wire t (fib_objects f)"
    using fib_inv_linked[OF assms(1)] by simp
  have eq: "fib_slots wire t' = fib_slots wire t"
    by (rule slot_frame_at[OF assms(3)])
  then have "fib_view wire (t', f) = fib_view wire (t, f)"
    by (intro ext) (simp add: fib_view_def)
  with linked_frame[OF l assms(2,3)] assms(1) eq show ?thesis
    by (simp add: fib_inv_def)
qed

lemma fib_inv_nt: "fib_inv wire (t, f) \<Longrightarrow> nt_inv wire t"
  using linked_inv[OF fib_inv_linked] by fastforce

section \<open>Operations\<close>

lemma fib_objects_update:
  assumes "\<And>fe. fe_prefix (g fe) = fe_prefix fe" "\<And>fe. fe_nameTreeEntry (g fe) = fe_nameTreeEntry fe"
  shows "fib_objects (fib_update x g f) = fib_objects f"
  by (auto simp: fib_objects_def fib_update_def fun_eq_iff option.map_comp o_def assms)

lemma card_fun_upd_new:
  "finite (dom m) \<Longrightarrow> m n = None \<Longrightarrow> card (dom (m(n \<mapsto> x))) = Suc (card (dom m))"
  by (simp add: domIff)

lemma fib_below_next:
  "fib_inv wire (t, f) \<Longrightarrow> fib_entries f x = Some fe \<Longrightarrow> x < fib_next f \<and> nexthops_ok (fe_nextHops fe)"
  by (simp add: fib_inv_def)

lemma fib_fresh: "fib_inv wire (t, f) \<Longrightarrow> fib_entries f (fib_next f) = None"
  using fib_below_next by (cases "fib_entries f (fib_next f)") blast+

lemma setFibEntry_new:
  assumes inv: "fib_inv wire (t, f)" and r: "nt_prefix t r = Some n" and none: "fib_slots wire t n = None"
    and f': "f' = f\<lparr>fib_entries := (fib_entries f)(fib_next f \<mapsto> newFibEntry n), fib_next := fib_next f + 1\<rparr>"
  shows "\<exists>t1 f1. setFibEntry r (Some (fib_next f)) (t, f') = Some (t1, f1) \<and>
    fib_inv wire (t1, f1\<lparr>fib_nItems := fib_nItems f1 + 1\<rparr>) \<and> fib_nItems f1 = fib_nItems f \<and>
    t1 = nt_update r (\<lambda>e. e\<lparr>e_fibEntry := Some (fib_next f)\<rparr>) t \<and>
    fib_entries f1 = (fib_entries f)(fib_next f \<mapsto> (newFibEntry n)\<lparr>fe_nameTreeEntry := Some r\<rparr>)"
proof -
  let ?x = "fib_next f"
  let ?t = "nt_update r (\<lambda>e. e\<lparr>e_fibEntry := Some ?x\<rparr>) t"
  let ?f = "fib_update ?x (\<lambda>fe. fe\<lparr>fe_nameTreeEntry := Some r\<rparr>) f'"
  have l: "linked e_fibEntry wire t (fib_objects f)"
    using fib_inv_linked[OF inv] by simp
  obtain e where e: "nt_entries t r = Some e" "e_prefix e = n"
    using r by (auto simp: nt_prefix_def)
  have "e_fibEntry e = None"
    using fib_slot.slot_at_entry[OF linked_inv[OF l] e(1)] e(2) none by simp
  then have res: "setFibEntry r (Some ?x) (t, f') = Some (?t, ?f)"
    using e by (simp add: setFibEntry_def f' newFibEntry_def)
  have fresh: "fib_objects f ?x = None"
    using fib_fresh[OF inv] by (simp add: fib_objects_def)
  have objs: "fib_objects ?f = (fib_objects f)(?x \<mapsto> (n, Some r))"
    by (auto simp: fib_objects_def fib_update_def f' newFibEntry_def fun_eq_iff)
  have "linked e_fibEntry wire ?t (((fib_objects f)(?x \<mapsto> (n, None)))(?x \<mapsto> (n, Some r)))"
    by (rule fib_slot.linked_attach[OF linked_alloc[OF l fresh] r none]) simp
  then have l': "linked e_fibEntry wire ?t (fib_objects ?f)"
    by (simp add: objs)
  have slots: "fib_slots wire ?t = (fib_slots wire t)(n \<mapsto> ?x)"
    by (rule fib_slot.slot_at_put[OF linked_inv[OF l] r])
  have ents: "fib_entries ?f = (fib_entries f)(?x \<mapsto> (newFibEntry n)\<lparr>fe_nameTreeEntry := Some r\<rparr>)"
    by (auto simp: fib_update_def f' fun_eq_iff)
  have ne: "?x \<noteq> s_emptyEntry"
    using inv fib_fresh[OF inv] by (auto simp: fib_inv_def)
  have "fib_inv wire (?t, ?f\<lparr>fib_nItems := fib_nItems ?f + 1\<rparr>)"
    unfolding fib_inv_def fst_conv snd_conv
  proof (intro conjI allI impI)
    show "linked e_fibEntry wire ?t (fib_objects (?f\<lparr>fib_nItems := fib_nItems ?f + 1\<rparr>))"
      using l' by (simp add: fib_objects_def[abs_def])
    show "fib_entries (?f\<lparr>fib_nItems := fib_nItems ?f + 1\<rparr>) s_emptyEntry = Some (newFibEntry [])"
      using ents ne inv by (simp add: fib_inv_def)
    show "fib_nItems (?f\<lparr>fib_nItems := fib_nItems ?f + 1\<rparr>) = of_nat (card (dom (fib_slots wire ?t)))"
      unfolding slots card_fun_upd_new[OF fib_slot.finite_slots[OF linked_inv[OF l]] none]
      using inv by (simp add: fib_inv_def fib_update_def f')
    fix y fe assume "fib_entries (?f\<lparr>fib_nItems := fib_nItems ?f + 1\<rparr>) y = Some fe"
    then have "y = ?x \<and> fe_nextHops fe = [] \<or> fib_entries f y = Some fe"
      using ents by (auto simp: newFibEntry_def split: if_splits)
    then show "y < fib_next (?f\<lparr>fib_nItems := fib_nItems ?f + 1\<rparr>)" "nexthops_ok (fe_nextHops fe)"
      using fib_below_next[OF inv, of y fe] by (auto simp: fib_update_def f' nexthops_ok_def less_Suc_eq)
  qed
  then show ?thesis
    using res ents by (simp add: fib_update_def f')
qed

text \<open>Insertion: an entry with no next hops for the name if there was none.\<close>

lemma fib_insert_ok:
  assumes inv: "fib_inv wire (t, f)" and cap: "nt_nItems t + length n + 1 \<le> maxItems"
  shows "\<exists>t' f' x. fib_insert wire n (t, f) = Some (t', f', x, fib_view wire (t, f) n = None) \<and>
    fib_inv wire (t', f') \<and> fib_slots wire t' n = Some x \<and>
    fib_view wire (t', f') = (if fib_view wire (t, f) n = None then (fib_view wire (t, f))(n \<mapsto> [])
      else fib_view wire (t, f))"
proof -
  have nt: "nt_inv wire t"
    using linked_inv[OF fib_inv_linked[OF inv]] by simp
  obtain t1 r where t1: "nt_lookup wire n t = Some (t1, r)" "nt_inv wire t1" "nt_grows t t1" "nt_prefix t1 r = Some n"
    using nt_lookup_ok[OF nt cap] by blast
  have inv1: "fib_inv wire (t1, f)" and view1: "fib_view wire (t1, f) = fib_view wire (t, f)"
    using fib_inv_frame[OF inv t1(2) fib_slot.slot_frame_grows[OF nt t1(2,3)]] by auto
  obtain e where e: "nt_entries t1 r = Some e" "e_prefix e = n"
    using t1(4) by (auto simp: nt_prefix_def)
  have slot: "fib_slots wire t1 n = e_fibEntry e"
    using fib_slot.slot_at_entry[OF t1(2) e(1)] e(2) by simp
  show ?thesis
  proof (cases "e_fibEntry e")
    case (Some x)
    then have "n \<in> dom (fib_view wire (t1, f))"
      unfolding fib_view_dom[OF inv1] using slot by auto
    then have "fib_view wire (t, f) n \<noteq> None"
      unfolding view1 by blast
    with Some t1(1) e(1) inv1 slot view1 show ?thesis
      by (auto simp: fib_insert_def)
  next
    case None
    then have none: "fib_view wire (t, f) n = None"
      unfolding view1[symmetric] using slot by (simp add: fib_view_def)
    let ?f = "f\<lparr>fib_entries := (fib_entries f)(fib_next f \<mapsto> newFibEntry n), fib_next := fib_next f + 1\<rparr>"
    obtain t2 f2 where s: "setFibEntry r (Some (fib_next f)) (t1, ?f) = Some (t2, f2)"
      "fib_inv wire (t2, f2\<lparr>fib_nItems := fib_nItems f2 + 1\<rparr>)"
      "t2 = nt_update r (\<lambda>e. e\<lparr>e_fibEntry := Some (fib_next f)\<rparr>) t1"
      "fib_entries f2 = (fib_entries f)(fib_next f \<mapsto> (newFibEntry n)\<lparr>fe_nameTreeEntry := Some r\<rparr>)"
      using setFibEntry_new[OF inv1 t1(4) _ refl] slot None by auto
    have slots: "fib_slots wire t2 = (fib_slots wire t1)(n \<mapsto> fib_next f)"
      unfolding s(3) by (rule fib_slot.slot_at_put[OF t1(2,4)])
    have old: "fib_next f \<noteq> y" if my: "fib_slots wire t1 m = Some y" for m y
    proof -
      obtain fe where "fib_entries f y = Some fe"
        using fib_slot_object[OF inv1 my] by blast
      then show ?thesis
        using fib_below_next[OF inv1] by blast
    qed
    have "fib_view wire (t2, f2\<lparr>fib_nItems := fib_nItems f2 + 1\<rparr>) = (fib_view wire (t1, f))(n \<mapsto> [])"
    proof
      fix m show "fib_view wire (t2, f2\<lparr>fib_nItems := fib_nItems f2 + 1\<rparr>) m = ((fib_view wire (t1, f))(n \<mapsto> [])) m"
      proof (cases "fib_slots wire t1 m")
        case (Some y)
        then show ?thesis
          using old[OF Some] by (simp add: fib_view_def slots s(4) newFibEntry_def)
      qed (simp add: fib_view_def slots s(4) newFibEntry_def)
    qed
    moreover have "fib_insert wire n (t, f) = Some (t2, f2\<lparr>fib_nItems := fib_nItems f2 + 1\<rparr>, fib_next f, True)"
      using t1(1) e(1) None s(1) by (simp add: fib_insert_def Let_def)
    ultimately show ?thesis
      using s(2) slots none view1 by simp
  qed
qed

text \<open>Erasing an entry.\<close>

lemma setFibEntry_none:
  assumes inv: "fib_inv wire (t, f)" and r: "nt_prefix t r = Some n" and x: "fib_slots wire t n = Some x"
    and fe: "fib_entries f x = Some fe"
  shows "\<exists>t1 f1. setFibEntry r None (t, f) = Some (t1, f1) \<and>
    fib_inv wire (t1, f1\<lparr>fib_nItems := fib_nItems f1 - 1\<rparr>) \<and>
    fib_slots wire t1 = (fib_slots wire t)(n := None) \<and>
    fib_entries f1 = (fib_entries f)(x \<mapsto> fe\<lparr>fe_nameTreeEntry := None\<rparr>)"
proof -
  let ?t = "nt_update r (\<lambda>e. e\<lparr>e_fibEntry := None\<rparr>) t"
  let ?f = "fib_update x (\<lambda>fe. fe\<lparr>fe_nameTreeEntry := None\<rparr>) f"
  let ?g = "?f\<lparr>fib_nItems := fib_nItems ?f - 1\<rparr>"
  have l: "linked e_fibEntry wire t (fib_objects f)"
    using fib_inv_linked[OF inv] by simp
  obtain e where e: "nt_entries t r = Some e" "e_prefix e = n"
    using r by (auto simp: nt_prefix_def)
  have "e_fibEntry e = Some x"
    using fib_slot.slot_at_entry[OF linked_inv[OF l] e(1)] e(2) x by simp
  then have res: "setFibEntry r None (t, f) = Some (?t, ?f)"
    using e by (simp add: setFibEntry_def)
  obtain r' where "fe_prefix fe = n"
    using fib_slot_object[OF inv x] fe by force
  then have objs: "fib_objects ?f = (fib_objects f)(x \<mapsto> (n, None))"
    using fe by (auto simp: fib_objects_def fib_update_def fun_eq_iff)
  have l': "linked e_fibEntry wire ?t (fib_objects ?f)"
    unfolding objs by (rule fib_slot.linked_detach[OF l r x])
  have slots: "fib_slots wire ?t = (fib_slots wire t)(n := None)"
    by (rule fib_slot.slot_at_put[OF linked_inv[OF l] r])
  have ents: "fib_entries ?f = (fib_entries f)(x \<mapsto> fe\<lparr>fe_nameTreeEntry := None\<rparr>)"
    using fe by (auto simp: fib_update_def fun_eq_iff)
  have fin: "finite (dom (fib_slots wire t))"
    by (rule fib_slot.finite_slots[OF linked_inv[OF l]])
  have card: "card (dom (fib_slots wire t)) = Suc (card (dom (fib_slots wire t) - {n}))"
    using x by (intro card.remove[OF fin]) auto
  have "fib_inv wire (?t, ?g)"
    unfolding fib_inv_def fst_conv snd_conv
  proof (intro conjI allI impI)
    show "linked e_fibEntry wire ?t (fib_objects ?g)"
      using l' by (simp add: fib_objects_def[abs_def])
    show "fib_entries ?g s_emptyEntry = Some (newFibEntry [])"
      using ents inv fe by (auto simp: fib_inv_def newFibEntry_def)
    show "fib_nItems ?g = of_nat (card (dom (fib_slots wire ?t)))"
      unfolding slots using inv card by (simp add: fib_inv_def fib_update_def)
    fix y g assume "fib_entries ?g y = Some g"
    then obtain g0 where "fib_entries f y = Some g0" "fe_nextHops g = fe_nextHops g0"
      using ents fe by (auto split: if_splits)
    then show "y < fib_next ?g" "nexthops_ok (fe_nextHops g)"
      using fib_below_next[OF inv] by (auto simp: fib_update_def)
  qed
  with res slots ents show ?thesis
    by (simp add: fib_update_def)
qed

lemma fib_view_detached:
  assumes inv: "fib_inv wire (t, f)" and x: "fib_slots wire t n = Some x"
    and fe: "fib_entries f x = Some fe"
    and s: "fib_slots wire t1 = (fib_slots wire t)(n := None)"
      "fib_entries f1 = (fib_entries f)(x \<mapsto> fe\<lparr>fe_nameTreeEntry := None\<rparr>)"
  shows "fib_view wire (t1, f1) = (fib_view wire (t, f))(n := None)"
proof
  fix m show "fib_view wire (t1, f1) m = ((fib_view wire (t, f))(n := None)) m"
    using fe by (cases "fib_slots wire t m") (auto simp: fib_view_def s)
qed

lemma fib_erase_nte_ok:
  assumes inv: "fib_inv wire (t, f)" and r: "nt_prefix t r = Some n" and x: "fib_slots wire t n = Some x"
    and fe: "fib_entries f x = Some fe"
  shows "\<exists>t' f'. fib_erase_nte r (t, f) = Some (t', f') \<and> fib_inv wire (t', f') \<and>
    fib_view wire (t', f') = (fib_view wire (t, f))(n := None) \<and>
    fib_slots wire t' = (fib_slots wire t)(n := None) \<and>
    fib_entries f' = (fib_entries f)(x \<mapsto> fe\<lparr>fe_nameTreeEntry := None\<rparr>)"
proof -
  obtain t1 f1 where s: "setFibEntry r None (t, f) = Some (t1, f1)"
    "fib_inv wire (t1, f1\<lparr>fib_nItems := fib_nItems f1 - 1\<rparr>)"
    "fib_slots wire t1 = (fib_slots wire t)(n := None)"
    "fib_entries f1 = (fib_entries f)(x \<mapsto> fe\<lparr>fe_nameTreeEntry := None\<rparr>)"
    using setFibEntry_none[OF inv r x fe] by blast
  let ?f = "f1\<lparr>fib_nItems := fib_nItems f1 - 1\<rparr>"
  have nt: "nt_inv wire t1"
    using linked_inv[OF fib_inv_linked[OF s(2)]] by simp
  obtain e where "nt_entries t r = Some e"
    using r by (auto simp: nt_prefix_def)
  then obtain e1 where e1: "nt_entries t1 r = Some e1"
    using s(1) by (auto simp: setFibEntry_def nt_update_def)
  obtain t2 where t2: "eraseEntryIfEmpty r t1 = Some (t2, isEmpty e1)" "nt_inv wire t2" "nt_shrinks t1 t2"
    using eraseEntryIfEmpty_ok[OF nt e1] unfolding erased_def by blast
  have fin: "fib_inv wire (t2, ?f)" "fib_view wire (t2, ?f) = fib_view wire (t1, ?f)"
    using fib_inv_frame[OF s(2) t2(2) fib_slot.slot_frame_shrinks[OF nt t2(2,3)]] by auto
  have slots: "fib_slots wire t2 = fib_slots wire t1"
    by (rule fib_slot.slot_at_shrinks[OF nt t2(2,3)])
  have "fib_view wire (t1, ?f) = (fib_view wire (t, f))(n := None)"
    by (rule fib_view_detached[OF inv x fe s(3)]) (simp add: s(4))
  moreover have "fib_erase_nte r (t, f) = Some (t2, ?f)"
    using s(1) t2(1) by (simp add: fib_erase_nte_def)
  ultimately show ?thesis
    using fin slots s(3,4) by simp
qed

lemma fib_erase_entry_ok:
  assumes inv: "fib_inv wire (t, f)" and x: "fib_slots wire t n = Some x"
  shows "\<exists>t' f'. fib_erase_entry x (t, f) = Some (t', f') \<and> fib_inv wire (t', f') \<and>
    fib_view wire (t', f') = (fib_view wire (t, f))(n := None) \<and>
    fib_slots wire t' = (fib_slots wire t)(n := None)"
proof -
  obtain fe r where fe: "fib_entries f x = Some fe" "fe_prefix fe = n" "fe_nameTreeEntry fe = Some r"
    "nt_prefix t r = Some n"
    using fib_slot_object[OF inv x] by blast
  from fib_erase_nte_ok[OF inv fe(4) x fe(1)] fe show ?thesis
    by (auto simp: fib_erase_entry_def)
qed

lemma fib_erase_ok:
  assumes inv: "fib_inv wire (t, f)" and "n \<in> nt_names t \<longrightarrow> fib_view wire (t, f) n \<noteq> None"
  shows "\<exists>t' f'. fib_erase wire n (t, f) = Some (t', f') \<and> fib_inv wire (t', f') \<and>
    fib_view wire (t', f') = (fib_view wire (t, f))(n := None)"
proof -
  have nt: "nt_inv wire t"
    using linked_inv[OF fib_inv_linked[OF inv]] by simp
  show ?thesis
  proof (cases "findExactMatch wire n t")
    case None
    then have "fib_view wire (t, f) n = None"
      by (simp add: fib_view_def slot_at_def)
    then have "(fib_view wire (t, f))(n := None) = fib_view wire (t, f)"
      by (auto simp: fun_eq_iff)
    with None inv show ?thesis
      by (simp add: fib_erase_def)
  next
    case (Some r)
    then have r: "nt_prefix t r = Some n"
      using findExactMatch_iff[OF nt] by simp
    then have "n \<in> dom (fib_view wire (t, f))"
      using assms(2) by (auto simp: nt_names_def)
    then obtain x where x: "fib_slots wire t n = Some x"
      unfolding fib_view_dom[OF inv] by auto
    obtain fe where "fib_entries f x = Some fe"
      using fib_slot_object[OF inv x] by blast
    from fib_erase_nte_ok[OF inv r x this] Some show ?thesis
      by (auto simp: fib_erase_def)
  qed
qed

subsection \<open>Removing a face\<close>

lemma fib_update_inv:
  assumes inv: "fib_inv wire (t, f)"
    and g: "\<And>fe. fe_prefix (g fe) = fe_prefix fe" "\<And>fe. fe_nameTreeEntry (g fe) = fe_nameTreeEntry fe"
      "\<And>fe. nexthops_ok (fe_nextHops fe) \<Longrightarrow> nexthops_ok (fe_nextHops (g fe))"
    and x: "x \<noteq> s_emptyEntry"
  shows "fib_inv wire (t, fib_update x g f)"
proof -
  have objs: "fib_objects (fib_update x g f) = fib_objects f"
    by (rule fib_objects_update[OF g(1,2)])
  have "y < fib_next f \<and> nexthops_ok (fe_nextHops fe)" if "fib_entries (fib_update x g f) y = Some fe" for y fe
    using that fib_below_next[OF inv] g(3) by (auto simp: fib_update_def split: if_splits)
  then have "\<forall>y fe. fib_entries (fib_update x g f) y = Some fe \<longrightarrow> y < fib_next (fib_update x g f) \<and> nexthops_ok (fe_nextHops fe)"
    by (simp add: fib_update_def)
  moreover have "fib_entries (fib_update x g f) s_emptyEntry = fib_entries f s_emptyEntry"
    "fib_nItems (fib_update x g f) = fib_nItems f"
    using x by (simp_all add: fib_update_def)
  ultimately show ?thesis
    using inv unfolding fib_inv_def fst_conv snd_conv objs by simp
qed

lemma fib_slot_not_empty:
  assumes "fib_inv wire (t, f)" and "fib_slots wire t n = Some x"
  shows "x \<noteq> s_emptyEntry"
proof
  assume e: "x = s_emptyEntry"
  obtain fe r where "fib_entries f x = Some fe" "fe_nameTreeEntry fe = Some r"
    using fib_slot_object[OF assms] by blast
  then show False
    using assms(1) e by (simp add: fib_inv_def newFibEntry_def)
qed

definition kept_hops :: "face_ptr \<Rightarrow> next_hop list \<Rightarrow> next_hop list" where
  "kept_hops face hs = filter (\<lambda>h. nh_face h \<noteq> face) hs"

text \<open>The first loop takes the face out of every entry it visits and collects the entries
  that are left without next hops.\<close>

lemma remove_loop_ok:
  assumes "fib_inv wire (t, f)" and "distinct ns"
    and "\<And>i. i < length rs \<Longrightarrow> \<exists>x. nt_prefix t (rs ! i) = Some (ns ! i) \<and> fib_slots wire t (ns ! i) = Some x"
    and "length ns = length rs"
  shows "\<exists>f' xs. remove_loop face t rs f acc = Some (f', acc @ xs) \<and> fib_inv wire (t, f') \<and>
    (\<forall>n. fib_view wire (t, f') n =
       (if n \<in> set ns then map_option (kept_hops face) (fib_view wire (t, f) n) else fib_view wire (t, f) n)) \<and>
    distinct xs \<and>
    (\<forall>x. x \<in> set xs \<longleftrightarrow> (\<exists>n \<in> set ns. fib_slots wire t n = Some x \<and> fib_view wire (t, f') n = Some []))"
  using assms
proof (induction rs arbitrary: f ns acc)
  case Nil
  then show ?case by auto
next
  case (Cons r rs)
  then obtain n ms where ns: "ns = n # ms"
    by (cases ns) auto
  have len: "length ms = length rs" and dist: "n \<notin> set ms" "distinct ms"
    using Cons.prems ns by auto
  obtain x where r: "nt_prefix t r = Some n" and x: "fib_slots wire t n = Some x"
    using Cons.prems(3)[of 0] ns by auto
  have nt: "nt_inv wire t"
    using linked_inv[OF fib_inv_linked[OF Cons.prems(1)]] by simp
  obtain e where e: "nt_entries t r = Some e" "e_prefix e = n" "e_fibEntry e = Some x"
    using r fib_slot.slot_at_entry[OF nt] x by (force simp: nt_prefix_def)
  obtain fe where fe: "fib_entries f x = Some fe"
    using fib_slot_object[OF Cons.prems(1) x] by blast
  have hops: "fe_nextHops (removeNextHop face g) = kept_hops face (fe_nextHops g)"
    if "nexthops_ok (fe_nextHops g)" for g
    using that removeNextHop_nextHops by (simp add: nexthops_ok_def kept_hops_def)
  let ?f = "fib_update x (removeNextHop face) f"
  have inv': "fib_inv wire (t, ?f)"
    by (rule fib_update_inv[OF Cons.prems(1) _ _ _ fib_slot_not_empty[OF Cons.prems(1) x]])
      (simp_all add: hops kept_hops_def nexthops_ok_filter)
  have ok: "nexthops_ok (fe_nextHops fe)"
    using fib_below_next[OF Cons.prems(1) fe] by simp
  have view: "fib_view wire (t, ?f) m = (if m = n then map_option (kept_hops face) (fib_view wire (t, f) n)
      else fib_view wire (t, f) m)" for m
  proof (cases "fib_slots wire t m")
    case None
    then show ?thesis using x by (auto simp: fib_view_def)
  next
    case (Some y)
    have "y = x \<longleftrightarrow> m = n"
      using linked_inj[OF fib_inv_linked[OF Cons.prems(1), simplified] x, of m] Some x by auto
    then show ?thesis
      using Some x fe hops[OF ok] by (auto simp: fib_view_def fib_update_def)
  qed
  have "\<exists>y. nt_prefix t (rs ! i) = Some (ms ! i) \<and> fib_slots wire t (ms ! i) = Some y" if "i < length rs" for i
    using Cons.prems(3)[of "Suc i"] that ns by simp
  then obtain f' xs where IH:
    "remove_loop face t rs ?f (acc @ (if hasNextHops (removeNextHop face fe) then [] else [x])) =
       Some (f', (acc @ (if hasNextHops (removeNextHop face fe) then [] else [x])) @ xs)" "fib_inv wire (t, f')"
    "\<And>m. fib_view wire (t, f') m = (if m \<in> set ms then map_option (kept_hops face) (fib_view wire (t, ?f) m)
       else fib_view wire (t, ?f) m)" "distinct xs"
    "\<And>y. y \<in> set xs \<longleftrightarrow> (\<exists>m \<in> set ms. fib_slots wire t m = Some y \<and> fib_view wire (t, f') m = Some [])"
    using Cons.IH[OF inv' dist(2) _ len] by blast
  have new: "fib_view wire (t, f') n = Some (kept_hops face (fe_nextHops fe))"
    using IH(3)[of n] dist(1) view[of n] x fe by (simp add: fib_view_def)
  have emp: "hasNextHops (removeNextHop face fe) \<longleftrightarrow> kept_hops face (fe_nextHops fe) \<noteq> []"
    using hops[OF ok] by (simp add: hasNextHops_def)
  have xnot: "x \<notin> set xs"
    using IH(5) dist(1) linked_inj[OF fib_inv_linked[OF Cons.prems(1), simplified] x] by blast
  let ?ys = "(if hasNextHops (removeNextHop face fe) then [] else [x]) @ xs"
  show ?case
  proof (rule exI[of _ f'], rule exI[of _ ?ys], intro conjI allI)
    show "remove_loop face t (r # rs) f acc = Some (f', acc @ ?ys)"
      using e fe IH(1) by (simp add: Let_def split: if_splits)
    show "fib_inv wire (t, f')"
      by (rule IH(2))
    show "distinct ?ys"
      using IH(4) xnot by simp
    show "fib_view wire (t, f') m = (if m \<in> set ns then map_option (kept_hops face) (fib_view wire (t, f) m)
        else fib_view wire (t, f) m)" for m
      using IH(3)[of m] view[of m] dist(1) ns by auto
    show "y \<in> set ?ys \<longleftrightarrow> (\<exists>m \<in> set ns. fib_slots wire t m = Some y \<and> fib_view wire (t, f') m = Some [])" for y
      by (cases "kept_hops face (fe_nextHops fe) = []") (simp_all add: ns x new emp IH(5) eq_commute[of x y])
  qed
qed

lemma erase_all_ok:
  assumes "fib_inv wire (t, f)" and "distinct xs" and "\<forall>x \<in> set xs. \<exists>n. fib_slots wire t n = Some x"
  shows "\<exists>t' f'. erase_all xs (t, f) = Some (t', f') \<and> fib_inv wire (t', f') \<and>
    (\<forall>n. fib_view wire (t', f') n =
      (case fib_slots wire t n of Some x \<Rightarrow> if x \<in> set xs then None else fib_view wire (t, f) n | None \<Rightarrow> None))"
  using assms
proof (induction xs arbitrary: t f)
  case Nil
  then show ?case by (auto simp: fib_view_def split: option.splits)
next
  case (Cons x xs)
  then obtain n where n: "fib_slots wire t n = Some x"
    by auto
  obtain t1 f1 where E: "fib_erase_entry x (t, f) = Some (t1, f1)" "fib_inv wire (t1, f1)"
    "fib_view wire (t1, f1) = (fib_view wire (t, f))(n := None)"
    "fib_slots wire t1 = (fib_slots wire t)(n := None)"
    using fib_erase_entry_ok[OF Cons.prems(1) n] by (elim exE conjE)
  have inj: "m = n" if "fib_slots wire t m = Some x" for m
    using linked_inj[OF fib_inv_linked[OF Cons.prems(1), simplified] that n] .
  have "\<forall>y \<in> set xs. \<exists>m. fib_slots wire t1 m = Some y"
  proof
    fix y assume "y \<in> set xs"
    then obtain m where "fib_slots wire t m = Some y" "y \<noteq> x"
      using Cons.prems(2,3) by auto
    then have "fib_slots wire t1 m = Some y"
      using n unfolding E(4) by auto
    then show "\<exists>m. fib_slots wire t1 m = Some y" ..
  qed
  then obtain t' f' where IH: "erase_all xs (t1, f1) = Some (t', f')" "fib_inv wire (t', f')"
    "\<And>m. fib_view wire (t', f') m =
      (case fib_slots wire t1 m of Some x \<Rightarrow> if x \<in> set xs then None else fib_view wire (t1, f1) m | None \<Rightarrow> None)"
    using Cons.IH[OF E(2)] Cons.prems(2) by (metis distinct.simps(2))
  have "fib_view wire (t', f') m =
      (case fib_slots wire t m of Some y \<Rightarrow> if y \<in> set (x # xs) then None else fib_view wire (t, f) m | None \<Rightarrow> None)" for m
  proof (cases "m = n")
    case True
    then show ?thesis
      using IH(3)[of m] E(4) n by simp
  next
    case False
    then have "fib_slots wire t m \<noteq> Some x"
      using inj by blast
    then show ?thesis
      using IH(3)[of m] E(3,4) False by (simp split: option.split)
  qed
  with E(1) IH(1,2) show ?case
    by auto
qed

lemma removeNextHopFromAllEntries_ok:
  assumes inv: "fib_inv wire (t, f)"
  shows "\<exists>t' f'. removeNextHopFromAllEntries face (t, f) = Some (t', f') \<and> fib_inv wire (t', f') \<and>
    (\<forall>n. fib_view wire (t', f') n = (case fib_view wire (t, f) n of
       None \<Rightarrow> None
     | Some hs \<Rightarrow> if kept_hops face hs = [] then None else Some (kept_hops face hs)))"
proof -
  have nt: "nt_inv wire t"
    using linked_inv[OF fib_inv_linked[OF inv]] by simp
  let ?rs = "fullEnumerate hasFibEntry t"
  let ?ns = "map (\<lambda>r. the (nt_prefix t r)) ?rs"
  have mem: "r \<in> set ?rs \<longleftrightarrow> (\<exists>e x. nt_entries t r = Some e \<and> e_fibEntry e = Some x)" for r
    using fullEnumerate_ok(2)[OF nt, of r hasFibEntry] by (auto simp: selected_def hasFibEntry_def split: option.splits)
  have "inj_on (\<lambda>r. the (nt_prefix t r)) (set ?rs)"
    by (rule inj_onI) (use nt_prefix_inj[OF nt] mem in \<open>force simp: nt_prefix_def\<close>)
  then have dist: "distinct ?ns"
    using fullEnumerate_ok(1)[OF nt] by (simp add: distinct_map)
  have pos: "\<exists>x. nt_prefix t (?rs ! i) = Some (?ns ! i) \<and> fib_slots wire t (?ns ! i) = Some x" if i: "i < length ?rs" for i
  proof -
    obtain e x where e: "nt_entries t (?rs ! i) = Some e" "e_fibEntry e = Some x"
      using mem nth_mem[OF i] by blast
    then show ?thesis
      using fib_slot.slot_at_entry[OF nt e(1)] i by (simp add: nt_prefix_def)
  qed
  obtain f1 xs where L: "remove_loop face t ?rs f [] = Some (f1, xs)" "fib_inv wire (t, f1)"
    "\<And>n. fib_view wire (t, f1) n =
       (if n \<in> set ?ns then map_option (kept_hops face) (fib_view wire (t, f) n) else fib_view wire (t, f) n)"
    "distinct xs"
    "\<And>x. x \<in> set xs \<longleftrightarrow> (\<exists>n \<in> set ?ns. fib_slots wire t n = Some x \<and> fib_view wire (t, f1) n = Some [])"
    using remove_loop_ok[OF inv dist pos, of face "[]"] by auto
  have all: "n \<in> set ?ns" if "fib_slots wire t n = Some x" for n x
    using that mem unfolding fib_slot.slot_at_iff[OF nt] by (force simp: nt_prefix_def image_iff)
  obtain t' f' where E: "erase_all xs (t, f1) = Some (t', f')" "fib_inv wire (t', f')"
    "\<And>n. fib_view wire (t', f') n =
      (case fib_slots wire t n of Some x \<Rightarrow> if x \<in> set xs then None else fib_view wire (t, f1) n | None \<Rightarrow> None)"
    using erase_all_ok[OF L(2,4)] L(5) by metis
  have "fib_view wire (t', f') n = (case fib_view wire (t, f) n of None \<Rightarrow> None
     | Some hs \<Rightarrow> if kept_hops face hs = [] then None else Some (kept_hops face hs))" for n
  proof (cases "fib_slots wire t n")
    case None
    then show ?thesis
      using E(3)[of n] by (simp add: fib_view_def[of wire "(t, f)"])
  next
    case (Some x)
    obtain fe where fe: "fib_entries f x = Some fe"
      using fib_slot_object[OF inv Some] by blast
    have v: "fib_view wire (t, f) n = Some (fe_nextHops fe)"
      using Some fe by (simp add: fib_view_def)
    have "x \<in> set xs \<longleftrightarrow> fib_view wire (t, f1) n = Some []"
      using L(5)[of x] all[OF Some] Some linked_inj[OF fib_inv_linked[OF inv, simplified] Some] by blast
    then show ?thesis
      using E(3)[of n] L(3)[of n] all[OF Some] Some v by auto
  qed
  with L(1) E(1,2) show ?thesis
    by (auto simp: removeNextHopFromAllEntries_def)
qed

subsection \<open>Longest prefix match\<close>

lemma fib_view_longest:
  assumes inv: "fib_inv wire (t, f)"
  shows "longest_match (fib_view wire (t, f)) n =
    Option.bind (longest_match (fib_slots wire t) n) (\<lambda>x. map_option fe_nextHops (fib_entries f x))"
proof (induction n rule: rev_induct)
  case Nil
  then show ?case
    by (simp add: longest_match_Nil fib_view_def)
next
  case (snoc c n)
  show ?case
  proof (cases "fib_slots wire t (n @ [c])")
    case (Some x)
    obtain fe where "fib_entries f x = Some fe"
      using fib_slot_object[OF inv Some] by blast
    then show ?thesis
      using Some by (simp add: longest_match_snoc fib_view_def)
  qed (use snoc in \<open>simp add: longest_match_snoc fib_view_def\<close>)
qed

lemma fib_entry_of_find:
  assumes inv: "fib_inv wire (t, f)"
  shows "\<exists>x. fib_entry_of (List.find (selected hasFibEntry t) (matches wire n t)) t = Some x \<and>
    map_option fe_nextHops (fib_entries f x) =
      Some (case longest_match (fib_view wire (t, f)) n of None \<Rightarrow> [] | Some hs \<Rightarrow> hs)"
proof -
  have nt: "nt_inv wire t"
    using linked_inv[OF fib_inv_linked[OF inv]] by simp
  have sel: "hasFibEntry = (\<lambda>e. e_fibEntry e \<noteq> None)"
    by (auto simp: hasFibEntry_def)
  let ?F = "List.find (selected hasFibEntry t) (matches wire n t)"
  have F: "Option.bind ?F (\<lambda>r. Option.bind (nt_entries t r) e_fibEntry) = longest_match (fib_slots wire t) n"
    unfolding sel by (rule fib_slot.find_slot[OF nt])
  show ?thesis
  proof (cases ?F)
    case None
    then have "longest_match (fib_view wire (t, f)) n = None"
      using F fib_view_longest[OF inv] by simp
    moreover have "fib_entries f s_emptyEntry = Some (newFibEntry [])"
      using inv by (simp add: fib_inv_def)
    ultimately show ?thesis
      unfolding None by (simp add: fib_entry_of_def newFibEntry_def)
  next
    case (Some r)
    obtain e where e: "nt_entries t r = Some e" "hasFibEntry e"
      using lpm_found[OF nt Some] by blast
    then obtain x where x: "e_fibEntry e = Some x"
      by (auto simp: hasFibEntry_def)
    then have "fib_slots wire t (e_prefix e) = Some x"
      using fib_slot.slot_at_entry[OF nt e(1)] by simp
    from fib_slot_object[OF inv this] obtain fe where "fib_entries f x = Some fe"
      by blast
    moreover have "longest_match (fib_slots wire t) n = Some x"
      using F Some e(1) x by simp
    ultimately show ?thesis
      unfolding Some using e(1) x fib_view_longest[OF inv, of n] by (simp add: fib_entry_of_def)
  qed
qed

lemma fib_lpm_ok:
  assumes inv: "fib_inv wire (t, f)" and "prefix_hashes_distinct wire n"
  shows "\<exists>x. fib_findLongestPrefixMatch wire n t = Some x \<and> map_option fe_nextHops (fib_entries f x) =
      Some (case longest_match (fib_view wire (t, f)) n of None \<Rightarrow> [] | Some hs \<Rightarrow> hs)"
proof -
  have nt: "nt_inv wire t"
    using linked_inv[OF fib_inv_linked[OF inv]] by simp
  show ?thesis
    unfolding fib_findLongestPrefixMatch_def nt_findLongestPrefixMatch_ok[OF nt assms(2)]
    by (rule fib_entry_of_find[OF inv])
qed

lemma fib_lpm_nte_ok:
  assumes inv: "fib_inv wire (t, f)" and r: "nt_prefix t r = Some n"
  shows "\<exists>x. fib_lpm_nte r t = Some x \<and> map_option fe_nextHops (fib_entries f x) =
      Some (case longest_match (fib_view wire (t, f)) n of None \<Rightarrow> [] | Some hs \<Rightarrow> hs)"
proof -
  have nt: "nt_inv wire t"
    using linked_inv[OF fib_inv_linked[OF inv]] by simp
  obtain e where e: "nt_entries t r = Some e" "e_prefix e = n"
    using r by (auto simp: nt_prefix_def)
  show ?thesis
  proof (cases "e_fibEntry e")
    case None
    then have "fib_lpm_nte r t = fib_entry_of (List.find (selected hasFibEntry t) (matches wire n t)) t"
      using e(1) nt_lpm_entry_ok[OF nt r, of hasFibEntry] by (simp add: fib_lpm_nte_def)
    with fib_entry_of_find[OF inv, of n] show ?thesis
      by simp
  next
    case (Some x)
    have x: "fib_slots wire t n = Some x"
      using fib_slot.slot_at_entry[OF nt e(1)] e(2) Some by simp
    from fib_slot_object[OF inv this] obtain fe where fe: "fib_entries f x = Some fe"
      by blast
    then have "fib_view wire (t, f) n = Some (fe_nextHops fe)"
      using x by (simp add: fib_view_def)
    then have "longest_match (fib_view wire (t, f)) n = Some (fe_nextHops fe)"
      by (cases n rule: rev_cases) (simp_all add: longest_match_Nil longest_match_snoc)
    with Some e(1) fe show ?thesis
      by (simp add: fib_lpm_nte_def)
  qed
qed

section \<open>Properties\<close>

lemma NameTree_slots: "slot_at get wire (NameTree k) = (\<lambda>_. None)"
  by (simp add: slot_at_def findExactMatch_def NameTree_def Let_def fun_eq_iff split: option.split)

lemma Fib_inv: "power2 k \<Longrightarrow> fib_inv wire (NameTree k, Fib)"
proof -
  assume k: "power2 k"
  note slots = NameTree_slots[of e_fibEntry wire k]
  have "fib_objects Fib x = Some (n, Some r) \<Longrightarrow> False" for x n r
    by (auto simp: fib_objects_def Fib_def newFibEntry_def split: if_splits)
  then have "linked e_fibEntry wire (NameTree k) (fib_objects Fib)"
    unfolding linked_def slots using NameTree_inv[OF k] by auto
  moreover have "x < fib_next Fib \<and> nexthops_ok (fe_nextHops fe)" if "fib_entries Fib x = Some fe" for x fe
    using that by (auto simp: Fib_def newFibEntry_def nexthops_ok_def s_emptyEntry_def split: if_splits)
  ultimately show ?thesis
    unfolding fib_inv_def using slots by (simp add: Fib_def)
qed

text \<open>The abstract removal of a face.\<close>

definition fib_without :: "face_ptr \<Rightarrow> (name \<Rightarrow> next_hop list option) \<Rightarrow> name \<Rightarrow> next_hop list option" where
  "fib_without face m n = (case m n of
     None \<Rightarrow> None
   | Some hs \<Rightarrow> if kept_hops face hs = [] then None else Some (kept_hops face hs))"



text \<open>C33. Longest prefix match in the FIB: it always returns an entry, with the next hops of the
  longest prefix of the name that has an entry, or with none at all when no prefix has one.
  Starting from a name it relies on the prefixes having different hashes, starting from the
  entry of the name in the name tree it does not.\<close>

theorem fib_lpm_refines:
  assumes "fib_inv wire (t, f)"
  shows "(prefix_hashes_distinct wire n \<longrightarrow>
      (\<exists>x. fib_findLongestPrefixMatch wire n t = Some x \<and> map_option fe_nextHops (fib_entries f x) =
        Some (case longest_match (fib_view wire (t, f)) n of None \<Rightarrow> [] | Some hs \<Rightarrow> hs))) \<and>
    (nt_prefix t r = Some n \<longrightarrow>
      (\<exists>x. fib_lpm_nte r t = Some x \<and> map_option fe_nextHops (fib_entries f x) =
        Some (case longest_match (fib_view wire (t, f)) n of None \<Rightarrow> [] | Some hs \<Rightarrow> hs)))"
  using fib_lpm_ok[OF assms] fib_lpm_nte_ok[OF assms] by simp

theorem fib_lpm_refines_witness:
  "\<exists>x. fib_findLongestPrefixMatch tlv [Generic [97], Generic [98]] (NameTree 8) = Some x \<and>
    map_option fe_nextHops (fib_entries Fib x) = Some []"
proof -
  note inv = Fib_inv[OF power2_8, of tlv]
  have "prefix_hashes_distinct tlv [Generic [97], Generic [98]]"
    by code_simp
  moreover have "longest_match (fib_view tlv (NameTree 8, Fib)) [Generic [97], Generic [98]] = None"
    unfolding longest_match_None by (simp add: fib_view_def NameTree_slots)
  ultimately show ?thesis
    using fib_lpm_refines[OF inv, of "[Generic [97], Generic [98]]"] by simp
qed

text \<open>Erasing by name counts wrongly: after \<^verbatim>\<open>/a/b\<close> is inserted, erasing \<^verbatim>\<open>/a\<close>, which has an
  entry in the name tree but none in the FIB, brings the item count to zero although \<^verbatim>\<open>/a/b\<close>
  is still there; erasing it again makes the count wrap around.\<close>

theorem fib_erase_miscounts:
  "let a = [Generic [97]]; ab = [Generic [97], Generic [98]] in
   case fib_insert tlv ab (NameTree 8, Fib) of
     None \<Rightarrow> False
   | Some (t, f, x, _) \<Rightarrow> fib_nItems f = 1 \<and>
       (case fib_erase tlv a (t, f) of
          None \<Rightarrow> False
        | Some (t1, f1) \<Rightarrow> fib_nItems f1 = 0 \<and> fib_findExactMatch tlv ab t1 = Some x \<and>
            map_option (\<lambda>(t2, f2). fib_nItems f2) (fib_erase tlv a (t1, f1)) = Some 18446744073709551615)"
  by code_simp

end
