(* ===== verification/Strategies_Correct.thy ===== *)
theory Strategies_Correct
  imports Strategies Pit_Correct Fib_Correct
begin

text \<open>
  Correctness of the strategies.  Whatever a strategy does to a PIT entry is a sequence of
  actions of the forwarder, so what the actions guarantee (scope control, well-formed
  records, a timer that stays set) is proved once for such sequences.  The locale
  \<open>forwarding_strategy\<close> is the contract of a strategy towards the forwarder; the
  modelled strategies are its interpretations.  The locale \<open>retx_suppression\<close> is the
  contract of the two retransmission suppression algorithms towards the strategies.
\<close>

section \<open>Actions\<close>

definition retx_ok :: "pit_entry \<Rightarrow> bool" where
  "retx_ok pe \<longleftrightarrow> (\<forall>i. pe_retxInterval pe = Some i \<longrightarrow>
     rx_initialInterval br2_retxSuppression \<le> i \<and> i \<le> rx_maxInterval br2_retxSuppression)"

definition pe_ready :: "pit_entry \<Rightarrow> bool" where
  "pe_ready pe \<longleftrightarrow> pe_wf pe \<and> retx_ok pe"

definition timed :: "pit_entry \<Rightarrow> bool" where
  "timed pe \<longleftrightarrow> pe_unsatisfyTimer pe \<noteq> None \<or> pe_stragglerTimer pe \<noteq> None"

inductive acts :: "fw_env \<Rightarrow> fw_ctx \<Rightarrow> fw_ctx \<Rightarrow> bool" for env where
  acts_done: "acts env c c"
| acts_interest: "acts env a b \<Longrightarrow> onOutgoingInterest env face wantNewNonce b = Some c \<Longrightarrow> acts env a c"
| acts_nack: "acts env a b \<Longrightarrow> onOutgoingNack env face reason b = Some c \<Longrightarrow> acts env a c"
| acts_reject: "acts env a b \<Longrightarrow> acts env a (onInterestReject env b)"
| acts_info: "acts env a b \<Longrightarrow> retx_ok (fc_entry b\<lparr>pe_retxInterval := v\<rparr>) \<Longrightarrow>
    acts env a (fc_update (\<lambda>pe. pe\<lparr>pe_retxInterval := v\<rparr>) b)"

text \<open>The packets an entry may cause to be sent: Interests of its name within their scope,
  Nacks to downstreams.  A downstream is given up only with a Nack.\<close>

fun permitted :: "fw_env \<Rightarrow> pit_entry \<Rightarrow> fw_output \<Rightarrow> bool" where
  "permitted env pe (SentInterest face i) \<longleftrightarrow> f_id (en_faces env face) \<noteq> INVALID_FACEID \<and> i_name i = pe_name pe \<and>
     (f_scope (en_faces env face) = ScopeNonLocal \<longrightarrow> \<not> prefix LOCALHOST (i_name i) \<and>
       (prefix LOCALHOP (i_name i) \<longrightarrow>
         (\<exists>r \<in> set (pe_inRecords pe). f_scope (en_faces env (ir_face r)) = ScopeLocal)))"
| "permitted env pe (SentNack face n) \<longleftrightarrow> f_id (en_faces env face) \<noteq> INVALID_FACEID \<and>
     f_linkType (en_faces env face) \<noteq> MultiAccess \<and> i_name (n_interest n) = pe_name pe \<and>
     face \<in> ir_face ` set (pe_inRecords pe)"
| "permitted env pe (SentData face d) \<longleftrightarrow> False"

definition acted :: "fw_env \<Rightarrow> fw_ctx \<Rightarrow> fw_ctx \<Rightarrow> bool" where
  "acted env a b \<longleftrightarrow>
     pe_ready (fc_entry b) \<and> pe_interest (fc_entry b) = pe_interest (fc_entry a) \<and>
     pe_nameTreeEntry (fc_entry b) = pe_nameTreeEntry (fc_entry a) \<and>
     set (pe_inRecords (fc_entry b)) \<subseteq> set (pe_inRecords (fc_entry a)) \<and>
     (timed (fc_entry a) \<longrightarrow> timed (fc_entry b)) \<and>
     (\<exists>new. fc_out b = fc_out a @ new \<and> (\<forall>pkt \<in> set new. permitted env (fc_entry a) pkt) \<and>
       (\<forall>r \<in> set (pe_inRecords (fc_entry a)). r \<in> set (pe_inRecords (fc_entry b)) \<or> (\<exists>n. SentNack (ir_face r) n \<in> set new)))"

lemma acted_refl: "pe_ready (fc_entry c) \<Longrightarrow> acted env c c"
  by (simp add: acted_def)

lemma permitted_mono:
  "permitted env pe' pkt \<Longrightarrow> pe_interest pe' = pe_interest pe \<Longrightarrow>
   set (pe_inRecords pe') \<subseteq> set (pe_inRecords pe) \<Longrightarrow> permitted env pe pkt"
  by (cases pkt) auto

lemma acted_trans:
  assumes ab: "acted env a b" and bc: "acted env b c"
  shows "acted env a c"
proof -
  obtain new where new: "fc_out b = fc_out a @ new" "\<forall>pkt \<in> set new. permitted env (fc_entry a) pkt"
    "\<forall>r \<in> set (pe_inRecords (fc_entry a)). r \<in> set (pe_inRecords (fc_entry b)) \<or> (\<exists>n. SentNack (ir_face r) n \<in> set new)"
    using ab unfolding acted_def by blast
  obtain new' where new': "fc_out c = fc_out b @ new'" "\<forall>pkt \<in> set new'. permitted env (fc_entry b) pkt"
    "\<forall>r \<in> set (pe_inRecords (fc_entry b)). r \<in> set (pe_inRecords (fc_entry c)) \<or> (\<exists>n. SentNack (ir_face r) n \<in> set new')"
    using bc unfolding acted_def by blast
  have "\<forall>pkt \<in> set new'. permitted env (fc_entry a) pkt"
    using new'(2) ab permitted_mono unfolding acted_def by blast
  then have "\<forall>pkt \<in> set (new @ new'). permitted env (fc_entry a) pkt"
    using new(2) by auto
  moreover have "\<forall>r \<in> set (pe_inRecords (fc_entry a)). r \<in> set (pe_inRecords (fc_entry c)) \<or>
      (\<exists>n. SentNack (ir_face r) n \<in> set (new @ new'))"
    using new(3) new'(3) by auto
  moreover have "fc_out c = fc_out a @ new @ new'"
    using new(1) new'(1) by simp
  ultimately show ?thesis
    using ab bc unfolding acted_def by auto
qed

lemma insertOrUpdateOutRecord_frame [simp]:
  "pe_interest (insertOrUpdateOutRecord cx now face i pe) = pe_interest pe"
  "pe_nameTreeEntry (insertOrUpdateOutRecord cx now face i pe) = pe_nameTreeEntry pe"
  "pe_inRecords (insertOrUpdateOutRecord cx now face i pe) = pe_inRecords pe"
  "pe_retxInterval (insertOrUpdateOutRecord cx now face i pe) = pe_retxInterval pe"
  "pe_unsatisfyTimer (insertOrUpdateOutRecord cx now face i pe) = pe_unsatisfyTimer pe"
  "pe_stragglerTimer (insertOrUpdateOutRecord cx now face i pe) = pe_stragglerTimer pe"
  by (simp_all add: insertOrUpdateOutRecord_def Let_def)

lemma onOutgoingInterest_cases:
  assumes "onOutgoingInterest env face w c = Some c'"
  obtains "c' = c"
  | r i where "f_id (en_faces env face) \<noteq> INVALID_FACEID" "\<not> violatesScope env (fc_entry c) face"
      "r \<in> set (pe_inRecords (fc_entry c))" "ir_interest r = Some i"
      "c' = (let i = (if w then i\<lparr>i_nonce := en_random env\<rparr> else i) in
         c\<lparr>fc_entry := insertOrUpdateOutRecord (en_cx env) (en_now env) face i (fc_entry c),
           fc_out := fc_out c @ [SentInterest face i], fc_nOutInterests := fc_nOutInterests c + 1\<rparr>)"
proof -
  show ?thesis
  proof (cases "f_id (en_faces env face) = INVALID_FACEID \<or> violatesScope env (fc_entry c) face")
    case True
    then show ?thesis
      using assms that(1) by (auto simp: onOutgoingInterest_def split: if_splits)
  next
    case False
    then obtain r i where "max_element (compare_pickInterest face) (pe_inRecords (fc_entry c)) = Some r"
      "ir_interest r = Some i"
      using assms by (auto simp: onOutgoingInterest_def bind_eq_Some_conv)
    then show ?thesis
      using assms False that(2)[of r i] max_element_in[of "compare_pickInterest face"]
      by (simp add: onOutgoingInterest_def Let_def)
  qed
qed

lemma scope_local: "s = ScopeLocal \<longleftrightarrow> s \<noteq> ScopeNonLocal"
  by (cases s) simp_all

lemma violatesScope_iff:
  "\<not> violatesScope env pe face \<longleftrightarrow> (f_scope (en_faces env face) = ScopeNonLocal \<longrightarrow> \<not> prefix LOCALHOST (pe_name pe) \<and>
     (prefix LOCALHOP (pe_name pe) \<longrightarrow> (\<exists>r \<in> set (pe_inRecords pe). f_scope (en_faces env (ir_face r)) = ScopeLocal)))"
  by (auto simp: violatesScope_def list_all_iff scope_local)

lemma onOutgoingInterest_acted:
  assumes ready: "pe_ready (fc_entry c)" and some: "onOutgoingInterest env face w c = Some c'"
  shows "acted env c c'"
  using some
proof (cases rule: onOutgoingInterest_cases)
  case 1
  then show ?thesis
    using acted_refl[OF ready] by simp
next
  case (2 r i)
  have n: "i_name i = pe_name (fc_entry c)"
    using ready 2(3,4) by (auto simp: pe_ready_def pe_wf_def)
  show ?thesis
    using ready 2(1,2) n unfolding 2(5) violatesScope_iff
    by (auto simp: acted_def Let_def pe_ready_def retx_ok_def timed_def intro: pe_wf_insertOrUpdateOutRecord)
qed

lemma onInterestReject_acted:
  assumes "pe_ready (fc_entry c)"
  shows "acted env c (onInterestReject env c)"
  using assms
  by (auto simp: acted_def onInterestReject_def fc_update_def setStragglerTimer_def timed_def
      cancelUnsatisfyAndStragglerTimer_def pe_ready_def pe_wf_def retx_ok_def)

lemma deleteInRecord_frame [simp]:
  "pe_interest (deleteInRecord face pe) = pe_interest pe"
  "pe_nameTreeEntry (deleteInRecord face pe) = pe_nameTreeEntry pe"
  "pe_retxInterval (deleteInRecord face pe) = pe_retxInterval pe"
  "pe_unsatisfyTimer (deleteInRecord face pe) = pe_unsatisfyTimer pe"
  "pe_stragglerTimer (deleteInRecord face pe) = pe_stragglerTimer pe"
  "pe_outRecords (deleteInRecord face pe) = pe_outRecords pe"
  "set (pe_inRecords (deleteInRecord face pe)) \<subseteq> set (pe_inRecords pe)"
  by (simp_all add: deleteInRecord_def remove_first_subset)

lemma remove_first_keeps: "x \<in> set xs \<Longrightarrow> \<not> P x \<Longrightarrow> x \<in> set (remove_first P xs)"
  by (induction xs) auto

lemma onOutgoingNack_acted:
  assumes ready: "pe_ready (fc_entry c)" and some: "onOutgoingNack env face reason c = Some c'"
  shows "acted env c c'"
proof (cases "f_id (en_faces env face) = INVALID_FACEID \<or> getInRecord face (fc_entry c) = None \<or>
    f_linkType (en_faces env face) = MultiAccess")
  case True
  then have "c' = c"
    using some by (auto simp: onOutgoingNack_def split: if_splits option.splits)
  then show ?thesis
    using acted_refl[OF ready] by simp
next
  case False
  then obtain r i where r: "getInRecord face (fc_entry c) = Some r" "ir_interest r = Some i"
    using some by (auto simp: onOutgoingNack_def bind_eq_Some_conv)
  have in_r: "r \<in> set (pe_inRecords (fc_entry c))" "ir_face r = face"
    using find_Some_in[OF r(1)[unfolded getInRecord_def]] by simp_all
  have n: "i_name i = pe_name (fc_entry c)"
    using ready in_r r(2) by (auto simp: pe_ready_def pe_wf_def)
  have c': "c' = c\<lparr>fc_entry := deleteInRecord face (fc_entry c),
     fc_out := fc_out c @ [SentNack face \<lparr>n_interest = i, n_reason = reason\<rparr>], fc_nOutNacks := fc_nOutNacks c + 1\<rparr>"
    using some False r by (simp add: onOutgoingNack_def)
  have keep: "q \<in> set (pe_inRecords (deleteInRecord face (fc_entry c)))" if "q \<in> set (pe_inRecords (fc_entry c))" "ir_face q \<noteq> face" for q
    using that remove_first_keeps by (force simp: deleteInRecord_def)
  show ?thesis
    using ready False n in_r(2) imageI[OF in_r(1), of ir_face] keep
    by (auto simp: c' acted_def pe_ready_def retx_ok_def timed_def pe_wf_deleteInRecord)
qed

lemma acts_acted:
  assumes "acts env a b" and "pe_ready (fc_entry a)"
  shows "acted env a b"
  using assms
proof (induction rule: acts.induct)
  case (acts_done c)
  then show ?case
    by (rule acted_refl)
next
  case (acts_interest a b face w c)
  then show ?case
    using acted_trans onOutgoingInterest_acted by (metis acted_def)
next
  case (acts_nack a b face reason c)
  then show ?case
    using acted_trans onOutgoingNack_acted by (metis acted_def)
next
  case (acts_reject a b)
  then show ?case
    using acted_trans onInterestReject_acted by (metis acted_def)
next
  case (acts_info a b v)
  then show ?case
    by (auto simp: acted_def fc_update_def pe_ready_def pe_wf_def timed_def)
qed

lemma acts_trans: "acts env b c \<Longrightarrow> acts env a b \<Longrightarrow> acts env a c"
  by (induction rule: acts.induct) (auto intro: acts.intros)

section \<open>Retransmission suppression\<close>

lemma hasPending_last:
  assumes "hasPendingOutRecords env pe"
  shows "\<exists>t. getLastOutgoing pe = Some t"
  using assms by (cases "max_element (\<lambda>a b. or_lastRenewed a < or_lastRenewed b) (pe_outRecords pe)")
    (auto simp: hasPendingOutRecords_def getLastOutgoing_def)

lemma getLastOutgoing_latest:
  assumes "getLastOutgoing pe = Some t"
  shows "\<forall>r \<in> set (pe_outRecords pe). or_lastRenewed r \<le> t"
proof -
  obtain m where m: "max_element (\<lambda>a b. or_lastRenewed a < or_lastRenewed b) (pe_outRecords pe) = Some m"
    "t = or_lastRenewed m"
    using assms by (auto simp: getLastOutgoing_def)
  have "\<forall>r \<in> set (pe_outRecords pe). \<not> or_lastRenewed m < or_lastRenewed r"
    using max_element_greatest[OF m(1)] by fastforce
  then show ?thesis
    using m(2) by auto
qed

text \<open>What strategies rely on: a decision is made without a failed assertion, an Interest is
  new exactly when nothing is pending, and only the interval of the entry is changed, within
  its bounds.\<close>

locale retx_suppression =
  fixes decide :: "fw_env \<Rightarrow> pit_entry \<Rightarrow> (retx_result \<times> pit_entry) option"
    and lo hi :: time
  assumes decide_total: "(\<And>i. pe_retxInterval pe = Some i \<Longrightarrow> lo \<le> i \<and> i \<le> hi) \<Longrightarrow>
      \<exists>d v. decide env pe = Some (d, pe\<lparr>pe_retxInterval := v\<rparr>) \<and> (d = RetxNew \<longleftrightarrow> \<not> hasPendingOutRecords env pe) \<and>
        (\<forall>i. v = Some i \<longrightarrow> lo \<le> i \<and> i \<le> hi)"
    and decide_recent: "decide env pe = Some (RetxForward, pe') \<Longrightarrow> r \<in> set (pe_outRecords pe) \<Longrightarrow>
      (\<And>i. pe_retxInterval pe = Some i \<Longrightarrow> lo \<le> i) \<Longrightarrow> or_lastRenewed r + lo \<le> en_now env"
begin

lemma pending_not_new:
  assumes "\<And>i. pe_retxInterval pe = Some i \<Longrightarrow> lo \<le> i \<and> i \<le> hi" and "hasPendingOutRecords env pe"
  shows "\<exists>d v. decide env pe = Some (d, pe\<lparr>pe_retxInterval := v\<rparr>) \<and> (d = RetxForward \<or> d = RetxSuppress)"
  using decide_total[of pe env] assms by (metis retx_result.exhaust)

end

definition rx_ok :: "retx_exponential \<Rightarrow> bool" where
  "rx_ok rx \<longleftrightarrow> 0 < rx_initialInterval rx \<and> 1 \<le> rx_multiplier rx \<and> rx_initialInterval rx \<le> rx_maxInterval rx"

lemma exponential_step:
  assumes "rx_ok rx" and "rx_initialInterval rx \<le> i" and "i \<le> rx_maxInterval rx"
  shows "i \<le> min (rx_maxInterval rx) (i * rx_multiplier rx)"
  using assms mult_left_mono[of 1 "rx_multiplier rx" i] by (auto simp: rx_ok_def)

lemma exponential_suppression:
  assumes "rx_ok rx"
  shows "retx_suppression (decide_exponential rx) (rx_initialInterval rx) (rx_maxInterval rx)"
proof
  fix env and pe :: pit_entry
  assume b: "\<And>i. pe_retxInterval pe = Some i \<Longrightarrow> rx_initialInterval rx \<le> i \<and> i \<le> rx_maxInterval rx"
  define i where "i = (case pe_retxInterval pe of None \<Rightarrow> rx_initialInterval rx | Some i \<Rightarrow> i)"
  have i: "rx_initialInterval rx \<le> i" "i \<le> rx_maxInterval rx"
    using b assms by (auto simp: i_def rx_ok_def split: option.split)
  show "\<exists>d v. decide_exponential rx env pe = Some (d, pe\<lparr>pe_retxInterval := v\<rparr>) \<and>
      (d = RetxNew \<longleftrightarrow> \<not> hasPendingOutRecords env pe) \<and>
      (\<forall>i. v = Some i \<longrightarrow> rx_initialInterval rx \<le> i \<and> i \<le> rx_maxInterval rx)"
  proof (cases "hasPendingOutRecords env pe")
    case False
    then show ?thesis
      using b by (intro exI[of _ RetxNew] exI[of _ "pe_retxInterval pe"]) (simp add: decide_exponential_def)
  next
    case True
    then obtain t where t: "getLastOutgoing pe = Some t"
      using hasPending_last by blast
    show ?thesis
      using True t i exponential_step[OF assms i]
      by (cases "en_now env - t < i") (auto simp: decide_exponential_def Let_def i_def[symmetric])
  qed
next
  fix env and pe pe' :: pit_entry and r
  assume d: "decide_exponential rx env pe = Some (RetxForward, pe')" and r: "r \<in> set (pe_outRecords pe)"
    and b: "\<And>i. pe_retxInterval pe = Some i \<Longrightarrow> rx_initialInterval rx \<le> i"
  then obtain t where t: "getLastOutgoing pe = Some t"
    "rx_initialInterval rx \<le> en_now env - t"
    by (fastforce simp: decide_exponential_def Let_def bind_eq_Some_conv split: if_splits option.splits)
  then show "or_lastRenewed r + rx_initialInterval rx \<le> en_now env"
    using getLastOutgoing_latest[OF t(1)] r by fastforce
qed

interpretation br2_retx: retx_suppression "decide_exponential br2_retxSuppression"
  "rx_initialInterval br2_retxSuppression" "rx_maxInterval br2_retxSuppression"
  by (rule exponential_suppression) (simp add: rx_ok_def br2_retxSuppression_def)


interpretation fixed_retx: retx_suppression "decide_fixed m" m m for m
proof
  fix env and pe :: pit_entry
  assume b: "\<And>i. pe_retxInterval pe = Some i \<Longrightarrow> m \<le> i \<and> i \<le> m"
  show "\<exists>d v. decide_fixed m env pe = Some (d, pe\<lparr>pe_retxInterval := v\<rparr>) \<and>
      (d = RetxNew \<longleftrightarrow> \<not> hasPendingOutRecords env pe) \<and> (\<forall>i. v = Some i \<longrightarrow> m \<le> i \<and> i \<le> m)"
    using hasPending_last[of env pe] b
    by (intro exI[of _ "fst (the (decide_fixed m env pe))"] exI[of _ "pe_retxInterval pe"]) (auto simp: decide_fixed_def split: if_splits)
next
  fix env and pe pe' :: pit_entry and r
  assume d: "decide_fixed m env pe = Some (RetxForward, pe')" and r: "r \<in> set (pe_outRecords pe)"
  then obtain t where t: "getLastOutgoing pe = Some t" "m \<le> en_now env - t"
    by (fastforce simp: decide_fixed_def bind_eq_Some_conv split: if_splits)
  then show "or_lastRenewed r + m \<le> en_now env"
    using getLastOutgoing_latest[OF t(1)] r by fastforce
qed

section \<open>Strategies\<close>

text \<open>The contract of a strategy: on a well-formed entry its triggers return, and what they do
  is a sequence of actions.\<close>

locale forwarding_strategy =
  fixes impl :: strategy_impl
  assumes interest: "pe_ready (fc_entry c) \<Longrightarrow> pe_inRecords (fc_entry c) \<noteq> [] \<Longrightarrow>
      \<exists>c'. s_afterReceiveInterest impl env inFace i fe c = Some c' \<and> acts env c c'"
    and nack: "pe_ready (fc_entry c) \<Longrightarrow> \<exists>c'. s_afterReceiveNack impl env inFace n fe c = Some c' \<and> acts env c c'"
    and satisfy: "pe_ready (fc_entry c) \<Longrightarrow> \<exists>c'. s_beforeSatisfyInterest impl env inFace d c = Some c' \<and> acts env c c'"
    and expire: "pe_ready (fc_entry c) \<Longrightarrow> \<exists>c'. s_beforeExpirePendingInterest impl env c = Some c' \<and> acts env c c'"
begin

lemma interest_permitted:
  assumes "pe_ready (fc_entry c)" and "pe_inRecords (fc_entry c) \<noteq> []"
  shows "\<exists>c'. s_afterReceiveInterest impl env inFace i fe c = Some c' \<and> acted env c c'"
  using interest[OF assms] acts_acted[OF _ assms(1)] by blast

lemma nack_permitted:
  assumes "pe_ready (fc_entry c)"
  shows "\<exists>c'. s_afterReceiveNack impl env inFace n fe c = Some c' \<and> acted env c c'"
  using nack[OF assms] acts_acted[OF _ assms] by blast

end

lemma default_strategy:
  assumes "\<And>env inFace i fe c. pe_ready (fc_entry c) \<Longrightarrow> pe_inRecords (fc_entry c) \<noteq> [] \<Longrightarrow>
      \<exists>c'. f env inFace i fe c = Some c' \<and> acts env c c'"
  shows "forwarding_strategy (default_impl f)"
  by unfold_locales (use assms in \<open>auto simp: default_impl_def intro: acts_done\<close>)

lemma onOutgoingInterest_acts:
  assumes "pe_ready (fc_entry c)" and "pe_inRecords (fc_entry c) \<noteq> []"
  shows "\<exists>c'. onOutgoingInterest env face w c = Some c' \<and> acts env c c'"
proof -
  have "\<exists>c'. onOutgoingInterest env face w c = Some c'"
  proof (cases "max_element (compare_pickInterest face) (pe_inRecords (fc_entry c))")
    case (Some r)
    then have "\<exists>i. ir_interest r = Some i"
      using assms(1) max_element_in[OF Some] by (auto simp: pe_ready_def pe_wf_def)
    then show ?thesis
      using Some by (auto simp: onOutgoingInterest_def Let_def)
  qed (use assms(2) in simp)
  then show ?thesis
    using acts_interest[OF acts_done] by blast
qed

lemma onInterestReject_acts: "acts env c (onInterestReject env c)"
  by (rule acts_reject[OF acts_done])

lemma onOutgoingNack_acts:
  assumes "pe_ready (fc_entry c)"
  shows "\<exists>c'. onOutgoingNack env face reason c = Some c' \<and> acts env c c'"
proof -
  have "\<exists>i. ir_interest r = Some i" if "getInRecord face (fc_entry c) = Some r" for r
    using that assms find_Some_in[of _ _ r] by (fastforce simp: getInRecord_def pe_ready_def pe_wf_def)
  then have "\<exists>c'. onOutgoingNack env face reason c = Some c'"
    by (fastforce simp: onOutgoingNack_def split: option.split)
  then show ?thesis
    using acts_nack[OF acts_done] by blast
qed

text \<open>Actions for each element of a list; \<open>I\<close> is kept by every step.\<close>

lemma send_each_acts:
  assumes "I c" and "\<And>x c. x \<in> set xs \<Longrightarrow> I c \<Longrightarrow> \<exists>c'. f x c = Some c' \<and> acts env c c' \<and> I c'"
  shows "\<exists>c'. send_each f xs c = Some c' \<and> acts env c c' \<and> I c'"
  using assms
proof (induction xs arbitrary: c)
  case Nil
  then show ?case
    by (auto intro: acts_done)
next
  case (Cons x xs)
  obtain c1 where c1: "f x c = Some c1" "acts env c c1" "I c1"
    using Cons.prems by (meson list.set_intros(1))
  obtain d where d: "send_each f xs c1 = Some d" "acts env c1 d" "I d"
    using Cons.IH[OF c1(3)] Cons.prems(2) by (meson list.set_intros(2))
  show ?case
    using c1(1) d acts_trans[OF d(2) c1(2)] by auto
qed

lemma ready_acts: "pe_ready (fc_entry c) \<Longrightarrow> acts env c c' \<Longrightarrow> pe_ready (fc_entry c')"
  using acts_acted unfolding acted_def by blast

interpretation best_route: forwarding_strategy "default_impl br_afterReceiveInterest"
proof (rule default_strategy)
  fix env inFace i and fe :: fib_entry and c :: fw_ctx
  assume "pe_ready (fc_entry c)" and "pe_inRecords (fc_entry c) \<noteq> []"
  from onOutgoingInterest_acts[OF this]
  show "\<exists>c'. br_afterReceiveInterest env inFace i fe c = Some c' \<and> acts env c c'"
    by (auto simp: br_afterReceiveInterest_def intro: acts_done onInterestReject_acts split: option.split)
qed

lemma onOutgoingInterest_inRecords:
  "onOutgoingInterest env face w c = Some c' \<Longrightarrow> pe_inRecords (fc_entry c') = pe_inRecords (fc_entry c)"
  by (erule onOutgoingInterest_cases) (auto simp: Let_def)

interpretation multicast: forwarding_strategy "default_impl multicast_afterReceiveInterest"
proof (rule default_strategy)
  fix env inFace i and fe :: fib_entry and c :: fw_ctx
  assume I: "pe_ready (fc_entry c)" "pe_inRecords (fc_entry c) \<noteq> []"
  let ?I = "\<lambda>c. pe_ready (fc_entry c) \<and> pe_inRecords (fc_entry c) \<noteq> []"
  let ?f = "\<lambda>it c. if canForwardToLegacy env (fc_entry c) (nh_face it)
      then onOutgoingInterest env (nh_face it) False c else Some c"
  have "\<exists>c'. ?f it c = Some c' \<and> acts env c c' \<and> ?I c'" if I: "?I c" for it c
    using onOutgoingInterest_acts[of c env "nh_face it" False] I ready_acts[of c env]
      onOutgoingInterest_inRecords[of env "nh_face it" False c] by (fastforce intro: acts_done)
  then obtain c' where "send_each ?f (fe_nextHops fe) c = Some c'" "acts env c c'"
    using send_each_acts[of ?I c "fe_nextHops fe" ?f env] I by blast
  then show "\<exists>c'. multicast_afterReceiveInterest env inFace i fe c = Some c' \<and> acts env c c'"
    by (auto simp: multicast_afterReceiveInterest_def intro: acts_reject)
qed

interpretation client_control: forwarding_strategy "default_impl client_control_afterReceiveInterest"
proof (rule default_strategy)
  fix env inFace i and fe :: fib_entry and c :: fw_ctx
  assume I: "pe_ready (fc_entry c)" "pe_inRecords (fc_entry c) \<noteq> []"
  show "\<exists>c'. client_control_afterReceiveInterest env inFace i fe c = Some c' \<and> acts env c c'"
    using onOutgoingInterest_acts[OF I] onInterestReject_acts
      best_route.interest[OF I, of env inFace i fe]
    by (auto simp: client_control_afterReceiveInterest_def default_impl_def split: option.split)
qed

subsection \<open>Best route\<close>

lemma decide_acts:
  assumes "pe_ready (fc_entry c)"
  shows "\<exists>d pe. decide_exponential br2_retxSuppression env (fc_entry c) = Some (d, pe) \<and>
    acts env c (c\<lparr>fc_entry := pe\<rparr>) \<and> pe_inRecords pe = pe_inRecords (fc_entry c) \<and> pe_outRecords pe = pe_outRecords (fc_entry c) \<and>
    (d = RetxNew \<longleftrightarrow> \<not> hasPendingOutRecords env (fc_entry c))"
proof -
  obtain d v where d: "decide_exponential br2_retxSuppression env (fc_entry c) = Some (d, fc_entry c\<lparr>pe_retxInterval := v\<rparr>)"
    "d = RetxNew \<longleftrightarrow> \<not> hasPendingOutRecords env (fc_entry c)" "retx_ok (fc_entry c\<lparr>pe_retxInterval := v\<rparr>)"
    using br2_retx.decide_total[of "fc_entry c" env] assms by (auto simp: pe_ready_def retx_ok_def)
  show ?thesis
    using d(1,2) acts_info[OF acts_done d(3)] by (auto simp: fc_update_def)
qed

text \<open>The assertion of the search for the earliest record holds once no next hop is unused.\<close>

lemma earliest_loop_total:
  assumes "\<forall>nh \<in> set nexthops. predicate_NextHop_eligible env pe nh down False TimePoint_min \<longrightarrow>
      getOutRecord (nh_face nh) pe \<noteq> None"
  shows "\<exists>it. earliest_loop env pe down found t nexthops = Some it \<and>
    (\<forall>nh. it = Some nh \<longrightarrow> found = Some nh \<or>
       nh \<in> set nexthops \<and> predicate_NextHop_eligible env pe nh down False TimePoint_min)"
  using assms
proof (induction nexthops arbitrary: found t)
  case (Cons nh nexthops)
  then have IH: "\<exists>it. earliest_loop env pe down found t nexthops = Some it \<and>
    (\<forall>nh. it = Some nh \<longrightarrow> found = Some nh \<or>
       nh \<in> set nexthops \<and> predicate_NextHop_eligible env pe nh down False TimePoint_min)" for found t
    by simp
  show ?case
  proof (cases "predicate_NextHop_eligible env pe nh down False TimePoint_min")
    case False
    then show ?thesis
      using IH[of found t] by auto
  next
    case True
    then obtain r where "getOutRecord (nh_face nh) pe = Some r"
      using Cons.prems by auto
    then show ?thesis
      using True IH[of "Some nh" "or_lastRenewed r"] IH[of found t] by fastforce
  qed
qed simp

lemma all_used:
  assumes "List.find (\<lambda>nh. predicate_NextHop_eligible env pe nh down True now) nexthops = None"
  shows "\<forall>nh \<in> set nexthops. predicate_NextHop_eligible env pe nh down False TimePoint_min \<longrightarrow>
      getOutRecord (nh_face nh) pe \<noteq> None"
  using assms by (fastforce simp: find_None_all predicate_NextHop_eligible_def Let_def split: option.splits if_splits)

lemma earliest_total:
  assumes "List.find (\<lambda>nh. predicate_NextHop_eligible env pe nh down True now) nexthops = None"
  shows "\<exists>it. findEligibleNextHopWithEarliestOutRecord env pe nexthops down = Some it"
  using earliest_loop_total[OF all_used[OF assms], of None TimePoint_max]
  by (auto simp: findEligibleNextHopWithEarliestOutRecord_def)

lemma br2_interest_acts:
  assumes ready: "pe_ready (fc_entry c)" and ne: "pe_inRecords (fc_entry c) \<noteq> []"
  shows "\<exists>c'. br2_afterReceiveInterest env inFace i fe c = Some c' \<and> acts env c c'"
proof -
  obtain d pe where d: "decide_exponential br2_retxSuppression env (fc_entry c) = Some (d, pe)"
    "acts env c (c\<lparr>fc_entry := pe\<rparr>)" "pe_inRecords pe = pe_inRecords (fc_entry c)"
    using decide_acts[OF ready] by blast
  let ?c = "c\<lparr>fc_entry := pe\<rparr>"
  have I: "pe_ready (fc_entry ?c)" "pe_inRecords (fc_entry ?c) \<noteq> []"
    using ready_acts[OF ready d(2)] d(3) ne by simp_all
  have snd: "\<exists>c'. onOutgoingInterest env face False ?c = Some c' \<and> acts env c c'" for face
    using onOutgoingInterest_acts[OF I] acts_trans[OF _ d(2)] by blast
  have nk: "\<exists>c'. onOutgoingNack env inFace NoRoute ?c = Some c' \<and> acts env c (onInterestReject env c')"
    using onOutgoingNack_acts[OF I(1)] acts_trans[OF _ d(2)] acts_reject by blast
  show ?thesis
  proof (cases d)
    case RetxNew
    let ?it = "List.find (\<lambda>nh. predicate_NextHop_eligible env pe nh (f_id (en_faces env inFace)) False TimePoint_min) (fe_nextHops fe)"
    show ?thesis
    proof (cases ?it)
      case None
      then show ?thesis
        using d(1) nk RetxNew by (auto simp: br2_afterReceiveInterest_def)
    next
      case (Some nh)
      then show ?thesis
        using d(1) snd[of "nh_face nh"] RetxNew by (simp add: br2_afterReceiveInterest_def)
    qed
  next
    case RetxForward
    let ?it = "List.find (\<lambda>nh. predicate_NextHop_eligible env pe nh (f_id (en_faces env inFace)) True (en_now env)) (fe_nextHops fe)"
    show ?thesis
    proof (cases ?it)
      case None
      then obtain it where it: "findEligibleNextHopWithEarliestOutRecord env pe (fe_nextHops fe) (f_id (en_faces env inFace)) = Some it"
        using earliest_total by blast
      show ?thesis
      proof (cases it)
        case (Some nh)
        then show ?thesis
          using d(1) snd[of "nh_face nh"] RetxForward None it by (simp add: br2_afterReceiveInterest_def)
      qed (use d(1,2) RetxForward None it in \<open>simp add: br2_afterReceiveInterest_def\<close>)
    next
      case (Some nh)
      then show ?thesis
        using d(1) snd[of "nh_face nh"] RetxForward by (simp add: br2_afterReceiveInterest_def)
    qed
  next
    case RetxSuppress
    then show ?thesis
      using d(1,2) by (auto simp: br2_afterReceiveInterest_def)
  qed
qed

lemma nack_scan_face:
  assumes "fold nack_scan rs (n, f, l) = (m, g, k)" and "n = 0 \<or> f \<noteq> None"
  shows "m = 0 \<or> g \<noteq> None"
  using assms by (induction rs arbitrary: n f l) (auto simp: nack_scan_def split: option.splits)

lemma sendNacks_acts:
  assumes "pe_ready (fc_entry c)"
  shows "\<exists>c'. sendNacks env reason except c = Some c' \<and> acts env c c'"
proof -
  let ?I = "\<lambda>c. pe_ready (fc_entry c)"
  have "\<exists>c'. onOutgoingNack env x reason c = Some c' \<and> acts env c c' \<and> ?I c'" if "?I c" for x c
    using onOutgoingNack_acts[OF that] ready_acts[OF that] by blast
  then show ?thesis
    unfolding sendNacks_def Let_def using send_each_acts[of ?I c _ "\<lambda>x. onOutgoingNack env x reason" env] assms by blast
qed

lemma br2_nack_acts:
  assumes ready: "pe_ready (fc_entry c)"
  shows "\<exists>c'. br2_afterReceiveNack env inFace n fe c = Some c' \<and> acts env c c'"
proof -
  obtain m f l where s: "fold nack_scan (pe_outRecords (fc_entry c)) (0, None, NackNone) = (m, f, l)"
    by (metis prod_cases3)
  have f: "m = 0 \<or> f \<noteq> None"
    using nack_scan_face[OF s] by simp
  show ?thesis
    unfolding br2_afterReceiveNack_def s
    using f onOutgoingNack_acts[OF ready] sendNacks_acts[OF ready] by (auto intro: acts_done)
qed

interpretation best_route2: forwarding_strategy br2_impl
  using br2_interest_acts br2_nack_acts
  by unfold_locales (auto simp: br2_impl_def default_impl_def intro: acts_done)

lemma impl_of_strategy:
  assumes "\<And>k. forwarding_strategy (other k)"
  shows "forwarding_strategy (impl_of other k)"
  using assms best_route.forwarding_strategy_axioms multicast.forwarding_strategy_axioms
    client_control.forwarding_strategy_axioms best_route2.forwarding_strategy_axioms
  by (cases k) simp_all

subsection \<open>The choice of best route\<close>

lemma find_lowest:
  assumes "List.find P hs = Some nh" and "sorted (map nh_cost hs)"
  shows "nh \<in> set hs \<and> P nh \<and> (\<forall>nh' \<in> set hs. P nh' \<longrightarrow> nh_cost nh \<le> nh_cost nh')"
  using assms by (induction hs) (auto split: if_splits)

lemma new_decision:
  "\<not> hasPendingOutRecords env pe \<Longrightarrow> decide_exponential rx env pe = Some (RetxNew, pe)"
  by (simp add: decide_exponential_def)

lemma outRecord_inserted:
  "\<exists>r. getOutRecord face (insertOrUpdateOutRecord cx now face i pe) = Some r \<and> or_lastNonce r = i_nonce i \<and> or_lastRenewed r = now"
proof -
  have "\<exists>r. List.find (\<lambda>r. or_face r = face) (update_first (\<lambda>r. or_face r = face) (update_outRecord cx now i) rs) = Some r \<and>
      or_lastNonce r = i_nonce i \<and> or_lastRenewed r = now" if "\<exists>r \<in> set rs. or_face r = face" for rs
    using that by (induction rs) (auto simp: update_outRecord_def)
  moreover have "\<exists>r \<in> set (pe_outRecords pe). or_face r = face" if "getOutRecord face pe \<noteq> None"
    using that by (auto simp: getOutRecord_def dest: find_Some_in)
  ultimately show ?thesis
    by (auto simp: insertOrUpdateOutRecord_def getOutRecord_def newOutRecord_def Let_def)
qed

lemma sent_interest:
  assumes ready: "pe_ready (fc_entry c)" and ne: "pe_inRecords (fc_entry c) \<noteq> []"
    and valid: "f_id (en_faces env face) \<noteq> INVALID_FACEID" and scope: "\<not> violatesScope env (fc_entry c) face"
  shows "\<exists>c' i r. onOutgoingInterest env face False c = Some c' \<and> fc_out c' = fc_out c @ [SentInterest face i] \<and>
    i_name i = pe_name (fc_entry c) \<and> getOutRecord face (fc_entry c') = Some r \<and>
    or_lastNonce r = i_nonce i \<and> or_lastRenewed r = en_now env"
proof -
  obtain m where m: "max_element (compare_pickInterest face) (pe_inRecords (fc_entry c)) = Some m"
    using ne by (metis max_element_None not_None_eq)
  obtain i where i: "ir_interest m = Some i" "i_name i = pe_name (fc_entry c)"
    using max_element_in[OF m] ready by (auto simp: pe_ready_def pe_wf_def)
  show ?thesis
    using valid scope m i outRecord_inserted[of face "en_cx env" "en_now env" i "fc_entry c"]
    by (auto simp: onOutgoingInterest_def)
qed

lemma not_pending_delete:
  "hasPendingOutRecords env (deleteInRecord face pe) = hasPendingOutRecords env pe"
  by (simp add: hasPendingOutRecords_def)

lemma noroute_nack:
  assumes ready: "pe_ready (fc_entry c)" and rec: "getInRecord face (fc_entry c) \<noteq> None"
    and valid: "f_id (en_faces env face) \<noteq> INVALID_FACEID" and link: "f_linkType (en_faces env face) = PointToPoint"
  shows "\<exists>c' i. onOutgoingNack env face reason c = Some c' \<and> i_name i = pe_name (fc_entry c) \<and>
    fc_out c' = fc_out c @ [SentNack face \<lparr>n_interest = i, n_reason = reason\<rparr>] \<and>
    fc_entry c' = deleteInRecord face (fc_entry c)"
proof -
  obtain r where r: "getInRecord face (fc_entry c) = Some r"
    using rec by blast
  obtain i where "ir_interest r = Some i" "i_name i = pe_name (fc_entry c)"
    using find_Some_in[OF r[unfolded getInRecord_def]] ready by (auto simp: pe_ready_def pe_wf_def)
  with r valid link show ?thesis
    by (auto simp: onOutgoingNack_def)
qed

section \<open>Properties\<close>


definition face_example :: "face_ptr \<Rightarrow> face_info" where
  "face_example f = \<lparr>f_id = of_nat (256 + f), f_scope = ScopeNonLocal, f_linkType = PointToPoint\<rparr>"

definition env_example :: fw_env where
  "env_example = \<lparr>en_cx = cx_example, en_now = 0, en_faces = face_example, en_faceTable = (\<lambda>_. None), en_random = 5\<rparr>"

definition entry_example :: pit_entry where
  "entry_example = insertOrUpdateInRecord cx_example 0 1 (interest_example [Generic [97]])
     (newPitEntry (interest_example [Generic [97]]))"

definition ctx_example :: fw_ctx where
  "ctx_example = \<lparr>fc_entry = entry_example, fc_out = [], fc_nOutInterests = 0, fc_nOutNacks = 0\<rparr>"

definition route_example :: fib_entry where
  "route_example = addNextHop 2 10 (addNextHop 3 5 (newFibEntry []))"

lemma entry_example_ready: "pe_ready (fc_entry ctx_example)" "pe_inRecords (fc_entry ctx_example) \<noteq> []"
proof -
  have "pe_wf entry_example"
    unfolding entry_example_def by (rule pe_wf_insertOrUpdateInRecord) (simp_all add: pe_wf_def newPitEntry_def)
  moreover have "pe_retxInterval entry_example = None" "pe_inRecords entry_example \<noteq> []"
    by code_simp+
  ultimately show "pe_ready (fc_entry ctx_example)" "pe_inRecords (fc_entry ctx_example) \<noteq> []"
    by (simp_all add: ctx_example_def pe_ready_def retx_ok_def)
qed



definition pending_example :: pit_entry where
  "pending_example = insertOrUpdateOutRecord cx_example 0 3 (interest_example [Generic [97]]) entry_example"


text \<open>C11. Best route, version 4, for an Interest with nothing pending: if some next hop is eligible, that is other than the
  downstream and within the scope of the name, exactly one Interest is sent,
  to an eligible next hop of the lowest cost, and its nonce is kept in an out-record; otherwise the downstream gets exactly
  one Nack with reason NoRoute and the entry is rejected, so that only its straggler timer remains.\<close>

theorem best_route_choice:
  assumes ready: "pe_ready (fc_entry c)" and rec: "getInRecord inFace (fc_entry c) \<noteq> None"
    and new: "\<not> hasPendingOutRecords env (fc_entry c)" and hops: "nexthops_ok (fe_nextHops fe)"
    and valid: "\<forall>nh \<in> set (fe_nextHops fe). f_id (en_faces env (nh_face nh)) \<noteq> INVALID_FACEID"
      "f_id (en_faces env inFace) \<noteq> INVALID_FACEID" "f_linkType (en_faces env inFace) = PointToPoint"
    and eligible: "eligible = {nh \<in> set (fe_nextHops fe).
      f_id (en_faces env (nh_face nh)) \<noteq> f_id (en_faces env inFace) \<and> \<not> violatesScope env (fc_entry c) (nh_face nh)}"
  shows "\<exists>c'. br2_afterReceiveInterest env inFace interest fe c = Some c' \<and>
    (if eligible \<noteq> {}
     then \<exists>nh \<in> eligible. (\<forall>nh' \<in> eligible. nh_cost nh \<le> nh_cost nh') \<and>
       (\<exists>i r. i_name i = pe_name (fc_entry c) \<and> fc_out c' = fc_out c @ [SentInterest (nh_face nh) i] \<and>
         getOutRecord (nh_face nh) (fc_entry c') = Some r \<and> or_lastNonce r = i_nonce i)
     else (\<exists>i. i_name i = pe_name (fc_entry c) \<and>
         fc_out c' = fc_out c @ [SentNack inFace \<lparr>n_interest = i, n_reason = NoRoute\<rparr>]) \<and>
       pe_unsatisfyTimer (fc_entry c') = None \<and>
       pe_stragglerTimer (fc_entry c') = Some (en_now env + milliseconds 2000, False, -1))"
proof -
  let ?P = "\<lambda>nh. predicate_NextHop_eligible env (fc_entry c) nh (f_id (en_faces env inFace)) False TimePoint_min"
  have eligible: "eligible = {nh \<in> set (fe_nextHops fe). ?P nh}"
    unfolding eligible by (auto simp: predicate_NextHop_eligible_def Let_def)
  have ne: "pe_inRecords (fc_entry c) \<noteq> []"
    using rec by (auto simp: getInRecord_def)
  note step = br2_afterReceiveInterest_def new_decision[OF new]
  show ?thesis
  proof (cases "List.find ?P (fe_nextHops fe)")
    case None
    then have none: "eligible = {}"
      using eligible by (auto simp: find_None_all)
    obtain c1 i where c1: "onOutgoingNack env inFace NoRoute c = Some c1" "i_name i = pe_name (fc_entry c)"
      "fc_out c1 = fc_out c @ [SentNack inFace \<lparr>n_interest = i, n_reason = NoRoute\<rparr>]"
      "fc_entry c1 = deleteInRecord inFace (fc_entry c)"
      using noroute_nack[OF ready rec valid(2,3), of NoRoute] by blast
    show ?thesis
      using none None c1 new
      by (auto simp: step onInterestReject_def not_pending_delete fc_update_def setStragglerTimer_def
          cancelUnsatisfyAndStragglerTimer_def)
  next
    case (Some nh)
    have low: "nh \<in> set (fe_nextHops fe) \<and> ?P nh \<and> (\<forall>nh' \<in> set (fe_nextHops fe). ?P nh' \<longrightarrow> nh_cost nh \<le> nh_cost nh')"
      using find_lowest[OF Some] hops by (simp add: nexthops_ok_def)
    then have el: "nh \<in> eligible" "\<forall>nh' \<in> eligible. nh_cost nh \<le> nh_cost nh'"
      using eligible by auto
    have "\<not> violatesScope env (fc_entry c) (nh_face nh)"
      using low by (auto simp: predicate_NextHop_eligible_def Let_def split: if_splits)
    then obtain c' i r where c': "onOutgoingInterest env (nh_face nh) False c = Some c'"
      "fc_out c' = fc_out c @ [SentInterest (nh_face nh) i]" "i_name i = pe_name (fc_entry c)"
      "getOutRecord (nh_face nh) (fc_entry c') = Some r" "or_lastNonce r = i_nonce i"
      using sent_interest[OF ready ne] valid(1) low by blast
    have "br2_afterReceiveInterest env inFace interest fe c = Some c'"
      using Some c'(1) by (simp add: step)
    then show ?thesis
      using el c' by (auto intro!: bexI[OF _ el(1)])
  qed
qed

theorem best_route_choice_witness:
  "\<exists>c'. br2_afterReceiveInterest env_example 1 (interest_example [Generic [97]]) route_example ctx_example = Some c' \<and>
     (\<exists>i. fc_out c' = [SentInterest 3 i])"
proof -
  have h: "fe_nextHops route_example = [\<lparr>nh_face = 3, nh_cost = 5\<rparr>, \<lparr>nh_face = 2, nh_cost = 10\<rparr>]"
    by code_simp
  have p: "f_id (en_faces env_example 3) \<noteq> f_id (en_faces env_example 1)" "\<not> violatesScope env_example (fc_entry ctx_example) 3"
    "f_id (en_faces env_example 2) \<noteq> f_id (en_faces env_example 1)" "\<not> violatesScope env_example (fc_entry ctx_example) 2"
    "getInRecord 1 (fc_entry ctx_example) \<noteq> None" "\<not> hasPendingOutRecords env_example (fc_entry ctx_example)"
    "fc_out ctx_example = []"
    by code_simp+
  have v: "f_id (en_faces env_example f) \<noteq> INVALID_FACEID" if "f \<in> {1, 2, 3}" for f
    using that by (auto simp: env_example_def face_example_def INVALID_FACEID_def)
  have "{nh \<in> set (fe_nextHops route_example). f_id (en_faces env_example (nh_face nh)) \<noteq> f_id (en_faces env_example 1) \<and>
      \<not> violatesScope env_example (fc_entry ctx_example) (nh_face nh)} =
      {\<lparr>nh_face = 3, nh_cost = 5\<rparr>, \<lparr>nh_face = 2, nh_cost = 10\<rparr>}"
    using p(1-4) by (auto simp: h)
  from best_route_choice[where interest = "interest_example [Generic [97]]", OF entry_example_ready(1) p(5,6) _ _ _ _ this[symmetric]]
  show ?thesis
    using p(7) v by (auto simp: h nexthops_ok_def env_example_def face_example_def INVALID_FACEID_def)
qed

end
