(* ===== verification/Name_Tree_Table.thy ===== *)
theory Name_Tree_Table
  imports Name_Tree_Slots
begin

text \<open>
  The interface of a table whose entries hang off entries of the name tree: \<open>objs\<close> gives the
  name and the back pointer of every entry object, \<open>link\<close> sets a back pointer, and \<open>setE\<close> is
  the member function of \<^verbatim>\<open>name_tree::Entry\<close> that attaches and detaches an entry.  From the
  laws it follows that attaching and detaching keep the tree and the table linked, with the
  clean-up of the name tree included.
\<close>

lemma card_dom_new:
  "finite (dom m) \<Longrightarrow> m n = None \<Longrightarrow> (of_nat (card (dom (m(n \<mapsto> x)))) :: u64) = of_nat (card (dom m)) + 1"
  by (simp add: domIff)

lemma card_dom_del:
  assumes "finite (dom m)" and "m n = Some x"
  shows "(of_nat (card (dom (m(n := None)))) :: u64) = of_nat (card (dom m)) - 1"
proof -
  have "card (dom m) = Suc (card (dom m - {n}))"
    using assms by (intro card.remove) auto
  then show ?thesis
    by simp
qed

locale nt_table = nt_slot get put for get put +
  fixes objs :: "'s \<Rightarrow> nat \<Rightarrow> (name \<times> nt_ref option) option"
    and link :: "nat \<Rightarrow> nt_ref option \<Rightarrow> 's \<Rightarrow> 's"
    and setE :: "nt_ref \<Rightarrow> nat option \<Rightarrow> name_tree \<times> 's \<Rightarrow> (name_tree \<times> 's) option"
  assumes objs_link: "objs (link x l s) = (objs s)(x := map_option (\<lambda>(n, _). (n, l)) (objs s x))"
    and set_new: "nt_entries t r = Some e \<Longrightarrow> get e = None \<Longrightarrow> objs s x = Some (n, None) \<Longrightarrow>
      setE r (Some x) (t, s) = Some (nt_update r (put (Some x)) t, link x (Some r) s)"
    and set_none: "nt_entries t r = Some e \<Longrightarrow> get e = Some x \<Longrightarrow>
      setE r None (t, s) = Some (nt_update r (put None) t, link x None s)"
begin

lemma slot_object:
  assumes "linked get wire t (objs s)" and "slot_at get wire t n = Some x"
  shows "\<exists>r. objs s x = Some (n, Some r) \<and> nt_prefix t r = Some n"
  using linked_slot[OF assms] linked_object[OF assms(1)] by blast

lemma attach:
  assumes l: "linked get wire t (objs s)" and r: "nt_prefix t r = Some n"
    and none: "slot_at get wire t n = None" and x: "objs s x = Some (n, None)"
  shows "setE r (Some x) (t, s) = Some (nt_update r (put (Some x)) t, link x (Some r) s) \<and>
    linked get wire (nt_update r (put (Some x)) t) (objs (link x (Some r) s)) \<and>
    slot_at get wire (nt_update r (put (Some x)) t) = (slot_at get wire t)(n \<mapsto> x)"
proof -
  obtain e where e: "nt_entries t r = Some e" "e_prefix e = n"
    using r by (auto simp: nt_prefix_def)
  have "get e = None"
    using slot_at_entry[OF linked_inv[OF l] e(1)] e(2) none by simp
  moreover have "objs (link x (Some r) s) = (objs s)(x \<mapsto> (n, Some r))"
    by (simp add: objs_link x)
  ultimately show ?thesis
    using set_new[OF e(1) _ x] linked_attach[OF l r none x] slot_at_put[OF linked_inv[OF l] r] by simp
qed

lemma detach:
  assumes l: "linked get wire t (objs s)" and r: "nt_prefix t r = Some n"
    and x: "slot_at get wire t n = Some x"
  shows "setE r None (t, s) = Some (nt_update r (put None) t, link x None s) \<and>
    linked get wire (nt_update r (put None) t) (objs (link x None s)) \<and>
    slot_at get wire (nt_update r (put None) t) = (slot_at get wire t)(n := None)"
proof -
  obtain e where e: "nt_entries t r = Some e" "e_prefix e = n"
    using r by (auto simp: nt_prefix_def)
  have "get e = Some x"
    using slot_at_entry[OF linked_inv[OF l] e(1)] e(2) x by simp
  moreover obtain r' where "objs s x = Some (n, Some r')"
    using slot_object[OF l x] by blast
  then have "objs (link x None s) = (objs s)(x \<mapsto> (n, None))"
    by (simp add: objs_link)
  ultimately show ?thesis
    using set_none[OF e(1)] linked_detach[OF l r x] slot_at_put[OF linked_inv[OF l] r] by simp
qed

lemma detach_erase:
  assumes l: "linked get wire t (objs s)" and r: "nt_prefix t r = Some n"
    and x: "slot_at get wire t n = Some x"
  shows "\<exists>t' b. eraseEntryIfEmpty r (nt_update r (put None) t) = Some (t', b) \<and>
    linked get wire t' (objs (link x None s)) \<and> slot_at get wire t' = (slot_at get wire t)(n := None) \<and>
    nt_inv wire (nt_update r (put None) t) \<and> nt_shrinks (nt_update r (put None) t) t'"
proof -
  let ?t = "nt_update r (put None) t"
  have d: "linked get wire ?t (objs (link x None s))" "slot_at get wire ?t = (slot_at get wire t)(n := None)"
    using detach[OF l r x] by auto
  have inv: "nt_inv wire ?t"
    by (rule linked_inv[OF d(1)])
  obtain e where "nt_entries ?t r = Some e"
    using r by (auto simp: nt_prefix_def nt_update_def)
  from eraseEntryIfEmpty_ok[OF inv this] obtain t' where t':
    "eraseEntryIfEmpty r ?t = Some (t', isEmpty e)" "nt_inv wire t'" "nt_shrinks ?t t'"
    unfolding erased_def by blast
  have "slot_at get wire t' = slot_at get wire ?t"
    by (rule slot_at_shrinks[OF inv t'(2,3)])
  moreover have "linked get wire t' (objs (link x None s))"
    by (rule linked_frame[OF d(1) t'(2) slot_frame_shrinks[OF inv t'(2,3)]])
  ultimately show ?thesis
    using d(2) t'(1,3) inv by auto
qed

end

end
