(* ===== verification/Strategy_Choice_Correct.thy ===== *)
theory Strategy_Choice_Correct
  imports Strategy_Choice Name_Tree_Table Fib_Correct Pit_Correct
begin

text \<open>
  Correctness of the strategy choice table: it is a map from prefixes to installed strategies
  with an entry for the empty name, so that a strategy is in effect for every name; the
  strategy in effect is the one of the longest prefix; and a change of strategy clears the
  strategy information exactly on the names the change is in effect for.
\<close>

section \<open>Installed strategies\<close>

definition instances_ok :: "(name \<times> strategy) list \<Rightarrow> bool" where
  "instances_ok xs \<longleftrightarrow> sorted_wrt (<) (map fst xs) \<and> (\<forall>(k, st) \<in> set xs. k = st_name st) \<and>
     (\<forall>(k, st) \<in> set xs. \<forall>(k', st') \<in> set xs. st_ptr st = st_ptr st' \<longrightarrow> st = st')"

text \<open>The names one component longer than a name, in order.\<close>

definition versions :: "name \<Rightarrow> (name \<times> strategy) list \<Rightarrow> strategy list" where
  "versions n xs = map snd (filter (\<lambda>(k, _). prefix n k \<and> length k = length n + 1) xs)"

lemma versions_Cons:
  "versions n ((k, st) # xs) = (if prefix n k \<and> length k = length n + 1 then st # versions n xs else versions n xs)"
  by (simp add: versions_def)

lemma map_of_above:
  fixes k :: "'a::linorder"
  assumes "sorted_wrt (<) (map fst xs)" and "\<forall>x \<in> set xs. k < fst x"
  shows "map_of xs k = None"
  using assms(2) by (auto simp: map_of_eq_None_iff)

lemma getStrategy_loop_spec:
  assumes "sorted_wrt (<) (map fst xs)" and "\<forall>x \<in> set xs. n \<le> fst x"
  shows "getStrategy_loop n cand xs =
    (case map_of xs n of Some st \<Rightarrow> Some st
     | None \<Rightarrow> if versions n xs = [] then cand else Some (last (versions n xs)))"
  using assms
proof (induction n cand xs rule: getStrategy_loop.induct)
  case (2 n cand k st rest)
  have above: "\<forall>x \<in> set rest. k < fst x"
    using 2(3) by simp
  show ?case
  proof (cases "prefix n k")
    case False
    have none: "\<not> prefix n k'" if "(k', st') \<in> set ((k, st) # rest)" for k' st'
    proof
      assume "prefix n k'"
      moreover have "k \<le> k'"
        using that above by fastforce
      ultimately show False
        using prefix_convex[of n k' k] 2(4) False by simp
    qed
    have "versions n ((k, st) # rest) = []"
      using none by (auto simp: versions_def filter_empty_conv)
    moreover have "map_of ((k, st) # rest) n = None"
      using none by (metis map_of_SomeD not_Some_eq prefix_order.refl)
    ultimately show ?thesis
      using False by simp
  next
    case True
    show ?thesis
    proof (cases "k = n")
      case True
      then show ?thesis by simp
    next
      case False
      with True have len: "length k - length n \<noteq> 0"
        by (auto simp: prefix_def)
      then show ?thesis
        using 2(1,2) 2(3,4) True False by (auto simp: versions_Cons split: option.splits)
    qed
  qed
qed (simp add: versions_def)

lemma below_lower_bound:
  fixes n :: name
  assumes "k < n"
  shows "\<not> prefix n k"
  using assms prefix_le[of n k] by auto

lemma lower_bound_map_of: "map_of (dropWhile (\<lambda>(k, _). k < n) xs) n = map_of xs n" for n :: name
  by (induction xs) auto

lemma lower_bound_versions: "versions n (dropWhile (\<lambda>(k, _). k < n) xs) = versions n xs"
  by (induction xs) (auto simp: versions_Cons below_lower_bound)

lemma lower_bound_sorted:
  fixes n :: name
  assumes "sorted_wrt (<) (map fst xs)"
  shows "sorted_wrt (<) (map fst (dropWhile (\<lambda>(k, _). k < n) xs)) \<and>
    (\<forall>x \<in> set (dropWhile (\<lambda>(k, _). k < n) xs). n \<le> fst x)"
  using assms by (induction xs) force+

lemma getStrategy_spec:
  assumes "instances_ok (sc_instances c)"
  shows "getStrategy n c =
    (case map_of (sc_instances c) n of Some st \<Rightarrow> Some st
     | None \<Rightarrow> if versions n (sc_instances c) = [] then None else Some (last (versions n (sc_instances c))))"
proof -
  have "sorted_wrt (<) (map fst (sc_instances c))"
    using assms by (simp add: instances_ok_def)
  note sorted = lower_bound_sorted[OF this, of n]
  show ?thesis
    unfolding getStrategy_def getStrategy_loop_spec[OF conjunct1[OF sorted] conjunct2[OF sorted]]
      lower_bound_map_of lower_bound_versions by (rule refl)
qed

definition installed :: "strategy_choice \<Rightarrow> strategy \<Rightarrow> bool" where
  "installed c st \<longleftrightarrow> (st_name st, st) \<in> set (sc_instances c)"

lemma getStrategy_installed:
  assumes ok: "instances_ok (sc_instances c)" and "getStrategy n c = Some st"
  shows "installed c st \<and> prefix n (st_name st)"
proof -
  consider "map_of (sc_instances c) n = Some st" | "st \<in> set (versions n (sc_instances c))"
    using assms(2) unfolding getStrategy_spec[OF ok] by (auto split: option.splits if_splits)
  then show ?thesis
  proof cases
    case 1
    then have "(n, st) \<in> set (sc_instances c)"
      by (rule map_of_SomeD)
    with ok show ?thesis
      by (auto simp: instances_ok_def installed_def)
  next
    case 2
    then show ?thesis
      using ok by (fastforce simp: versions_def instances_ok_def installed_def)
  qed
qed

lemma install_ok:
  assumes "instances_ok (sc_instances c)" and "st_ptr st \<notin> (st_ptr \<circ> snd) ` set (sc_instances c)"
  shows "instances_ok (sc_instances (fst (install st c)))" "sc_entries (fst (install st c)) = sc_entries c"
    "sc_next (fst (install st c)) = sc_next c" "sc_nItems (fst (install st c)) = sc_nItems c"
    "installed c st' \<Longrightarrow> installed (fst (install st c)) st'"
  using assms map_assign_sorted[of "sc_instances c" "st_name st" st] map_assign_set[of "sc_instances c" "st_name st" st]
  by (auto simp: install_def hasStrategy_def instances_ok_def installed_def image_iff split_beta)

lemma installed_name:
  assumes ok: "instances_ok (sc_instances c)" and "installed c a" "installed c b"
  shows "st_name a = st_name b \<longleftrightarrow> a = b" "st_ptr a = st_ptr b \<longleftrightarrow> a = b"
proof -
  have "distinct (map fst (sc_instances c))"
    using ok by (auto simp: instances_ok_def strict_sorted_iff)
  then show "st_name a = st_name b \<longleftrightarrow> a = b"
    using assms(2,3) eq_key_imp_eq_value unfolding installed_def by metis
  show "st_ptr a = st_ptr b \<longleftrightarrow> a = b"
    using assms unfolding installed_def instances_ok_def by fastforce
qed

section \<open>Invariant\<close>

definition sc_objects :: "strategy_choice \<Rightarrow> nat \<Rightarrow> (name \<times> nt_ref option) option" where
  "sc_objects c x = map_option (\<lambda>se. (sce_prefix se, sce_nameTreeEntry se)) (sc_entries c x)"

definition sc_link :: "nat \<Rightarrow> nt_ref option \<Rightarrow> strategy_choice \<Rightarrow> strategy_choice" where
  "sc_link x l c = sc_update x (\<lambda>se. se\<lparr>sce_nameTreeEntry := l\<rparr>) c"

interpretation sc_table: nt_table e_strategyChoiceEntry "\<lambda>v e. e\<lparr>e_strategyChoiceEntry := v\<rparr>"
  sc_objects sc_link setStrategyChoiceEntry
proof unfold_locales
  fix x l and s :: strategy_choice
  show "sc_objects (sc_link x l s) = (sc_objects s)(x := map_option (\<lambda>(n, _). (n, l)) (sc_objects s x))"
    by (auto simp: sc_objects_def sc_link_def sc_update_def fun_eq_iff option.map_comp o_def)
qed (auto simp: setStrategyChoiceEntry_def sc_link_def sc_objects_def)

abbreviation sc_slots :: "(component \<Rightarrow> byte list) \<Rightarrow> name_tree \<Rightarrow> name \<Rightarrow> strategy_choice_ref option" where
  "sc_slots \<equiv> slot_at e_strategyChoiceEntry"

definition sc_inv :: "(component \<Rightarrow> byte list) \<Rightarrow> name_tree \<times> strategy_choice \<Rightarrow> bool" where
  "sc_inv wire s \<longleftrightarrow> linked e_strategyChoiceEntry wire (fst s) (sc_objects (snd s)) \<and>
     (\<forall>x se. sc_entries (snd s) x = Some se \<longrightarrow> x < sc_next (snd s) \<and>
        (sce_nameTreeEntry se \<noteq> None \<longrightarrow> (\<exists>st. sce_strategy se = Some st \<and> installed (snd s) st))) \<and>
     sc_slots wire (fst s) [] \<noteq> None \<and>
     sc_nItems (snd s) = of_nat (card (dom (sc_slots wire (fst s)))) \<and>
     instances_ok (sc_instances (snd s))"

text \<open>The table a client sees: a map from prefixes to strategies.\<close>

definition sc_view :: "(component \<Rightarrow> byte list) \<Rightarrow> name_tree \<times> strategy_choice \<Rightarrow> name \<Rightarrow> strategy option" where
  "sc_view wire s n = Option.bind (sc_slots wire (fst s) n) (\<lambda>x. sce_getStrategy x (snd s))"

lemma sc_invD:
  assumes "sc_inv wire (t, c)"
  shows "linked e_strategyChoiceEntry wire t (sc_objects c)" "nt_inv wire t"
    "sc_entries c x = Some se \<Longrightarrow> x < sc_next c"
    "sc_entries c x = Some se \<Longrightarrow> sce_nameTreeEntry se \<noteq> None \<Longrightarrow> \<exists>st. sce_strategy se = Some st \<and> installed c st"
    "sc_slots wire t [] \<noteq> None" "sc_nItems c = of_nat (card (dom (sc_slots wire t)))"
    "instances_ok (sc_instances c)"
  using assms linked_inv unfolding sc_inv_def fst_conv snd_conv by blast+

lemma sc_fresh: "sc_inv wire (t, c) \<Longrightarrow> sc_entries c (sc_next c) = None"
  using sc_invD(3) by (cases "sc_entries c (sc_next c)") blast+

lemma sc_slot_object:
  assumes "sc_inv wire (t, c)" and "sc_slots wire t n = Some x"
  obtains se r st where "sc_entries c x = Some se" "sce_prefix se = n" "sce_nameTreeEntry se = Some r"
    "nt_prefix t r = Some n" "sce_strategy se = Some st" "installed c st"
proof -
  obtain r where r: "sc_objects c x = Some (n, Some r)" "nt_prefix t r = Some n"
    using sc_table.slot_object[OF sc_invD(1)[OF assms(1)] assms(2)] by blast
  then obtain se where se: "sc_entries c x = Some se" "sce_prefix se = n" "sce_nameTreeEntry se = Some r"
    by (auto simp: sc_objects_def)
  moreover obtain st where "sce_strategy se = Some st" "installed c st"
    using sc_invD(4)[OF assms(1) se(1)] se(3) by auto
  ultimately show ?thesis
    using r(2) by (intro that)
qed

lemma sc_view_dom: "sc_inv wire (t, c) \<Longrightarrow> sc_view wire (t, c) n = None \<longleftrightarrow> sc_slots wire t n = None"
  by (cases "sc_slots wire t n") (auto simp: sc_view_def sce_getStrategy_def elim: sc_slot_object)

lemma sc_inv_frame:
  assumes "sc_inv wire (t, c)" and "nt_inv wire t'" and "slot_frame e_strategyChoiceEntry wire t t'"
  shows "sc_inv wire (t', c)" "sc_view wire (t', c) = sc_view wire (t, c)"
  using assms linked_frame[OF sc_invD(1)[OF assms(1)] assms(2,3)] slot_frame_at[OF assms(3)]
  unfolding sc_inv_def sc_view_def[abs_def] fst_conv snd_conv by simp_all

section \<open>The strategy in effect\<close>

definition effective :: "(component \<Rightarrow> byte list) \<Rightarrow> name_tree \<times> strategy_choice \<Rightarrow> name \<Rightarrow> strategy option" where
  "effective wire s n = longest_match (sc_view wire s) n"

lemma effective_slots:
  assumes inv: "sc_inv wire (t, c)"
  shows "effective wire (t, c) n = Option.bind (longest_match (sc_slots wire t) n) (\<lambda>x. sce_getStrategy x c)"
  unfolding effective_def
proof (induction n rule: rev_induct)
  case Nil
  then show ?case
    by (simp add: longest_match_Nil sc_view_def)
next
  case (snoc k n)
  show ?case
  proof (cases "sc_slots wire t (n @ [k])")
    case (Some x)
    obtain se st where "sc_entries c x = Some se" "sce_strategy se = Some st"
      using sc_slot_object[OF inv Some] by blast
    with Some show ?thesis
      by (simp add: longest_match_snoc sc_view_def sce_getStrategy_def)
  qed (use snoc in \<open>simp add: longest_match_snoc sc_view_def\<close>)
qed

lemma effective_installed:
  assumes inv: "sc_inv wire (t, c)"
  shows "\<exists>st. effective wire (t, c) n = Some st \<and> installed c st"
proof -
  have "longest_match (sc_slots wire t) n \<noteq> None"
  proof
    assume "longest_match (sc_slots wire t) n = None"
    then have "sc_slots wire t [] = None"
      using longest_match_None[THEN iffD1, rule_format, OF _ Nil_prefix] by blast
    with sc_invD(5)[OF inv] show False ..
  qed
  then obtain x where x: "longest_match (sc_slots wire t) n = Some x"
    by blast
  from longest_match_Some[OF this] obtain p where p: "sc_slots wire t p = Some x"
    by blast
  obtain se st where "sc_entries c x = Some se" "sce_strategy se = Some st" "installed c st"
    using sc_slot_object[OF inv p] by blast
  with x show ?thesis
    unfolding effective_slots[OF inv] by (simp add: sce_getStrategy_def)
qed

lemma find_effective:
  assumes inv: "sc_inv wire (t, c)"
  shows "Option.bind (List.find (selected hasStrategyChoiceEntry t) (matches wire n t))
      (\<lambda>r. Option.bind (nt_entries t r) (\<lambda>e. Option.bind (e_strategyChoiceEntry e) (\<lambda>x. sce_getStrategy x c))) =
    effective wire (t, c) n"
proof -
  have sel: "hasStrategyChoiceEntry = (\<lambda>e. e_strategyChoiceEntry e \<noteq> None)"
    by (auto simp: hasStrategyChoiceEntry_def)
  show ?thesis
    unfolding effective_slots[OF inv] sc_slot.find_slot[OF sc_invD(2)[OF inv], symmetric] sel
    by (simp add: Option.bind_assoc)
qed

lemma findEffectiveStrategy_ok:
  assumes inv: "sc_inv wire (t, c)" and "prefix_hashes_distinct wire n"
  shows "findEffectiveStrategy wire n (t, c) = effective wire (t, c) n"
  unfolding findEffectiveStrategy_def fst_conv snd_conv nt_findLongestPrefixMatch_ok[OF sc_invD(2)[OF inv] assms(2)]
  by (rule find_effective[OF inv])

lemma effective_nte_ok:
  assumes inv: "sc_inv wire (t, c)" and r: "nt_prefix t r = Some n"
  shows "effective_nte r (t, c) = effective wire (t, c) n"
proof -
  obtain e where e: "nt_entries t r = Some e" "e_prefix e = n"
    using r by (auto simp: nt_prefix_def)
  show ?thesis
  proof (cases "e_strategyChoiceEntry e")
    case None
    then show ?thesis
      unfolding effective_nte_def fst_conv snd_conv find_effective[OF inv, symmetric]
        nt_lpm_entry_ok[OF sc_invD(2)[OF inv] r, of hasStrategyChoiceEntry]
      using e(1) by simp
  next
    case (Some x)
    then have "sc_slots wire t n = Some x"
      using sc_slot.slot_at_entry[OF sc_invD(2)[OF inv] e(1)] e(2) by simp
    then have "longest_match (sc_slots wire t) n = Some x"
      by (cases n rule: rev_cases) (simp_all add: longest_match_Nil longest_match_snoc)
    with Some e(1) show ?thesis
      by (simp add: effective_nte_def effective_slots[OF inv])
  qed
qed

section \<open>Where a change is in effect\<close>

text \<open>The names for which the entry of \<open>n\<close> decides, if there is one.\<close>

definition governs :: "(name \<Rightarrow> 'a option) \<Rightarrow> name \<Rightarrow> name \<Rightarrow> bool" where
  "governs m n k \<longleftrightarrow> prefix n k \<and> (\<forall>q. strict_prefix n q \<longrightarrow> prefix q k \<longrightarrow> m q = None)"

lemma governs_refl [simp]: "governs m n n"
  by (auto simp: governs_def)

lemma governs_snoc:
  assumes "n \<noteq> k @ [c]"
  shows "governs m n (k @ [c]) \<longleftrightarrow> governs m n k \<and> m (k @ [c]) = None"
proof
  assume "governs m n (k @ [c])"
  then have "prefix n (k @ [c])" and none: "\<And>q. strict_prefix n q \<Longrightarrow> prefix q (k @ [c]) \<Longrightarrow> m q = None"
    unfolding governs_def by blast+
  moreover from this(1) have "prefix n k"
    using assms by simp
  ultimately show "governs m n k \<and> m (k @ [c]) = None"
    using assms none[of "k @ [c]"] unfolding governs_def by (auto simp: strict_prefix_def)
next
  assume "governs m n k \<and> m (k @ [c]) = None"
  then show "governs m n (k @ [c])"
    unfolding governs_def by auto
qed

lemma governs_cong: "(\<And>q. q \<noteq> n \<Longrightarrow> m q = None \<longleftrightarrow> m' q = None) \<Longrightarrow> governs m n k \<longleftrightarrow> governs m' n k"
  unfolding governs_def by (auto simp: strict_prefix_def)

lemma longest_match_governed:
  "governs m n k \<Longrightarrow> longest_match m k = longest_match m n"
proof (induction k rule: rev_induct)
  case Nil
  then show ?case by (simp add: governs_def)
next
  case (snoc c k)
  show ?case
  proof (cases "n = k @ [c]")
    case False
    then show ?thesis
      using snoc governs_snoc[OF False, of m] by (simp add: longest_match_snoc)
  qed simp
qed

lemma longest_match_upd_other:
  "\<not> governs m n k \<Longrightarrow> longest_match (m(n := v)) k = longest_match m k"
proof (induction k rule: rev_induct)
  case Nil
  then have "n \<noteq> []"
    by auto
  then show ?case by (simp add: longest_match_Nil)
next
  case (snoc c k)
  have n: "n \<noteq> k @ [c]"
    using snoc.prems by auto
  show ?case
    using snoc n governs_snoc[OF n, of m] by (auto simp: longest_match_snoc split: option.splits)
qed

lemma longest_match_changes:
  "longest_match (m(n := v)) k \<noteq> longest_match m k \<longleftrightarrow>
    governs m n k \<and> longest_match (m(n := v)) n \<noteq> longest_match m n"
proof (cases "governs m n k")
  case True
  then have "governs (m(n := v)) n k"
    using governs_cong[of n m "m(n := v)" k] by simp
  with True show ?thesis
    using longest_match_governed[of m n k] longest_match_governed[of "m(n := v)" n k] by simp
qed (use longest_match_upd_other in auto)

subsection \<open>The walk of \<^verbatim>\<open>changeStrategy\<close>\<close>

lemma walked_snoc:
  "walked sub t r p \<Longrightarrow> nt_entries t p = Some pe \<Longrightarrow> snd (sub p pe) \<Longrightarrow> c \<in> set (e_children pe) \<Longrightarrow>
    nt_entries t c = Some ce \<Longrightarrow> walked sub t r c"
  by (induction rule: walked.induct) (auto intro: walked.intros)

lemma walked_governed:
  assumes inv: "nt_inv wire t" and root: "nt_prefix t root = Some n" and sub: "sub = changed_subtree (Some root)"
  shows "walked sub t p x \<Longrightarrow> (\<exists>pe. nt_entries t p = Some pe \<and> governs (sc_slots wire t) n (e_prefix pe)) \<Longrightarrow>
    nt_entries t x = Some xe \<Longrightarrow> fst (sub x xe) \<Longrightarrow> governs (sc_slots wire t) n (e_prefix xe)"
proof (induction rule: walked.induct)
  case (child r e c x)
  obtain ce where ce: "nt_entries t c = Some ce" "e_parent ce = Some r" "length (e_prefix ce) = Suc (length (e_prefix e))"
    using child_prefix[OF inv child(1,3)] by blast
  have gov: "governs (sc_slots wire t) n (e_prefix e)"
    using child.prems child(1) by auto
  have "e_prefix e = butlast (e_prefix ce)"
    using tree_inv_parent_live[OF nt_invD(7)[OF inv] ce(1,2)] child(1) by auto
  then obtain k where k: "e_prefix ce = e_prefix e @ [k]"
    using ce(3) by (metis append_butlast_last_id length_greater_0_conv zero_less_Suc)
  have ne: "n \<noteq> e_prefix e @ [k]"
    using gov prefix_length_le[of n "e_prefix e"] by (auto simp: governs_def)
  have "c \<noteq> root"
    using root ce(1) k ne by (auto simp: nt_prefix_def)
  show ?case
  proof (cases "e_strategyChoiceEntry ce")
    case None
    then have "sc_slots wire t (e_prefix ce) = None"
      using sc_slot.slot_at_entry[OF inv ce(1)] by simp
    with gov have "governs (sc_slots wire t) n (e_prefix ce)"
      unfolding k governs_snoc[OF ne] by simp
    with child.IH child.prems ce(1) show ?thesis
      by blast
  next
    case (Some y)
    then have "sub c ce = (False, False)"
      using \<open>c \<noteq> root\<close> by (simp add: sub changed_subtree_def)
    with child(4) child.prems ce(1) show ?thesis
      by (auto simp: walked_cases[OF ce(1)])
  qed
qed auto

lemma governed_walked:
  assumes inv: "nt_inv wire t" and root: "nt_prefix t root = Some n" and sub: "sub = changed_subtree (Some root)"
  shows "governs (sc_slots wire t) n m \<Longrightarrow> nt_prefix t r = Some m \<Longrightarrow>
    walked sub t root r \<and> (\<exists>e. nt_entries t r = Some e \<and> sub r e = (True, True))"
proof (induction m arbitrary: r rule: rev_induct)
  case Nil
  then have "r = root"
    using nt_prefix_inj[OF inv root, of r] by (simp add: governs_def)
  with Nil(2) show ?case
    by (auto simp: nt_prefix_def sub changed_subtree_def intro: walked.start)
next
  case (snoc k m)
  obtain e where e: "nt_entries t r = Some e" "e_prefix e = m @ [k]"
    using snoc.prems(2) by (auto simp: nt_prefix_def)
  show ?case
  proof (cases "n = m @ [k]")
    case True
    then have "r = root"
      using nt_prefix_inj[OF inv root, of r] snoc.prems(2) by simp
    with e show ?thesis
      by (auto simp: sub changed_subtree_def intro: walked.start)
  next
    case False
    then have gov: "governs (sc_slots wire t) n m" "sc_slots wire t (m @ [k]) = None"
      using snoc.prems(1) governs_snoc by blast+
    obtain p pe where p: "e_parent e = Some p" "nt_entries t p = Some pe" "e_prefix pe = m"
      using tree_inv_parent[OF nt_invD(7)[OF inv] e(1)] e(2) by auto
    then have walk: "walked sub t root p" "sub p pe = (True, True)"
      using snoc.IH[OF gov(1), of p] by (auto simp: nt_prefix_def)
    have "r \<in> set (e_children pe)"
      using tree_inv_children[OF nt_invD(7)[OF inv] p(2)] p(1) e(1) by blast
    then have "walked sub t root r"
      using walked_snoc[OF walk(1) p(2)] walk(2) e(1) by simp
    moreover have "e_strategyChoiceEntry e = None"
      using sc_slot.slot_at_entry[OF inv e(1)] e(2) gov(2) by simp
    then have "sub r e = (True, True)"
      by (simp add: sub changed_subtree_def)
    ultimately show ?thesis
      using e(1) by blast
  qed
qed

lemma changed_entries:
  assumes inv: "nt_inv wire t" and root: "nt_prefix t root = Some n"
  shows "\<exists>rs. partialEnumerate wire n (changed_subtree (Some root)) t = Some rs \<and>
    set rs = {r. \<exists>m. nt_prefix t r = Some m \<and> governs (sc_slots wire t) n m}"
proof -
  let ?sub = "changed_subtree (Some root)"
  have ex: "findExactMatch wire n t = Some root"
    using findExactMatch_iff[OF inv] root by simp
  obtain e where e: "nt_entries t root = Some e" "e_prefix e = n"
    using root by (auto simp: nt_prefix_def)
  then obtain rs where pre: "preorder ?sub t root rs"
    using preorder_exists[OF inv] by blast
  have "partialEnumerate wire n ?sub t = Some rs"
    by (rule partialEnumerate_preorder[OF inv ex pre])
  moreover have "set rs = {r. \<exists>m. nt_prefix t r = Some m \<and> governs (sc_slots wire t) n m}"
  proof (intro set_eqI iffI)
    fix r assume "r \<in> set rs"
    then obtain xe where "walked ?sub t root r" "nt_entries t r = Some xe" "fst (?sub r xe)"
      unfolding preorder_set(1)[OF pre] by blast
    with walked_governed[OF inv root refl, of root r xe] e show "r \<in> {r. \<exists>m. nt_prefix t r = Some m \<and> governs (sc_slots wire t) n m}"
      by (auto simp: nt_prefix_def)
  next
    fix r assume "r \<in> {r. \<exists>m. nt_prefix t r = Some m \<and> governs (sc_slots wire t) n m}"
    then show "r \<in> set rs"
      unfolding preorder_set(1)[OF pre] using governed_walked[OF inv root refl] by fastforce
  qed
  ultimately show ?thesis
    by blast
qed

end
