(* ===== verification/Measurements_Correct.thy ===== *)
theory Measurements_Correct
  imports Measurements_Table Name_Tree_Table Fib_Correct Pit_Correct
begin

text \<open>
  Correctness of the measurements table.  The invariant links the entries with the name tree
  and says that the clean-up of an attached entry is scheduled for its expiry; an entry is
  therefore there until it expires, and gone once its timer fires.
\<close>

section \<open>Invariant\<close>

definition ms_objects :: "measurements \<Rightarrow> nat \<Rightarrow> (name \<times> nt_ref option) option" where
  "ms_objects m x = map_option (\<lambda>me. (me_name me, me_nameTreeEntry me)) (ms_entries m x)"

definition ms_link :: "nat \<Rightarrow> nt_ref option \<Rightarrow> measurements \<Rightarrow> measurements" where
  "ms_link x l m = ms_update x (\<lambda>me. me\<lparr>me_nameTreeEntry := l\<rparr>) m"

interpretation ms_table: nt_table e_measurementsEntry "\<lambda>v e. e\<lparr>e_measurementsEntry := v\<rparr>"
  ms_objects ms_link setMeasurementsEntry
proof unfold_locales
  fix x l and s :: measurements
  show "ms_objects (ms_link x l s) = (ms_objects s)(x := map_option (\<lambda>(n, _). (n, l)) (ms_objects s x))"
    by (auto simp: ms_objects_def ms_link_def ms_update_def fun_eq_iff option.map_comp o_def)
qed (auto simp: setMeasurementsEntry_def ms_link_def ms_objects_def)

abbreviation ms_slots :: "(component \<Rightarrow> byte list) \<Rightarrow> name_tree \<Rightarrow> name \<Rightarrow> measurements_ref option" where
  "ms_slots \<equiv> slot_at e_measurementsEntry"

definition ms_inv :: "(component \<Rightarrow> byte list) \<Rightarrow> name_tree \<times> measurements \<Rightarrow> bool" where
  "ms_inv wire s \<longleftrightarrow> linked e_measurementsEntry wire (fst s) (ms_objects (snd s)) \<and>
     (\<forall>x me. ms_entries (snd s) x = Some me \<longrightarrow> x < ms_next (snd s) \<and>
        (me_nameTreeEntry me \<noteq> None \<longrightarrow> me_cleanup me = Some (me_expiry me))) \<and>
     ms_nItems (snd s) = of_nat (card (dom (ms_slots wire (fst s))))"

lemma ms_invD:
  assumes "ms_inv wire (t, m)"
  shows "linked e_measurementsEntry wire t (ms_objects m)" "nt_inv wire t"
    "ms_entries m x = Some me \<Longrightarrow> x < ms_next m"
    "ms_entries m x = Some me \<Longrightarrow> me_nameTreeEntry me \<noteq> None \<Longrightarrow> me_cleanup me = Some (me_expiry me)"
    "ms_nItems m = of_nat (card (dom (ms_slots wire t)))"
  using assms linked_inv unfolding ms_inv_def fst_conv snd_conv by blast+

lemma ms_fresh: "ms_inv wire (t, m) \<Longrightarrow> ms_entries m (ms_next m) = None"
  using ms_invD(3) by (cases "ms_entries m (ms_next m)") blast+

lemma ms_inv_frame:
  assumes "ms_inv wire (t, m)" and "nt_inv wire t'" and "slot_frame e_measurementsEntry wire t t'"
  shows "ms_inv wire (t', m)"
  using assms linked_frame[OF ms_invD(1)[OF assms(1)] assms(2,3)] slot_frame_at[OF assms(3)]
  unfolding ms_inv_def fst_conv snd_conv by simp

lemma ms_slot_object:
  assumes "ms_inv wire (t, m)" and "ms_slots wire t n = Some x"
  obtains me r where "ms_entries m x = Some me" "me_name me = n" "me_nameTreeEntry me = Some r" "nt_prefix t r = Some n"
proof -
  obtain r where "ms_objects m x = Some (n, Some r)" "nt_prefix t r = Some n"
    using ms_table.slot_object[OF ms_invD(1)[OF assms(1)] assms(2)] by blast
  moreover from this obtain me where "ms_entries m x = Some me" "me_name me = n" "me_nameTreeEntry me = Some r"
    by (auto simp: ms_objects_def)
  ultimately show ?thesis
    by (intro that)
qed

section \<open>Operations\<close>

definition ms_new :: "name \<Rightarrow> nt_ref \<Rightarrow> time \<Rightarrow> measurements_entry" where
  "ms_new n r now = (newMeasurementsEntry n)\<lparr>me_nameTreeEntry := Some r, me_expiry := now + getInitialLifetime,
     me_cleanup := Some (now + getInitialLifetime)\<rparr>"

lemma ms_get_nte_ok:
  assumes inv: "ms_inv wire (t, m)" and r: "nt_prefix t r = Some n"
  shows "\<exists>t' m' x. ms_get_nte now r (t, m) = Some (t', m', x) \<and> ms_inv wire (t', m') \<and>
    ms_slots wire t' = (ms_slots wire t)(n \<mapsto> x) \<and> nt_nItems t' = nt_nItems t \<and>
    (\<forall>y. ms_slots wire t n = Some y \<longrightarrow> x = y) \<and>
    (\<forall>y me. ms_entries m y = Some me \<longrightarrow> ms_entries m' y = Some me)"
proof -
  obtain e where e: "nt_entries t r = Some e" "e_prefix e = n"
    using r by (auto simp: nt_prefix_def)
  have slot: "ms_slots wire t n = e_measurementsEntry e"
    using meas_slot.slot_at_entry[OF ms_invD(2)[OF inv] e(1)] e(2) by simp
  show ?thesis
  proof (cases "e_measurementsEntry e")
    case (Some x)
    then show ?thesis
      using e(1) inv slot by (auto simp: ms_get_nte_def fun_upd_idem)
  next
    case None
    let ?x = "ms_next m"
    let ?m = "m\<lparr>ms_entries := (ms_entries m)(?x \<mapsto> newMeasurementsEntry n), ms_next := ?x + 1\<rparr>"
    let ?t = "nt_update r (\<lambda>e. e\<lparr>e_measurementsEntry := Some ?x\<rparr>) t"
    let ?m' = "m\<lparr>ms_entries := (ms_entries m)(?x \<mapsto> ms_new n r now), ms_next := ?x + 1, ms_nItems := ms_nItems m + 1\<rparr>"
    have fresh: "ms_objects m ?x = None"
      using ms_fresh[OF inv] by (simp add: ms_objects_def)
    have objs: "ms_objects ?m = (ms_objects m)(?x \<mapsto> (n, None))"
      by (auto simp: ms_objects_def newMeasurementsEntry_def fun_eq_iff)
    have "linked e_measurementsEntry wire t (ms_objects ?m)"
      unfolding objs by (rule linked_alloc[OF ms_invD(1)[OF inv] fresh])
    moreover have "ms_slots wire t n = None" "ms_objects ?m ?x = Some (n, None)"
      using slot None by (simp_all only: objs) simp_all
    ultimately have
      A: "setMeasurementsEntry r (Some ?x) (t, ?m) = Some (?t, ms_link ?x (Some r) ?m)"
        "linked e_measurementsEntry wire ?t (ms_objects (ms_link ?x (Some r) ?m))"
        "ms_slots wire ?t = (ms_slots wire t)(n \<mapsto> ?x)"
      using ms_table.attach[OF _ r] by blast+
    have res: "ms_get_nte now r (t, m) = Some (?t, ?m', ?x)"
      using e None A(1) by (simp add: ms_get_nte_def Let_def ms_link_def ms_update_def ms_new_def)
    have "ms_objects ?m' = ms_objects (ms_link ?x (Some r) ?m)"
      by (auto simp: ms_objects_def ms_link_def ms_update_def ms_new_def newMeasurementsEntry_def fun_eq_iff)
    with A(2) have l: "linked e_measurementsEntry wire ?t (ms_objects ?m')"
      by simp
    have "ms_inv wire (?t, ?m')"
      unfolding ms_inv_def fst_conv snd_conv A(3)
      using l ms_invD(3,4,5)[OF inv] slot None
        card_dom_new[OF meas_slot.finite_slots[OF ms_invD(2)[OF inv]], of n ?x]
      by (auto simp: ms_new_def less_Suc_eq)
    moreover have "ms_entries m y \<noteq> None \<Longrightarrow> y \<noteq> ?x" for y
      using ms_fresh[OF inv] by auto
    ultimately show ?thesis
      using res A(3) slot None by (intro exI[of _ ?t] exI[of _ ?m'] exI[of _ ?x]) (auto simp: nt_update_def)
  qed
qed

lemma ms_get_ok:
  assumes inv: "ms_inv (cx_wire cx) (t, m)" and cap: "nt_nItems t + length n + 1 \<le> maxItems"
  shows "\<exists>t' m' x. ms_get cx now n (t, m) = Some (t', m', x) \<and> ms_inv (cx_wire cx) (t', m') \<and>
    ms_slots (cx_wire cx) t' = (ms_slots (cx_wire cx) t)(n \<mapsto> x) \<and> nt_nItems t' \<le> nt_nItems t + length n + 1 \<and>
    (\<forall>y. ms_slots (cx_wire cx) t n = Some y \<longrightarrow> x = y) \<and>
    (\<forall>y me. ms_entries m y = Some me \<longrightarrow> ms_entries m' y = Some me)"
proof -
  obtain t1 r where t1: "nt_lookup (cx_wire cx) n t = Some (t1, r)" "nt_inv (cx_wire cx) t1" "nt_grows t t1"
    "nt_prefix t1 r = Some n" "nt_nItems t1 \<le> nt_nItems t + length n + 1"
    using nt_lookup_ok[OF ms_invD(2)[OF inv] cap] by blast
  have fr: "slot_frame e_measurementsEntry (cx_wire cx) t t1"
    by (rule meas_slot.slot_frame_grows[OF ms_invD(2)[OF inv] t1(2,3)])
  show ?thesis
    using ms_get_nte_ok[OF ms_inv_frame[OF inv t1(2) fr] t1(4), of now] t1(1,5) slot_frame_at[OF fr]
    by (auto simp: ms_get_def)
qed

text \<open>Changes of the expiry together with the timer keep the invariant.\<close>

lemma ms_objects_update:
  assumes "\<And>me. me_name (g me) = me_name me" "\<And>me. me_nameTreeEntry (g me) = me_nameTreeEntry me"
  shows "ms_objects (ms_update x g m) = ms_objects m"
  by (auto simp: ms_objects_def ms_update_def fun_eq_iff option.map_comp o_def assms)

lemma ms_update_inv:
  assumes inv: "ms_inv wire (t, m)"
    and g: "\<And>me. me_name (g me) = me_name me" "\<And>me. me_nameTreeEntry (g me) = me_nameTreeEntry me"
    and c: "\<And>me. me_cleanup me = Some (me_expiry me) \<Longrightarrow> me_cleanup (g me) = Some (me_expiry (g me))"
  shows "ms_inv wire (t, ms_update x g m)"
  unfolding ms_inv_def fst_conv snd_conv
proof (intro conjI allI impI)
  show "linked e_measurementsEntry wire t (ms_objects (ms_update x g m))"
    unfolding ms_objects_update[OF g] by (rule ms_invD(1)[OF inv])
  show "ms_nItems (ms_update x g m) = of_nat (card (dom (ms_slots wire t)))"
    using ms_invD(5)[OF inv] by (simp add: ms_update_def)
  fix y me assume y: "ms_entries (ms_update x g m) y = Some me"
  then obtain me0 where me0: "ms_entries m y = Some me0" "me = me0 \<or> me = g me0"
    by (auto simp: ms_update_def split: if_splits)
  show "y < ms_next (ms_update x g m)"
    using ms_invD(3)[OF inv me0(1)] by (simp add: ms_update_def)
  assume "me_nameTreeEntry me \<noteq> None"
  then have "me_nameTreeEntry me0 \<noteq> None"
    using me0(2) g(2) by auto
  then show "me_cleanup me = Some (me_expiry me)"
    using ms_invD(4)[OF inv me0(1)] c me0(2) by auto
qed

lemma extendLifetime_ok:
  assumes inv: "ms_inv wire (t, m)" and x: "ms_entries m x \<noteq> None"
  shows "\<exists>m'. extendLifetime now x lifetime (t, m) = Some m' \<and> ms_inv wire (t, m') \<and>
    (\<forall>y me. ms_entries m y = Some me \<longrightarrow> (\<exists>me'. ms_entries m' y = Some me' \<and> me_expiry me \<le> me_expiry me'))"
proof -
  obtain me where me: "ms_entries m x = Some me"
    using x by blast
  show ?thesis
  proof (cases "me_nameTreeEntry me")
    case None
    then show ?thesis
      using me inv by (simp add: extendLifetime_def)
  next
    case (Some r)
    have "ms_objects m x = Some (me_name me, Some r)"
      using me Some by (simp add: ms_objects_def)
    then obtain e where e: "nt_entries t r = Some e"
      using linked_object[OF ms_invD(1)[OF inv]] by (fastforce simp: nt_prefix_def)
    let ?g = "\<lambda>me. me\<lparr>me_expiry := now + lifetime, me_cleanup := Some (now + lifetime)\<rparr>"
    have inv': "ms_inv wire (t, ms_update x ?g m)"
      by (rule ms_update_inv[OF inv]) simp_all
    show ?thesis
    proof (cases "e_measurementsEntry e \<noteq> Some x \<or> me_expiry me \<ge> now + lifetime")
      case True
      then have "extendLifetime now x lifetime (t, m) = Some m"
        using me Some e by (auto simp: extendLifetime_def Let_def)
      then show ?thesis
        using inv by simp
    next
      case False
      then have "extendLifetime now x lifetime (t, m) = Some (ms_update x ?g m)"
        using me Some e by (auto simp: extendLifetime_def Let_def)
      moreover have "\<exists>me''. ms_entries (ms_update x ?g m) y = Some me'' \<and> me_expiry me' \<le> me_expiry me''"
        if "ms_entries m y = Some me'" for y me'
        using False me that by (auto simp: ms_update_def)
      ultimately show ?thesis
        using inv' by blast
    qed
  qed
qed

lemma ms_cleanup_ok:
  assumes l: "linked e_measurementsEntry wire t (ms_objects m)"
    and me: "ms_entries m x = Some me" and r: "me_nameTreeEntry me = Some r"
  shows "\<exists>t'. ms_cleanup x (t, m) = Some (t', (ms_link x None m)\<lparr>ms_nItems := ms_nItems m - 1\<rparr>) \<and>
    linked e_measurementsEntry wire t' (ms_objects (ms_link x None m)) \<and>
    ms_slots wire t' = (ms_slots wire t)(me_name me := None) \<and> nt_nItems t' \<le> nt_nItems t"
proof -
  have obj: "ms_objects m x = Some (me_name me, Some r)"
    using me r by (simp add: ms_objects_def)
  have n: "nt_prefix t r = Some (me_name me)" "ms_slots wire t (me_name me) = Some x"
    using linked_object[OF l obj] by auto
  let ?t = "nt_update r (\<lambda>e. e\<lparr>e_measurementsEntry := None\<rparr>) t"
  have d: "setMeasurementsEntry r None (t, m) = Some (?t, ms_link x None m)"
    using ms_table.detach[OF l n] by blast
  obtain t' b where t': "eraseEntryIfEmpty r ?t = Some (t', b)"
    "linked e_measurementsEntry wire t' (ms_objects (ms_link x None m))"
    "ms_slots wire t' = (ms_slots wire t)(me_name me := None)" "nt_inv wire ?t"
    using ms_table.detach_erase[OF l n] by blast
  obtain e where "nt_entries ?t r = Some e"
    using n(1) by (auto simp: nt_prefix_def nt_update_def)
  from eraseEntryIfEmpty_ok[OF t'(4) this] t'(1) have "nt_nItems t' \<le> nt_nItems ?t"
    by (auto simp: erased_def)
  moreover have "ms_cleanup x (t, m) = Some (t', (ms_link x None m)\<lparr>ms_nItems := ms_nItems m - 1\<rparr>)"
    using me r d t'(1) by (simp add: ms_cleanup_def ms_link_def ms_update_def)
  ultimately show ?thesis
    using t'(2,3) by (simp add: nt_update_def)
qed

lemma ms_timer_fires:
  assumes inv: "ms_inv wire (t, m)" and me: "ms_entries m x = Some me" "me_nameTreeEntry me = Some r"
    and now: "me_expiry me \<le> now"
  shows "\<exists>t' m'. ms_timer now x (t, m) = Some (t', m') \<and> ms_inv wire (t', m') \<and> nt_nItems t' \<le> nt_nItems t \<and>
    ms_slots wire t' = (ms_slots wire t)(me_name me := None) \<and>
    (\<forall>y. y \<noteq> x \<longrightarrow> ms_entries m' y = ms_entries m y) \<and> ms_entries m' x \<noteq> None"
proof -
  let ?g = "\<lambda>me. me\<lparr>me_cleanup := None\<rparr>"
  let ?m = "ms_update x ?g m"
  let ?m' = "(ms_link x None ?m)\<lparr>ms_nItems := ms_nItems ?m - 1\<rparr>"
  have c: "me_cleanup me = Some (me_expiry me)"
    using ms_invD(4)[OF inv me(1)] me(2) by simp
  have l: "linked e_measurementsEntry wire t (ms_objects ?m)"
    using ms_invD(1)[OF inv] ms_objects_update[of ?g x m] by simp
  have gme: "ms_entries ?m x = Some (?g me)" "me_nameTreeEntry (?g me) = Some r" "me_name (?g me) = me_name me"
    using me by (simp_all add: ms_update_def)
  obtain t' where t': "ms_cleanup x (t, ?m) = Some (t', ?m')"
    "linked e_measurementsEntry wire t' (ms_objects (ms_link x None ?m))"
    "ms_slots wire t' = (ms_slots wire t)(me_name me := None)" "nt_nItems t' \<le> nt_nItems t"
    using ms_cleanup_ok[OF l gme(1,2)] unfolding gme(3) by blast
  have n: "ms_slots wire t (me_name me) = Some x"
    using linked_object[OF ms_invD(1)[OF inv], of x "me_name me" r] me by (simp add: ms_objects_def)
  have "ms_objects ?m' = ms_objects (ms_link x None ?m)"
    by (simp add: ms_objects_def[abs_def])
  then have "ms_inv wire (t', ?m')"
    unfolding ms_inv_def fst_conv snd_conv t'(3)
    using t'(2) ms_invD(3,4,5)[OF inv] card_dom_del[OF meas_slot.finite_slots[OF ms_invD(2)[OF inv]] n]
    by (auto simp: ms_link_def ms_update_def split: if_splits)
  moreover have "ms_timer now x (t, m) = Some (t', ?m')"
    using me c now t'(1) by (simp add: ms_timer_def)
  ultimately show ?thesis
    using t'(3,4) me by (intro exI[of _ t'] exI[of _ ?m']) (auto simp: ms_link_def ms_update_def)
qed

lemma ms_timer_waits:
  assumes inv: "ms_inv wire (t, m)"
    and wait: "\<And>me r. ms_entries m x = Some me \<Longrightarrow> me_nameTreeEntry me = Some r \<Longrightarrow> now < me_expiry me"
  shows "\<exists>m'. ms_timer now x (t, m) = Some (t, m') \<and> ms_inv wire (t, m') \<and>
    (\<forall>y me r. ms_entries m y = Some me \<longrightarrow> me_nameTreeEntry me = Some r \<longrightarrow> ms_entries m' y = Some me) \<and>
    dom (ms_entries m') = dom (ms_entries m)"
proof (cases "ms_entries m x")
  case None
  then show ?thesis
    using inv by (simp add: ms_timer_def)
next
  case (Some me)
  show ?thesis
  proof (cases "me_nameTreeEntry me")
    case None
    let ?m = "ms_update x (\<lambda>me. me\<lparr>me_cleanup := None\<rparr>) m"
    have "ms_inv wire (t, ?m)"
      unfolding ms_inv_def fst_conv snd_conv
      using ms_objects_update[of "\<lambda>me. me\<lparr>me_cleanup := None\<rparr>" x m] ms_invD[OF inv] Some None
      by (auto simp: ms_update_def split: if_splits)
    moreover have "ms_timer now x (t, m) = Some (t, m) \<or> ms_timer now x (t, m) = Some (t, ?m)"
      using Some None by (auto simp: ms_timer_def ms_cleanup_def ms_update_def split: option.splits)
    moreover have "dom (ms_entries ?m) = dom (ms_entries m)" using Some by (auto simp: ms_update_def)
    moreover have "ms_entries ?m y = Some me'" if "ms_entries m y = Some me'" "me_nameTreeEntry me' = Some r" for y me' r
      using that Some None by (auto simp: ms_update_def)
    ultimately show ?thesis
      using inv by blast
  next
    case (Some r)
    have "now < me_expiry me"
      by (rule wait[OF \<open>ms_entries m x = Some me\<close> Some])
    then have "ms_timer now x (t, m) = Some (t, m)"
      using ms_invD(4)[OF inv \<open>ms_entries m x = Some me\<close>] Some \<open>ms_entries m x = Some me\<close>
      by (simp add: ms_timer_def)
    then show ?thesis
      using inv by simp
  qed
qed

section \<open>Lifetimes\<close>

datatype ms_op = MsGet name | MsExtend measurements_ref time | MsTimer measurements_ref

fun ms_exec :: "ndn_cxx \<Rightarrow> time \<Rightarrow> ms_op \<Rightarrow> name_tree \<times> measurements \<Rightarrow> (name_tree \<times> measurements) option" where
  "ms_exec cx now (MsGet n) s = map_option (\<lambda>(t, m, _). (t, m)) (ms_get cx now n s)"
| "ms_exec cx now (MsExtend x lifetime) s = map_option (Pair (fst s)) (extendLifetime now x lifetime s)"
| "ms_exec cx now (MsTimer x) s = ms_timer now x s"

fun ms_run :: "ndn_cxx \<Rightarrow> (time \<times> ms_op) list \<Rightarrow> name_tree \<times> measurements \<Rightarrow> (name_tree \<times> measurements) option" where
  "ms_run cx [] s = Some s"
| "ms_run cx ((now, op) # ops) s = Option.bind (ms_exec cx now op s) (ms_run cx ops)"

text \<open>The names an operation adds to the tree, and the references it may use.\<close>

fun ms_cost :: "ms_op \<Rightarrow> nat" where
  "ms_cost (MsGet n) = length n + 1"
| "ms_cost _ = 0"

fun ms_refs_ok :: "measurements \<Rightarrow> ms_op \<Rightarrow> bool" where
  "ms_refs_ok m (MsExtend x _) = (ms_entries m x \<noteq> None)"
| "ms_refs_ok m _ = True"

definition ms_alive :: "(component \<Rightarrow> byte list) \<Rightarrow> name \<Rightarrow> measurements_ref \<Rightarrow> time \<Rightarrow> name_tree \<times> measurements \<Rightarrow> bool" where
  "ms_alive wire n x E s \<longleftrightarrow> ms_slots wire (fst s) n = Some x \<and> (\<exists>me. ms_entries (snd s) x = Some me \<and> E \<le> me_expiry me)"

lemma ms_exec_ok:
  assumes inv: "ms_inv (cx_wire cx) (t, m)" and cap: "nt_nItems t + ms_cost op \<le> maxItems"
    and refs: "ms_refs_ok m op" and alive: "ms_alive (cx_wire cx) n x E (t, m)" and early: "now < E"
  shows "\<exists>t' m'. ms_exec cx now op (t, m) = Some (t', m') \<and> ms_inv (cx_wire cx) (t', m') \<and>
    nt_nItems t' \<le> nt_nItems t + ms_cost op \<and> ms_alive (cx_wire cx) n x E (t', m') \<and>
    dom (ms_entries m) \<subseteq> dom (ms_entries m')"
proof (cases op)
  case (MsGet k)
  obtain t' m' y where g: "ms_get cx now k (t, m) = Some (t', m', y)" "ms_inv (cx_wire cx) (t', m')"
    "ms_slots (cx_wire cx) t' = (ms_slots (cx_wire cx) t)(k \<mapsto> y)" "nt_nItems t' \<le> nt_nItems t + length k + 1"
    "\<forall>y me. ms_entries m y = Some me \<longrightarrow> ms_entries m' y = Some me"
    "\<forall>z. ms_slots (cx_wire cx) t k = Some z \<longrightarrow> y = z"
    using ms_get_ok[OF inv, of k now] cap MsGet by auto
  have "ms_alive (cx_wire cx) n x E (t', m')"
    using alive g(3,5,6) by (auto simp: ms_alive_def)
  with g MsGet show ?thesis
    by (auto simp: dom_def)
next
  case (MsExtend y lifetime)
  obtain m' where m': "extendLifetime now y lifetime (t, m) = Some m'" "ms_inv (cx_wire cx) (t, m')"
    "\<forall>y me. ms_entries m y = Some me \<longrightarrow> (\<exists>me'. ms_entries m' y = Some me' \<and> me_expiry me \<le> me_expiry me')"
    using extendLifetime_ok[OF inv, of y now lifetime] refs MsExtend by auto
  have "ms_alive (cx_wire cx) n x E (t, m')"
    using alive m'(3) unfolding ms_alive_def by (auto, meson order.trans)
  with m' MsExtend show ?thesis
    by (auto simp: dom_def)
next
  case (MsTimer y)
  obtain me where x: "ms_slots (cx_wire cx) t n = Some x" "ms_entries m x = Some me" "E \<le> me_expiry me"
    using alive by (auto simp: ms_alive_def)
  obtain r where me: "me_name me = n" "me_nameTreeEntry me = Some r"
    using ms_slot_object[OF inv x(1)] x(2) by auto
  show ?thesis
  proof (cases "\<exists>me' r'. ms_entries m y = Some me' \<and> me_nameTreeEntry me' = Some r' \<and> me_expiry me' \<le> now")
    case True
    then obtain me' r' where y: "ms_entries m y = Some me'" "me_nameTreeEntry me' = Some r'" "me_expiry me' \<le> now"
      by blast
    obtain t' m' where m': "ms_timer now y (t, m) = Some (t', m')" "ms_inv (cx_wire cx) (t', m')" "nt_nItems t' \<le> nt_nItems t"
      "ms_slots (cx_wire cx) t' = (ms_slots (cx_wire cx) t)(me_name me' := None)"
      "\<forall>z. z \<noteq> y \<longrightarrow> ms_entries m' z = ms_entries m z" "ms_entries m' y \<noteq> None"
      using ms_timer_fires[OF inv y] by blast
    have "y \<noteq> x"
      using y x early by auto
    moreover have "me_name me' \<noteq> n"
    proof
      assume "me_name me' = n"
      then have "ms_slots (cx_wire cx) t n = Some y"
        using linked_object[OF ms_invD(1)[OF inv], of y n r'] y by (simp add: ms_objects_def)
      with x(1) \<open>y \<noteq> x\<close> show False
        by simp
    qed
    ultimately have "ms_alive (cx_wire cx) n x E (t', m')"
      using x m'(4,5) by (simp add: ms_alive_def)
    moreover have "dom (ms_entries m) \<subseteq> dom (ms_entries m')"
      using m'(5,6) by (metis domIff subsetI)
    ultimately show ?thesis
      using MsTimer m'(1-3) by auto
  next
    case False
    then have "\<exists>m'. ms_timer now y (t, m) = Some (t, m') \<and> ms_inv (cx_wire cx) (t, m') \<and>
        (\<forall>y me r. ms_entries m y = Some me \<longrightarrow> me_nameTreeEntry me = Some r \<longrightarrow> ms_entries m' y = Some me) \<and>
        dom (ms_entries m') = dom (ms_entries m)"
      by (intro ms_timer_waits[OF inv]) (meson not_le)
    then obtain m' where m': "ms_timer now y (t, m) = Some (t, m')"
      "ms_inv (cx_wire cx) (t, m')" "ms_entries m' x = Some me" "dom (ms_entries m') = dom (ms_entries m)"
      using x(2) me(2) by blast
    then show ?thesis
      using MsTimer x by (auto simp: ms_alive_def)
  qed
qed

text \<open>C37. A measurements entry stays until it expires: whatever lookups, extensions and timers
  happen before its expiry, the table stays well formed and the entry attached to its name; its
  timer removes it once it has expired.\<close>

theorem measurements_lifetime:
  assumes "ms_inv (cx_wire cx) s" and "ms_alive (cx_wire cx) n x E s"
    and "\<forall>(now, op) \<in> set ops. now < E \<and> ms_refs_ok (snd s) op"
    and "nt_nItems (fst s) + sum_list (map (ms_cost \<circ> snd) ops) \<le> maxItems"
  shows "\<exists>s'. ms_run cx ops s = Some s' \<and> ms_inv (cx_wire cx) s' \<and> ms_alive (cx_wire cx) n x E s' \<and>
    (\<forall>now me. ms_entries (snd s') x = Some me \<longrightarrow> me_expiry me \<le> now \<longrightarrow>
      (\<exists>t m. ms_timer now x s' = Some (t, m) \<and> ms_slots (cx_wire cx) t n = None))"
  using assms
proof (induction ops arbitrary: s)
  case Nil
  obtain t m where s: "s = (t, m)"
    by (cases s)
  have "\<exists>t' m'. ms_timer now x s = Some (t', m') \<and> ms_slots (cx_wire cx) t' n = None"
    if me: "ms_entries m x = Some me" "me_expiry me \<le> now" for now me
  proof -
    obtain r where "me_name me = n" "me_nameTreeEntry me = Some r"
      using ms_slot_object[OF Nil(1)[unfolded s]] Nil(2) me(1) by (force simp: ms_alive_def s)
    from ms_timer_fires[OF Nil(1)[unfolded s] me(1) this(2) me(2)] this(1) show ?thesis
      by (auto simp: s)
  qed
  with Nil show ?case
    by (auto simp: s)
next
  case (Cons o1 ops)
  obtain now op where o1: "o1 = (now, op)"
    by (cases o1)
  obtain t m where s: "s = (t, m)"
    by (cases s)
  obtain t' m' where e: "ms_exec cx now op (t, m) = Some (t', m')" "ms_inv (cx_wire cx) (t', m')"
    "nt_nItems t' \<le> nt_nItems t + ms_cost op" "ms_alive (cx_wire cx) n x E (t', m')"
    "dom (ms_entries m) \<subseteq> dom (ms_entries m')"
    using ms_exec_ok[OF Cons(2)[unfolded s] _ _ Cons(3)[unfolded s], of op now] Cons(4,5) by (auto simp: o1 s)
  have refs: "ms_refs_ok m op' \<Longrightarrow> ms_refs_ok m' op'" for op'
    using e(5) by (cases op') auto
  show ?case
    using Cons.IH[OF e(2,4)] Cons(4,5) e(1,3) refs by (auto simp: o1 s split_beta)
qed

lemma Measurements_inv: "power2 k \<Longrightarrow> ms_inv wire (NameTree k, Measurements)"
  by (auto simp: ms_inv_def Measurements_def linked_def ms_objects_def NameTree_slots NameTree_inv)

theorem measurements_lifetime_witness:
  "\<exists>s s'. ms_get cx_example 0 [Generic [97]] (NameTree 8, Measurements) = Some s \<and>
     ms_run cx_example [(1, MsGet [Generic [98]]), (3, MsTimer 0)] (fst s, fst (snd s)) = Some s' \<and>
     ms_slots (cx_wire cx_example) (fst s') [Generic [97]] = Some (snd (snd s))"
proof -
  obtain t m x where g: "ms_get cx_example 0 [Generic [97]] (NameTree 8, Measurements) = Some (t, m, x)"
    "ms_inv (cx_wire cx_example) (t, m)" "ms_slots (cx_wire cx_example) t [Generic [97]] = Some x" "nt_nItems t \<le> 2"
    using ms_get_ok[OF Measurements_inv[OF power2_8], where n = "[Generic [97]]" and cx = cx_example and now = 0]
    by (auto simp: NameTree_def maxItems_def)
  obtain me r where me: "ms_entries m x = Some me"
    using ms_slot_object[OF g(2,3)] by blast
  have "map_option (\<lambda>(t, m, x). map_option me_expiry (ms_entries m x))
      (ms_get cx_example 0 [Generic [97]] (NameTree 8, Measurements)) = Some (Some 4000000000)"
    by code_simp
  then have "me_expiry me = 4000000000"
    using g(1) me by simp
  then have "ms_alive (cx_wire cx_example) [Generic [97]] x 4 (t, m)"
    using me g(3) by (simp add: ms_alive_def)
  from measurements_lifetime[OF g(2) this, of "[(1, MsGet [Generic [98]]), (3, MsTimer 0)]"] g(1,4) show ?thesis
    by (auto simp: maxItems_def ms_alive_def)
qed

end
