(* ===== verification/Tables_Correct.thy ===== *)
theory Tables_Correct
  imports Strategy_Choice_Correct Measurements_Correct
begin

text \<open>
  The tables on the name tree together.  An operation of one table keeps the invariants of the
  others, and choosing a strategy clears the strategy information of exactly those PIT and
  measurements entries for which another strategy is in effect afterwards.
\<close>

section \<open>Invariant\<close>

definition tables_inv :: "ndn_cxx \<Rightarrow> tables \<Rightarrow> bool" where
  "tables_inv cx tb \<longleftrightarrow> fib_inv (cx_wire cx) (tb_nt tb, tb_fib tb) \<and> pit_inv cx (tb_nt tb, tb_pit tb) \<and>
     ms_inv (cx_wire cx) (tb_nt tb, tb_ms tb) \<and> sc_inv (cx_wire cx) (tb_nt tb, tb_sc tb)"

lemma tables_invD:
  assumes "tables_inv cx tb"
  shows "fib_inv (cx_wire cx) (tb_nt tb, tb_fib tb)" "pit_inv cx (tb_nt tb, tb_pit tb)"
    "ms_inv (cx_wire cx) (tb_nt tb, tb_ms tb)" "sc_inv (cx_wire cx) (tb_nt tb, tb_sc tb)" "nt_inv (cx_wire cx) (tb_nt tb)"
  using assms sc_invD(2) unfolding tables_inv_def by blast+

text \<open>What a step of the tree leaves alone for the tables other than the strategy choice table.\<close>

definition others_frame :: "(component \<Rightarrow> byte list) \<Rightarrow> name_tree \<Rightarrow> name_tree \<Rightarrow> bool" where
  "others_frame wire t t' \<longleftrightarrow> nt_inv wire t' \<and> slot_frame e_fibEntry wire t t' \<and>
     slot_frame e_measurementsEntry wire t t' \<and> pit_frame t t'"

lemma others_frame_trans: "others_frame wire a b \<Longrightarrow> others_frame wire b c \<Longrightarrow> others_frame wire a c"
  unfolding others_frame_def using slot_frame_trans pit_frame_trans by blast

lemma others_frame_grows: "nt_inv wire t \<Longrightarrow> nt_inv wire t' \<Longrightarrow> nt_grows t t' \<Longrightarrow> others_frame wire t t'"
  by (simp add: others_frame_def fib_slot.slot_frame_grows meas_slot.slot_frame_grows pit_frame_grows)

lemma others_frame_shrinks: "nt_inv wire t \<Longrightarrow> nt_inv wire t' \<Longrightarrow> nt_shrinks t t' \<Longrightarrow> others_frame wire t t'"
  by (simp add: others_frame_def fib_slot.slot_frame_shrinks meas_slot.slot_frame_shrinks pit_frame_shrinks)

lemma others_frame_sc:
  "nt_inv wire t \<Longrightarrow> others_frame wire t (nt_update r (\<lambda>e. e\<lparr>e_strategyChoiceEntry := v\<rparr>) t)"
  unfolding others_frame_def
  by (intro conjI sc_slot.put_inv fib_slot.slot_frame_update meas_slot.slot_frame_update pit_frame_update) simp_all

lemma others_inv:
  assumes "fib_inv (cx_wire cx) (t, f)" "pit_inv cx (t, p)" "ms_inv (cx_wire cx) (t, m)" and "others_frame (cx_wire cx) t t'"
  shows "fib_inv (cx_wire cx) (t', f) \<and> fib_view (cx_wire cx) (t', f) = fib_view (cx_wire cx) (t, f) \<and>
    pit_inv cx (t', p) \<and> ms_inv (cx_wire cx) (t', m)"
  using assms fib_inv_frame pit_inv_frame ms_inv_frame unfolding others_frame_def by blast

section \<open>Clearing strategy information\<close>

definition pit_cleared :: "pit_ref set \<Rightarrow> pit \<Rightarrow> pit \<Rightarrow> bool" where
  "pit_cleared S p p' \<longleftrightarrow> (\<forall>x. pit_entries p' x = (if x \<in> S then map_option clear_pit_info (pit_entries p x) else pit_entries p x)) \<and>
     pit_next p' = pit_next p \<and> pit_nItems p' = pit_nItems p"

definition ms_cleared :: "measurements_ref set \<Rightarrow> measurements \<Rightarrow> measurements \<Rightarrow> bool" where
  "ms_cleared S m m' \<longleftrightarrow> (\<forall>x. ms_entries m' x = (if x \<in> S then map_option clear_ms_info (ms_entries m x) else ms_entries m x)) \<and>
     ms_next m' = ms_next m \<and> ms_nItems m' = ms_nItems m"

lemma clear_pit_info_twice [simp]: "clear_pit_info (clear_pit_info pe) = clear_pit_info pe"
  by (simp add: clear_pit_info_def)

lemma clear_ms_info_twice [simp]: "clear_ms_info (clear_ms_info me) = clear_ms_info me"
  by (simp add: clear_ms_info_def)

lemma pit_cleared_empty [simp]: "pit_cleared {} p p"
  by (simp add: pit_cleared_def)

lemma ms_cleared_empty [simp]: "ms_cleared {} m m"
  by (simp add: ms_cleared_def)

lemma pit_cleared_trans: "pit_cleared A p q \<Longrightarrow> pit_cleared B q r \<Longrightarrow> pit_cleared (A \<union> B) p r"
  by (auto simp: pit_cleared_def option.map_comp o_def)

lemma ms_cleared_trans: "ms_cleared A p q \<Longrightarrow> ms_cleared B q r \<Longrightarrow> ms_cleared (A \<union> B) p r"
  by (auto simp: ms_cleared_def option.map_comp o_def)

lemma pit_cleared_one: "pit_cleared {x} p (pit_update x clear_pit_info p)"
  by (simp add: pit_cleared_def pit_update_def)

lemma ms_cleared_one: "ms_cleared {x} m (ms_update x clear_ms_info m)"
  by (simp add: ms_cleared_def ms_update_def)

lemma pit_cleared_fold: "pit_cleared (set xs) p (fold (\<lambda>x. pit_update x clear_pit_info) xs p)"
proof (induction xs arbitrary: p)
  case (Cons x xs)
  show ?case
    using pit_cleared_trans[OF pit_cleared_one[of x p] Cons[of "pit_update x clear_pit_info p"]] by simp
qed simp

definition ms_list :: "name_tree \<Rightarrow> nt_ref \<Rightarrow> measurements_ref set" where
  "ms_list t r = (case nt_entries t r of None \<Rightarrow> {} | Some e \<Rightarrow> set_option (e_measurementsEntry e))"

lemma clearStrategyInfo_ok:
  assumes "nt_entries (tb_nt tb) r \<noteq> None"
  shows "\<exists>p m. clearStrategyInfo r tb = Some (tb\<lparr>tb_pit := p, tb_ms := m\<rparr>) \<and>
    pit_cleared (set (pit_list (tb_nt tb) r)) (tb_pit tb) p \<and> ms_cleared (ms_list (tb_nt tb) r) (tb_ms tb) m"
proof -
  obtain e where e: "nt_entries (tb_nt tb) r = Some e"
    using assms by blast
  let ?p = "fold (\<lambda>x. pit_update x clear_pit_info) (e_pitEntries e) (tb_pit tb)"
  let ?m = "case e_measurementsEntry e of None \<Rightarrow> tb_ms tb | Some x \<Rightarrow> ms_update x clear_ms_info (tb_ms tb)"
  have "clearStrategyInfo r tb = Some (tb\<lparr>tb_pit := ?p, tb_ms := ?m\<rparr>)"
    using e by (simp add: clearStrategyInfo_def split: option.split)
  moreover have "ms_cleared (ms_list (tb_nt tb) r) (tb_ms tb) ?m"
    using e ms_cleared_one by (simp add: ms_list_def split: option.split)
  ultimately show ?thesis
    using pit_cleared_fold[of "e_pitEntries e" "tb_pit tb"] e by (auto simp: pit_list_def)
qed

lemma clear_all_ok:
  "\<forall>r \<in> set rs. nt_entries (tb_nt tb) r \<noteq> None \<Longrightarrow>
    \<exists>p m. clear_all rs tb = Some (tb\<lparr>tb_pit := p, tb_ms := m\<rparr>) \<and>
      pit_cleared (\<Union>r \<in> set rs. set (pit_list (tb_nt tb) r)) (tb_pit tb) p \<and>
      ms_cleared (\<Union>r \<in> set rs. ms_list (tb_nt tb) r) (tb_ms tb) m"
proof (induction rs arbitrary: tb)
  case Nil
  show ?case
    by (intro exI[of _ "tb_pit tb"] exI[of _ "tb_ms tb"]) simp
next
  case (Cons r rs)
  obtain p m where 1: "clearStrategyInfo r tb = Some (tb\<lparr>tb_pit := p, tb_ms := m\<rparr>)"
    "pit_cleared (set (pit_list (tb_nt tb) r)) (tb_pit tb) p" "ms_cleared (ms_list (tb_nt tb) r) (tb_ms tb) m"
    using clearStrategyInfo_ok[of tb r] Cons.prems by auto
  obtain p' m' where 2: "clear_all rs (tb\<lparr>tb_pit := p, tb_ms := m\<rparr>) = Some (tb\<lparr>tb_pit := p', tb_ms := m'\<rparr>)"
    "pit_cleared (\<Union>r \<in> set rs. set (pit_list (tb_nt tb) r)) p p'" "ms_cleared (\<Union>r \<in> set rs. ms_list (tb_nt tb) r) m m'"
    using Cons.IH[of "tb\<lparr>tb_pit := p, tb_ms := m\<rparr>"] Cons.prems by auto
  show ?case
    using 1(1) 2(1) pit_cleared_trans[OF 1(2) 2(2)] ms_cleared_trans[OF 1(3) 2(3)] by auto
qed

text \<open>The entries of the PIT and of the measurements table a change at \<open>n\<close> is in effect for.\<close>

definition governed :: "(component \<Rightarrow> byte list) \<Rightarrow> name_tree \<Rightarrow> name \<Rightarrow> nt_ref set" where
  "governed wire t n = {r. \<exists>m. nt_prefix t r = Some m \<and> governs (sc_slots wire t) n m}"

lemma changeStrategy_ok:
  assumes inv: "nt_inv wire (tb_nt tb)" and se: "sc_entries (tb_sc tb) x = Some se" "sce_prefix se = n"
    "sce_nameTreeEntry se = Some root" and root: "nt_prefix (tb_nt tb) root = Some n"
  shows "\<exists>p m. changeStrategy wire x old new tb = Some (tb\<lparr>tb_pit := p, tb_ms := m\<rparr>) \<and>
    (let R = (if st_ptr old = st_ptr new then {} else governed wire (tb_nt tb) n) in
      pit_cleared (\<Union>r \<in> R. set (pit_list (tb_nt tb) r)) (tb_pit tb) p \<and>
      ms_cleared (\<Union>r \<in> R. ms_list (tb_nt tb) r) (tb_ms tb) m)"
proof (cases "st_ptr old = st_ptr new")
  case True
  then show ?thesis
    by (intro exI[of _ "tb_pit tb"] exI[of _ "tb_ms tb"]) (simp add: changeStrategy_def)
next
  case False
  obtain rs where rs: "partialEnumerate wire n (changed_subtree (Some root)) (tb_nt tb) = Some rs"
    "set rs = governed wire (tb_nt tb) n"
    using changed_entries[OF inv root] unfolding governed_def by blast
  have "\<forall>r \<in> set rs. nt_entries (tb_nt tb) r \<noteq> None"
    unfolding rs(2) by (auto simp: governed_def nt_prefix_def)
  from clear_all_ok[OF this] obtain p m where "clear_all rs tb = Some (tb\<lparr>tb_pit := p, tb_ms := m\<rparr>)"
    "pit_cleared (\<Union>r \<in> set rs. set (pit_list (tb_nt tb) r)) (tb_pit tb) p"
    "ms_cleared (\<Union>r \<in> set rs. ms_list (tb_nt tb) r) (tb_ms tb) m"
    by blast
  then show ?thesis
    using False se rs by (intro exI[of _ p] exI[of _ m]) (simp add: changeStrategy_def)
qed

lemma pit_cleared_inv:
  assumes "pit_inv cx (t, p)" and "pit_cleared S p p'"
  shows "pit_inv cx (t, p')"
proof -
  let ?g = "\<lambda>x pe. if x \<in> S then clear_pit_info pe else pe"
  have ents: "pit_entries p' x = map_option (?g x) (pit_entries p x)" for x
    using assms(2) by (auto simp: pit_cleared_def option.map_ident)
  have g: "pe_nameTreeEntry (?g x pe) = pe_nameTreeEntry pe" "pe_interest (?g x pe) = pe_interest pe"
    "pe_wf (?g x pe) = pe_wf pe" for x pe
    by (simp_all add: clear_pit_info_def pe_wf_def)
  have att: "attached p' x pe r \<longleftrightarrow> (\<exists>pe0. attached p x pe0 r \<and> pe = ?g x pe0)" for x pe r
    unfolding attached_def ents by (auto simp: clear_pit_info_def)
  have same: "(\<exists>pe r. attached p' x pe r) \<longleftrightarrow> (\<exists>pe r. attached p x pe r)"
    "(\<exists>pe. attached p' x pe r) \<longleftrightarrow> (\<exists>pe. attached p x pe r)" for x r
    using att by blast+
  show ?thesis
    unfolding pit_inv_def fst_conv snd_conv same
  proof (intro conjI allI impI)
    show "nt_inv (cx_wire cx) t" "distinct (pit_list t r)" "x \<in> set (pit_list t r) \<longleftrightarrow> (\<exists>pe. attached p x pe r)" for r x
      by (rule pit_invD(1)[OF assms(1)], rule pit_invD(2)[OF assms(1)], rule pit_invD(3)[OF assms(1)])
    show "pit_nItems p' = of_nat (card {x. \<exists>pe r. attached p x pe r})"
      using pit_invD(8)[OF assms(1)] assms(2) by (simp add: pit_cleared_def)
  next
    fix x pe r assume "attached p' x pe r"
    then obtain pe0 where pe0: "attached p x pe0 r" "pe = ?g x pe0"
      using att by blast
    then show "nt_prefix t r = Some (pit_key (pe_name pe))"
      using pit_invD(4)[OF assms(1)] g(2) by simp
    fix y pe' r' assume "attached p' y pe' r'" and eq: "pe_name pe = pe_name pe'" "i_selectors (pe_interest pe) = i_selectors (pe_interest pe')"
    then obtain pe0' where pe0': "attached p y pe0' r'" "pe' = ?g y pe0'"
      using att by blast
    show "x = y"
      by (rule pit_invD(5)[OF assms(1) pe0(1) pe0'(1)]) (use eq pe0(2) pe0'(2) g(2) in simp_all)
  next
    fix x pe assume "pit_entries p' x = Some pe"
    then obtain pe0 where pe0: "pit_entries p x = Some pe0" "pe = ?g x pe0"
      unfolding ents by auto
    show "x < pit_next p'"
      using pit_invD(6)[OF assms(1) pe0(1)] assms(2) by (simp add: pit_cleared_def)
    show "pe_wf pe"
      using pit_invD(7)[OF assms(1) pe0(1)] g(3)[of x pe0] pe0(2) by simp
  qed
qed

lemma ms_cleared_inv:
  assumes inv: "ms_inv wire (t, m)" and c: "ms_cleared S m m'"
  shows "ms_inv wire (t, m')"
  unfolding ms_inv_def fst_conv snd_conv
proof (intro conjI allI impI)
  have "ms_objects m' = ms_objects m"
    using c by (auto simp: ms_objects_def ms_cleared_def fun_eq_iff option.map_comp o_def clear_ms_info_def)
  then show "linked e_measurementsEntry wire t (ms_objects m')"
    using ms_invD(1)[OF inv] by simp
  show "ms_nItems m' = of_nat (card (dom (ms_slots wire t)))"
    using ms_invD(5)[OF inv] c by (simp add: ms_cleared_def)
  fix x me assume "ms_entries m' x = Some me"
  then obtain me0 where me0: "ms_entries m x = Some me0" "me_nameTreeEntry me = me_nameTreeEntry me0"
    "me_cleanup me = me_cleanup me0" "me_expiry me = me_expiry me0"
    using c by (cases "x \<in> S") (auto simp: ms_cleared_def clear_ms_info_def)
  show "x < ms_next m'"
    using ms_invD(3)[OF inv me0(1)] c by (simp add: ms_cleared_def)
  assume "me_nameTreeEntry me \<noteq> None"
  then show "me_cleanup me = Some (me_expiry me)"
    using ms_invD(4)[OF inv me0(1)] me0 by simp
qed

section \<open>The information that is cleared\<close>

abbreviation tb_effective :: "ndn_cxx \<Rightarrow> tables \<Rightarrow> name \<Rightarrow> strategy option" where
  "tb_effective cx tb \<equiv> effective (cx_wire cx) (tb_nt tb, tb_sc tb)"

abbreviation tb_choices :: "ndn_cxx \<Rightarrow> tables \<Rightarrow> name \<Rightarrow> strategy option" where
  "tb_choices cx tb \<equiv> sc_view (cx_wire cx) (tb_nt tb, tb_sc tb)"

text \<open>Strategy information is kept exactly where the strategy in effect is kept.\<close>

definition info_cleared :: "ndn_cxx \<Rightarrow> tables \<Rightarrow> tables \<Rightarrow> bool" where
  "info_cleared cx tb tb' \<longleftrightarrow>
     (\<forall>y pe r m. attached (tb_pit tb) y pe r \<longrightarrow> nt_prefix (tb_nt tb) r = Some m \<longrightarrow>
        pit_entries (tb_pit tb') y =
          Some (if tb_effective cx tb' m = tb_effective cx tb m then pe else clear_pit_info pe)) \<and>
     (\<forall>k x me. ms_slots (cx_wire cx) (tb_nt tb) k = Some x \<longrightarrow> ms_entries (tb_ms tb) x = Some me \<longrightarrow>
        ms_entries (tb_ms tb') x =
          Some (if tb_effective cx tb' k = tb_effective cx tb k then me else clear_ms_info me))"

lemma info_cleared_pit:
  assumes inv: "tables_inv cx tb" and fr: "others_frame (cx_wire cx) (tb_nt tb) t2"
    and att: "attached (tb_pit tb) y pe r" and m: "nt_prefix (tb_nt tb) r = Some m"
  shows "y \<in> (\<Union>r \<in> governed (cx_wire cx) t2 n. set (pit_list t2 r)) \<longleftrightarrow> governs (sc_slots (cx_wire cx) t2) n m"
proof -
  have lists: "pit_list t2 q = pit_list (tb_nt tb) q" for q
    using fr by (simp add: others_frame_def pit_frame_def)
  have mem: "y \<in> set (pit_list t2 q) \<longleftrightarrow> q = r" for q
    unfolding lists pit_invD(3)[OF tables_invD(2)[OF inv]] using att by (auto simp: attached_def)
  then have "pit_list (tb_nt tb) r \<noteq> []"
    unfolding lists[symmetric] by (metis empty_iff empty_set)
  then have "nt_prefix t2 r = Some m"
    using fr m by (simp add: others_frame_def pit_frame_def)
  then show ?thesis
    using mem by (auto simp: governed_def)
qed

lemma info_cleared_ms:
  assumes inv: "tables_inv cx tb" and fr: "others_frame (cx_wire cx) (tb_nt tb) t2"
    and x: "ms_slots (cx_wire cx) (tb_nt tb) k = Some x"
  shows "x \<in> (\<Union>r \<in> governed (cx_wire cx) t2 n. ms_list t2 r) \<longleftrightarrow> governs (sc_slots (cx_wire cx) t2) n k"
proof -
  have nt: "nt_inv (cx_wire cx) t2" and sl: "ms_slots (cx_wire cx) t2 = ms_slots (cx_wire cx) (tb_nt tb)"
    using fr slot_frame_at unfolding others_frame_def by blast+
  have x2: "ms_slots (cx_wire cx) t2 k = Some x"
    using x sl by simp
  then obtain r e where e: "nt_entries t2 r = Some e" "e_prefix e = k" "e_measurementsEntry e = Some x"
    unfolding meas_slot.slot_at_iff[OF nt] by blast
  have only: "q = r" if q: "x \<in> ms_list t2 q" for q
  proof -
    obtain e' where e': "nt_entries t2 q = Some e'" "e_measurementsEntry e' = Some x"
      using q by (auto simp: ms_list_def split: option.splits)
    have "ms_slots (cx_wire cx) (tb_nt tb) (e_prefix e') = Some x"
      using meas_slot.slot_at_entry[OF nt e'(1)] e'(2) sl by simp
    then have "e_prefix e' = k"
      by (rule linked_inj[OF ms_invD(1)[OF tables_invD(3)[OF inv]] _ x])
    then show ?thesis
      using tree_inv_inj[OF nt_invD(7)[OF nt] e'(1) e(1)] e(2) by simp
  qed
  have r: "x \<in> ms_list t2 r" "nt_prefix t2 r = Some k"
    using e by (simp_all add: ms_list_def nt_prefix_def)
  have "x \<in> ms_list t2 q \<longleftrightarrow> q = r" for q
    using only[of q] r(1) by blast
  with r(2) show ?thesis
    by (auto simp: governed_def)
qed

lemma info_cleared_ok:
  assumes inv: "tables_inv cx tb" and fr: "others_frame (cx_wire cx) (tb_nt tb) t2"
    and gov: "\<And>m. governs (sc_slots (cx_wire cx) t2) n m \<longleftrightarrow> governs (tb_choices cx tb) n m"
    and view: "tb_choices cx tb' = (tb_choices cx tb)(n := v)"
    and same: "tb_effective cx tb' n \<noteq> tb_effective cx tb n \<longleftrightarrow> changed"
    and R: "R = (if changed then governed (cx_wire cx) t2 n else {})"
    and p: "pit_cleared (\<Union>r \<in> R. set (pit_list t2 r)) (tb_pit tb) (tb_pit tb')"
    and m: "ms_cleared (\<Union>r \<in> R. ms_list t2 r) (tb_ms tb) (tb_ms tb')"
  shows "info_cleared cx tb tb'"
proof -
  have eff: "tb_effective cx tb' k \<noteq> tb_effective cx tb k \<longleftrightarrow> changed \<and> governs (sc_slots (cx_wire cx) t2) n k" for k
    unfolding same[symmetric] gov unfolding effective_def view using longest_match_changes[of "tb_choices cx tb" n v k] by blast
  have "pit_entries (tb_pit tb') y = Some (if tb_effective cx tb' m = tb_effective cx tb m then pe else clear_pit_info pe)"
    if "attached (tb_pit tb) y pe r" "nt_prefix (tb_nt tb) r = Some m" for y pe r m
    using info_cleared_pit[OF inv fr that, of n] eff[of m] p that(1)
    by (cases changed) (auto simp: R pit_cleared_def attached_def)
  moreover have "ms_entries (tb_ms tb') x = Some (if tb_effective cx tb' k = tb_effective cx tb k then me else clear_ms_info me)"
    if "ms_slots (cx_wire cx) (tb_nt tb) k = Some x" "ms_entries (tb_ms tb) x = Some me" for k x me
    using info_cleared_ms[OF inv fr that(1), of n] eff[of k] m that(2)
    by (cases changed) (auto simp: R ms_cleared_def)
  ultimately show ?thesis
    unfolding info_cleared_def by blast
qed

section \<open>Insertion and erasure\<close>

definition sc_set :: "strategy_choice_ref \<Rightarrow> strategy \<Rightarrow> strategy_choice \<Rightarrow> strategy_choice" where
  "sc_set x st c = sc_update x (\<lambda>se. se\<lparr>sce_strategy := Some st\<rparr>) c"

lemma sc_set_ok:
  assumes inv: "sc_inv wire (t, c)" and x: "sc_slots wire t n = Some x" and st: "installed c st"
  shows "sc_inv wire (t, sc_set x st c) \<and> sc_view wire (t, sc_set x st c) = (sc_view wire (t, c))(n \<mapsto> st)"
proof
  have objs: "sc_objects (sc_set x st c) = sc_objects c"
    by (auto simp: sc_objects_def sc_set_def sc_update_def fun_eq_iff option.map_comp o_def)
  show "sc_inv wire (t, sc_set x st c)"
    unfolding sc_inv_def fst_conv snd_conv objs
    using sc_invD[OF inv] st by (auto simp: sc_set_def sc_update_def installed_def split: if_splits)
  obtain se where se: "sc_entries c x = Some se"
    using sc_slot_object[OF inv x] by blast
  show "sc_view wire (t, sc_set x st c) = (sc_view wire (t, c))(n \<mapsto> st)"
  proof
    fix k show "sc_view wire (t, sc_set x st c) k = ((sc_view wire (t, c))(n \<mapsto> st)) k"
    proof (cases "k = n")
      case True
      then show ?thesis
        using x se by (simp add: sc_view_def sce_getStrategy_def sc_set_def sc_update_def)
    next
      case False
      then have "sc_slots wire t k \<noteq> Some x"
        using linked_inj[OF sc_invD(1)[OF inv] x, of k] by auto
      with False show ?thesis
        by (cases "sc_slots wire t k") (auto simp: sc_view_def sce_getStrategy_def sc_set_def sc_update_def)
    qed
  qed
qed

definition sc_alloc :: "name \<Rightarrow> strategy_choice \<Rightarrow> strategy_choice" where
  "sc_alloc n c = c\<lparr>sc_entries := (sc_entries c)(sc_next c \<mapsto> newStrategyChoiceEntry n), sc_next := sc_next c + 1\<rparr>"

lemma sc_attach_ok:
  assumes inv: "sc_inv wire (t, c)" and r: "nt_prefix t r = Some n" and none: "sc_slots wire t n = None"
    and st: "installed c st"
  shows "\<exists>t2 d. setStrategyChoiceEntry r (Some (sc_next c)) (t, sc_alloc n c) = Some (t2, d) \<and>
    t2 = nt_update r (\<lambda>e. e\<lparr>e_strategyChoiceEntry := Some (sc_next c)\<rparr>) t \<and>
    sc_slots wire t2 = (sc_slots wire t)(n \<mapsto> sc_next c) \<and>
    sc_entries d (sc_next c) = Some ((newStrategyChoiceEntry n)\<lparr>sce_nameTreeEntry := Some r\<rparr>) \<and>
    sc_inv wire (t2, sc_set (sc_next c) st (d\<lparr>sc_nItems := sc_nItems d + 1\<rparr>)) \<and>
    sc_view wire (t2, sc_set (sc_next c) st (d\<lparr>sc_nItems := sc_nItems d + 1\<rparr>)) = (sc_view wire (t, c))(n \<mapsto> st)"
proof -
  let ?x = "sc_next c"
  let ?t = "nt_update r (\<lambda>e. e\<lparr>e_strategyChoiceEntry := Some ?x\<rparr>) t"
  let ?c = "sc_link ?x (Some r) (sc_alloc n c)"
  let ?c' = "sc_set ?x st (?c\<lparr>sc_nItems := sc_nItems ?c + 1\<rparr>)"
  have fresh: "sc_objects c ?x = None"
    using sc_fresh[OF inv] by (simp add: sc_objects_def)
  have objs: "sc_objects (sc_alloc n c) = (sc_objects c)(?x \<mapsto> (n, None))"
    by (auto simp: sc_objects_def sc_alloc_def newStrategyChoiceEntry_def fun_eq_iff)
  have "linked e_strategyChoiceEntry wire t (sc_objects (sc_alloc n c))"
    unfolding objs by (rule linked_alloc[OF sc_invD(1)[OF inv] fresh])
  moreover have "sc_objects (sc_alloc n c) ?x = Some (n, None)"
    by (simp add: objs)
  ultimately have A: "setStrategyChoiceEntry r (Some ?x) (t, sc_alloc n c) = Some (?t, ?c)"
    "linked e_strategyChoiceEntry wire ?t (sc_objects ?c)" "sc_slots wire ?t = (sc_slots wire t)(n \<mapsto> ?x)"
    using sc_table.attach[OF _ r none] by blast+
  have ents: "sc_entries ?c' = (sc_entries c)(?x \<mapsto> \<lparr>sce_prefix = n, sce_strategy = Some st, sce_nameTreeEntry = Some r\<rparr>)"
    by (auto simp: sc_set_def sc_link_def sc_alloc_def sc_update_def newStrategyChoiceEntry_def fun_eq_iff)
  have "sc_objects ?c' = sc_objects ?c"
    by (auto simp: sc_objects_def sc_set_def sc_update_def fun_eq_iff option.map_comp o_def)
  with A(2) have l: "linked e_strategyChoiceEntry wire ?t (sc_objects ?c')"
    by simp
  have rest: "sc_next ?c' = Suc ?x" "sc_nItems ?c' = sc_nItems c + 1" "sc_instances ?c' = sc_instances c"
    by (simp_all add: sc_set_def sc_link_def sc_alloc_def sc_update_def)
  have "sc_inv wire (?t, ?c')"
    unfolding sc_inv_def fst_conv snd_conv A(3) rest ents
    using l sc_invD(3-7)[OF inv] st card_dom_new[OF sc_slot.finite_slots[OF sc_invD(2)[OF inv]] none, of ?x] rest(3)
    by (auto simp: installed_def less_Suc_eq split: if_splits)
  moreover have "sc_view wire (?t, ?c') = (sc_view wire (t, c))(n \<mapsto> st)"
  proof
    fix k show "sc_view wire (?t, ?c') k = ((sc_view wire (t, c))(n \<mapsto> st)) k"
    proof (cases "k = n")
      case False
      have "sc_slots wire t k \<noteq> Some ?x"
        using linked_slot[OF sc_invD(1)[OF inv], of k ?x] fresh by auto
      with False show ?thesis
        by (cases "sc_slots wire t k") (auto simp: sc_view_def A(3) sce_getStrategy_def ents)
    qed (simp add: sc_view_def A(3) sce_getStrategy_def ents)
  qed
  moreover have "sc_entries ?c ?x = Some ((newStrategyChoiceEntry n)\<lparr>sce_nameTreeEntry := Some r\<rparr>)"
    by (simp add: sc_link_def sc_alloc_def sc_update_def)
  ultimately show ?thesis
    using A(1,3) by blast
qed

lemma effective_here: "sc_view wire s n = Some st \<Longrightarrow> effective wire s n = Some st"
  by (cases n rule: rev_cases) (simp_all add: effective_def longest_match_Nil longest_match_snoc)

text \<open>The last two steps of an insertion: the information is cleared and the strategy is set.\<close>

lemma sc_change_ok:
  assumes inv: "tables_inv cx tb" and fr: "others_frame (cx_wire cx) (tb_nt tb) t2"
    and sc: "sc_inv (cx_wire cx) (t2, sc_set x st d)"
      "sc_view (cx_wire cx) (t2, sc_set x st d) = (tb_choices cx tb)(n \<mapsto> st)"
    and se: "sc_entries d x = Some se" "sce_prefix se = n" "sce_nameTreeEntry se = Some r" "nt_prefix t2 r = Some n"
    and slots: "\<And>q. q \<noteq> n \<Longrightarrow> sc_slots (cx_wire cx) t2 q = sc_slots (cx_wire cx) (tb_nt tb) q"
    and old: "tb_effective cx tb n = Some old" "installed (tb_sc tb) old" "installed (tb_sc tb) st"
  shows "\<exists>p m. changeStrategy (cx_wire cx) x old st (tb\<lparr>tb_nt := t2, tb_sc := d\<rparr>) =
      Some (tb\<lparr>tb_nt := t2, tb_sc := d, tb_pit := p, tb_ms := m\<rparr>) \<and>
    tables_inv cx (tb\<lparr>tb_nt := t2, tb_sc := sc_set x st d, tb_pit := p, tb_ms := m\<rparr>) \<and>
    info_cleared cx tb (tb\<lparr>tb_nt := t2, tb_sc := sc_set x st d, tb_pit := p, tb_ms := m\<rparr>)"
proof -
  let ?tb = "tb\<lparr>tb_nt := t2, tb_sc := d\<rparr>"
  let ?R = "if st_ptr old = st_ptr st then {} else governed (cx_wire cx) t2 n"
  have nt2: "nt_inv (cx_wire cx) t2"
    by (rule sc_invD(2)[OF sc(1)])
  have sel: "tb_nt ?tb = t2" "tb_sc ?tb = d" "tb_pit ?tb = tb_pit tb" "tb_ms ?tb = tb_ms tb"
    by simp_all
  obtain p m where pm: "changeStrategy (cx_wire cx) x old st ?tb = Some (?tb\<lparr>tb_pit := p, tb_ms := m\<rparr>)"
    "pit_cleared (\<Union>r \<in> ?R. set (pit_list t2 r)) (tb_pit tb) p" "ms_cleared (\<Union>r \<in> ?R. ms_list t2 r) (tb_ms tb) m"
    using changeStrategy_ok[of "cx_wire cx" ?tb x se n r old st, unfolded Let_def sel, OF nt2 se] by blast
  let ?tb' = "tb\<lparr>tb_nt := t2, tb_sc := sc_set x st d, tb_pit := p, tb_ms := m\<rparr>"
  have o: "fib_inv (cx_wire cx) (t2, tb_fib tb)" "pit_inv cx (t2, tb_pit tb)" "ms_inv (cx_wire cx) (t2, tb_ms tb)"
    using others_inv[OF tables_invD(1-3)[OF inv] fr] by auto
  have "tables_inv cx ?tb'"
    using o(1) pit_cleared_inv[OF o(2) pm(2)] ms_cleared_inv[OF o(3) pm(3)] sc(1) by (simp add: tables_inv_def)
  moreover have "info_cleared cx tb ?tb'"
  proof (rule info_cleared_ok[OF inv fr])
    fix k show "governs (sc_slots (cx_wire cx) t2) n k \<longleftrightarrow> governs (tb_choices cx tb) n k"
      by (rule governs_cong) (simp add: slots sc_view_dom[OF tables_invD(4)[OF inv]])
    show "tb_choices cx ?tb' = (tb_choices cx tb)(n := Some st)"
      using sc(2) by simp
    have "tb_effective cx ?tb' n = Some st"
      by (rule effective_here) (simp add: sc(2))
    then show "tb_effective cx ?tb' n \<noteq> tb_effective cx tb n \<longleftrightarrow> st_ptr old \<noteq> st_ptr st"
      using old installed_name(2)[OF sc_invD(7)[OF tables_invD(4)[OF inv]] old(2,3)] by auto
  qed (use pm in auto)
  ultimately show ?thesis
    using pm(1) by (intro exI[of _ p] exI[of _ m]) simp
qed

lemma sc_insert_ok:
  assumes inv: "tables_inv cx tb" and cap: "nt_nItems (tb_nt tb) + length n + 1 \<le> maxItems"
    and hash: "prefix_hashes_distinct (cx_wire cx) n" and st: "getStrategy sn (tb_sc tb) = Some st"
  shows "\<exists>tb'. sc_insert (cx_wire cx) n sn tb = Some (tb', True) \<and> tables_inv cx tb' \<and>
    tb_choices cx tb' = (tb_choices cx tb)(n \<mapsto> st) \<and> info_cleared cx tb tb'"
proof -
  note sc = tables_invD(4)[OF inv]
  have inst: "installed (tb_sc tb) st"
    using getStrategy_installed[OF sc_invD(7)[OF sc] st] by blast
  obtain t1 r where t1: "nt_lookup (cx_wire cx) n (tb_nt tb) = Some (t1, r)" "nt_inv (cx_wire cx) t1"
    "nt_grows (tb_nt tb) t1" "nt_prefix t1 r = Some n"
    using nt_lookup_ok[OF tables_invD(5)[OF inv] cap] by blast
  have fr: "others_frame (cx_wire cx) (tb_nt tb) t1"
    by (rule others_frame_grows[OF tables_invD(5)[OF inv] t1(2,3)])
  have scf: "slot_frame e_strategyChoiceEntry (cx_wire cx) (tb_nt tb) t1"
    by (rule sc_slot.slot_frame_grows[OF tables_invD(5)[OF inv] t1(2,3)])
  note sc1 = sc_inv_frame[OF sc t1(2) scf]
  have slots1: "sc_slots (cx_wire cx) t1 = sc_slots (cx_wire cx) (tb_nt tb)"
    by (rule slot_frame_at[OF scf])
  have eff1: "effective (cx_wire cx) (t1, tb_sc tb) = tb_effective cx tb"
    unfolding effective_def[abs_def] sc1(2) by simp
  obtain e where e: "nt_entries t1 r = Some e" "e_prefix e = n"
    using t1(4) by (auto simp: nt_prefix_def)
  have slot: "sc_slots (cx_wire cx) t1 n = e_strategyChoiceEntry e"
    using sc_slot.slot_at_entry[OF t1(2) e(1)] e(2) by simp
  show ?thesis
  proof (cases "e_strategyChoiceEntry e")
    case (Some x)
    obtain se r' old where se: "sc_entries (tb_sc tb) x = Some se" "sce_prefix se = n" "sce_nameTreeEntry se = Some r'"
      "nt_prefix t1 r' = Some n" "sce_strategy se = Some old" "installed (tb_sc tb) old"
      using sc_slot_object[OF sc1(1), of n x] slot Some by metis
    have view: "tb_choices cx tb n = Some old"
      unfolding sc1(2)[symmetric] using slot Some se(1,5) by (simp add: sc_view_def sce_getStrategy_def)
    note set = sc_set_ok[OF sc1(1) _ inst, of n x, unfolded sc1(2)]
    show ?thesis
    proof (cases "st_name old = st_name st")
      case True
      then have "old = st"
        using installed_name(1)[OF sc_invD(7)[OF sc] se(6) inst] by simp
      let ?tb = "tb\<lparr>tb_nt := t1\<rparr>"
      have "sc_insert (cx_wire cx) n sn tb = Some (?tb, True)"
        using st t1(1) e(1) Some se True by (simp add: sc_insert_def sce_getStrategy_def)
      moreover have "tables_inv cx ?tb"
        using others_inv[OF tables_invD(1-3)[OF inv] fr] sc1(1) by (simp add: tables_inv_def)
      moreover have "tb_choices cx ?tb = (tb_choices cx tb)(n \<mapsto> st)"
        using sc1(2) view \<open>old = st\<close> by (simp add: fun_upd_idem)
      moreover have "info_cleared cx tb ?tb"
        using eff1 by (simp add: info_cleared_def attached_def)
      ultimately show ?thesis by blast
    next
      case False
      let ?tb = "tb\<lparr>tb_nt := t1, tb_sc := tb_sc tb\<rparr>"
      obtain p m where pm: "changeStrategy (cx_wire cx) x old st ?tb =
          Some (tb\<lparr>tb_nt := t1, tb_sc := tb_sc tb, tb_pit := p, tb_ms := m\<rparr>)"
        "tables_inv cx (tb\<lparr>tb_nt := t1, tb_sc := sc_set x st (tb_sc tb), tb_pit := p, tb_ms := m\<rparr>)"
        "info_cleared cx tb (tb\<lparr>tb_nt := t1, tb_sc := sc_set x st (tb_sc tb), tb_pit := p, tb_ms := m\<rparr>)"
        using sc_change_ok[OF inv fr _ _ se(1-4) _ effective_here[OF view] se(6) inst] set slot Some slots1 by auto
      have "sc_insert (cx_wire cx) n sn tb = Some (tb\<lparr>tb_nt := t1, tb_sc := sc_set x st (tb_sc tb), tb_pit := p, tb_ms := m\<rparr>, True)"
        using st t1(1) e(1) Some se False pm(1) by (simp add: sc_insert_def sce_getStrategy_def sc_set_def)
      with pm(2,3) set slot Some show ?thesis
        by auto
    qed
  next
    case None
    obtain old where old: "tb_effective cx tb n = Some old" "installed (tb_sc tb) old"
      using effective_installed[OF sc] by blast
    have none: "sc_slots (cx_wire cx) t1 n = None"
      using slot None by simp
    obtain t2 d where a: "setStrategyChoiceEntry r (Some (sc_next (tb_sc tb))) (t1, sc_alloc n (tb_sc tb)) = Some (t2, d)"
      "t2 = nt_update r (\<lambda>e. e\<lparr>e_strategyChoiceEntry := Some (sc_next (tb_sc tb))\<rparr>) t1"
      "sc_slots (cx_wire cx) t2 = (sc_slots (cx_wire cx) t1)(n \<mapsto> sc_next (tb_sc tb))"
      "sc_entries d (sc_next (tb_sc tb)) = Some ((newStrategyChoiceEntry n)\<lparr>sce_nameTreeEntry := Some r\<rparr>)"
      "sc_inv (cx_wire cx) (t2, sc_set (sc_next (tb_sc tb)) st (d\<lparr>sc_nItems := sc_nItems d + 1\<rparr>))"
      "sc_view (cx_wire cx) (t2, sc_set (sc_next (tb_sc tb)) st (d\<lparr>sc_nItems := sc_nItems d + 1\<rparr>)) =
        (sc_view (cx_wire cx) (t1, tb_sc tb))(n \<mapsto> st)"
      using sc_attach_ok[OF sc1(1) t1(4) none inst] by blast
    let ?c = "d\<lparr>sc_nItems := sc_nItems d + 1\<rparr>"
    let ?x = "sc_next (tb_sc tb)"
    have fr2: "others_frame (cx_wire cx) (tb_nt tb) t2"
      unfolding a(2) by (rule others_frame_trans[OF fr others_frame_sc[OF t1(2)]])
    have r2: "nt_prefix t2 r = Some n"
      unfolding a(2) sc_slot.nt_prefix_put by (rule t1(4))
    have se2: "sc_entries ?c ?x = Some ((newStrategyChoiceEntry n)\<lparr>sce_nameTreeEntry := Some r\<rparr>)"
      using a(4) by simp
    obtain p m where pm: "changeStrategy (cx_wire cx) ?x old st (tb\<lparr>tb_nt := t2, tb_sc := ?c\<rparr>) =
        Some (tb\<lparr>tb_nt := t2, tb_sc := ?c, tb_pit := p, tb_ms := m\<rparr>)"
      "tables_inv cx (tb\<lparr>tb_nt := t2, tb_sc := sc_set ?x st ?c, tb_pit := p, tb_ms := m\<rparr>)"
      "info_cleared cx tb (tb\<lparr>tb_nt := t2, tb_sc := sc_set ?x st ?c, tb_pit := p, tb_ms := m\<rparr>)"
      using sc_change_ok[OF inv fr2 a(5) a(6)[unfolded sc1(2)] se2 _ _ r2 _ old inst] a(3) slots1
      by (auto simp: newStrategyChoiceEntry_def)
    have "findEffectiveStrategy (cx_wire cx) n (t1, tb_sc tb) = Some old"
      using findEffectiveStrategy_ok[OF sc1(1) hash] eff1 old(1) by simp
    then have "sc_insert (cx_wire cx) n sn tb = Some (tb\<lparr>tb_nt := t2, tb_sc := sc_set ?x st ?c, tb_pit := p, tb_ms := m\<rparr>, True)"
      using st t1(1) e(1) None a(1) pm(1) by (simp add: sc_insert_def Let_def sc_set_def sc_alloc_def)
    with pm(2,3) a(6) sc1(2) show ?thesis
      by auto
  qed
qed

lemma sc_detach_ok:
  assumes inv: "sc_inv wire (t, c)" and r: "nt_prefix t r = Some n" and x: "sc_slots wire t n = Some x" and ne: "n \<noteq> []"
  shows "\<exists>t1 t2 d b. setStrategyChoiceEntry r None (t, c) = Some (t1, d) \<and> eraseEntryIfEmpty r t1 = Some (t2, b) \<and>
    others_frame wire t t2 \<and> sc_inv wire (t2, d\<lparr>sc_nItems := sc_nItems d - 1\<rparr>) \<and>
    sc_view wire (t2, d\<lparr>sc_nItems := sc_nItems d - 1\<rparr>) = (sc_view wire (t, c))(n := None)"
proof -
  let ?t = "nt_update r (\<lambda>e. e\<lparr>e_strategyChoiceEntry := None\<rparr>) t"
  let ?d = "sc_link x None c"
  let ?d' = "?d\<lparr>sc_nItems := sc_nItems ?d - 1\<rparr>"
  note l = sc_invD(1)[OF inv]
  have d: "setStrategyChoiceEntry r None (t, c) = Some (?t, ?d)"
    using sc_table.detach[OF l r x] by blast
  obtain t2 b where t2: "eraseEntryIfEmpty r ?t = Some (t2, b)" "linked e_strategyChoiceEntry wire t2 (sc_objects ?d)"
    "sc_slots wire t2 = (sc_slots wire t)(n := None)" "nt_inv wire ?t" "nt_shrinks ?t t2"
    using sc_table.detach_erase[OF l r x] by blast
  have fr: "others_frame wire t t2"
    by (rule others_frame_trans[OF others_frame_sc[OF sc_invD(2)[OF inv]] others_frame_shrinks[OF t2(4) linked_inv[OF t2(2)] t2(5)]])
  have objs: "sc_objects ?d' = sc_objects ?d"
    by (simp add: sc_objects_def[abs_def])
  have rest: "sc_instances ?d' = sc_instances c" "sc_next ?d' = sc_next c" "sc_nItems ?d' = sc_nItems c - 1"
    by (simp_all add: sc_link_def sc_update_def)
  have ents: "\<exists>se0. sc_entries c y = Some se0 \<and> sce_strategy se = sce_strategy se0 \<and>
      (sce_nameTreeEntry se \<noteq> None \<longrightarrow> sce_nameTreeEntry se0 \<noteq> None)" if "sc_entries ?d' y = Some se" for y se
    using that by (auto simp: sc_link_def sc_update_def split: if_splits)
  have "sc_inv wire (t2, ?d')"
    unfolding sc_inv_def fst_conv snd_conv objs rest t2(3)
  proof (intro conjI allI impI)
    show "linked e_strategyChoiceEntry wire t2 (sc_objects ?d)" "instances_ok (sc_instances c)"
      by (rule t2(2), rule sc_invD(7)[OF inv])
    show "((sc_slots wire t)(n := None)) [] \<noteq> None"
      using sc_invD(5)[OF inv] ne by simp
    show "sc_nItems c - 1 = of_nat (card (dom ((sc_slots wire t)(n := None))))"
      using sc_invD(6)[OF inv] card_dom_del[OF sc_slot.finite_slots[OF sc_invD(2)[OF inv]] x] by simp
    fix y se assume "sc_entries ?d' y = Some se"
    then obtain se0 where se0: "sc_entries c y = Some se0" "sce_strategy se = sce_strategy se0"
      "sce_nameTreeEntry se \<noteq> None \<longrightarrow> sce_nameTreeEntry se0 \<noteq> None"
      using ents by blast
    show "y < sc_next c"
      by (rule sc_invD(3)[OF inv se0(1)])
    assume "sce_nameTreeEntry se \<noteq> None"
    then show "\<exists>st. sce_strategy se = Some st \<and> installed ?d' st"
      using sc_invD(4)[OF inv se0(1)] se0(2,3) rest(1) by (simp add: installed_def)
  qed
  moreover have "sc_view wire (t2, ?d') = (sc_view wire (t, c))(n := None)"
  proof -
    have "sce_getStrategy y ?d' = sce_getStrategy y c" for y
      by (cases "sc_entries c y") (auto simp: sce_getStrategy_def sc_link_def sc_update_def)
    then show ?thesis
      by (intro ext) (simp add: sc_view_def t2(3))
  qed
  ultimately show ?thesis
    using d t2(1) fr by blast
qed

lemma sc_erase_ok:
  assumes inv: "tables_inv cx tb" and ne: "n \<noteq> []" and hash: "prefix_hashes_distinct (cx_wire cx) (butlast n)"
  shows "\<exists>tb'. sc_erase (cx_wire cx) n tb = Some tb' \<and> tables_inv cx tb' \<and>
    tb_choices cx tb' = (tb_choices cx tb)(n := None) \<and> info_cleared cx tb tb'"
proof -
  note sc = tables_invD(4)[OF inv] and nt = tables_invD(5)[OF inv]
  show ?thesis
  proof (cases "sc_slots (cx_wire cx) (tb_nt tb) n")
    case None
    have "sc_erase (cx_wire cx) n tb = Some tb"
    proof (cases "findExactMatch (cx_wire cx) n (tb_nt tb)")
      case ex: (Some r)
      then obtain e where e: "nt_entries (tb_nt tb) r = Some e"
        using findExactMatch_iff[OF nt, of n r] by (auto simp: nt_prefix_def)
      then have "e_strategyChoiceEntry e = None"
        using None ex by (simp add: slot_at_def)
      with ne ex e show ?thesis
        by (simp add: sc_erase_def)
    qed (use ne in \<open>simp add: sc_erase_def\<close>)
    moreover have "tb_choices cx tb n = None"
      using sc_view_dom[OF sc] None by simp
    ultimately show ?thesis
      using inv by (auto simp: info_cleared_def attached_def fun_upd_idem)
  next
    case (Some x)
    obtain se r old where se: "sc_entries (tb_sc tb) x = Some se" "sce_prefix se = n" "sce_nameTreeEntry se = Some r"
      "nt_prefix (tb_nt tb) r = Some n" "sce_strategy se = Some old" "installed (tb_sc tb) old"
      using sc_slot_object[OF sc Some] by metis
    obtain e where e: "nt_entries (tb_nt tb) r = Some e" "e_prefix e = n"
      using se(4) by (auto simp: nt_prefix_def)
    have ex: "findExactMatch (cx_wire cx) n (tb_nt tb) = Some r" "e_strategyChoiceEntry e = Some x"
      using findExactMatch_iff[OF nt] se(4) sc_slot.slot_at_entry[OF nt e(1)] e(2) Some by auto
    obtain par where par: "tb_effective cx tb (butlast n) = Some par" "installed (tb_sc tb) par"
      using effective_installed[OF sc] by blast
    have find: "findEffectiveStrategy (cx_wire cx) (butlast n) (tb_nt tb, tb_sc tb) = Some par"
      using findEffectiveStrategy_ok[OF sc hash] par(1) by simp
    let ?R = "if st_ptr old = st_ptr par then {} else governed (cx_wire cx) (tb_nt tb) n"
    obtain p m where pm: "changeStrategy (cx_wire cx) x old par tb = Some (tb\<lparr>tb_pit := p, tb_ms := m\<rparr>)"
      "pit_cleared (\<Union>r \<in> ?R. set (pit_list (tb_nt tb) r)) (tb_pit tb) p"
      "ms_cleared (\<Union>r \<in> ?R. ms_list (tb_nt tb) r) (tb_ms tb) m"
      using changeStrategy_ok[of "cx_wire cx" tb x se n r old par, unfolded Let_def, OF nt se(1-4)] by blast
    obtain t1 t2 d b where d: "setStrategyChoiceEntry r None (tb_nt tb, tb_sc tb) = Some (t1, d)"
      "eraseEntryIfEmpty r t1 = Some (t2, b)" "others_frame (cx_wire cx) (tb_nt tb) t2"
      "sc_inv (cx_wire cx) (t2, d\<lparr>sc_nItems := sc_nItems d - 1\<rparr>)"
      "sc_view (cx_wire cx) (t2, d\<lparr>sc_nItems := sc_nItems d - 1\<rparr>) = (tb_choices cx tb)(n := None)"
      using sc_detach_ok[OF sc se(4) Some ne] by blast
    let ?tb' = "tb\<lparr>tb_nt := t2, tb_sc := d\<lparr>sc_nItems := sc_nItems d - 1\<rparr>, tb_pit := p, tb_ms := m\<rparr>"
    have res: "sc_erase (cx_wire cx) n tb = Some ?tb'"
      using ne ex e(1) se find pm(1) d(1,2) by (simp add: sc_erase_def sce_getStrategy_def)
    have "tables_inv cx ?tb'"
      using others_inv[OF tables_invD(1)[OF inv] pit_cleared_inv[OF tables_invD(2)[OF inv] pm(2)]
          ms_cleared_inv[OF tables_invD(3)[OF inv] pm(3)] d(3)] d(4)
      by (simp add: tables_inv_def)
    moreover have "tb_choices cx ?tb' = (tb_choices cx tb)(n := None)"
      using d(5) by simp
    moreover have "info_cleared cx tb ?tb'"
    proof (rule info_cleared_ok[OF inv])
      show "others_frame (cx_wire cx) (tb_nt tb) (tb_nt tb)"
        using nt by (simp add: others_frame_def)
      fix k show "governs (sc_slots (cx_wire cx) (tb_nt tb)) n k \<longleftrightarrow> governs (tb_choices cx tb) n k"
        by (rule governs_cong) (simp add: sc_view_dom[OF sc])
      show "tb_choices cx ?tb' = (tb_choices cx tb)(n := None)"
        using d(5) by simp
      have "tb_choices cx tb n = Some old"
        using Some se by (simp add: sc_view_def sce_getStrategy_def)
      then have "tb_effective cx tb n = Some old"
        by (rule effective_here)
      moreover have "tb_effective cx ?tb' n = Some par"
      proof -
        obtain k c where n: "n = k @ [c]"
          using ne by (cases n rule: rev_cases) auto
        then have "tb_effective cx ?tb' n = longest_match ((tb_choices cx tb)(n := None)) k"
          using d(5) by (simp add: effective_def longest_match_snoc)
        also have "\<dots> = longest_match (tb_choices cx tb) k"
          by (rule longest_match_cong) (use n prefix_length_le in fastforce)
        finally show ?thesis
          using par(1) n by (simp add: effective_def)
      qed
      ultimately show "tb_effective cx ?tb' n \<noteq> tb_effective cx tb n \<longleftrightarrow> st_ptr old \<noteq> st_ptr par"
        using installed_name(2)[OF sc_invD(7)[OF sc] se(6) par(2)] by auto
    qed (use pm in auto)
    ultimately show ?thesis
      using res by blast
  qed
qed

section \<open>The empty tables\<close>

definition newTables :: "(component \<Rightarrow> byte list) \<Rightarrow> nat \<Rightarrow> strategy \<Rightarrow> tables option" where
  "newTables wire k defaultStrategy =
    map_option (\<lambda>(t, c). \<lparr>tb_nt = t, tb_fib = Fib, tb_pit = Pit, tb_ms = Measurements, tb_sc = c\<rparr>)
      (StrategyChoice wire (NameTree k) defaultStrategy)"

lemma newTables_ok:
  assumes "power2 k"
  shows "\<exists>tb. newTables (cx_wire cx) k st = Some tb \<and> tables_inv cx tb \<and> tb_choices cx tb = [[] \<mapsto> st] \<and>
    sc_instances (tb_sc tb) = [(st_name st, st)] \<and> nt_nItems (tb_nt tb) \<le> 1"
proof -
  note nt = NameTree_inv[OF assms, of "cx_wire cx"]
  obtain t1 r where t1: "nt_lookup (cx_wire cx) [] (NameTree k) = Some (t1, r)" "nt_inv (cx_wire cx) t1"
    "nt_grows (NameTree k) t1" "nt_prefix t1 r = Some []" "nt_nItems t1 \<le> 1"
    using nt_lookup_ok[OF nt, of "[]"] by (auto simp: NameTree_def maxItems_def)
  let ?c = "\<lparr>sc_entries = (\<lambda>_. None), sc_next = 0, sc_nItems = 0, sc_instances = [(st_name st, st)]\<rparr> :: strategy_choice"
  have slots: "sc_slots (cx_wire cx) t1 = (\<lambda>_. None)"
    using sc_slot.slot_at_grows[OF nt t1(2,3)] NameTree_slots by simp
  have objs: "sc_objects (sc_alloc [] ?c) = [0 \<mapsto> ([], None)]"
    by (auto simp: sc_objects_def sc_alloc_def newStrategyChoiceEntry_def fun_eq_iff)
  have l: "linked e_strategyChoiceEntry (cx_wire cx) t1 (sc_objects (sc_alloc [] ?c))"
    unfolding linked_def objs slots using t1(2) by (simp split: if_splits)
  let ?t = "nt_update r (\<lambda>e. e\<lparr>e_strategyChoiceEntry := Some 0\<rparr>) t1"
  let ?d = "sc_link 0 (Some r) (sc_alloc [] ?c)"
  let ?d' = "sc_set 0 st (?d\<lparr>sc_nItems := sc_nItems ?d + 1\<rparr>)"
  have A: "setStrategyChoiceEntry r (Some 0) (t1, sc_alloc [] ?c) = Some (?t, ?d)"
    "linked e_strategyChoiceEntry (cx_wire cx) ?t (sc_objects ?d)" "sc_slots (cx_wire cx) ?t = [[] \<mapsto> 0]"
    using sc_table.attach[OF l t1(4), of 0] slots objs by auto
  have ents: "sc_entries ?d' = [0 \<mapsto> \<lparr>sce_prefix = [], sce_strategy = Some st, sce_nameTreeEntry = Some r\<rparr>]"
    by (auto simp: sc_set_def sc_link_def sc_alloc_def sc_update_def newStrategyChoiceEntry_def fun_eq_iff)
  have "sc_objects ?d' = sc_objects ?d"
    by (auto simp: sc_objects_def sc_set_def sc_update_def fun_eq_iff option.map_comp o_def)
  with A(2) have l': "linked e_strategyChoiceEntry (cx_wire cx) ?t (sc_objects ?d')"
    by simp
  have rest: "sc_next ?d' = 1" "sc_nItems ?d' = 1" "sc_instances ?d' = [(st_name st, st)]"
    by (simp_all add: sc_set_def sc_link_def sc_alloc_def sc_update_def)
  have sc: "sc_inv (cx_wire cx) (?t, ?d')"
    unfolding sc_inv_def fst_conv snd_conv A(3) rest ents
    using l' rest(3) by (auto simp: installed_def instances_ok_def split: if_splits)
  have view: "sc_view (cx_wire cx) (?t, ?d') = [[] \<mapsto> st]"
    by (intro ext) (auto simp: sc_view_def A(3) sce_getStrategy_def ents)
  have fr: "others_frame (cx_wire cx) (NameTree k) ?t"
    by (rule others_frame_trans[OF others_frame_grows[OF nt t1(2,3)] others_frame_sc[OF t1(2)]])
  have o: "fib_inv (cx_wire cx) (?t, Fib) \<and> pit_inv cx (?t, Pit) \<and> ms_inv (cx_wire cx) (?t, Measurements)"
    using others_inv[OF Fib_inv[OF assms] Pit_inv[OF assms] Measurements_inv[OF assms] fr] by blast
  have "StrategyChoice (cx_wire cx) (NameTree k) st = Some (?t, ?d')"
    using t1(1) A(1) by (simp add: StrategyChoice_def setDefaultStrategy_def install_def hasStrategy_def sc_alloc_def sc_set_def Let_def)
  then show ?thesis
    using sc view o rest(3) t1(5) by (auto simp: newTables_def tables_inv_def nt_update_def)
qed

section \<open>Properties\<close>


definition strategy_example :: strategy where
  "strategy_example = \<lparr>st_ptr = 1, st_name = [Generic [115], Generic [1]], st_kind = BestRouteStrategy2\<rparr>"

lemma tables_example: "\<exists>tb. newTables tlv 8 strategy_example = Some tb \<and> tables_inv cx_example tb \<and>
    tb_choices cx_example tb = [[] \<mapsto> strategy_example] \<and>
    sc_instances (tb_sc tb) = [(st_name strategy_example, strategy_example)] \<and> nt_nItems (tb_nt tb) \<le> 1"
  using newTables_ok[OF power2_8, of cx_example strategy_example] by (simp add: cx_example_def)




text \<open>A strategy is found by its exact name; a name without version finds the strategy with the
  greatest version in the canonical order, and nothing else is found.\<close>

theorem getStrategy_version:
  assumes "tables_inv cx tb"
  shows "getStrategy n (tb_sc tb) =
    (case map_of (sc_instances (tb_sc tb)) n of Some st \<Rightarrow> Some st
     | None \<Rightarrow> if versions n (sc_instances (tb_sc tb)) = [] then None else Some (last (versions n (sc_instances (tb_sc tb)))))"
  by (rule getStrategy_spec[OF sc_invD(7)[OF tables_invD(4)[OF assms]]])

theorem getStrategy_version_witness:
  "\<exists>tb. newTables tlv 8 strategy_example = Some tb \<and> getStrategy [Generic [115]] (tb_sc tb) = Some strategy_example"
proof -
  obtain tb where tb: "newTables tlv 8 strategy_example = Some tb" "tables_inv cx_example tb"
    "sc_instances (tb_sc tb) = [(st_name strategy_example, strategy_example)]"
    using tables_example by blast
  show ?thesis
    using tb(1) getStrategy_version[OF tb(2), of "[Generic [115]]"] unfolding tb(3)
    by (simp add: versions_def strategy_example_def)
qed

end
