(* ===== verification/Forwarder_Correct.thy ===== *)
theory Forwarder_Correct
  imports Forwarder Strategies_Correct Tables_Correct Content_Store_Correct
begin

text \<open>
  Correctness of the forwarding pipelines.  The invariant \<open>fw_inv\<close> joins those of the tables, the content
  store and the dead nonce list, says that every PIT entry has a timer set, and that no packet under
  /localhost was sent to a non-local face.  For each pipeline a lemma shows that it returns (no assertion fails)
  and keeps the invariant; inside a pipeline the entry that is worked on may be without a timer, so that the
  invariant has the set of such entries as a parameter.
\<close>

section \<open>Invariant\<close>

fun out_face :: "fw_output \<Rightarrow> face_ptr" where
  "out_face (SentInterest f i) = f"
| "out_face (SentData f d) = f"
| "out_face (SentNack f n) = f"

fun out_name :: "fw_output \<Rightarrow> name" where
  "out_name (SentInterest f i) = i_name i"
| "out_name (SentData f d) = d_name d"
| "out_name (SentNack f n) = i_name (n_interest n)"

definition scope_safe :: "(face_ptr \<Rightarrow> face_info) \<Rightarrow> fw_output \<Rightarrow> bool" where
  "scope_safe faces pkt \<longleftrightarrow> (f_scope (faces (out_face pkt)) = ScopeNonLocal \<longrightarrow> \<not> prefix LOCALHOST (out_name pkt))"

definition entry_ok :: "(face_ptr \<Rightarrow> face_info) \<Rightarrow> pit_entry \<Rightarrow> bool" where
  "entry_ok faces pe \<longleftrightarrow> pe_ready pe \<and> \<not> isEndWithDigest (pe_name pe) \<and>
     (prefix LOCALHOST (pe_name pe) \<longrightarrow> (\<forall>r \<in> set (pe_inRecords pe). f_scope (faces (ir_face r)) = ScopeLocal))"

text \<open>The face table and the ids of the faces agree.\<close>

definition faces_ok :: "forwarder \<Rightarrow> bool" where
  "faces_ok s \<longleftrightarrow> FACEID_RESERVED_MAX \<le> fw_lastFaceId s \<and>
     (\<forall>i f. fw_faceTable s i = Some f \<longleftrightarrow> f_id (fw_faces s f) = i \<and> i \<noteq> INVALID_FACEID) \<and>
     (\<forall>i. fw_faceTable s i \<noteq> None \<longrightarrow> i \<le> fw_lastFaceId s)"

definition fw_inv :: "fw_lib \<Rightarrow> pit_ref set \<Rightarrow> forwarder \<Rightarrow> bool" where
  "fw_inv lib X s \<longleftrightarrow> tables_inv (lib_cx lib) (fw_tables s) \<and> cs_inv (fw_cs s) \<and> plain_names (cs_table (fw_cs s)) \<and>
     dnl_inv (fw_dnl s) \<and> faces_ok s \<and>
     (\<forall>x pe r. attached (fw_pit s) x pe r \<longrightarrow> entry_ok (fw_faces s) pe \<and> (x \<notin> X \<longrightarrow> timed pe)) \<and>
     (\<forall>pkt \<in> set (fw_out s). scope_safe (fw_faces s) pkt)"

definition lib_ok :: "fw_lib \<Rightarrow> bool" where
  "lib_ok lib \<longleftrightarrow> (\<forall>k. forwarding_strategy (lib_other lib k)) \<and> matches_prefix (cx_matchesData (lib_cx lib))"

lemma fw_invD:
  assumes "fw_inv lib X s"
  shows "tables_inv (lib_cx lib) (fw_tables s)" "cs_inv (fw_cs s)" "plain_names (cs_table (fw_cs s))" "dnl_inv (fw_dnl s)"
    "faces_ok s" "attached (fw_pit s) x pe r \<Longrightarrow> entry_ok (fw_faces s) pe"
    "attached (fw_pit s) x pe r \<Longrightarrow> x \<notin> X \<Longrightarrow> timed pe" "pkt \<in> set (fw_out s) \<Longrightarrow> scope_safe (fw_faces s) pkt"
    "pit_inv (lib_cx lib) (tb_nt (fw_tables s), fw_pit s)"
  using assms tables_invD(2) unfolding fw_inv_def by blast+

lemma fw_inv_mono: "fw_inv lib X s \<Longrightarrow> X \<subseteq> Y \<Longrightarrow> fw_inv lib Y s"
  unfolding fw_inv_def by blast

section \<open>Writing to an entry\<close>

lemma pit_update_const:
  "pit_entries p x = Some pe \<Longrightarrow> pit_update x g p = pit_update x (\<lambda>q. if q = pe then g pe else q) p"
  by (auto simp: pit_update_def)

lemma attached_update:
  assumes "attached p x pe r" and "pe_nameTreeEntry (g pe) = pe_nameTreeEntry pe"
  shows "attached (pit_update x g p) y q k \<longleftrightarrow> (if y = x then q = g pe \<and> k = r else attached p y q k)"
  using assms by (auto simp: attached_def pit_update_def)

lemma tables_inv_pit:
  "tables_inv cx tb \<Longrightarrow> pit_inv cx (tb_nt tb, p) \<Longrightarrow> tables_inv cx (tb\<lparr>tb_pit := p\<rparr>)"
  by (simp add: tables_inv_def)

lemma faces_ok_cong:
  "faces_ok s \<Longrightarrow> fw_faces s' = fw_faces s \<Longrightarrow> fw_faceTable s' = fw_faceTable s \<Longrightarrow> fw_lastFaceId s' = fw_lastFaceId s \<Longrightarrow> faces_ok s'"
  by (simp add: faces_ok_def)

lemma fw_entry_frame [simp]:
  "fw_faces (fw_entry x g s) = fw_faces s" "fw_faceTable (fw_entry x g s) = fw_faceTable s"
  "fw_lastFaceId (fw_entry x g s) = fw_lastFaceId s" "fw_cs (fw_entry x g s) = fw_cs s" "fw_dnl (fw_entry x g s) = fw_dnl s"
  "fw_out (fw_entry x g s) = fw_out s" "fw_regions (fw_entry x g s) = fw_regions s"
  "fw_pit (fw_entry x g s) = pit_update x g (fw_pit s)" "tb_nt (fw_tables (fw_entry x g s)) = tb_nt (fw_tables s)"
  "tb_fib (fw_tables (fw_entry x g s)) = tb_fib (fw_tables s)" "tb_sc (fw_tables (fw_entry x g s)) = tb_sc (fw_tables s)"
  by (simp_all add: fw_entry_def)

lemma fw_entry_ok:
  assumes inv: "fw_inv lib X s" and a: "attached (fw_pit s) x pe r"
    and g: "pe_interest (g pe) = pe_interest pe" "pe_nameTreeEntry (g pe) = pe_nameTreeEntry pe" "entry_ok (fw_faces s) (g pe)"
    and t: "x \<notin> Y \<Longrightarrow> timed (g pe)" and X: "X \<subseteq> insert x Y"
  shows "fw_inv lib Y (fw_entry x g s)" "attached (fw_pit (fw_entry x g s)) x (g pe) r"
    "attached (fw_pit (fw_entry x g s)) y q k \<longleftrightarrow> (if y = x then q = g pe \<and> k = r else attached (fw_pit s) y q k)"
proof -
  let ?g = "\<lambda>q. if q = pe then g pe else q"
  have px: "pit_entries (fw_pit s) x = Some pe"
    using a by (simp add: attached_def)
  have "pit_inv (lib_cx lib) (tb_nt (fw_tables s), pit_update x ?g (fw_pit s))"
    using g by (intro pit_update_inv[OF fw_invD(9)[OF inv]]) (auto simp: entry_ok_def pe_ready_def)
  then have pit: "pit_inv (lib_cx lib) (tb_nt (fw_tables s), pit_update x g (fw_pit s))"
    unfolding pit_update_const[OF px, of g] .
  have att: "attached (fw_pit (fw_entry x g s)) y q k \<longleftrightarrow> (if y = x then q = g pe \<and> k = r else attached (fw_pit s) y q k)" for y q k
    using attached_update[OF a, of g] g(2) by simp
  then show "attached (fw_pit (fw_entry x g s)) y q k \<longleftrightarrow> (if y = x then q = g pe \<and> k = r else attached (fw_pit s) y q k)"
    "attached (fw_pit (fw_entry x g s)) x (g pe) r"
    by simp_all
  have "entry_ok (fw_faces s) q \<and> (y \<notin> Y \<longrightarrow> timed q)" if "attached (fw_pit (fw_entry x g s)) y q k" for y q k
    using that g(3) t X fw_invD(6,7)[OF inv, of y q k] unfolding att by (auto split: if_splits)
  moreover have "tables_inv (lib_cx lib) (fw_tables (fw_entry x g s))"
    using tables_inv_pit[OF fw_invD(1)[OF inv] pit] by (simp add: fw_entry_def)
  ultimately show "fw_inv lib Y (fw_entry x g s)"
    using fw_invD(2,3,4,5,8)[OF inv] by (auto simp: fw_inv_def faces_ok_def)
qed

section \<open>Sending\<close>

lemma fw_inv_send:
  assumes "fw_inv lib X s" and "\<forall>pkt \<in> set new. scope_safe (fw_faces s) pkt"
  shows "fw_inv lib X (s\<lparr>fw_out := fw_out s @ new, fw_nOutInterests := a, fw_nOutNacks := b\<rparr>)"
  using assms by (auto simp: fw_inv_def faces_ok_def)

definition same_but_out :: "forwarder \<Rightarrow> forwarder \<Rightarrow> bool" where
  "same_but_out s s' \<longleftrightarrow> fw_tables s' = fw_tables s \<and> fw_cs s' = fw_cs s \<and> fw_dnl s' = fw_dnl s \<and> fw_faces s' = fw_faces s \<and>
     fw_faceTable s' = fw_faceTable s \<and> fw_lastFaceId s' = fw_lastFaceId s \<and> fw_regions s' = fw_regions s"

lemma fw_inv_out:
  "fw_inv lib X s \<Longrightarrow> same_but_out s s' \<Longrightarrow> (\<And>pkt. pkt \<in> set (fw_out s') \<Longrightarrow> scope_safe (fw_faces s) pkt) \<Longrightarrow> fw_inv lib X s'"
  unfolding fw_inv_def same_but_out_def faces_ok_def by auto

lemma onOutgoingData_ok:
  assumes "fw_inv lib X s"
  shows "fw_inv lib X (onOutgoingData d f s)" "same_but_out s (onOutgoingData d f s)"
proof -
  show same: "same_but_out s (onOutgoingData d f s)"
    by (simp add: same_but_out_def onOutgoingData_def fw_send_def)
  show "fw_inv lib X (onOutgoingData d f s)"
    using fw_invD(8)[OF assms] by (intro fw_inv_out[OF assms same]) (auto simp: onOutgoingData_def fw_send_def scope_safe_def split: if_splits)
qed

lemma onInterestLoop_ok:
  assumes "fw_inv lib X s" and "f_scope (fw_faces s f) = ScopeNonLocal \<Longrightarrow> \<not> prefix LOCALHOST (i_name i)"
  shows "fw_inv lib X (onInterestLoop f i s)"
proof -
  have "same_but_out s (onInterestLoop f i s)"
    by (simp add: same_but_out_def onInterestLoop_def fw_send_def)
  then show ?thesis
    using fw_invD(8)[OF assms(1)] assms(2)
    by (intro fw_inv_out[OF assms(1)]) (auto simp: onInterestLoop_def fw_send_def scope_safe_def split: if_splits)
qed

section \<open>Dispatch\<close>

lemma effective_pit_plain:
  assumes inv: "tables_inv cx tb" and a: "attached (tb_pit tb) x pe r" and nd: "\<not> isEndWithDigest (pe_name pe)"
  shows "\<exists>st. effective_pit cx pe tb = Some (tb, st) \<and> tb_effective cx tb (pe_name pe) = Some st"
proof -
  note pit = tables_invD(2)[OF inv] and sc = tables_invD(4)[OF inv]
  have r: "nt_prefix (tb_nt tb) r = Some (pe_name pe)"
    using pit_invD(4)[OF pit a] nd by (simp add: pit_key_def)
  obtain st where "tb_effective cx tb (pe_name pe) = Some st"
    using effective_installed[OF sc] by blast
  then show ?thesis
    using nt_get_pit_plain[OF pit a nd] effective_nte_ok[OF sc r] by (simp add: effective_pit_def)
qed

lemma permitted_scope_safe:
  assumes "permitted env pe pkt" and "entry_ok (en_faces env) pe"
  shows "scope_safe (en_faces env) pkt"
  using assms by (cases pkt) (auto simp: scope_safe_def entry_ok_def)

lemma fw_leave_frame [simp]:
  "fw_faces (fw_leave x c s) = fw_faces s" "fw_faceTable (fw_leave x c s) = fw_faceTable s"
  "fw_lastFaceId (fw_leave x c s) = fw_lastFaceId s" "fw_cs (fw_leave x c s) = fw_cs s" "fw_dnl (fw_leave x c s) = fw_dnl s"
  "fw_out (fw_leave x c s) = fc_out c" "fw_regions (fw_leave x c s) = fw_regions s"
  "fw_pit (fw_leave x c s) = pit_update x (\<lambda>_. fc_entry c) (fw_pit s)" "tb_nt (fw_tables (fw_leave x c s)) = tb_nt (fw_tables s)"
  "tb_fib (fw_tables (fw_leave x c s)) = tb_fib (fw_tables s)"
  by (simp_all add: fw_leave_def)

lemma fw_leave_ok:
  assumes inv: "fw_inv lib X s" and a: "attached (fw_pit s) x pe r"
    and act: "acted (fw_env_of lib now s) (fw_ctx_of pe s) c"
  shows "fw_inv lib X (fw_leave x c s)" "attached (fw_pit (fw_leave x c s)) x (fc_entry c) r"
    "attached (fw_pit (fw_leave x c s)) y q k \<longleftrightarrow> (if y = x then q = fc_entry c \<and> k = r else attached (fw_pit s) y q k)"
proof -
  have sel: "fc_entry (fw_ctx_of pe s) = pe" "fc_out (fw_ctx_of pe s) = fw_out s" "en_faces (fw_env_of lib now s) = fw_faces s"
    by (simp_all add: fw_ctx_of_def fw_env_of_def)
  note A = act[unfolded acted_def sel]
  have ok: "entry_ok (fw_faces s) pe"
    by (rule fw_invD(6)[OF inv a])
  have ok': "entry_ok (fw_faces s) (fc_entry c)"
    using ok A by (auto simp: entry_ok_def)
  have t: "timed (fc_entry c)" if "x \<notin> X"
    using fw_invD(7)[OF inv a that] A by blast
  note E = fw_entry_ok[OF inv a, of "\<lambda>_. fc_entry c" X, OF _ _ ok' t]
  obtain new where new: "fc_out c = fw_out s @ new" "\<forall>pkt \<in> set new. permitted (fw_env_of lib now s) pe pkt"
    using A by blast
  have safe: "\<forall>pkt \<in> set new. scope_safe (fw_faces s) pkt"
    using new(2) permitted_scope_safe[of "fw_env_of lib now s" pe] ok sel(3) by auto
  have "fw_inv lib X (fw_entry x (\<lambda>_. fc_entry c) s)"
    using A by (intro E(1)) auto
  from fw_inv_send[OF this, of new] safe show "fw_inv lib X (fw_leave x c s)"
    by (simp add: fw_leave_def new(1))
  show "attached (fw_pit (fw_leave x c s)) y q k \<longleftrightarrow> (if y = x then q = fc_entry c \<and> k = r else attached (fw_pit s) y q k)"
    "attached (fw_pit (fw_leave x c s)) x (fc_entry c) r"
    using attached_update[OF a, of "\<lambda>_. fc_entry c"] A by simp_all
qed

lemma dispatch_ok:
  assumes inv: "fw_inv lib X s" and lib: "lib_ok lib" and a: "attached (fw_pit s) x pe r"
    and trig: "\<And>impl env. forwarding_strategy impl \<Longrightarrow>
      \<exists>c'. trigger impl env (fw_ctx_of pe s) = Some c' \<and> acts env (fw_ctx_of pe s) c'"
  shows "\<exists>c. dispatchToStrategy lib now x trigger s = Some (fw_leave x c s) \<and>
    acted (fw_env_of lib now s) (fw_ctx_of pe s) c"
proof -
  have ok: "entry_ok (fw_faces s) pe"
    by (rule fw_invD(6)[OF inv a])
  obtain st where st: "effective_pit (lib_cx lib) pe (fw_tables s) = Some (fw_tables s, st)"
    using effective_pit_plain[OF fw_invD(1)[OF inv] a] ok by (auto simp: entry_ok_def)
  have "forwarding_strategy (impl_of (lib_other lib) (st_kind st))"
    using lib by (intro impl_of_strategy) (simp add: lib_ok_def)
  from trig[OF this, of "fw_env_of lib now s"] obtain c where
    c: "trigger (impl_of (lib_other lib) (st_kind st)) (fw_env_of lib now s) (fw_ctx_of pe s) = Some c"
    "acts (fw_env_of lib now s) (fw_ctx_of pe s) c"
    by blast
  have "acted (fw_env_of lib now s) (fw_ctx_of pe s) c"
    using acts_acted[OF c(2)] ok by (simp add: fw_ctx_of_def entry_ok_def)
  then show ?thesis
    using st c(1) a by (auto simp: dispatchToStrategy_def attached_def Let_def)
qed

section \<open>Interests\<close>

lemma cs_find_total:
  assumes inv: "cs_inv c" "plain_names (cs_table c)" and m: "matches_prefix m"
    and succ: "successor_ok successor (i_name i) (cs_table c)" and nd: "\<not> isEndWithDigest (i_name i)"
  shows "\<exists>hit c'. cs_find m successor now i c = Some (Inr (hit, c')) \<and> cs_inv c' \<and> cs_table c' = cs_table c \<and>
    (cs_table c = [] \<longrightarrow> hit = None)"
proof -
  have ok: "table_ok (cs_table c)"
    using inv(1) by (simp add: cs_inv_def)
  have nf: "\<not> isFullName (i_name i)"
    using nd by (simp add: isFullName_def isEndWithDigest_def)
  obtain r where r: "cs_find_index m successor now i (cs_table c) = Some (Inr r)" "\<And>k. r = Some k \<Longrightarrow> k < length (cs_table c)"
  proof (cases "childSelector (i_selectors i) = 1")
    case True
    from cs_find_rightmost_ok[OF ok inv(2) m succ True nf, of now] that show ?thesis
      by (auto split: option.splits)
  next
    case False
    from cs_find_leftmost_ok[OF ok m succ False, of now] that show ?thesis
      by (auto split: option.splits)
  qed
  have "cs_table c = [] \<longrightarrow> r = None"
    using r(2) by (cases r) auto
  with cs_find_ok[OF inv(1) r] show ?thesis
    by (metis option.map_disc_iff)
qed

lemma insertOrUpdateInRecord_frame [simp]:
  "pe_interest (insertOrUpdateInRecord cx now face i pe) = pe_interest pe"
  "pe_nameTreeEntry (insertOrUpdateInRecord cx now face i pe) = pe_nameTreeEntry pe"
  "pe_outRecords (insertOrUpdateInRecord cx now face i pe) = pe_outRecords pe"
  "pe_retxInterval (insertOrUpdateInRecord cx now face i pe) = pe_retxInterval pe"
  "pe_unsatisfyTimer (insertOrUpdateInRecord cx now face i pe) = pe_unsatisfyTimer pe"
  "pe_stragglerTimer (insertOrUpdateInRecord cx now face i pe) = pe_stragglerTimer pe"
  by (simp_all add: insertOrUpdateInRecord_def Let_def)

lemma insertOrUpdateInRecord_faces:
  "ir_face ` set (pe_inRecords (insertOrUpdateInRecord cx now face i pe)) = insert face (ir_face ` set (pe_inRecords pe))"
proof -
  have "map ir_face (update_first (\<lambda>r. ir_face r = face) (update_inRecord cx now i) rs) = map ir_face rs" for rs
    by (rule map_update_first) (simp add: update_inRecord_def)
  then have "ir_face ` set (update_first (\<lambda>r. ir_face r = face) (update_inRecord cx now i) rs) = ir_face ` set rs" for rs
    by (metis list.set_map)
  moreover have "face \<in> ir_face ` set (pe_inRecords pe)" if "getInRecord face pe \<noteq> None"
    using that by (auto simp: getInRecord_def dest!: find_Some_in)
  ultimately show ?thesis
    by (auto simp: insertOrUpdateInRecord_def newInRecord_def Let_def)
qed

lemma inRecord_inserted:
  "\<exists>q \<in> set (pe_inRecords (insertOrUpdateInRecord cx now face i pe)). ir_face q = face \<and> ir_lastNonce q = i_nonce i"
proof -
  have "\<exists>q \<in> set (update_first (\<lambda>r. ir_face r = face) (update_inRecord cx now i) rs). ir_face q = face \<and> ir_lastNonce q = i_nonce i"
    if "\<exists>r \<in> set rs. ir_face r = face" for rs
    using that by (induction rs) (auto simp: update_inRecord_def)
  moreover have "\<exists>r \<in> set (pe_inRecords pe). ir_face r = face" if "getInRecord face pe \<noteq> None"
    using that by (auto simp: getInRecord_def dest: find_Some_in)
  ultimately show ?thesis
    by (auto simp: insertOrUpdateInRecord_def newInRecord_def Let_def)
qed

lemma inserted_entry:
  assumes ok: "entry_ok faces pe" and n: "i_name i = pe_name pe"
    and scope: "f_scope (faces face) = ScopeNonLocal \<Longrightarrow> \<not> prefix LOCALHOST (i_name i)"
  shows "\<exists>pe'. setUnsatisfyTimer (insertOrUpdateInRecord cx now face i pe) = Some pe' \<and> entry_ok faces pe' \<and>
    timed pe' \<and> pe_interest pe' = pe_interest pe \<and> pe_nameTreeEntry pe' = pe_nameTreeEntry pe \<and> pe_inRecords pe' \<noteq> [] \<and>
    (\<exists>q \<in> set (pe_inRecords pe'). ir_face q = face \<and> ir_lastNonce q = i_nonce i)"
proof -
  let ?q = "insertOrUpdateInRecord cx now face i pe"
  have ne: "pe_inRecords ?q \<noteq> []"
    using insertOrUpdateInRecord_faces[of cx now face i pe] by auto
  obtain m where m: "max_element (\<lambda>a b. ir_expiry a < ir_expiry b) (pe_inRecords ?q) = Some m"
    using ne by (metis max_element_None not_None_eq)
  have wf: "pe_wf ?q"
    using ok n by (intro pe_wf_insertOrUpdateInRecord) (auto simp: entry_ok_def pe_ready_def)
  have loc: "f_scope (faces (ir_face r)) = ScopeLocal" if "prefix LOCALHOST (pe_name pe)" "r \<in> set (pe_inRecords ?q)" for r
  proof -
    have "ir_face r \<in> insert face (ir_face ` set (pe_inRecords pe))"
      using that(2) unfolding insertOrUpdateInRecord_faces[of cx now face i pe, symmetric] by simp
    then show ?thesis
      using ok scope n that(1) by (auto simp: entry_ok_def scope_local)
  qed
  show ?thesis
    using m wf loc ok ne inRecord_inserted[of cx now face i pe]
    by (auto simp: setUnsatisfyTimer_def entry_ok_def pe_ready_def retx_ok_def timed_def pe_wf_def)
qed

lemma selectDelegation_frame [simp]:
  "pe_interest (selectDelegation f d pe) = pe_interest pe" "pe_nameTreeEntry (selectDelegation f d pe) = pe_nameTreeEntry pe"
  "pe_unsatisfyTimer (selectDelegation f d pe) = pe_unsatisfyTimer pe" "pe_stragglerTimer (selectDelegation f d pe) = pe_stragglerTimer pe"
  "pe_outRecords (selectDelegation f d pe) = pe_outRecords pe" "pe_retxInterval (selectDelegation f d pe) = pe_retxInterval pe"
  "map ir_face (pe_inRecords (selectDelegation f d pe)) = map ir_face (pe_inRecords pe)"
  by (simp_all add: selectDelegation_def map_update_first split: option.split)

lemma selectDelegation_names:
  assumes "\<forall>r \<in> set (pe_inRecords pe). \<exists>i. ir_interest r = Some i \<and> i_name i = n"
  shows "\<forall>r \<in> set (pe_inRecords (selectDelegation f d pe)). \<exists>i. ir_interest r = Some i \<and> i_name i = n"
proof -
  have "\<forall>r \<in> set (update_first P (\<lambda>r. r\<lparr>ir_interest := map_option (\<lambda>i. i\<lparr>i_selectedDelegation := Some e\<rparr>) (ir_interest r)\<rparr>) rs).
      \<exists>i. ir_interest r = Some i \<and> i_name i = n"
    if "\<forall>r \<in> set rs. \<exists>i. ir_interest r = Some i \<and> i_name i = n" for rs P e
    using that by (induction rs) auto
  from this[OF assms] show ?thesis
    using assms by (auto simp: selectDelegation_def split: option.split)
qed

lemma selectDelegation_nonce:
  assumes "\<exists>q \<in> set (pe_inRecords pe). ir_face q = face \<and> ir_lastNonce q = n"
  shows "\<exists>q \<in> set (pe_inRecords (selectDelegation f d pe)). ir_face q = face \<and> ir_lastNonce q = n"
proof -
  have "map (\<lambda>q. (ir_face q, ir_lastNonce q)) (pe_inRecords (selectDelegation f d pe)) =
      map (\<lambda>q. (ir_face q, ir_lastNonce q)) (pe_inRecords pe)"
    by (simp add: selectDelegation_def map_update_first split: option.split)
  then have "(face, n) \<in> (\<lambda>q. (ir_face q, ir_lastNonce q)) ` set (pe_inRecords (selectDelegation f d pe))"
    using assms by (metis (mono_tags, lifting) image_eqI list.set_map)
  then show ?thesis
    by auto
qed

lemma selectDelegation_ok:
  assumes "entry_ok faces pe"
  shows "entry_ok faces (selectDelegation f d pe)" "timed (selectDelegation f d pe) = timed pe"
    "pe_inRecords (selectDelegation f d pe) = [] \<longleftrightarrow> pe_inRecords pe = []"
proof -
  have faces: "ir_face ` set (pe_inRecords (selectDelegation f d pe)) = ir_face ` set (pe_inRecords pe)"
    by (metis list.set_map selectDelegation_frame(7))
  have all: "(\<forall>r \<in> set rs. f_scope (faces (ir_face r)) = ScopeLocal) \<longleftrightarrow>
      (\<forall>x \<in> ir_face ` set rs. f_scope (faces x) = ScopeLocal)" for rs
    by simp
  show "entry_ok faces (selectDelegation f d pe)"
    using assms selectDelegation_names[of pe "pe_name pe" f d]
    unfolding entry_ok_def all faces
    by (simp add: pe_ready_def pe_wf_def retx_ok_def)
  show "timed (selectDelegation f d pe) = timed pe"
    by (simp add: timed_def)
  show "pe_inRecords (selectDelegation f d pe) = [] \<longleftrightarrow> pe_inRecords pe = []"
    by (metis map_is_Nil_conv selectDelegation_frame(7))
qed

text \<open>What the forwarder relies on for the Link of an Interest: a delegation set is not empty and the prefixes of a
  delegation have different hashes.\<close>

definition link_ok :: "fw_lib \<Rightarrow> interest \<Rightarrow> bool" where
  "link_ok lib i \<longleftrightarrow> (case i_link i of NoLink \<Rightarrow> True | MalformedLink \<Rightarrow> False | LinkObject ds \<Rightarrow> ds \<noteq> [] \<and>
     (\<forall>d \<in> set ds. prefix_hashes_distinct (cx_wire (lib_cx lib)) (snd d)) \<and>
     (\<forall>d. i_selectedDelegation i = Some d \<longrightarrow> prefix_hashes_distinct (cx_wire (lib_cx lib)) d))"

lemma fib_entry_found:
  assumes inv: "fib_inv wire (t, f)" and "prefix_hashes_distinct wire n"
  shows "\<exists>x fe. fib_findLongestPrefixMatch wire n t = Some x \<and> fib_entries f x = Some fe"
  using fib_lpm_ok[OF assms] by (auto simp: map_option_case split: option.splits)

lemma delegation_loop_ok:
  assumes inv: "fib_inv (cx_wire (lib_cx lib)) (tb_nt (fw_tables s), tb_fib (fw_tables s))"
    and "\<forall>d \<in> set ds. prefix_hashes_distinct (cx_wire (lib_cx lib)) (snd d)" and "fib_entries (tb_fib (fw_tables s)) x \<noteq> None"
  shows "\<exists>y d fe. delegation_loop lib s x ds = Some (y, d) \<and> fib_entries (tb_fib (fw_tables s)) y = Some fe"
  using assms(2,3)
proof (induction ds arbitrary: x)
  case (Cons d ds)
  obtain y fe where y: "fib_findLongestPrefixMatch (cx_wire (lib_cx lib)) (snd d) (tb_nt (fw_tables s)) = Some y"
    "fib_entries (tb_fib (fw_tables s)) y = Some fe"
    using fib_entry_found[OF inv] Cons.prems(1) by (meson list.set_intros(1))
  show ?case
    using y Cons.IH[of y] Cons.prems(1) by simp
qed auto

lemma fib_lpm_pit_ok:
  assumes inv: "tables_inv cx tb" and a: "attached (tb_pit tb) x pe r" and nd: "\<not> isEndWithDigest (pe_name pe)"
  shows "\<exists>y fe. fib_lpm_pit cx pe (tb_nt tb) = Some y \<and> fib_entries (tb_fib tb) y = Some fe"
proof -
  have r: "nt_prefix (tb_nt tb) r = Some (pe_name pe)"
    using pit_invD(4)[OF tables_invD(2)[OF inv] a] nd by (simp add: pit_key_def)
  then have "nt_lpm_pit cx pe (tb_nt tb) = Some r"
    using a by (auto simp: nt_lpm_pit_def attached_def nt_prefix_def)
  then show ?thesis
    using fib_lpm_nte_ok[OF tables_invD(1)[OF inv] r] by (auto simp: fib_lpm_pit_def map_option_case split: option.splits)
qed

lemma fib_lpm_pit_cong:
  assumes "pe_nameTreeEntry pe' = pe_nameTreeEntry pe" and "pe_interest pe' = pe_interest pe"
  shows "fib_lpm_pit cx pe' t = fib_lpm_pit cx pe t"
  unfolding fib_lpm_pit_def nt_lpm_pit_def assms ..

lemma lookup_fibEntry_ok:
  assumes inv: "tables_inv (lib_cx lib) (fw_tables s)" and a: "attached (fw_pit s) x pe r" and nd: "\<not> isEndWithDigest (pe_name pe)"
    and pe': "pe_nameTreeEntry pe' = pe_nameTreeEntry pe" "pe_interest pe' = pe_interest pe" and link: "link_ok lib i"
  shows "\<exists>y d fe. lookup_fibEntry lib pe' i s = Some (y, d) \<and> fib_entries (tb_fib (fw_tables s)) y = Some fe"
proof -
  note fib = tables_invD(1)[OF inv]
  obtain y fe where y: "fib_lpm_pit (lib_cx lib) pe' (tb_nt (fw_tables s)) = Some y" "fib_entries (tb_fib (fw_tables s)) y = Some fe"
    using fib_lpm_pit_ok[OF inv a nd] fib_lpm_pit_cong[OF pe'] by auto
  show ?thesis
  proof (cases "i_link i")
    case (LinkObject ds)
    with link obtain d ds' where ds: "ds = d # ds'" and h: "\<forall>d \<in> set ds. prefix_hashes_distinct (cx_wire (lib_cx lib)) (snd d)"
      "\<And>d. i_selectedDelegation i = Some d \<Longrightarrow> prefix_hashes_distinct (cx_wire (lib_cx lib)) d"
      by (cases ds) (auto simp: link_ok_def)
    obtain z fz where z: "fib_findLongestPrefixMatch (cx_wire (lib_cx lib)) (snd d) (tb_nt (fw_tables s)) = Some z"
      "fib_entries (tb_fib (fw_tables s)) z = Some fz"
      using fib_entry_found[OF fib] h(1) ds by (meson list.set_intros(1))
    have loop: "\<exists>y e fe. delegation_loop lib s z ds = Some (y, e) \<and> fib_entries (tb_fib (fw_tables s)) y = Some fe"
      using delegation_loop_ok[OF fib h(1), of z] z(2) by simp
    show ?thesis
    proof (cases "isInProducerRegion ds (fw_regions s)")
      case True
      then show ?thesis
        using LinkObject y by (auto simp: lookup_fibEntry_def Let_def)
    next
      case False
      show ?thesis
      proof (cases "i_selectedDelegation i")
        case None
        then show ?thesis
          using LinkObject False z loop ds by (auto simp: lookup_fibEntry_def Let_def simp del: delegation_loop.simps)
      next
        case (Some e)
        from fib_entry_found[OF fib h(2)[OF Some]] show ?thesis
          using LinkObject False Some by (auto simp: lookup_fibEntry_def Let_def)
      qed
    qed
  qed (use y link in \<open>auto simp: lookup_fibEntry_def Let_def link_ok_def\<close>)
qed

lemma onContentStoreMiss_ok:
  assumes inv: "fw_inv lib X s" and lib: "lib_ok lib" and a: "attached (fw_pit s) x pe r" and X: "X \<subseteq> {x}"
    and n: "i_name i = pe_name pe" and scope: "f_scope (fw_faces s f) = ScopeNonLocal \<Longrightarrow> \<not> prefix LOCALHOST (i_name i)"
    and link: "link_ok lib i"
  shows "\<exists>s' pe'. onContentStoreMiss lib now f x i s = Some s' \<and> fw_inv lib {} s' \<and> attached (fw_pit s') x pe' r \<and>
    pe_interest pe' = pe_interest pe \<and>
    (f_id (fw_faces s f) = INVALID_FACEID \<longrightarrow> (\<exists>q \<in> set (pe_inRecords pe'). ir_lastNonce q = i_nonce i)) \<and>
    fw_cs s' = fw_cs s \<and> tb_nt (fw_tables s') = tb_nt (fw_tables s) \<and> fw_faces s' = fw_faces s"
proof -
  have ok: "entry_ok (fw_faces s) pe"
    by (rule fw_invD(6)[OF inv a])
  obtain q where q: "setUnsatisfyTimer (insertOrUpdateInRecord (lib_cx lib) now f i pe) = Some q"
    "entry_ok (fw_faces s) q" "timed q" "pe_interest q = pe_interest pe" "pe_nameTreeEntry q = pe_nameTreeEntry pe"
    "pe_inRecords q \<noteq> []" "\<exists>k \<in> set (pe_inRecords q). ir_face k = f \<and> ir_lastNonce k = i_nonce i"
    using inserted_entry[OF ok n scope, of f "lib_cx lib" now] by blast
  have nd: "\<not> isEndWithDigest (pe_name pe)"
    using ok by (simp add: entry_ok_def)
  obtain y d fe where y: "lookup_fibEntry lib q i s = Some (y, d)" "fib_entries (tb_fib (fw_tables s)) y = Some fe"
    using lookup_fibEntry_ok[OF fw_invD(1)[OF inv] a nd q(5,4) link] by blast
  let ?q = "selectDelegation f d q"
  let ?s = "fw_entry x (\<lambda>_. ?q) s"
  let ?i = "case d of None \<Rightarrow> i | Some d \<Rightarrow> i\<lparr>i_selectedDelegation := Some d\<rparr>"
  have inv1: "fw_inv lib {} ?s" and a1: "attached (fw_pit ?s) x ?q r"
    using fw_entry_ok(1,2)[OF inv a, of "\<lambda>_. ?q" "{}"] q selectDelegation_ok[OF q(2)] X by auto
  have "\<exists>c'. s_afterReceiveInterest impl env f ?i fe (fw_ctx_of ?q ?s) = Some c' \<and> acts env (fw_ctx_of ?q ?s) c'"
    if "forwarding_strategy impl" for impl env
    using forwarding_strategy.interest[OF that, of "fw_ctx_of ?q ?s" env f ?i fe] selectDelegation_ok[OF q(2)] q(6)
    by (simp add: fw_ctx_of_def entry_ok_def)
  from dispatch_ok[OF inv1 lib a1, of "\<lambda>impl env. s_afterReceiveInterest impl env f ?i fe", OF this]
  obtain c where c: "dispatchToStrategy lib now x (\<lambda>impl env. s_afterReceiveInterest impl env f ?i fe) ?s = Some (fw_leave x c ?s)"
    "acted (fw_env_of lib now ?s) (fw_ctx_of ?q ?s) c"
    by blast
  have px: "pit_entries (fw_pit s) x = Some pe"
    using a by (simp add: attached_def)
  have "onContentStoreMiss lib now f x i s = Some (fw_leave x c ?s)"
    using px q(1) y c(1) by (simp add: onContentStoreMiss_def)
  moreover have "pe_interest (fc_entry c) = pe_interest pe"
    using c(2) q(4) by (simp add: acted_def fw_ctx_of_def)
  moreover have "\<exists>k \<in> set (pe_inRecords (fc_entry c)). ir_lastNonce k = i_nonce i" if "f_id (fw_faces s f) = INVALID_FACEID"
  proof -
    obtain k where k: "k \<in> set (pe_inRecords ?q)" "ir_face k = f" "ir_lastNonce k = i_nonce i"
      using selectDelegation_nonce[OF q(7)] by blast
    obtain new where "\<forall>pkt \<in> set new. permitted (fw_env_of lib now ?s) ?q pkt"
      "k \<in> set (pe_inRecords (fc_entry c)) \<or> (\<exists>n. SentNack (ir_face k) n \<in> set new)"
      using c(2) k(1) by (auto simp: acted_def fw_ctx_of_def)
    then have "k \<in> set (pe_inRecords (fc_entry c))"
      using k(2) that by (auto simp: fw_env_of_def)
    then show ?thesis
      using k(3) by blast
  qed
  moreover have "fw_cs (fw_leave x c ?s) = fw_cs s" "tb_nt (fw_tables (fw_leave x c ?s)) = tb_nt (fw_tables s)"
    "fw_faces (fw_leave x c ?s) = fw_faces s"
    by simp_all
  ultimately show ?thesis
    using fw_leave_ok(1,2)[OF inv1 a1 c(2)] by blast
qed

lemma onContentStoreHit_ok:
  assumes inv: "fw_inv lib X s" and a: "attached (fw_pit s) x pe r" and X: "X \<subseteq> {x}"
  shows "fw_inv lib {} (onContentStoreHit now f x d s)"
proof -
  have ok: "entry_ok (fw_faces s) (setStragglerTimer now True (d_freshness d) pe)"
    using fw_invD(6)[OF inv a] by (simp add: entry_ok_def setStragglerTimer_def pe_ready_def pe_wf_def retx_ok_def)
  have "fw_inv lib {} (fw_entry x (setStragglerTimer now True (d_freshness d)) s)"
    by (rule fw_entry_ok(1)[OF inv a, where g = "setStragglerTimer now True (d_freshness d)", OF _ _ ok]) (use X in \<open>auto simp: setStragglerTimer_def timed_def\<close>)
  from onOutgoingData_ok(1)[OF this] show ?thesis
    by (simp add: onContentStoreHit_def)
qed

lemma tables_inv_frame:
  assumes inv: "tables_inv cx tb" and pit: "pit_inv cx (t, p)" and fr: "tables_frame (cx_wire cx) (tb_nt tb) t"
  shows "tables_inv cx (tb\<lparr>tb_nt := t, tb_pit := p\<rparr>)"
  using tables_invD[OF inv] pit fr pit_invD(1)[OF pit] fib_inv_frame ms_inv_frame sc_inv_frame(1)
  unfolding tables_inv_def tables_frame_def by simp

lemma fw_setPit_frame [simp]:
  "fw_faces (fw_setPit t p s) = fw_faces s" "fw_faceTable (fw_setPit t p s) = fw_faceTable s"
  "fw_lastFaceId (fw_setPit t p s) = fw_lastFaceId s" "fw_cs (fw_setPit t p s) = fw_cs s" "fw_dnl (fw_setPit t p s) = fw_dnl s"
  "fw_out (fw_setPit t p s) = fw_out s" "fw_pit (fw_setPit t p s) = p" "tb_nt (fw_tables (fw_setPit t p s)) = t"
  "fw_regions (fw_setPit t p s) = fw_regions s"
  by (simp_all add: fw_setPit_def)

lemma fw_setPit_ok:
  assumes inv: "fw_inv lib X s" and pit: "pit_inv (lib_cx lib) (t, p)"
    and fr: "tables_frame (cx_wire (lib_cx lib)) (tb_nt (fw_tables s)) t"
    and att: "\<And>x pe r. attached p x pe r \<Longrightarrow> entry_ok (fw_faces s) pe \<and> (x \<notin> Y \<longrightarrow> timed pe)"
  shows "fw_inv lib Y (fw_setPit t p s)"
  using tables_inv_frame[OF fw_invD(1)[OF inv] pit fr] att fw_invD(2,3,4,5,8)[OF inv]
  by (auto simp: fw_inv_def fw_setPit_def faces_ok_def)

lemma new_entry_ok:
  assumes "\<not> isEndWithDigest (i_name i)"
  shows "entry_ok faces ((newPitEntry i)\<lparr>pe_nameTreeEntry := Some r\<rparr>)"
  using assms by (simp add: entry_ok_def newPitEntry_def pe_ready_def pe_wf_def retx_ok_def)

lemma dup_fold_zero:
  fixes xs :: "'a list"
  shows "fold (\<lambda>r (w::int). if nonce r then (if same r then w OR a else w OR b) else w) xs w = 0 \<Longrightarrow> 0 \<le> w \<Longrightarrow> 0 < a \<Longrightarrow> 0 < b \<Longrightarrow>
    w = 0 \<and> (\<forall>r \<in> set xs. \<not> nonce r)"
proof (induction xs arbitrary: w)
  case (Cons x xs)
  let ?w = "if nonce x then (if same x then w OR a else w OR b) else w"
  have w: "0 \<le> ?w"
    using Cons.prems by simp
  have IH: "?w = 0 \<and> (\<forall>r \<in> set xs. \<not> nonce r)"
    using Cons.prems by (intro Cons.IH) (auto simp: w)
  moreover have "w OR c \<noteq> 0" if "0 < c" for c
    using that by (simp add: or_eq_0_iff)
  ultimately show ?case
    using Cons.prems(3,4) by (auto split: if_splits)
qed simp

text \<open>The flags are zero exactly when no record has the nonce.\<close>

lemma findDuplicateNonce_iff:
  "findDuplicateNonce pe nonce face = DUPLICATE_NONCE_NONE \<longleftrightarrow>
    (\<forall>r \<in> set (pe_inRecords pe). ir_lastNonce r \<noteq> nonce) \<and> (\<forall>r \<in> set (pe_outRecords pe). or_lastNonce r \<noteq> nonce)"
  (is "?l \<longleftrightarrow> ?r")
proof
  note flags = DUPLICATE_NONCE_NONE_def DUPLICATE_NONCE_IN_SAME_def DUPLICATE_NONCE_IN_OTHER_def
    DUPLICATE_NONCE_OUT_SAME_def DUPLICATE_NONCE_OUT_OTHER_def
  let ?ins = "fold (\<lambda>r dnw. if ir_lastNonce r = nonce then (if ir_face r = face then dnw OR DUPLICATE_NONCE_IN_SAME
      else dnw OR DUPLICATE_NONCE_IN_OTHER) else dnw) (pe_inRecords pe) DUPLICATE_NONCE_NONE"
  have nonneg: "0 \<le> fold (\<lambda>r (w::int). if ir_lastNonce r = nonce then (if ir_face r = face then w OR 1 else w OR 2) else w) xs w"
    if "0 \<le> w" for xs w
    using that by (induction xs arbitrary: w) auto
  assume ?l
  then have "fold (\<lambda>r (w::int). if or_lastNonce r = nonce then (if or_face r = face then w OR 4 else w OR 8) else w)
      (pe_outRecords pe) ?ins = 0"
    unfolding findDuplicateNonce_def flags Let_def .
  from dup_fold_zero[OF this] nonneg[of 0 "pe_inRecords pe"]
  have out: "?ins = 0" "\<forall>r \<in> set (pe_outRecords pe). or_lastNonce r \<noteq> nonce"
    unfolding flags by simp_all
  from out(1) have "fold (\<lambda>r (w::int). if ir_lastNonce r = nonce then (if ir_face r = face then w OR 1 else w OR 2) else w)
      (pe_inRecords pe) 0 = 0"
    unfolding flags .
  from dup_fold_zero[OF this] out(2) show ?r
    by simp
next
  assume r: ?r
  have keep: "fold (\<lambda>r (w::int). if P r then (if Q r then w OR a else w OR b) else w) xs w = w"
    if "\<forall>r \<in> set xs. \<not> P r" for xs w a b and P Q :: "'b \<Rightarrow> bool"
    using that by (induction xs arbitrary: w) auto
  show ?l
    unfolding findDuplicateNonce_def Let_def using r by (simp add: keep)
qed

lemma pit_insert_ok:
  assumes inv: "fw_inv lib {} s" and nd: "\<not> isEndWithDigest (i_name i)"
    and cap: "nt_nItems (tb_nt (fw_tables s)) + length (i_name i) + 1 \<le> maxItems"
  shows "\<exists>t p x b pe r. findOrInsert (lib_cx lib) i True (tb_nt (fw_tables s), fw_pit s) = Some (t, p, Some x, b) \<and>
    attached p x pe r \<and> pe_name pe = i_name i \<and> fw_inv lib {x} (fw_setPit t p s) \<and>
    nt_nItems t \<le> nt_nItems (tb_nt (fw_tables s)) + length (i_name i) + 1 \<and>
    (if \<exists>x. pit_has (fw_pit s) i x then pit_has (fw_pit s) i x \<and> p = fw_pit s \<and> fw_inv lib {} (fw_setPit t p s)
     else pe_inRecords pe = [] \<and> pe_outRecords pe = [] \<and> pe_interest pe = i)"
proof -
  let ?p = "fw_pit s"
  obtain t p res b where F: "findOrInsert (lib_cx lib) i True (tb_nt (fw_tables s), ?p) = Some (t, p, res, b)"
    "pit_inv (lib_cx lib) (t, p)" "tables_frame (cx_wire (lib_cx lib)) (tb_nt (fw_tables s)) t"
    "nt_nItems t \<le> nt_nItems (tb_nt (fw_tables s)) + length (i_name i) + 1"
    and cases: "if \<exists>x. pit_has ?p i x then p = ?p \<and> b = False \<and> (\<exists>x. res = Some x \<and> pit_has ?p i x)
     else b = True \<and> (\<exists>r. res = Some (pit_next ?p) \<and>
          pit_entries p = (pit_entries ?p)(pit_next ?p \<mapsto> (newPitEntry i)\<lparr>pe_nameTreeEntry := Some r\<rparr>))"
    using findOrInsert_ok[OF fw_invD(9)[OF inv] cap, of True] unfolding if_True by blast
  show ?thesis
  proof (cases "\<exists>x. pit_has ?p i x")
    case True
    with cases obtain x where x: "p = ?p" "res = Some x" "pit_has ?p i x"
      by auto
    then obtain pe r where "attached ?p x pe r" "pe_name pe = i_name i"
      by (auto simp: pit_has_def)
    moreover have "fw_inv lib {} (fw_setPit t p s)"
      using fw_invD(6,7)[OF inv] x(1) by (intro fw_setPit_ok[OF inv F(2,3)]) blast
    ultimately show ?thesis
      using F(1,4) x True fw_inv_mono[of lib "{}" _ "{x}"] by auto
  next
    case False
    let ?x = "pit_next ?p"
    from False cases obtain r where r: "res = Some ?x"
      "pit_entries p = (pit_entries ?p)(?x \<mapsto> (newPitEntry i)\<lparr>pe_nameTreeEntry := Some r\<rparr>)"
      by auto
    let ?pe = "(newPitEntry i)\<lparr>pe_nameTreeEntry := Some r\<rparr>"
    have att: "attached p y q k \<Longrightarrow> (if y = ?x then q = ?pe else attached ?p y q k)" for y q k
      using r(2) by (auto simp: attached_def)
    have "fw_inv lib {?x} (fw_setPit t p s)"
    proof (rule fw_setPit_ok[OF inv F(2,3)])
      fix y q k assume "attached p y q k"
      from att[OF this] show "entry_ok (fw_faces s) q \<and> (y \<notin> {?x} \<longrightarrow> timed q)"
        using fw_invD(6,7)[OF inv, of y q k] new_entry_ok[OF nd, of "fw_faces s" r] by (auto split: if_splits)
    qed
    moreover have "attached p ?x ?pe r" "pe_name ?pe = i_name i" "pe_inRecords ?pe = []" "pe_outRecords ?pe = []" "pe_interest ?pe = i"
      using r(2) by (simp_all add: attached_def newPitEntry_def)
    ultimately show ?thesis
      using F(1,4) r(1) False by auto
  qed
qed

definition interest_ok :: "fw_lib \<Rightarrow> interest \<Rightarrow> forwarder \<Rightarrow> bool" where
  "interest_ok lib i s \<longleftrightarrow> \<not> isEndWithDigest (i_name i) \<and> nt_nItems (tb_nt (fw_tables s)) + length (i_name i) + 1 \<le> maxItems \<and>
     successor_ok (lib_successor lib) (i_name i) (cs_table (fw_cs s)) \<and> link_ok lib i"

lemma cancel_ok:
  assumes inv: "fw_inv lib X s" and a: "attached (fw_pit s) x pe r"
  shows "fw_inv lib (insert x X) (fw_entry x cancelUnsatisfyAndStragglerTimer s)"
    "attached (fw_pit (fw_entry x cancelUnsatisfyAndStragglerTimer s)) x (cancelUnsatisfyAndStragglerTimer pe) r"
    "attached (fw_pit (fw_entry x cancelUnsatisfyAndStragglerTimer s)) y q k \<longleftrightarrow>
      (if y = x then q = cancelUnsatisfyAndStragglerTimer pe \<and> k = r else attached (fw_pit s) y q k)"
proof -
  have ok: "entry_ok (fw_faces s) (cancelUnsatisfyAndStragglerTimer pe)"
    using fw_invD(6)[OF inv a]
    by (simp add: entry_ok_def cancelUnsatisfyAndStragglerTimer_def pe_ready_def pe_wf_def retx_ok_def)
  have eq: "pe_interest (cancelUnsatisfyAndStragglerTimer pe) = pe_interest pe"
    "pe_nameTreeEntry (cancelUnsatisfyAndStragglerTimer pe) = pe_nameTreeEntry pe"
    by (simp_all add: cancelUnsatisfyAndStragglerTimer_def)
  note E = fw_entry_ok[OF inv a, where g = cancelUnsatisfyAndStragglerTimer and Y = "insert x X", OF eq ok]
  show "fw_inv lib (insert x X) (fw_entry x cancelUnsatisfyAndStragglerTimer s)"
    "attached (fw_pit (fw_entry x cancelUnsatisfyAndStragglerTimer s)) x (cancelUnsatisfyAndStragglerTimer pe) r"
    "attached (fw_pit (fw_entry x cancelUnsatisfyAndStragglerTimer s)) y q k \<longleftrightarrow>
      (if y = x then q = cancelUnsatisfyAndStragglerTimer pe \<and> k = r else attached (fw_pit s) y q k)"
    by (rule E; blast)+
qed

lemma fw_inv_cs:
  "fw_inv lib X s \<Longrightarrow> cs_inv c \<Longrightarrow> plain_names (cs_table c) \<Longrightarrow> fw_inv lib X (s\<lparr>fw_cs := c\<rparr>)"
  by (auto simp: fw_inv_def faces_ok_def)

lemma interest_looked_up:
  assumes inv: "fw_inv lib {x} s" and lib: "lib_ok lib" and a: "attached (fw_pit s) x pe r" and n: "pe_name pe = i_name i"
    and scope: "f_scope (fw_faces s f) = ScopeNonLocal \<Longrightarrow> \<not> prefix LOCALHOST (i_name i)"
    and nd: "\<not> isEndWithDigest (i_name i)" and succ: "successor_ok (lib_successor lib) (i_name i) (cs_table (fw_cs s))"
    and link: "link_ok lib i"
  shows "\<exists>s'. (if b then
     (case cs_find (cx_matchesData (lib_cx lib)) (lib_successor lib) now i (fw_cs s) of
         None \<Rightarrow> None
       | Some (Inl _) \<Rightarrow> None
       | Some (Inr (hit, cs)) \<Rightarrow>
           (let s = s\<lparr>fw_cs := cs\<rparr>
           in (case hit of
                 Some data \<Rightarrow> Some (onContentStoreHit now f x data s)
               | None \<Rightarrow> onContentStoreMiss lib now f x i s)))
     else onContentStoreMiss lib now f x i s) = Some s' \<and> fw_inv lib {} s'"
proof (cases b)
  case True
  obtain hit c where c: "cs_find (cx_matchesData (lib_cx lib)) (lib_successor lib) now i (fw_cs s) = Some (Inr (hit, c))"
    "cs_inv c" "cs_table c = cs_table (fw_cs s)"
    using cs_find_total[OF fw_invD(2,3)[OF inv] _ succ nd, of "cx_matchesData (lib_cx lib)"] lib unfolding lib_ok_def by blast
  let ?s = "s\<lparr>fw_cs := c\<rparr>"
  have inv1: "fw_inv lib {x} ?s"
    using fw_inv_cs[OF inv c(2)] fw_invD(3)[OF inv] c(3) by simp
  have a1: "attached (fw_pit ?s) x pe r"
    using a by simp
  show ?thesis
  proof (cases hit)
    case None
    have "\<exists>s'. onContentStoreMiss lib now f x i ?s = Some s' \<and> fw_inv lib {} s'"
      using onContentStoreMiss_ok[OF inv1 lib a1 order.refl n[symmetric] _ link, of f now] scope by auto
    then show ?thesis
      using True c(1) None by simp
  next
    case (Some d)
    have "fw_inv lib {} (onContentStoreHit now f x d ?s)"
      by (rule onContentStoreHit_ok[OF inv1 a1 order.refl])
    then show ?thesis
      using True c(1) Some by simp
  qed
next
  case False
  then show ?thesis
    using onContentStoreMiss_ok[OF inv lib a order.refl n[symmetric] scope link, of f now] by auto
qed

lemma fw_inv_count [simp]:
  "fw_inv lib X (s\<lparr>fw_nInInterests := v\<rparr>) = fw_inv lib X s" "fw_inv lib X (s\<lparr>fw_nInData := v\<rparr>) = fw_inv lib X s"
  "fw_inv lib X (s\<lparr>fw_nInNacks := v\<rparr>) = fw_inv lib X s"
  by (simp_all add: fw_inv_def faces_ok_def)

lemma onIncomingInterest_ok:
  assumes inv: "fw_inv lib {} s" and lib: "lib_ok lib" and i: "interest_ok lib i s"
  shows "\<exists>s'. onIncomingInterest lib now f i s = Some s' \<and> fw_inv lib {} s'"
proof (cases "f_scope (fw_faces s f) = ScopeNonLocal \<and> prefix LOCALHOST (i_name i)")
  case True
  then show ?thesis
    using inv by (simp add: onIncomingInterest_def)
next
  case False
  let ?s = "s\<lparr>fw_nInInterests := fw_nInInterests s + 1\<rparr>"
  have inv0: "fw_inv lib {} ?s"
    using inv by simp
  show ?thesis
  proof (cases "dnl_has (lib_wireName lib) (fw_dnl s) (i_name i) (i_nonce i)")
    case True
    have "fw_inv lib {} (onInterestLoop f i ?s)"
      by (rule onInterestLoop_ok[OF inv0]) (use False in auto)
    then show ?thesis
      using True False by (auto simp: onIncomingInterest_def Let_def)
  next
    case dnl: False
    obtain t p x b pe r where P: "findOrInsert (lib_cx lib) i True (tb_nt (fw_tables ?s), fw_pit ?s) = Some (t, p, Some x, b)"
      "attached p x pe r" "pe_name pe = i_name i" "fw_inv lib {x} (fw_setPit t p ?s)"
      and dup: "if \<exists>x. pit_has (fw_pit ?s) i x then pit_has (fw_pit ?s) i x \<and> p = fw_pit ?s \<and> fw_inv lib {} (fw_setPit t p ?s)
        else pe_inRecords pe = [] \<and> pe_outRecords pe = [] \<and> pe_interest pe = i"
      using pit_insert_ok[OF inv0, of i] i unfolding interest_ok_def by auto
    let ?t = "fw_setPit t p ?s"
    have px: "pit_entries p x = Some pe"
      using P(2) by (simp add: attached_def)
    show ?thesis
    proof (cases "findDuplicateNonce pe (i_nonce i) f \<noteq> DUPLICATE_NONCE_NONE")
      case True
      then have "fw_inv lib {} ?t"
        using dup by (auto simp: findDuplicateNonce_iff split: if_splits)
      then have "fw_inv lib {} (onInterestLoop f i ?t)"
        by (rule onInterestLoop_ok) (use False in auto)
      moreover have "onIncomingInterest lib now f i s = Some (onInterestLoop f i ?t)"
        using False dnl P(1) px True by (auto simp: onIncomingInterest_def Let_def)
      ultimately show ?thesis
        by blast
    next
      case nodup: False
      let ?u = "fw_entry x cancelUnsatisfyAndStragglerTimer ?t"
      have a: "attached (fw_pit ?t) x pe r"
        using P(2) by simp
      have inv1: "fw_inv lib {x} ?u"
        using cancel_ok(1)[OF P(4) a] by simp
      have n: "pe_name (cancelUnsatisfyAndStragglerTimer pe) = i_name i"
        using P(3) by (simp add: cancelUnsatisfyAndStragglerTimer_def)
      have sel: "fw_faces ?u = fw_faces s" "fw_cs ?u = fw_cs s"
        by simp_all
      note L = interest_looked_up[OF inv1 lib cancel_ok(2)[OF P(4) a] n, unfolded sel, of f "pe_inRecords pe = []" now]
      show ?thesis
        using L False dnl P(1) px nodup i
        by (auto simp: onIncomingInterest_def interest_ok_def Let_def)
    qed
  qed
qed

section \<open>Finalizing an entry\<close>

lemma dnl_inv_add: "dnl_inv d \<Longrightarrow> dnl_inv (dnl_add w n nonce d)"
  using dnl_inv_exec[of d w "Add n nonce"] by simp

lemma insertDeadNonceList_inv:
  assumes "dnl_inv d"
  shows "dnl_inv (insertDeadNonceList lib pe sat fresh up d)"
proof -
  have "dnl_inv (fold (\<lambda>r. dnl_add w n (or_lastNonce r)) rs d)" for w n and rs :: "out_record list"
    using assms by (induction rs arbitrary: d) (auto simp: dnl_inv_add)
  then show ?thesis
    using assms by (simp add: insertDeadNonceList_def Let_def dnl_inv_add split: option.split)
qed

lemma fw_inv_dnl: "fw_inv lib X s \<Longrightarrow> dnl_inv d \<Longrightarrow> fw_inv lib X (s\<lparr>fw_dnl := d\<rparr>)"
  by (auto simp: fw_inv_def faces_ok_def)

lemma onInterestFinalize_ok:
  assumes inv: "fw_inv lib X s" and a: "attached (fw_pit s) x pe r"
  shows "\<exists>s'. onInterestFinalize lib x sat fresh s = Some s' \<and> fw_inv lib (X - {x}) s' \<and>
    (\<forall>y q k. attached (fw_pit s') y q k \<longleftrightarrow> y \<noteq> x \<and> attached (fw_pit s) y q k) \<and> fw_out s' = fw_out s \<and>
    fw_faces s' = fw_faces s \<and> fw_dnl s' = insertDeadNonceList lib pe sat fresh None (fw_dnl s)"
proof -
  let ?d = "insertDeadNonceList lib pe sat fresh None (fw_dnl s)"
  let ?s = "s\<lparr>fw_dnl := ?d\<rparr>"
  let ?u = "fw_entry x cancelUnsatisfyAndStragglerTimer ?s"
  have inv1: "fw_inv lib X ?s"
    by (rule fw_inv_dnl[OF inv insertDeadNonceList_inv[OF fw_invD(4)[OF inv]]])
  have a1: "attached (fw_pit ?s) x pe r"
    using a by simp
  note C = cancel_ok[OF inv1 a1]
  have nd: "\<not> isEndWithDigest (pe_name (cancelUnsatisfyAndStragglerTimer pe))"
    using fw_invD(6)[OF inv a] by (simp add: entry_ok_def cancelUnsatisfyAndStragglerTimer_def)
  obtain t p where E: "pit_erase (lib_cx lib) x (tb_nt (fw_tables ?u), fw_pit ?u) = Some (t, p)" "pit_inv (lib_cx lib) (t, p)"
    "tables_frame (cx_wire (lib_cx lib)) (tb_nt (fw_tables ?u)) t"
    "pit_entries p = (pit_entries (fw_pit ?u))(x \<mapsto> (cancelUnsatisfyAndStragglerTimer pe)\<lparr>pe_nameTreeEntry := None\<rparr>)"
    using pit_erase_ok[OF fw_invD(9)[OF C(1)] C(2) nd] by blast
  have att: "attached p y q k \<longleftrightarrow> y \<noteq> x \<and> attached (fw_pit s) y q k" for y q k
  proof (cases "y = x")
    case True
    then show ?thesis
      by (auto simp: attached_def E(4))
  next
    case False
    then have "attached p y q k \<longleftrightarrow> attached (fw_pit ?u) y q k"
      unfolding attached_def E(4) by simp
    then show ?thesis
      unfolding C(3) using False by simp
  qed
  have "fw_inv lib (X - {x}) (fw_setPit t p ?u)"
    by (rule fw_setPit_ok[OF C(1) E(2,3)]) (use att fw_invD(6,7)[OF inv] in auto)
  moreover have "onInterestFinalize lib x sat fresh s = Some (fw_setPit t p ?u)"
    using a E(1) by (simp add: onInterestFinalize_def attached_def Let_def)
  ultimately show ?thesis
    using att by auto
qed

lemma onInterestUnsatisfied_ok:
  assumes inv: "fw_inv lib X s" and lib: "lib_ok lib" and a: "attached (fw_pit s) x pe r"
  shows "\<exists>s'. onInterestUnsatisfied lib now x s = Some s' \<and> fw_inv lib (X - {x}) s' \<and>
    (\<forall>y q k. attached (fw_pit s') y q k \<longleftrightarrow> y \<noteq> x \<and> attached (fw_pit s) y q k)"
proof -
  have ready: "pe_ready (fc_entry (fw_ctx_of pe s))"
    using fw_invD(6)[OF inv a] by (simp add: fw_ctx_of_def entry_ok_def)
  obtain c where c: "dispatchToStrategy lib now x s_beforeExpirePendingInterest s = Some (fw_leave x c s)"
    "acted (fw_env_of lib now s) (fw_ctx_of pe s) c"
    using dispatch_ok[OF inv lib a, of s_beforeExpirePendingInterest now] forwarding_strategy.expire[OF _ ready] by blast
  note L = fw_leave_ok[OF inv a c(2)]
  obtain s' where "onInterestFinalize lib x False (-1) (fw_leave x c s) = Some s'" "fw_inv lib (X - {x}) s'"
    "\<forall>y q k. attached (fw_pit s') y q k \<longleftrightarrow> y \<noteq> x \<and> attached (fw_pit (fw_leave x c s)) y q k"
    using onInterestFinalize_ok[OF L(1,2)] by blast
  then show ?thesis
    using c(1) L(3) by (auto simp: onInterestUnsatisfied_def)
qed

definition detached :: "pit_ref \<Rightarrow> forwarder \<Rightarrow> forwarder \<Rightarrow> bool" where
  "detached x s s' \<longleftrightarrow> (\<forall>y q k. attached (fw_pit s') y q k \<longleftrightarrow> y \<noteq> x \<and> attached (fw_pit s) y q k)"

lemma untimed_ok:
  assumes inv: "fw_inv lib {} s" and a: "attached (fw_pit s) x pe r"
    and g: "g = (\<lambda>pe. pe\<lparr>pe_unsatisfyTimer := None\<rparr>) \<or> g = (\<lambda>pe. pe\<lparr>pe_stragglerTimer := None\<rparr>)"
  shows "fw_inv lib {x} (fw_entry x g s)" "attached (fw_pit (fw_entry x g s)) x (g pe) r"
    "attached (fw_pit (fw_entry x g s)) y q k \<longleftrightarrow> (if y = x then q = g pe \<and> k = r else attached (fw_pit s) y q k)"
proof -
  have "pe_interest (g pe) = pe_interest pe" "pe_nameTreeEntry (g pe) = pe_nameTreeEntry pe" "entry_ok (fw_faces s) (g pe)"
    using g fw_invD(6)[OF inv a] by (auto simp: entry_ok_def pe_ready_def pe_wf_def retx_ok_def)
  note E = fw_entry_ok[OF inv a, where g = g and Y = "{x}", OF this]
  show "fw_inv lib {x} (fw_entry x g s)" "attached (fw_pit (fw_entry x g s)) x (g pe) r"
    "attached (fw_pit (fw_entry x g s)) y q k \<longleftrightarrow> (if y = x then q = g pe \<and> k = r else attached (fw_pit s) y q k)"
    by (rule E; blast)+
qed

lemma unsatisfyTimer_ok:
  assumes inv: "fw_inv lib {} s" and lib: "lib_ok lib" and a: "attached (fw_pit s) x pe r"
  shows "\<exists>s'. unsatisfyTimer_fires lib now x s = Some s' \<and> fw_inv lib {} s' \<and>
    (if \<exists>t. pe_unsatisfyTimer pe = Some t \<and> t \<le> now then detached x s s' else s' = s)"
proof (cases "\<exists>t. pe_unsatisfyTimer pe = Some t \<and> t \<le> now")
  case True
  then obtain t where t: "pe_unsatisfyTimer pe = Some t" "t \<le> now"
    by blast
  note U = untimed_ok[OF inv a, where g = "\<lambda>pe. pe\<lparr>pe_unsatisfyTimer := None\<rparr>", OF disjI1[OF refl]]
  obtain s' where "onInterestUnsatisfied lib now x (fw_entry x (\<lambda>pe. pe\<lparr>pe_unsatisfyTimer := None\<rparr>) s) = Some s'"
    "fw_inv lib {} s'" "detached x (fw_entry x (\<lambda>pe. pe\<lparr>pe_unsatisfyTimer := None\<rparr>) s) s'"
    using onInterestUnsatisfied_ok[OF U(1) lib U(2), of now] unfolding detached_def by auto
  moreover from this(3) have "detached x s s'"
    unfolding detached_def U(3) by auto
  ultimately show ?thesis
    using True t a by (simp add: unsatisfyTimer_fires_def attached_def)
next
  case False
  then show ?thesis
    using inv a by (auto simp: unsatisfyTimer_fires_def attached_def split: option.split)
qed

lemma stragglerTimer_ok:
  assumes inv: "fw_inv lib {} s" and a: "attached (fw_pit s) x pe r"
  shows "\<exists>s'. stragglerTimer_fires lib now x s = Some s' \<and> fw_inv lib {} s' \<and>
    (if \<exists>t b m. pe_stragglerTimer pe = Some (t, b, m) \<and> t \<le> now then detached x s s' else s' = s)"
proof (cases "\<exists>t b m. pe_stragglerTimer pe = Some (t, b, m) \<and> t \<le> now")
  case True
  then obtain t b m where t: "pe_stragglerTimer pe = Some (t, b, m)" "t \<le> now"
    by blast
  note U = untimed_ok[OF inv a, where g = "\<lambda>pe. pe\<lparr>pe_stragglerTimer := None\<rparr>", OF disjI2[OF refl]]
  obtain s' where "onInterestFinalize lib x b m (fw_entry x (\<lambda>pe. pe\<lparr>pe_stragglerTimer := None\<rparr>) s) = Some s'"
    "fw_inv lib {} s'" "detached x (fw_entry x (\<lambda>pe. pe\<lparr>pe_stragglerTimer := None\<rparr>) s) s'"
    using onInterestFinalize_ok[OF U(1,2), of b m] unfolding detached_def by auto
  moreover from this(3) have "detached x s s'"
    unfolding detached_def U(3) by auto
  ultimately show ?thesis
    using True t a by (simp add: stragglerTimer_fires_def attached_def)
next
  case False
  then show ?thesis
    using inv a by (auto simp: stragglerTimer_fires_def attached_def split: option.split)
qed

lemma onIncomingInterest_looping:
  assumes inv: "fw_inv lib {} s" and i: "interest_ok lib i s"
    and scope: "\<not> (f_scope (fw_faces s f) = ScopeNonLocal \<and> prefix LOCALHOST (i_name i))"
    and dup: "dnl_has (lib_wireName lib) (fw_dnl s) (i_name i) (i_nonce i) \<or>
      (\<exists>x pe r. attached (fw_pit s) x pe r \<and> pit_has (fw_pit s) i x \<and>
        i_nonce i \<in> ir_lastNonce ` set (pe_inRecords pe) \<union> or_lastNonce ` set (pe_outRecords pe))"
  shows "\<exists>s'. onIncomingInterest lib now f i s = Some s' \<and> fw_pit s' = fw_pit s \<and> fw_inv lib {} s' \<and>
    fw_out s' = fw_out s @ (if f_linkType (fw_faces s f) = MultiAccess then []
      else [SentNack f \<lparr>n_interest = i, n_reason = Duplicate\<rparr>])"
proof (cases "dnl_has (lib_wireName lib) (fw_dnl s) (i_name i) (i_nonce i)")
  case True
  let ?s = "s\<lparr>fw_nInInterests := fw_nInInterests s + 1\<rparr>"
  have "onIncomingInterest lib now f i s = Some (onInterestLoop f i ?s)"
    using True scope by (auto simp: onIncomingInterest_def Let_def)
  moreover have "fw_inv lib {} (onInterestLoop f i ?s)"
    by (rule onInterestLoop_ok) (use inv scope in auto)
  ultimately show ?thesis
    by (simp add: onInterestLoop_def fw_send_def)
next
  case False
  let ?s = "s\<lparr>fw_nInInterests := fw_nInInterests s + 1\<rparr>"
  have inv0: "fw_inv lib {} ?s"
    using inv by simp
  obtain x pe r where x: "attached (fw_pit s) x pe r" "pit_has (fw_pit s) i x"
    "i_nonce i \<in> ir_lastNonce ` set (pe_inRecords pe) \<union> or_lastNonce ` set (pe_outRecords pe)"
    using dup False by blast
  obtain t p y b where P: "findOrInsert (lib_cx lib) i True (tb_nt (fw_tables ?s), fw_pit ?s) = Some (t, p, Some y, b)"
    "pit_has (fw_pit s) i y" "p = fw_pit s" "fw_inv lib {} (fw_setPit t p ?s)"
    using pit_insert_ok[OF inv0, of i] i x(2) unfolding interest_ok_def
    by (auto split: if_splits)
  have y: "y = x"
    by (rule pit_has_unique[OF fw_invD(9)[OF inv] P(2) x(2)])
  have "findDuplicateNonce pe (i_nonce i) f \<noteq> DUPLICATE_NONCE_NONE"
    using x(3) unfolding findDuplicateNonce_iff by auto
  then have "onIncomingInterest lib now f i s = Some (onInterestLoop f i (fw_setPit t p ?s))"
    using False scope P(1,3) y x(1) by (auto simp: onIncomingInterest_def Let_def attached_def)
  moreover have "fw_inv lib {} (onInterestLoop f i (fw_setPit t p ?s))"
    by (rule onInterestLoop_ok[OF P(4)]) (use scope in auto)
  ultimately show ?thesis
    using P(3) by (simp add: onInterestLoop_def fw_send_def)
qed

text \<open>The first Interest of a name, when the store is empty: its entry is in the table afterwards.\<close>

lemma first_interest_pending:
  assumes inv: "fw_inv lib {} s" and lib: "lib_ok lib" and i: "interest_ok lib i s" and cs: "cs_table (fw_cs s) = []"
    and new: "\<not> (\<exists>x. pit_has (fw_pit s) i x)" "\<not> dnl_has (lib_wireName lib) (fw_dnl s) (i_name i) (i_nonce i)"
    and scope: "\<not> (f_scope (fw_faces s f) = ScopeNonLocal \<and> prefix LOCALHOST (i_name i))" and f: "f_id (fw_faces s f) = INVALID_FACEID"
  shows "\<exists>s' x pe r. onIncomingInterest lib now f i s = Some s' \<and> fw_inv lib {} s' \<and> attached (fw_pit s') x pe r \<and>
    pe_interest pe = i \<and> i_nonce i \<in> ir_lastNonce ` set (pe_inRecords pe) \<and> cs_table (fw_cs s') = [] \<and>
    nt_nItems (tb_nt (fw_tables s')) \<le> nt_nItems (tb_nt (fw_tables s)) + length (i_name i) + 1 \<and> fw_faces s' = fw_faces s"
proof -
  let ?s = "s\<lparr>fw_nInInterests := fw_nInInterests s + 1\<rparr>"
  have inv0: "fw_inv lib {} ?s"
    using inv by simp
  obtain t p x b pe r where P: "findOrInsert (lib_cx lib) i True (tb_nt (fw_tables ?s), fw_pit ?s) = Some (t, p, Some x, b)"
    "attached p x pe r" "fw_inv lib {x} (fw_setPit t p ?s)" "pe_inRecords pe = []" "pe_outRecords pe = []" "pe_interest pe = i"
    "nt_nItems t \<le> nt_nItems (tb_nt (fw_tables s)) + length (i_name i) + 1"
    using pit_insert_ok[OF inv0, of i] i new(1) unfolding interest_ok_def by auto
  let ?u = "fw_entry x cancelUnsatisfyAndStragglerTimer (fw_setPit t p ?s)"
  have a: "attached (fw_pit (fw_setPit t p ?s)) x pe r"
    using P(2) by simp
  have inv1: "fw_inv lib {x} ?u"
    using cancel_ok(1)[OF P(3) a] by simp
  have succ: "successor_ok (lib_successor lib) (i_name i) (cs_table (fw_cs s))" and link: "link_ok lib i"
    and nd: "\<not> isEndWithDigest (i_name i)"
    using i by (auto simp: interest_ok_def)
  obtain c where c: "cs_find (cx_matchesData (lib_cx lib)) (lib_successor lib) now i (fw_cs s) = Some (Inr (None, c))"
    "cs_inv c" "cs_table c = []"
    using cs_find_total[OF fw_invD(2,3)[OF inv] _ succ nd, of "cx_matchesData (lib_cx lib)"] lib cs unfolding lib_ok_def by metis
  have inv2: "fw_inv lib {x} (?u\<lparr>fw_cs := c\<rparr>)"
    using fw_inv_cs[OF inv1 c(2)] c(3) by (simp add: plain_names_def)
  have a2: "attached (fw_pit (?u\<lparr>fw_cs := c\<rparr>)) x (cancelUnsatisfyAndStragglerTimer pe) r"
    using cancel_ok(2)[OF P(3) a] by simp
  have int: "pe_interest (cancelUnsatisfyAndStragglerTimer pe) = i"
    using P(6) by (simp add: cancelUnsatisfyAndStragglerTimer_def)
  have sc: "f_scope (fw_faces (?u\<lparr>fw_cs := c\<rparr>) f) = ScopeNonLocal \<Longrightarrow> \<not> prefix LOCALHOST (i_name i)"
    using scope by simp
  obtain s' pe' where M: "onContentStoreMiss lib now f x i (?u\<lparr>fw_cs := c\<rparr>) = Some s'" "fw_inv lib {} s'"
    "attached (fw_pit s') x pe' r" "pe_interest pe' = i" "\<exists>q \<in> set (pe_inRecords pe'). ir_lastNonce q = i_nonce i"
    "fw_cs s' = c" "tb_nt (fw_tables s') = t" "fw_faces s' = fw_faces s"
    using onContentStoreMiss_ok[OF inv2 lib a2 order.refl _ sc link, where now = now and f = f] int f by auto
  have "onIncomingInterest lib now f i s = Some s'"
    using scope new(2) P c(1) M(1)
    by (auto simp: onIncomingInterest_def Let_def attached_def findDuplicateNonce_iff)
  moreover have "i_nonce i \<in> ir_lastNonce ` set (pe_inRecords pe')"
    using M(5) by force
  ultimately show ?thesis
    using M(2-4,6-8) c(3) P(7) by metis
qed

end
