(* ===== verification/Forwarder_Data.thy ===== *)
theory Forwarder_Data
  imports Forwarder_Correct
begin

text \<open>
  Correctness of the pipelines for Data and Nacks: satisfying the matching PIT entries, delivery to the downstreams,
  and the trigger for a Nack that answers an out-record.
\<close>

section \<open>Data\<close>

fun is_data :: "fw_output \<Rightarrow> bool" where
  "is_data (SentData f d) = True"
| "is_data pkt = False"

lemma permitted_not_data: "permitted env pe pkt \<Longrightarrow> \<not> is_data pkt"
  by (cases pkt) simp_all

definition pending_faces :: "time \<Rightarrow> pit_entry \<Rightarrow> face_ptr list" where
  "pending_faces now pe = map ir_face (filter (\<lambda>r. ir_expiry r > now) (pe_inRecords pe))"

definition satisfied :: "time \<Rightarrow> data \<Rightarrow> pit_entry \<Rightarrow> bool" where
  "satisfied now d pe \<longleftrightarrow> pe_inRecords pe = [] \<and> pe_stragglerTimer pe = Some (now + milliseconds 2000, True, d_freshness d)"

lemma satisfyEntry_ok:
  assumes inv: "fw_inv lib {} s" and lib: "lib_ok lib" and a: "attached (fw_pit s) x pe r"
  shows "\<exists>s' new pe'. satisfyEntry lib now f d x (s, ds) = Some (s', ds @ pending_faces now pe) \<and> fw_inv lib {} s' \<and>
    (\<forall>y q k. attached (fw_pit s') y q k \<longleftrightarrow> (if y = x then q = pe' \<and> k = r else attached (fw_pit s) y q k)) \<and>
    satisfied now d pe' \<and> fw_out s' = fw_out s @ new \<and> (\<forall>pkt \<in> set new. \<not> is_data pkt) \<and> fw_faces s' = fw_faces s"
proof -
  let ?q = "cancelUnsatisfyAndStragglerTimer pe" and ?s = "fw_entry x cancelUnsatisfyAndStragglerTimer s"
  note C = cancel_ok[OF inv a]
  have px: "pit_entries (fw_pit ?s) x = Some ?q"
    using C(2) by (simp add: attached_def)
  have ready: "pe_ready (fc_entry (fw_ctx_of ?q ?s))"
    using fw_invD(6)[OF C(1,2)] by (simp add: fw_ctx_of_def entry_ok_def)
  obtain c where c: "dispatchToStrategy lib now x (\<lambda>impl env. s_beforeSatisfyInterest impl env f d) ?s = Some (fw_leave x c ?s)"
    "acted (fw_env_of lib now ?s) (fw_ctx_of ?q ?s) c"
    using dispatch_ok[OF C(1) lib C(2), of "\<lambda>impl env. s_beforeSatisfyInterest impl env f d" now]
      forwarding_strategy.satisfy[OF _ ready] by blast
  note L = fw_leave_ok[OF C(1,2) c(2)]
  let ?l = "fw_leave x c ?s" and ?e = "fc_entry c"
  let ?m = "?l\<lparr>fw_dnl := insertDeadNonceList lib ?e True (d_freshness d) (Some f) (fw_dnl ?l)\<rparr>"
  let ?g = "\<lambda>pe. setStragglerTimer now True (d_freshness d) (deleteOutRecord f (clearInRecords pe))"
  have lx: "pit_entries (fw_pit ?l) x = Some ?e"
    using L(2) by (simp add: attached_def)
  have inv2: "fw_inv lib {x} ?m"
    using fw_inv_dnl[OF L(1) insertDeadNonceList_inv[OF fw_invD(4)[OF L(1)]]] by simp
  have am: "attached (fw_pit ?m) x ?e r"
    using L(2) by simp
  have ok: "entry_ok (fw_faces ?m) (?g ?e)"
    using fw_invD(6)[OF L(1,2)] pe_wf_deleteOutRecord[of "clearInRecords ?e" f] pe_wf_clearInRecords[of ?e]
    by (auto simp: entry_ok_def pe_ready_def retx_ok_def setStragglerTimer_def deleteOutRecord_def clearInRecords_def pe_wf_def)
  have eq: "pe_interest (?g ?e) = pe_interest ?e" "pe_nameTreeEntry (?g ?e) = pe_nameTreeEntry ?e" "timed (?g ?e)"
    by (simp_all add: setStragglerTimer_def deleteOutRecord_def clearInRecords_def timed_def)
  note E = fw_entry_ok[OF inv2 am, where g = ?g and Y = "{}", OF eq(1,2) ok eq(3) order.refl]
  have fin: "satisfied now d (?g ?e)"
    by (simp add: satisfied_def setStragglerTimer_def deleteOutRecord_def clearInRecords_def)
  have pend: "pending_faces now ?q = pending_faces now pe"
    by (simp add: pending_faces_def cancelUnsatisfyAndStragglerTimer_def)
  have "satisfyEntry lib now f d x (s, ds) = Some (fw_entry x ?g ?m, ds @ pending_faces now pe)"
    using px c(1) lx unfolding pend[symmetric] by (simp add: satisfyEntry_def Let_def pending_faces_def)
  moreover have "attached (fw_pit (fw_entry x ?g ?m)) y q k \<longleftrightarrow> (if y = x then q = ?g ?e \<and> k = r else attached (fw_pit s) y q k)" for y q k
    unfolding E(3) using L(3)[of y q k] C(3)[of y q k] by simp
  moreover obtain new where "fc_out c = fw_out s @ new" "\<forall>pkt \<in> set new. permitted (fw_env_of lib now ?s) ?q pkt"
    using c(2) by (auto simp: acted_def fw_ctx_of_def)
  ultimately show ?thesis
    using E(1) fin permitted_not_data
    by (intro exI[of _ "fw_entry x ?g ?m"] exI[of _ new] exI[of _ "?g ?e"]) auto
qed

lemma satisfy_all_ok:
  assumes "fw_inv lib {} s" and lib: "lib_ok lib" and "distinct xs" and "\<forall>x \<in> set xs. \<exists>r. attached (fw_pit s) x (e x) r"
  shows "\<exists>s' new. satisfy_all lib now f d xs (s, ds) = Some (s', ds @ concat (map (\<lambda>x. pending_faces now (e x)) xs)) \<and>
    fw_inv lib {} s' \<and> (\<forall>y q k. y \<notin> set xs \<longrightarrow> (attached (fw_pit s') y q k \<longleftrightarrow> attached (fw_pit s) y q k)) \<and>
    (\<forall>x \<in> set xs. \<exists>pe r. attached (fw_pit s') x pe r \<and> satisfied now d pe) \<and>
    fw_out s' = fw_out s @ new \<and> (\<forall>pkt \<in> set new. \<not> is_data pkt) \<and> fw_faces s' = fw_faces s"
  using assms(1,3,4)
proof (induction xs arbitrary: s ds)
  case Nil
  then show ?case
    by (auto intro: exI[of _ "[]"])
next
  case (Cons x xs)
  then obtain r where a: "attached (fw_pit s) x (e x) r"
    by auto
  obtain s1 new pe' where S: "satisfyEntry lib now f d x (s, ds) = Some (s1, ds @ pending_faces now (e x))" "fw_inv lib {} s1"
    "\<And>y q k. attached (fw_pit s1) y q k \<longleftrightarrow> (if y = x then q = pe' \<and> k = r else attached (fw_pit s) y q k)"
    "satisfied now d pe'" "fw_out s1 = fw_out s @ new" "\<forall>pkt \<in> set new. \<not> is_data pkt" "fw_faces s1 = fw_faces s"
    using satisfyEntry_ok[OF Cons.prems(1) lib a, of now f d ds] by blast
  have "\<forall>y \<in> set xs. \<exists>r. attached (fw_pit s1) y (e y) r"
    using Cons.prems(2,3) by (auto simp: S(3))
  from Cons.IH[OF S(2) _ this, of "ds @ pending_faces now (e x)"] Cons.prems(2)
  obtain s2 new' where T: "satisfy_all lib now f d xs (s1, ds @ pending_faces now (e x)) =
      Some (s2, (ds @ pending_faces now (e x)) @ concat (map (\<lambda>x. pending_faces now (e x)) xs))" "fw_inv lib {} s2"
    "\<And>y q k. y \<notin> set xs \<Longrightarrow> attached (fw_pit s2) y q k \<longleftrightarrow> attached (fw_pit s1) y q k"
    "\<forall>x \<in> set xs. \<exists>pe r. attached (fw_pit s2) x pe r \<and> satisfied now d pe"
    "fw_out s2 = fw_out s1 @ new'" "\<forall>pkt \<in> set new'. \<not> is_data pkt" "fw_faces s2 = fw_faces s1"
    by auto
  have "\<exists>pe r. attached (fw_pit s2) x pe r \<and> satisfied now d pe"
    using T(3)[of x] S(3,4) Cons.prems(2) by auto
  then show ?case
    using S T by (intro exI[of _ s2] exI[of _ "new @ new'"]) auto
qed

definition deliverable :: "(face_ptr \<Rightarrow> face_info) \<Rightarrow> data \<Rightarrow> face_ptr \<Rightarrow> bool" where
  "deliverable faces d f \<longleftrightarrow> f_id (faces f) \<noteq> INVALID_FACEID \<and> \<not> (f_scope (faces f) = ScopeNonLocal \<and> prefix LOCALHOST (d_name d))"

lemma send_downstreams_ok:
  assumes "fw_inv lib X s"
  shows "fw_inv lib X (send_downstreams f d ds s)" "same_but_out s (send_downstreams f d ds s)"
    "fw_out (send_downstreams f d ds s) =
      fw_out s @ map (\<lambda>g. SentData g d) (filter (\<lambda>g. g \<noteq> f \<and> deliverable (fw_faces s) d g) (sort (remdups ds)))"
proof -
  let ?h = "\<lambda>g s. if g = f then s else onOutgoingData d g s"
  have out: "fw_out (?h g s) = fw_out s @ (if g \<noteq> f \<and> deliverable (fw_faces s) d g then [SentData g d] else [])"
    "fw_faces (?h g s) = fw_faces s" for g s
    by (auto simp: onOutgoingData_def fw_send_def deliverable_def)
  have "fw_inv lib X (fold ?h gs s) \<and> same_but_out s (fold ?h gs s) \<and> fw_out (fold ?h gs s) =
      fw_out s @ map (\<lambda>g. SentData g d) (filter (\<lambda>g. g \<noteq> f \<and> deliverable (fw_faces s) d g) gs)" for gs
    using assms
  proof (induction gs arbitrary: s)
    case (Cons g gs)
    have i: "fw_inv lib X (?h g s)" and same: "same_but_out s (?h g s)"
      using Cons.prems onOutgoingData_ok[OF Cons.prems] by (auto simp: same_but_out_def)
    from Cons.IH[OF i] same show ?case
      unfolding fold_Cons o_apply out by (auto simp: same_but_out_def)
  qed (simp add: same_but_out_def)
  from this[of "sort (remdups ds)"] show "fw_inv lib X (send_downstreams f d ds s)" "same_but_out s (send_downstreams f d ds s)"
    "fw_out (send_downstreams f d ds s) =
      fw_out s @ map (\<lambda>g. SentData g d) (filter (\<lambda>g. g \<noteq> f \<and> deliverable (fw_faces s) d g) (sort (remdups ds)))"
    unfolding send_downstreams_def by blast+
qed

definition data_ok :: "fw_lib \<Rightarrow> data \<Rightarrow> bool" where
  "data_ok lib d \<longleftrightarrow> prefix_hashes_distinct (cx_wire (lib_cx lib)) (d_name d) \<and> (\<forall>c \<in> set (d_name d). \<not> isImplicitSha256Digest c)"

lemma plain_names_keys: "plain_names t \<longleftrightarrow> (\<forall>k \<in> table_keys t. \<forall>c \<in> set (fst k). \<not> isImplicitSha256Digest c)"
  by (auto simp: plain_names_def entry_key_def)

lemma cs_insert_inv:
  assumes inv: "fw_inv lib X s" and d: "data_ok lib d"
  shows "\<exists>c. cs_insert now d u (fw_cs s) = Inr c \<and> fw_inv lib X (s\<lparr>fw_cs := c\<rparr>)"
proof -
  obtain c where c: "cs_insert now d u (fw_cs s) = Inr c" "cs_inv c"
    using cs_insert_ok[OF fw_invD(2)[OF inv]] by blast
  have "plain_names (cs_table c)"
    using cs_insert_keys[OF fw_invD(2)[OF inv] c(1)] fw_invD(3)[OF inv] d
    unfolding plain_names_keys data_ok_def by fastforce
  then show ?thesis
    using c fw_inv_cs[OF inv c(2)] by blast
qed

definition matching :: "fw_lib \<Rightarrow> data \<Rightarrow> pit \<Rightarrow> pit_ref \<Rightarrow> pit_entry \<Rightarrow> bool" where
  "matching lib d p x pe \<longleftrightarrow> (\<exists>r. attached p x pe r) \<and> prefix (pit_key (pe_name pe)) (d_name d) \<and>
     cx_matchesData (lib_cx lib) (pe_interest pe) d"

text \<open>Data that some entry matches.\<close>

lemma onIncomingData_solicited:
  assumes inv: "fw_inv lib {} s" and lib: "lib_ok lib" and d: "data_ok lib d" and m: "\<exists>x pe. matching lib d (fw_pit s) x pe"
    and scope: "\<not> (f_scope (fw_faces s f) = ScopeNonLocal \<and> prefix LOCALHOST (d_name d))"
  shows "\<exists>s' new faces. onIncomingData lib now f d s = Some s' \<and> fw_inv lib {} s' \<and>
    fw_out s' = fw_out s @ new @ map (\<lambda>g. SentData g d) faces \<and> (\<forall>pkt \<in> set new. \<not> is_data pkt) \<and> distinct faces \<and>
    set faces = {g. g \<noteq> f \<and> deliverable (fw_faces s) d g \<and>
      (\<exists>x pe r. matching lib d (fw_pit s) x pe \<and> r \<in> set (pe_inRecords pe) \<and> ir_face r = g \<and> now < ir_expiry r)} \<and>
    (\<forall>x pe. matching lib d (fw_pit s) x pe \<longrightarrow> (\<exists>pe' r. attached (fw_pit s') x pe' r \<and> satisfied now d pe'))"
proof -
  let ?s = "s\<lparr>fw_nInData := fw_nInData s + 1\<rparr>"
  obtain xs where xs: "findAllDataMatches (lib_cx lib) d (tb_nt (fw_tables s), fw_pit s) = Some xs" "distinct xs"
    and mem: "\<And>x. x \<in> set xs \<longleftrightarrow> (\<exists>pe. matching lib d (fw_pit s) x pe)"
    using findAllDataMatches_ok[OF fw_invD(9)[OF inv], of d] d unfolding data_ok_def matching_def by blast
  have ne: "xs \<noteq> []"
    using m mem by (metis empty_iff list.set(1))
  obtain c where c: "cs_insert now d False (fw_cs ?s) = Inr c" "fw_inv lib {} (?s\<lparr>fw_cs := c\<rparr>)"
    using cs_insert_inv[of lib "{}" ?s d now False] inv d by auto
  let ?c = "?s\<lparr>fw_cs := c\<rparr>" and ?e = "\<lambda>x. the (pit_entries (fw_pit s) x)"
  have mat: "matching lib d (fw_pit s) x pe \<Longrightarrow> pe = ?e x" for x pe
    by (auto simp: matching_def attached_def)
  have att: "\<forall>x \<in> set xs. \<exists>r. attached (fw_pit ?c) x (?e x) r"
    using mem mat by (fastforce simp: matching_def)
  obtain s1 new where S: "satisfy_all lib now f d xs (?c, []) = Some (s1, concat (map (\<lambda>x. pending_faces now (?e x)) xs))"
    "fw_inv lib {} s1" "\<forall>x \<in> set xs. \<exists>pe r. attached (fw_pit s1) x pe r \<and> satisfied now d pe"
    "fw_out s1 = fw_out s @ new" "\<forall>pkt \<in> set new. \<not> is_data pkt" "fw_faces s1 = fw_faces s"
    using satisfy_all_ok[OF c(2) lib xs(2) att, of now f d "[]"] by auto
  let ?ds = "concat (map (\<lambda>x. pending_faces now (?e x)) xs)"
  let ?faces = "filter (\<lambda>g. g \<noteq> f \<and> deliverable (fw_faces s) d g) (sort (remdups ?ds))"
  note D = send_downstreams_ok[OF S(2), of f d ?ds]
  have run: "onIncomingData lib now f d s = Some (send_downstreams f d ?ds s1)"
    using scope xs(1) ne c(1) S(1) by (auto simp: onIncomingData_def Let_def)
  have "set ?ds = {g. \<exists>x pe r. matching lib d (fw_pit s) x pe \<and> r \<in> set (pe_inRecords pe) \<and> ir_face r = g \<and> now < ir_expiry r}"
    using mem mat by (force simp: pending_faces_def)
  then have faces: "set ?faces = {g. g \<noteq> f \<and> deliverable (fw_faces s) d g \<and>
      (\<exists>x pe r. matching lib d (fw_pit s) x pe \<and> r \<in> set (pe_inRecords pe) \<and> ir_face r = g \<and> now < ir_expiry r)}"
    by (simp only: set_filter set_sort set_remdups) blast
  have fin: "\<forall>x pe. matching lib d (fw_pit s) x pe \<longrightarrow>
      (\<exists>pe' r. attached (fw_pit (send_downstreams f d ?ds s1)) x pe' r \<and> satisfied now d pe')"
    using S(3) mem D(2) unfolding same_but_out_def by metis
  have out: "fw_out (send_downstreams f d ?ds s1) = fw_out s @ new @ map (\<lambda>g. SentData g d) ?faces"
    unfolding D(3) S(4,6) by simp
  show ?thesis
    using run D(1) out S(5) faces fin by (intro exI[of _ "send_downstreams f d ?ds s1"] exI[of _ new] exI[of _ ?faces]) simp
qed

lemma onIncomingData_ok:
  assumes inv: "fw_inv lib {} s" and lib: "lib_ok lib" and d: "data_ok lib d"
  shows "\<exists>s'. onIncomingData lib now f d s = Some s' \<and> fw_inv lib {} s'"
proof (cases "f_scope (fw_faces s f) = ScopeNonLocal \<and> prefix LOCALHOST (d_name d)")
  case True
  then show ?thesis
    using inv by (simp add: onIncomingData_def)
next
  case False
  show ?thesis
  proof (cases "\<exists>x pe. matching lib d (fw_pit s) x pe")
    case True
    from onIncomingData_solicited[OF inv lib d True False, of now] show ?thesis
      by (elim exE conjE) (intro exI conjI, assumption+)
  next
    case nomatch: False
    obtain xs where xs: "findAllDataMatches (lib_cx lib) d (tb_nt (fw_tables s), fw_pit s) = Some xs"
      "\<And>x. x \<in> set xs \<longleftrightarrow> (\<exists>pe. matching lib d (fw_pit s) x pe)"
      using findAllDataMatches_ok[OF fw_invD(9)[OF inv], of d] d unfolding data_ok_def matching_def by blast
    have e: "xs = []"
      using xs(2) nomatch by (metis last_in_set)
    let ?s = "s\<lparr>fw_nInData := fw_nInData s + 1\<rparr>"
    have inv0: "fw_inv lib {} ?s"
      using inv by simp
    obtain c where c: "cs_insert now d True (fw_cs ?s) = Inr c" "fw_inv lib {} (?s\<lparr>fw_cs := c\<rparr>)"
      using cs_insert_inv[OF inv0 d] by blast
    have "onIncomingData lib now f d s = onDataUnsolicited now f d ?s"
      using False xs(1) e by (auto simp: onIncomingData_def Let_def)
    moreover have "\<exists>s'. onDataUnsolicited now f d ?s = Some s' \<and> fw_inv lib {} s'"
      using c inv0 by (simp add: onDataUnsolicited_def)
    ultimately show ?thesis
      by simp
  qed
qed

section \<open>Nacks\<close>

lemma pit_find_ok:
  assumes inv: "fw_inv lib {} s" and cap: "nt_nItems (tb_nt (fw_tables s)) + length (i_name i) + 1 \<le> maxItems"
  shows "\<exists>t res b. findOrInsert (lib_cx lib) i False (tb_nt (fw_tables s), fw_pit s) = Some (t, fw_pit s, res, b) \<and>
    fw_inv lib {} (fw_setPit t (fw_pit s) s) \<and> (\<forall>x. res = Some x \<longrightarrow> pit_has (fw_pit s) i x)"
proof -
  obtain t p res b where F: "findOrInsert (lib_cx lib) i False (tb_nt (fw_tables s), fw_pit s) = Some (t, p, res, b)"
    "pit_inv (lib_cx lib) (t, p)" "tables_frame (cx_wire (lib_cx lib)) (tb_nt (fw_tables s)) t"
    and cases: "if \<exists>x. pit_has (fw_pit s) i x then p = fw_pit s \<and> b = False \<and> (\<exists>x. res = Some x \<and> pit_has (fw_pit s) i x)
     else b = True \<and> res = None \<and> p = fw_pit s"
    using findOrInsert_ok[OF fw_invD(9)[OF inv] cap, of False] unfolding if_False by blast
  have p: "p = fw_pit s" "\<forall>x. res = Some x \<longrightarrow> pit_has (fw_pit s) i x"
    using cases by (auto split: if_splits)
  have "fw_inv lib {} (fw_setPit t p s)"
    using fw_invD(6,7)[OF inv] p(1) by (intro fw_setPit_ok[OF inv F(2,3)]) blast
  then show ?thesis
    using F(1) p by auto
qed

lemma nacked_ok:
  assumes "entry_ok faces pe"
  shows "entry_ok faces (pe\<lparr>pe_outRecords := update_first (\<lambda>r. or_face r = f) (\<lambda>r. fst (setIncomingNack n r)) (pe_outRecords pe)\<rparr>)"
proof -
  have "map or_face (update_first (\<lambda>r. or_face r = f) (\<lambda>r. fst (setIncomingNack n r)) rs) = map or_face rs" for rs
    by (rule map_update_first) (simp add: setIncomingNack_def)
  then show ?thesis
    using assms by (simp add: entry_ok_def pe_ready_def pe_wf_def retx_ok_def)
qed

definition nack_ok :: "nack \<Rightarrow> forwarder \<Rightarrow> bool" where
  "nack_ok n s \<longleftrightarrow> nt_nItems (tb_nt (fw_tables s)) + length (i_name (n_interest n)) + 1 \<le> maxItems"

lemma onIncomingNack_ok:
  assumes inv: "fw_inv lib {} s" and lib: "lib_ok lib" and n: "nack_ok n s"
  shows "\<exists>s'. onIncomingNack lib now f n s = Some s' \<and> fw_inv lib {} s'"
proof (cases "f_linkType (fw_faces s f) = MultiAccess")
  case True
  then show ?thesis
    using inv by (simp add: onIncomingNack_def Let_def)
next
  case p2p: False
  let ?s = "s\<lparr>fw_nInNacks := fw_nInNacks s + 1\<rparr>"
  have inv0: "fw_inv lib {} ?s"
    using inv by simp
  obtain t res b where F: "findOrInsert (lib_cx lib) (n_interest n) False (tb_nt (fw_tables ?s), fw_pit ?s) = Some (t, fw_pit ?s, res, b)"
    "fw_inv lib {} (fw_setPit t (fw_pit ?s) ?s)" "\<forall>x. res = Some x \<longrightarrow> pit_has (fw_pit ?s) (n_interest n) x"
    using pit_find_ok[OF inv0, of "n_interest n"] n by (auto simp: nack_ok_def)
  let ?t = "fw_setPit t (fw_pit ?s) ?s"
  show ?thesis
  proof (cases "\<exists>x pe out. res = Some x \<and> pit_entries (fw_pit s) x = Some pe \<and> getOutRecord f pe = Some out \<and>
      i_nonce (n_interest n) = or_lastNonce out")
    case False
    then have "onIncomingNack lib now f n s = Some ?t"
      using p2p F(1,3) by (auto simp: onIncomingNack_def Let_def pit_has_def attached_def split: option.split)
    then show ?thesis
      using F(2) by blast
  next
    case True
    then obtain x pe out where x: "res = Some x" "pit_entries (fw_pit s) x = Some pe" "getOutRecord f pe = Some out"
      "i_nonce (n_interest n) = or_lastNonce out"
      by blast
    obtain r where a: "attached (fw_pit ?t) x pe r"
      using F(3) x(1,2) by (auto simp: pit_has_def attached_def)
    let ?q = "pe\<lparr>pe_outRecords := update_first (\<lambda>r. or_face r = f) (\<lambda>r. fst (setIncomingNack n r)) (pe_outRecords pe)\<rparr>"
    let ?u = "fw_entry x (\<lambda>_. ?q) ?t"
    have "timed ?q"
      using fw_invD(7)[OF F(2) a] by (simp add: timed_def)
    then have inv1: "fw_inv lib {} ?u" and a1: "attached (fw_pit ?u) x ?q r"
      using fw_entry_ok(1,2)[OF F(2) a, where g = "\<lambda>_. ?q" and Y = "{}"] nacked_ok[OF fw_invD(6)[OF F(2) a], of f n] by simp_all
    have nd: "\<not> isEndWithDigest (pe_name ?q)" and ready: "pe_ready (fc_entry (fw_ctx_of ?q ?u))"
      using fw_invD(6)[OF inv1 a1] by (auto simp: entry_ok_def fw_ctx_of_def)
    obtain y fe where y: "fib_lpm_pit (lib_cx lib) ?q (tb_nt (fw_tables ?u)) = Some y" "fib_entries (tb_fib (fw_tables ?u)) y = Some fe"
      using fib_lpm_pit_ok[OF fw_invD(1)[OF inv1] a1 nd] by blast
    obtain c where c: "dispatchToStrategy lib now x (\<lambda>impl env. s_afterReceiveNack impl env f n fe) ?u = Some (fw_leave x c ?u)"
      "acted (fw_env_of lib now ?u) (fw_ctx_of ?q ?u) c"
      using dispatch_ok[OF inv1 lib a1, of "\<lambda>impl env. s_afterReceiveNack impl env f n fe" now]
        forwarding_strategy.nack[OF _ ready] by blast
    have "onIncomingNack lib now f n s = Some (fw_leave x c ?u)"
      using p2p F(1) x y c(1) by (simp add: onIncomingNack_def Let_def)
    then show ?thesis
      using fw_leave_ok(1)[OF inv1 a1 c(2)] by blast
  qed
qed

end
