(* ===== verification/Forwarder_Events.thy ===== *)
theory Forwarder_Events
  imports Forwarder_Data
begin

text \<open>
  The forwarder as a transition system.  Its events are the packets that arrive, the timers that fire, faces
  that come and go and the commands of the FIB and strategy choice managers.  Every event that is possible in a state
  that satisfies the invariant has a next state, without a failed assertion, and the invariant holds there.
\<close>

section \<open>What FIB operations leave alone\<close>

definition fib_frame :: "(component \<Rightarrow> byte list) \<Rightarrow> name_tree \<Rightarrow> name_tree \<Rightarrow> bool" where
  "fib_frame wire t t' \<longleftrightarrow> nt_inv wire t' \<and> slot_frame e_measurementsEntry wire t t' \<and>
     slot_frame e_strategyChoiceEntry wire t t' \<and> pit_frame t t'"

lemma fib_frame_refl: "nt_inv wire t \<Longrightarrow> fib_frame wire t t"
  by (simp add: fib_frame_def)

lemma fib_frame_trans: "fib_frame wire a b \<Longrightarrow> fib_frame wire b c \<Longrightarrow> fib_frame wire a c"
  unfolding fib_frame_def using slot_frame_trans pit_frame_trans by blast

lemma setFibEntry_frame:
  assumes inv: "nt_inv wire t" and s: "setFibEntry r v (t, f) = Some (t', f')"
  shows "fib_frame wire t t'"
proof -
  have t': "t' = nt_update r (\<lambda>e. e\<lparr>e_fibEntry := v\<rparr>) t"
    using s by (auto simp: setFibEntry_def bind_eq_Some_conv Let_def)
  show ?thesis
    unfolding t' fib_frame_def
    by (intro conjI fib_slot.put_inv meas_slot.slot_frame_update sc_slot.slot_frame_update pit_frame_update inv) simp_all
qed

lemma eraseEntryIfEmpty_frame:
  assumes inv: "nt_inv wire t" and s: "eraseEntryIfEmpty r t = Some (t', b)" and e: "nt_entries t r \<noteq> None"
  shows "fib_frame wire t t'"
proof -
  obtain e where e: "nt_entries t r = Some e"
    using e by blast
  have "nt_inv wire t'" "nt_shrinks t t'"
    using eraseEntryIfEmpty_ok[OF inv e] s unfolding erased_def by auto
  then show ?thesis
    unfolding fib_frame_def by (simp add: meas_slot.slot_frame_shrinks sc_slot.slot_frame_shrinks pit_frame_shrinks inv)
qed

lemma fib_erase_nte_frame:
  assumes inv: "nt_inv wire t" and s: "fib_erase_nte r (t, f) = Some (t', f')"
  shows "fib_frame wire t t'"
proof -
  obtain t1 f1 b where 1: "setFibEntry r None (t, f) = Some (t1, f1)" "eraseEntryIfEmpty r t1 = Some (t', b)"
    using s by (auto simp: fib_erase_nte_def bind_eq_Some_conv)
  have fr: "fib_frame wire t t1"
    by (rule setFibEntry_frame[OF inv 1(1)])
  have "nt_entries t1 r \<noteq> None"
    using 1(1) by (auto simp: setFibEntry_def bind_eq_Some_conv nt_update_def Let_def)
  then show ?thesis
    using fr fib_frame_trans[OF fr eraseEntryIfEmpty_frame[OF _ 1(2)]] by (simp add: fib_frame_def)
qed

lemma fib_erase_entry_frame:
  assumes inv: "nt_inv wire t" and s: "fib_erase_entry x (t, f) = Some (t', f')"
  shows "fib_frame wire t t'"
  using s fib_erase_nte_frame[OF inv] fib_frame_refl[OF inv]
  by (auto simp: fib_erase_entry_def bind_eq_Some_conv split: option.splits)

lemma erase_all_frame:
  assumes "nt_inv wire t" and "erase_all xs (t, f) = Some (t', f')"
  shows "fib_frame wire t t'"
  using assms
proof (induction xs arbitrary: t f)
  case Nil
  then show ?case
    by (simp add: fib_frame_refl)
next
  case (Cons x xs)
  then obtain t1 f1 where 1: "fib_erase_entry x (t, f) = Some (t1, f1)" "erase_all xs (t1, f1) = Some (t', f')"
    by (auto simp: bind_eq_Some_conv)
  have fr: "fib_frame wire t t1"
    by (rule fib_erase_entry_frame[OF Cons.prems(1) 1(1)])
  then have "nt_inv wire t1"
    by (simp add: fib_frame_def)
  from fib_frame_trans[OF fr Cons.IH[OF this 1(2)]] show ?case .
qed

lemma removeNextHop_all_frame:
  assumes inv: "nt_inv wire t" and s: "removeNextHopFromAllEntries face (t, f) = Some (t', f')"
  shows "fib_frame wire t t'"
  using s erase_all_frame[OF inv] by (auto simp: removeNextHopFromAllEntries_def bind_eq_Some_conv)

lemma fib_insert_frame:
  assumes inv: "nt_inv wire t" and cap: "nt_nItems t + length n + 1 \<le> maxItems"
    and s: "fib_insert wire n (t, f) = Some (t', f', x, b)"
  shows "fib_frame wire t t'"
proof -
  obtain t1 r where t1: "nt_lookup wire n t = Some (t1, r)" "nt_inv wire t1" "nt_grows t t1"
    using nt_lookup_ok[OF inv cap] by blast
  have fr: "fib_frame wire t t1"
    unfolding fib_frame_def using t1 inv
    by (simp add: meas_slot.slot_frame_grows sc_slot.slot_frame_grows pit_frame_grows)
  show ?thesis
    using s t1(1) fr fib_frame_trans[OF fr setFibEntry_frame[OF t1(2)]]
    by (auto simp: fib_insert_def bind_eq_Some_conv Let_def split: option.splits)
qed

lemma tables_inv_fib:
  assumes inv: "tables_inv cx tb" and fib: "fib_inv (cx_wire cx) (t, f)" and fr: "fib_frame (cx_wire cx) (tb_nt tb) t"
  shows "tables_inv cx (tb\<lparr>tb_nt := t, tb_fib := f\<rparr>)"
  using tables_invD[OF inv] fib fr pit_inv_frame ms_inv_frame sc_inv_frame(1)
  unfolding tables_inv_def fib_frame_def by simp

lemma fw_inv_fib:
  assumes inv: "fw_inv lib X s" and fib: "fib_inv (cx_wire (lib_cx lib)) (t, f)"
    and fr: "fib_frame (cx_wire (lib_cx lib)) (tb_nt (fw_tables s)) t"
  shows "fw_inv lib X (s\<lparr>fw_tables := (fw_tables s)\<lparr>tb_nt := t, tb_fib := f\<rparr>\<rparr>)"
  using tables_inv_fib[OF fw_invD(1)[OF inv] fib fr] inv by (auto simp: fw_inv_def faces_ok_def)

section \<open>Faces\<close>

lemma same_scopes:
  assumes "\<And>f. f_scope (faces' f) = f_scope (faces f)"
  shows "entry_ok faces' pe = entry_ok faces pe" "scope_safe faces' pkt = scope_safe faces pkt"
  using assms by (auto simp: entry_ok_def scope_safe_def)

lemma fw_inv_faces:
  assumes inv: "fw_inv lib X s" and sc: "\<And>f. f_scope (faces f) = f_scope (fw_faces s f)"
    and ok: "faces_ok (s\<lparr>fw_faces := faces, fw_faceTable := tab, fw_lastFaceId := n\<rparr>)"
  shows "fw_inv lib X (s\<lparr>fw_faces := faces, fw_faceTable := tab, fw_lastFaceId := n\<rparr>)"
  using inv ok by (simp add: fw_inv_def same_scopes[where faces' = faces, OF sc])

lemma faces_ok_added:
  assumes ok: "faces_ok s" and f: "f_id (fw_faces s f) = INVALID_FACEID" and i: "i \<noteq> INVALID_FACEID" "fw_faceTable s i = None"
    and n: "fw_lastFaceId s \<le> n" "i \<le> n"
  shows "faces_ok (s\<lparr>fw_faces := (fw_faces s)(f := (fw_faces s f)\<lparr>f_id := i\<rparr>), fw_faceTable := (fw_faceTable s)(i \<mapsto> f),
    fw_lastFaceId := n\<rparr>)"
proof -
  have tab: "fw_faceTable s j = Some g \<longleftrightarrow> f_id (fw_faces s g) = j \<and> j \<noteq> INVALID_FACEID" for j g
    using ok by (simp add: faces_ok_def)
  have "fw_faceTable s j \<noteq> Some f" for j
    using tab[of j f] f by simp
  moreover have "f_id (fw_faces s g) \<noteq> i" for g
    using tab[of i g] i by simp
  moreover have "j \<le> n" if "fw_faceTable s j \<noteq> None" for j
    using ok that n(1) order_trans unfolding faces_ok_def by blast
  moreover have "FACEID_RESERVED_MAX \<le> n"
    using ok n(1) order_trans unfolding faces_ok_def by blast
  ultimately show ?thesis
    using i(1) n(2) tab unfolding faces_ok_def by auto
qed

lemma faceTable_add_ok:
  assumes inv: "fw_inv lib {} s" and room: "fw_lastFaceId s \<noteq> - 1"
  shows "\<exists>s'. faceTable_add f s = Some s' \<and> fw_inv lib {} s'"
proof (cases "f_id (fw_faces s f) = INVALID_FACEID")
  case False
  then have "fw_faceTable s (f_id (fw_faces s f)) \<noteq> None"
    using fw_invD(5)[OF inv] by (auto simp: faces_ok_def)
  then show ?thesis
    using False inv by (simp add: faceTable_add_def)
next
  case True
  let ?i = "fw_lastFaceId s + 1"
  note ok = fw_invD(5)[OF inv]
  have "1 + fw_lastFaceId s \<noteq> 0"
    using room by (metis add.commute add_eq_0_iff2)
  then have gt: "fw_lastFaceId s < ?i"
    using unatSuc[of "fw_lastFaceId s"] by (simp add: word_less_nat_alt add.commute)
  moreover have "FACEID_RESERVED_MAX \<le> fw_lastFaceId s"
    using ok by (simp add: faces_ok_def)
  ultimately have res: "FACEID_RESERVED_MAX < ?i"
    by simp
  have below: "fw_faceTable s j \<noteq> None \<Longrightarrow> j \<le> fw_lastFaceId s" for j
    using ok unfolding faces_ok_def by blast
  have i: "?i \<noteq> INVALID_FACEID" "fw_faceTable s ?i = None"
    using res below[of ?i] gt by (auto simp: INVALID_FACEID_def) (metis not_less not_Some_eq)
  have add: "faceTable_add f s = Some (s\<lparr>fw_faces := (fw_faces s)(f := (fw_faces s f)\<lparr>f_id := ?i\<rparr>),
      fw_faceTable := (fw_faceTable s)(?i \<mapsto> f), fw_lastFaceId := ?i\<rparr>)"
    using True res by (simp add: faceTable_add_def faceTable_addImpl_def Let_def)
  show ?thesis
    unfolding add using gt i by (auto intro!: fw_inv_faces[OF inv] faces_ok_added[OF ok True])
qed

lemma faceTable_addReserved_ok:
  assumes inv: "fw_inv lib {} s" and new: "f_id (fw_faces s f) = INVALID_FACEID" and i: "i \<noteq> INVALID_FACEID" "i \<le> FACEID_RESERVED_MAX"
    "fw_faceTable s i = None"
  shows "\<exists>s'. faceTable_addReserved f i s = Some s' \<and> fw_inv lib {} s'"
proof -
  note ok = fw_invD(5)[OF inv]
  let ?s = "s\<lparr>fw_faces := (fw_faces s)(f := (fw_faces s f)\<lparr>f_id := i\<rparr>), fw_faceTable := (fw_faceTable s)(i \<mapsto> f),
    fw_lastFaceId := fw_lastFaceId s\<rparr>"
  have "fw_faceTable s INVALID_FACEID = None"
    using ok by (cases "fw_faceTable s INVALID_FACEID") (auto simp: faces_ok_def)
  then have "faceTable_addReserved f i s = Some ?s"
    using new i by (simp add: faceTable_addReserved_def faceTable_addImpl_def)
  moreover have "i \<le> fw_lastFaceId s"
    using ok i(2) order_trans unfolding faces_ok_def by blast
  then have "fw_inv lib {} ?s"
    using i by (intro fw_inv_faces[OF inv] faces_ok_added[OF ok new]) auto
  ultimately show ?thesis
    by blast
qed

lemma faceTable_remove_ok:
  assumes inv: "fw_inv lib {} s"
  shows "\<exists>s'. faceTable_remove f s = Some s' \<and> fw_inv lib {} s' \<and> f_id (fw_faces s' f) = INVALID_FACEID \<and>
    (\<forall>n. fib_view (cx_wire (lib_cx lib)) (tb_nt (fw_tables s'), tb_fib (fw_tables s')) n =
      (case fib_view (cx_wire (lib_cx lib)) (tb_nt (fw_tables s), tb_fib (fw_tables s)) n of None \<Rightarrow> None
       | Some hs \<Rightarrow> if kept_hops f hs = [] then None else Some (kept_hops f hs)))"
proof -
  note ok = fw_invD(5)[OF inv] and tb = fw_invD(1)[OF inv]
  let ?faces = "(fw_faces s)(f := (fw_faces s f)\<lparr>f_id := INVALID_FACEID\<rparr>)"
  let ?tab = "(fw_faceTable s)(f_id (fw_faces s f) := None)"
  let ?s = "s\<lparr>fw_faces := ?faces, fw_faceTable := ?tab, fw_lastFaceId := fw_lastFaceId s\<rparr>"
  have tab: "fw_faceTable s j = Some g \<longleftrightarrow> f_id (fw_faces s g) = j \<and> j \<noteq> INVALID_FACEID" for j g
    using ok by (simp add: faces_ok_def)
  have "g = f" if "f_id (fw_faces s g) = f_id (fw_faces s f)" "f_id (fw_faces s f) \<noteq> INVALID_FACEID" for g
    using tab[of "f_id (fw_faces s f)" g] tab[of "f_id (fw_faces s f)" f] that by simp
  then have "faces_ok ?s"
    using ok tab unfolding faces_ok_def by auto
  then have inv1: "fw_inv lib {} ?s"
    by (intro fw_inv_faces[OF inv]) auto
  obtain t g where R: "removeNextHopFromAllEntries f (tb_nt (fw_tables s), tb_fib (fw_tables s)) = Some (t, g)"
    "fib_inv (cx_wire (lib_cx lib)) (t, g)"
    "\<forall>n. fib_view (cx_wire (lib_cx lib)) (t, g) n =
      (case fib_view (cx_wire (lib_cx lib)) (tb_nt (fw_tables s), tb_fib (fw_tables s)) n of None \<Rightarrow> None
       | Some hs \<Rightarrow> if kept_hops f hs = [] then None else Some (kept_hops f hs))"
    using removeNextHopFromAllEntries_ok[OF tables_invD(1)[OF tb], of f] by blast
  have "fib_frame (cx_wire (lib_cx lib)) (tb_nt (fw_tables ?s)) t"
    using removeNextHop_all_frame[OF tables_invD(5)[OF tb] R(1)] by simp
  note inv2 = fw_inv_fib[OF inv1 R(2) this]
  have "faceTable_remove f s = Some (?s\<lparr>fw_tables := (fw_tables ?s)\<lparr>tb_nt := t, tb_fib := g\<rparr>\<rparr>)"
    using R(1) by (simp add: faceTable_remove_def)
  then show ?thesis
    using inv2 R(3) by simp
qed

section \<open>Commands\<close>

lemma selfRegistration_total:
  "(faceId = 0 \<Longrightarrow> tag \<noteq> None) \<Longrightarrow> \<exists>i. setFaceForSelfRegistration tag faceId = Some i"
  by (cases "faceId = 0") (auto simp: setFaceForSelfRegistration_def)

lemma fibManager_addNextHop_ok:
  assumes inv: "fw_inv lib {} s" and cap: "nt_nItems (tb_nt (fw_tables s)) + length n + 1 \<le> maxItems"
    and tag: "faceId = 0 \<Longrightarrow> tag \<noteq> None"
  shows "\<exists>s' code. fibManager_addNextHop lib tag n faceId cost s = Some (s', code) \<and> fw_inv lib {} s'"
proof -
  note tb = fw_invD(1)[OF inv]
  let ?w = "cx_wire (lib_cx lib)"
  obtain i where i: "setFaceForSelfRegistration tag faceId = Some i"
    using selfRegistration_total[of faceId tag] tag by blast
  show ?thesis
  proof (cases "fw_faceTable s i")
    case None
    then show ?thesis
      using i inv by (simp add: fibManager_addNextHop_def)
  next
    case (Some f)
    obtain t g x b where I: "fib_insert ?w n (tb_nt (fw_tables s), tb_fib (fw_tables s)) = Some (t, g, x, b)"
      "fib_inv ?w (t, g)" "fib_slots ?w t n = Some x"
      using fib_insert_ok[OF tables_invD(1)[OF tb] cap] by blast
    have fr: "fib_frame ?w (tb_nt (fw_tables s)) t"
      by (rule fib_insert_frame[OF tables_invD(5)[OF tb] cap I(1)])
    have hops: "nexthops_ok (fe_nextHops fe) \<Longrightarrow> nexthops_ok (fe_nextHops (addNextHop f cost fe))" for fe
      by (rule addNextHop_ok) (simp add: nexthops_ok_def)
    have "fib_inv ?w (t, fib_update x (addNextHop f cost) g)"
      by (rule fib_update_inv[OF I(2) _ _ hops fib_slot_not_empty[OF I(2,3)]]) simp_all
    from fw_inv_fib[OF inv this fr] show ?thesis
      using i Some I(1) by (simp add: fibManager_addNextHop_def)
  qed
qed

lemma fib_findExactMatch_slots: "fib_findExactMatch wire n t = fib_slots wire t n"
  by (simp add: fib_findExactMatch_def slot_at_def split: option.split)

lemma fibManager_removeNextHop_ok:
  assumes inv: "fw_inv lib {} s" and tag: "faceId = 0 \<Longrightarrow> tag \<noteq> None"
  shows "\<exists>s' code. fibManager_removeNextHop lib tag n faceId s = Some (s', code) \<and> fw_inv lib {} s'"
proof -
  note tb = fw_invD(1)[OF inv]
  note fib = tables_invD(1)[OF tb]
  let ?w = "cx_wire (lib_cx lib)" and ?t = "tb_nt (fw_tables s)" and ?f = "tb_fib (fw_tables s)"
  obtain i where i: "setFaceForSelfRegistration tag faceId = Some i"
    using selfRegistration_total[of faceId tag] tag by blast
  show ?thesis
  proof (cases "fw_faceTable s i = None \<or> fib_slots ?w ?t n = None")
    case True
    then show ?thesis
      using i inv by (auto simp: fibManager_removeNextHop_def fib_findExactMatch_slots split: option.split)
  next
    case False
    then obtain f x where f: "fw_faceTable s i = Some f" and x: "fib_slots ?w ?t n = Some x"
      by auto
    let ?g = "fib_update x (removeNextHop f) ?f"
    have g: "fib_inv ?w (?t, ?g)"
      by (rule fib_update_inv[OF fib _ _ _ fib_slot_not_empty[OF fib x]])
        (simp_all add: removeNextHop_nextHops nexthops_ok_def sorted_wrt_filter distinct_map_filter sorted_filter)
    obtain fe where fe: "fib_entries ?g x = Some fe"
      using fib_slot_object[OF g x] by blast
    obtain t' g' where E: "(if \<not> hasNextHops fe then fib_erase_entry x (?t, ?g) else Some (?t, ?g)) = Some (t', g')"
      "fib_inv ?w (t', g')" "fib_frame ?w ?t t'"
    proof (cases "hasNextHops fe")
      case True
      then show ?thesis
        using that[of ?t ?g] g fib_frame_refl[OF tables_invD(5)[OF tb]] by simp
    next
      case False
      then show ?thesis
        using that fib_erase_entry_ok[OF g x] fib_erase_entry_frame[OF tables_invD(5)[OF tb]] by (metis (full_types))
    qed
    from fw_inv_fib[OF inv E(2,3)] show ?thesis
      using i f x fe E(1) by (simp add: fibManager_removeNextHop_def fib_findExactMatch_slots)
  qed
qed

definition cleared :: "pit \<Rightarrow> pit \<Rightarrow> bool" where
  "cleared p p' \<longleftrightarrow> (\<exists>S. pit_cleared S p p')"

lemma cleared_refl [simp]: "cleared p p"
  unfolding cleared_def using pit_cleared_empty by blast

lemma cleared_trans: "cleared p q \<Longrightarrow> cleared q r \<Longrightarrow> cleared p r"
  unfolding cleared_def using pit_cleared_trans by blast

lemma cleared_fold [simp]: "cleared p (fold (\<lambda>x. pit_update x clear_pit_info) xs p)"
  unfolding cleared_def using pit_cleared_fold by blast

lemma clear_all_cleared: "clear_all rs tb = Some tb' \<Longrightarrow> cleared (tb_pit tb) (tb_pit tb')"
proof (induction rs arbitrary: tb)
  case (Cons r rs)
  then obtain tb1 where 1: "clearStrategyInfo r tb = Some tb1" "clear_all rs tb1 = Some tb'"
    by (auto simp: bind_eq_Some_conv)
  have "cleared (tb_pit tb) (tb_pit tb1)"
    using 1(1) by (auto simp: clearStrategyInfo_def bind_eq_Some_conv Let_def split: option.splits)
  with Cons.IH[OF 1(2)] show ?case
    using cleared_trans by blast
qed simp

lemma changeStrategy_cleared: "changeStrategy w x old new tb = Some tb' \<Longrightarrow> cleared (tb_pit tb) (tb_pit tb')"
  by (auto simp: changeStrategy_def bind_eq_Some_conv split: if_splits dest: clear_all_cleared)

lemma tables_eq_pit: "tb\<lparr>tb_nt := a\<rparr> = tb2\<lparr>tb_sc := c\<rparr> \<Longrightarrow> tb_pit tb2 = tb_pit tb"
  by (drule arg_cong[where f = tb_pit]) simp

lemma sc_insert_cleared:
  assumes "sc_insert w n sn tb = Some (tb', b)"
  shows "cleared (tb_pit tb) (tb_pit tb')"
  using assms
  by (auto simp: sc_insert_def bind_eq_Some_conv Let_def split: option.splits if_splits
      dest!: changeStrategy_cleared tables_eq_pit)

lemma sc_erase_cleared:
  assumes "sc_erase w n tb = Some tb'"
  shows "cleared (tb_pit tb) (tb_pit tb')"
  using assms
  by (auto simp: sc_erase_def bind_eq_Some_conv split: option.splits if_splits dest!: changeStrategy_cleared)

lemma fw_inv_cleared:
  assumes inv: "fw_inv lib X s" and tb: "tables_inv (lib_cx lib) tb" and c: "cleared (fw_pit s) (tb_pit tb)"
  shows "fw_inv lib X (s\<lparr>fw_tables := tb\<rparr>)"
proof -
  have "entry_ok (fw_faces s) pe \<and> (x \<notin> X \<longrightarrow> timed pe)" if a: "attached (tb_pit tb) x pe r" for x pe r
  proof -
    obtain S where "pit_entries (tb_pit tb) x =
        (if x \<in> S then map_option clear_pit_info (pit_entries (fw_pit s) x) else pit_entries (fw_pit s) x)"
      using c unfolding cleared_def pit_cleared_def by blast
    then obtain q where q: "pit_entries (fw_pit s) x = Some q" "pe = q \<or> pe = clear_pit_info q"
      using a by (auto simp: attached_def split: if_splits)
    then have "attached (fw_pit s) x q r"
      using a by (auto simp: attached_def clear_pit_info_def)
    from fw_invD(6,7)[OF inv this] q(2) show ?thesis
      by (auto simp: entry_ok_def pe_ready_def pe_wf_def retx_ok_def timed_def clear_pit_info_def)
  qed
  then show ?thesis
    using inv tb by (auto simp: fw_inv_def faces_ok_def)
qed

lemma sc_get_chosen:
  assumes inv: "sc_inv wire (tb_nt tb, tb_sc tb)" and v: "sc_view wire (tb_nt tb, tb_sc tb) n = Some st"
  shows "sc_get wire n tb = Some (Some (st_name st))"
  using v by (auto simp: sc_get_def sc_view_def slot_at_def bind_eq_Some_conv split: option.splits)

lemma setStrategy_ok:
  assumes inv: "fw_inv lib {} s" and cap: "nt_nItems (tb_nt (fw_tables s)) + length n + 1 \<le> maxItems"
    and hash: "prefix_hashes_distinct (cx_wire (lib_cx lib)) n"
  shows "\<exists>s' code st. setStrategy lib n sn s = Some (s', code, st) \<and> fw_inv lib {} s'"
proof (cases "hasStrategy sn False (tb_sc (fw_tables s))")
  case False
  then show ?thesis
    using inv by (simp add: setStrategy_def)
next
  case True
  note tb = fw_invD(1)[OF inv]
  obtain st where st: "getStrategy sn (tb_sc (fw_tables s)) = Some st"
    using True by (auto simp: hasStrategy_def)
  obtain tb' where I: "sc_insert (cx_wire (lib_cx lib)) n sn (fw_tables s) = Some (tb', True)" "tables_inv (lib_cx lib) tb'"
    "tb_choices (lib_cx lib) tb' = (tb_choices (lib_cx lib) (fw_tables s))(n \<mapsto> st)"
    using sc_insert_ok[OF tb cap hash st] by blast
  have S: "cleared (fw_pit s) (tb_pit tb')"
    by (rule sc_insert_cleared[OF I(1)])
  have "sc_get (cx_wire (lib_cx lib)) n tb' = Some (Some (st_name st))"
    by (rule sc_get_chosen[OF tables_invD(4)[OF I(2)]]) (simp add: I(3))
  then have "setStrategy lib n sn s = Some (s\<lparr>fw_tables := tb'\<rparr>, 200, Some (st_name st))"
    using True I(1) by (simp add: setStrategy_def Let_def)
  then show ?thesis
    using fw_inv_cleared[OF inv I(2) S] by blast
qed

lemma unsetStrategy_ok:
  assumes inv: "fw_inv lib {} s" and ne: "n \<noteq> []" and hash: "prefix_hashes_distinct (cx_wire (lib_cx lib)) (butlast n)"
  shows "\<exists>s'. unsetStrategy lib n s = Some s' \<and> fw_inv lib {} s'"
proof -
  obtain tb' where E: "sc_erase (cx_wire (lib_cx lib)) n (fw_tables s) = Some tb'" "tables_inv (lib_cx lib) tb'"
    using sc_erase_ok[OF fw_invD(1)[OF inv] ne hash] by blast
  from fw_inv_cleared[OF inv E(2) sc_erase_cleared[OF E(1)]] E(1) show ?thesis
    by (simp add: unsetStrategy_def)
qed

section \<open>Events\<close>

datatype fw_event =
    RecvInterest face_ptr interest
  | RecvData face_ptr data
  | RecvNack face_ptr nack
  | UnsatisfyTimer pit_ref
  | StragglerTimer pit_ref
  | StaleTimer cs_key
  | DnlTimer dnl_op
  | AddFace face_ptr
  | AddReservedFace face_ptr u64
  | RemoveFace face_ptr
  | AddNextHop "u64 option" name u64 u64
  | RemoveNextHop "u64 option" name u64
  | SetStrategy name name
  | UnsetStrategy name

fun fw_exec :: "fw_lib \<Rightarrow> time \<Rightarrow> fw_event \<Rightarrow> forwarder \<Rightarrow> forwarder option" where
  "fw_exec lib now (RecvInterest f i) s = startProcessInterest lib now f i s"
| "fw_exec lib now (RecvData f d) s = onIncomingData lib now f d s"
| "fw_exec lib now (RecvNack f n) s = startProcessNack lib now f n s"
| "fw_exec lib now (UnsatisfyTimer x) s = unsatisfyTimer_fires lib now x s"
| "fw_exec lib now (StragglerTimer x) s = stragglerTimer_fires lib now x s"
| "fw_exec lib now (StaleTimer k) s =
    (case cs_staleEvent k (fw_cs s) of Inl _ \<Rightarrow> None | Inr c \<Rightarrow> Some (s\<lparr>fw_cs := c\<rparr>))"
| "fw_exec lib now (DnlTimer op) s = Some (s\<lparr>fw_dnl := dnl_exec (lib_wireName lib) op (fw_dnl s)\<rparr>)"
| "fw_exec lib now (AddFace f) s = faceTable_add f s"
| "fw_exec lib now (AddReservedFace f i) s = faceTable_addReserved f i s"
| "fw_exec lib now (RemoveFace f) s = faceTable_remove f s"
| "fw_exec lib now (AddNextHop tag n f cost) s = map_option fst (fibManager_addNextHop lib tag n f cost s)"
| "fw_exec lib now (RemoveNextHop tag n f) s = map_option fst (fibManager_removeNextHop lib tag n f s)"
| "fw_exec lib now (SetStrategy n sn) s = map_option fst (setStrategy lib n sn s)"
| "fw_exec lib now (UnsetStrategy n) s = unsetStrategy lib n s"

text \<open>What is assumed of an event: names of Interests do not end with a digest and those of Data hold none, the
  prefixes of the names that are looked up by hash have different hashes, the name tree has room for the name, timers
  belong to entries of the table, the Link of an Interest is as ndn-cxx decodes it.\<close>

fun event_ok :: "fw_lib \<Rightarrow> fw_event \<Rightarrow> forwarder \<Rightarrow> bool" where
  "event_ok lib (RecvInterest f i) s \<longleftrightarrow> i_link i = MalformedLink \<or> interest_ok lib i s"
| "event_ok lib (RecvData f d) s \<longleftrightarrow> data_ok lib d"
| "event_ok lib (RecvNack f n) s \<longleftrightarrow> nack_ok n s"
| "event_ok lib (UnsatisfyTimer x) s \<longleftrightarrow> (\<exists>pe r. attached (fw_pit s) x pe r)"
| "event_ok lib (StragglerTimer x) s \<longleftrightarrow> (\<exists>pe r. attached (fw_pit s) x pe r)"
| "event_ok lib (StaleTimer k) s \<longleftrightarrow> staleEvent_pending k (fw_cs s)"
| "event_ok lib (DnlTimer op) s \<longleftrightarrow> op = Mark \<or> op = AdjustCapacity"
| "event_ok lib (AddFace f) s \<longleftrightarrow> fw_lastFaceId s \<noteq> - 1"
| "event_ok lib (AddReservedFace f i) s \<longleftrightarrow> f_id (fw_faces s f) = INVALID_FACEID \<and> i \<noteq> INVALID_FACEID \<and>
    i \<le> FACEID_RESERVED_MAX \<and> fw_faceTable s i = None"
| "event_ok lib (RemoveFace f) s \<longleftrightarrow> True"
| "event_ok lib (AddNextHop tag n f cost) s \<longleftrightarrow> nt_nItems (tb_nt (fw_tables s)) + length n + 1 \<le> maxItems \<and> (f = 0 \<longrightarrow> tag \<noteq> None)"
| "event_ok lib (RemoveNextHop tag n f) s \<longleftrightarrow> (f = 0 \<longrightarrow> tag \<noteq> None)"
| "event_ok lib (SetStrategy n sn) s \<longleftrightarrow> nt_nItems (tb_nt (fw_tables s)) + length n + 1 \<le> maxItems \<and>
    prefix_hashes_distinct (cx_wire (lib_cx lib)) n"
| "event_ok lib (UnsetStrategy n) s \<longleftrightarrow> n \<noteq> [] \<and> prefix_hashes_distinct (cx_wire (lib_cx lib)) (butlast n)"

lemma fw_exec_ok:
  assumes inv: "fw_inv lib {} s" and lib: "lib_ok lib" and ev: "event_ok lib ev s"
  shows "\<exists>s'. fw_exec lib now ev s = Some s' \<and> fw_inv lib {} s'"
proof (cases ev)
  case (RecvInterest f i)
  then show ?thesis
    using onIncomingInterest_ok[OF inv lib] ev inv by (auto simp: startProcessInterest_def)
next
  case (RecvData f d)
  then show ?thesis
    using onIncomingData_ok[OF inv lib] ev by simp
next
  case (RecvNack f n)
  then show ?thesis
    using onIncomingNack_ok[OF inv lib] ev inv by (simp add: startProcessNack_def)
next
  case (UnsatisfyTimer x)
  then show ?thesis
    using unsatisfyTimer_ok[OF inv lib] ev by fastforce
next
  case (StragglerTimer x)
  then show ?thesis
    using stragglerTimer_ok[OF inv] ev by fastforce
next
  case (StaleTimer k)
  then obtain c where c: "cs_staleEvent k (fw_cs s) = Inr c" "cs_inv c"
    using cs_staleEvent_ok[OF fw_invD(2)[OF inv], of k] ev StaleTimer by (auto simp del: cs_staleEvent.simps)
  have "cs_table c = cs_table (fw_cs s)"
    using c(1) by (auto split: policy.splits sum.splits simp: map_sum_def)
  then show ?thesis
    using StaleTimer c fw_inv_cs[OF inv c(2)] fw_invD(3)[OF inv] by simp
next
  case (DnlTimer op)
  then show ?thesis
    using fw_inv_dnl[OF inv dnl_inv_exec[OF fw_invD(4)[OF inv]]] by simp
next
  case (AddFace f)
  then show ?thesis
    using faceTable_add_ok[OF inv] ev by simp
next
  case (AddReservedFace f i)
  then show ?thesis
    using faceTable_addReserved_ok[OF inv] ev by simp
next
  case (RemoveFace f)
  then show ?thesis
    using faceTable_remove_ok[OF inv, of f] by auto
next
  case (AddNextHop tag n f cost)
  then show ?thesis
    using fibManager_addNextHop_ok[OF inv, of n f tag cost] ev by auto
next
  case (RemoveNextHop tag n f)
  then show ?thesis
    using fibManager_removeNextHop_ok[OF inv, of f tag n] ev by auto
next
  case (SetStrategy n sn)
  then show ?thesis
    using setStrategy_ok[OF inv, of n sn] ev by auto
next
  case (UnsetStrategy n)
  then show ?thesis
    using unsetStrategy_ok[OF inv, of n] ev by auto
qed

end
