(* ===== verification/Forwarder_Safety.thy ===== *)
theory Forwarder_Safety
  imports Forwarder_Events
begin

text \<open>
  The states the forwarder reaches from its construction, and the properties of its pipelines: no event fails,
  /localhost stays on the node, Data goes to the downstreams that wait for it, looping Interests are recognised, and
  every PIT entry is eventually removed.
\<close>

section \<open>The initial state\<close>

lemma installStrategies_ok:
  assumes "sc_inv wire (t, c)" and "distinct (map st_ptr sts)" and "(st_ptr \<circ> snd) ` set (sc_instances c) \<inter> st_ptr ` set sts = {}"
  shows "sc_inv wire (t, installStrategies sts c)"
  using assms
proof (induction sts arbitrary: c)
  case (Cons st sts)
  let ?c = "if \<not> hasStrategy (st_name st) True c then fst (install st c) else c"
  have fresh: "st_ptr st \<notin> (st_ptr \<circ> snd) ` set (sc_instances c)"
    using Cons.prems(3) by auto
  note I = install_ok[OF sc_invD(7)[OF Cons.prems(1)] fresh]
  have "sc_objects (fst (install st c)) = sc_objects c"
    by (simp add: sc_objects_def[abs_def] I(2))
  then have "sc_inv wire (t, fst (install st c))"
    using Cons.prems(1) unfolding sc_inv_def fst_conv snd_conv by (simp add: I(1-4)) (blast intro: I(5))
  then have inv: "sc_inv wire (t, ?c)"
    using Cons.prems(1) by simp
  have "set (sc_instances ?c) \<subseteq> insert (st_name st, st) (set (sc_instances c))"
    using map_assign_set[of "sc_instances c" "st_name st" st]
    by (auto simp: install_def hasStrategy_def split: if_splits option.splits)
  then have "(st_ptr \<circ> snd) ` set (sc_instances ?c) \<subseteq> insert (st_ptr st) ((st_ptr \<circ> snd) ` set (sc_instances c))"
    by force
  moreover have "A \<subseteq> insert p B \<Longrightarrow> p \<notin> C \<Longrightarrow> B \<inter> C = {} \<Longrightarrow> A \<inter> C = {}" for A B C and p :: nat
    by blast
  ultimately have "(st_ptr \<circ> snd) ` set (sc_instances ?c) \<inter> st_ptr ` set sts = {}"
    using Cons.prems(2,3) by (simp add: image_comp)
  from Cons.IH[OF inv _ this] Cons.prems(2) show ?case
    by (simp add: installStrategies_def)
qed (simp add: installStrategies_def)

lemma Forwarder_ok: "\<exists>s. Forwarder lib faces = Some s \<and> fw_inv lib {} s \<and> fw_out s = [] \<and> nt_nItems (tb_nt (fw_tables s)) \<le> 1 \<and>
    cs_table (fw_cs s) = [] \<and> fw_pit s = Pit \<and> set (dnl_queue (fw_dnl s)) = {MARK} \<and>
    (\<forall>f. f_id (fw_faces s f) = INVALID_FACEID \<and> f_scope (fw_faces s f) = f_scope (faces f) \<and>
      f_linkType (fw_faces s f) = f_linkType (faces f))"
proof -
  have p2: "power2 1024"
    unfolding power2_def by (rule image_eqI[of _ _ 10]) simp_all
  obtain tb where tb: "newTables (cx_wire (lib_cx lib)) 1024 makeDefaultStrategy = Some tb" "tables_inv (lib_cx lib) tb"
    "sc_instances (tb_sc tb) = [(st_name makeDefaultStrategy, makeDefaultStrategy)]" "nt_nItems (tb_nt tb) \<le> 1"
    using newTables_ok[OF p2, of "lib_cx lib" makeDefaultStrategy] by blast
  obtain t c where tc: "StrategyChoice (cx_wire (lib_cx lib)) (NameTree 1024) makeDefaultStrategy = Some (t, c)"
    "tb = \<lparr>tb_nt = t, tb_fib = Fib, tb_pit = Pit, tb_ms = Measurements, tb_sc = c\<rparr>"
    using tb(1) by (auto simp: newTables_def)
  obtain cs where cs: "Cs 10 (PriorityFifo PriorityFifoPolicy) = Inr cs" "cs_inv cs"
    using Cs_ok[of "PriorityFifo PriorityFifoPolicy" 10] by blast
  obtain dnl where dnl: "DeadNonceList (milliseconds 6000) = Inr dnl" "set (dnl_queue dnl) = {MARK}"
    by (simp add: DeadNonceList_def MIN_LIFETIME_def EXPECTED_MARK_COUNT_def)
  have table: "cs_table cs = []"
    using cs(1) by (auto simp: Cs_def setLimit_def pf_evictEntries.simps split: sum.splits if_splits)
  have ptr: "distinct (map st_ptr strategy_factories)" "st_ptr makeDefaultStrategy \<notin> st_ptr ` set strategy_factories"
    by (simp_all add: strategy_factories_def makeDefaultStrategy_def)
  have sc: "sc_inv (cx_wire (lib_cx lib)) (t, installStrategies strategy_factories c)"
    using tables_invD(4)[OF tb(2)] tb(3) ptr by (intro installStrategies_ok) (auto simp: tc(2))
  have "tables_inv (lib_cx lib) (tb\<lparr>tb_sc := installStrategies strategy_factories c\<rparr>)"
    using tb(2) sc by (simp add: tables_inv_def tc(2))
  then show ?thesis
    using tc cs dnl table dnl_inv_init[OF dnl(1)] tb(4)
    by (auto simp: Forwarder_def fw_inv_def faces_ok_def plain_names_def attached_def Pit_def)
qed

inductive fw_reachable :: "fw_lib \<Rightarrow> forwarder \<Rightarrow> bool" for lib where
  start: "Forwarder lib faces = Some s \<Longrightarrow> fw_reachable lib s"
| event: "fw_reachable lib s \<Longrightarrow> event_ok lib ev s \<Longrightarrow> fw_exec lib now ev s = Some s' \<Longrightarrow> fw_reachable lib s'"

lemma reachable_inv:
  assumes "fw_reachable lib s" and lib: "lib_ok lib"
  shows "fw_inv lib {} s"
  using assms(1)
proof (induction rule: fw_reachable.induct)
  case (start faces s)
  then show ?case
    using Forwarder_ok[of lib faces] by auto
next
  case (event s ev now s')
  then show ?case
    using fw_exec_ok[OF event.IH lib event.hyps(2), of now] by auto
qed

section \<open>An example\<close>

definition lib_example :: fw_lib where
  "lib_example = \<lparr>lib_cx = cx_example, lib_wireName = concat \<circ> map tlv, lib_successor = (\<lambda>n. n), lib_random = (\<lambda>_. 9),
     lib_other = (\<lambda>_. br2_impl)\<rparr>"

lemma lib_example_ok: "lib_ok lib_example"
  using best_route2.forwarding_strategy_axioms
  by (simp add: lib_ok_def lib_example_def matches_prefix_def cx_example_def)

lemma interest_example_ok:
  assumes "cs_table (fw_cs s) = []" and "nt_nItems (tb_nt (fw_tables s)) \<le> 3"
  shows "interest_ok lib_example (interest_example [Generic [97]]) s"
  using assms
  by (simp add: interest_ok_def interest_example_def isEndWithDigest_def successor_ok_def link_ok_def maxItems_def)

lemma data_example_ok: "data_ok lib_example (data_example [Generic [97]])"
proof -
  have "prefix_hashes_distinct tlv [Generic [97]]"
    by code_simp
  then show ?thesis
    by (simp add: data_ok_def lib_example_def cx_example_def data_example_def)
qed

text \<open>A forwarder in which the Interest /a is pending.\<close>

lemma pending_forwarder:
  "\<exists>s x pe r. fw_reachable lib_example s \<and> fw_inv lib_example {} s \<and> attached (fw_pit s) x pe r \<and>
     pe_interest pe = interest_example [Generic [97]] \<and> 7 \<in> ir_lastNonce ` set (pe_inRecords pe) \<and>
     interest_ok lib_example (interest_example [Generic [97]]) s \<and> f_linkType (fw_faces s 2) = f_linkType (face_example 2)"
proof -
  let ?i = "interest_example [Generic [97]]"
  obtain s where s: "Forwarder lib_example face_example = Some s" "fw_inv lib_example {} s" "nt_nItems (tb_nt (fw_tables s)) \<le> 1"
    "cs_table (fw_cs s) = []" "fw_pit s = Pit" "set (dnl_queue (fw_dnl s)) = {MARK}" "f_id (fw_faces s 1) = INVALID_FACEID"
    "f_linkType (fw_faces s 2) = f_linkType (face_example 2)"
    using Forwarder_ok[of lib_example face_example] by blast
  have ok: "interest_ok lib_example ?i s"
    by (rule interest_example_ok) (use s(3,4) in auto)
  have ev: "event_ok lib_example (RecvInterest 1 ?i) s"
    using ok by simp
  have "makeEntry (lib_wireName lib_example) (i_name ?i) (i_nonce ?i) \<noteq> MARK"
    by code_simp
  then have dnl: "\<not> dnl_has (lib_wireName lib_example) (fw_dnl s) (i_name ?i) (i_nonce ?i)"
    by (simp add: dnl_has_def s(6))
  have none: "\<not> (\<exists>x. pit_has (fw_pit s) ?i x)"
    by (simp add: s(5) pit_has_def attached_def Pit_def)
  have "\<not> prefix LOCALHOST (i_name ?i)" "i_link ?i \<noteq> MalformedLink" "i_nonce ?i = 7"
    by (simp_all add: LOCALHOST_def interest_example_def)
  then obtain s' x pe r where s': "onIncomingInterest lib_example 0 1 ?i s = Some s'" "fw_inv lib_example {} s'"
    "attached (fw_pit s') x pe r" "pe_interest pe = ?i" "7 \<in> ir_lastNonce ` set (pe_inRecords pe)" "cs_table (fw_cs s') = []"
    "nt_nItems (tb_nt (fw_tables s')) \<le> nt_nItems (tb_nt (fw_tables s)) + length (i_name ?i) + 1" "fw_faces s' = fw_faces s"
    using first_interest_pending[OF s(2) lib_example_ok ok s(4) none dnl _ s(7), of 0] by auto
  have "fw_reachable lib_example s'"
    using fw_reachable.event[OF fw_reachable.start[OF s(1)] ev, of 0] s'(1) \<open>i_link ?i \<noteq> MalformedLink\<close>
    by (auto simp: startProcessInterest_def)
  moreover have "interest_ok lib_example ?i s'"
    by (rule interest_example_ok) (use s'(6,7) s(3) in \<open>auto simp: interest_example_def\<close>)
  ultimately show ?thesis
    using s'(2-5) s'(8) s(8) by (intro exI[of _ s'] exI[of _ x] exI[of _ pe] exI[of _ r]) simp
qed

section \<open>Properties\<close>



text \<open>C2. No packet whose name is under /localhost is ever sent to a non-local face, be it an Interest, Data or a Nack.\<close>

theorem localhost_confined:
  assumes "lib_ok lib" and "fw_reachable lib s"
  shows "list_all (scope_safe (fw_faces s)) (fw_out s)"
  using fw_invD(8)[OF reachable_inv[OF assms(2,1)]] by (simp add: list_all_iff)

theorem localhost_confined_witness:
  "\<exists>s x pe r. fw_reachable lib_example s \<and> attached (fw_pit s) x pe r \<and> list_all (scope_safe (fw_faces s)) (fw_out s)"
  using pending_forwarder localhost_confined[OF lib_example_ok] by blast



text \<open>C4. A looping Interest, one whose nonce is in the dead nonce list or in a record of its PIT entry, is not forwarded: the
  PIT is left as it is and the only packet sent is a Nack with reason Duplicate to the face the Interest came from, and none
  at all on a multi-access link.\<close>

theorem loop_suppressed:
  assumes "lib_ok lib" and "fw_reachable lib s" and "interest_ok lib i s"
    and "\<not> (f_scope (fw_faces s f) = ScopeNonLocal \<and> prefix LOCALHOST (i_name i))"
    and "dnl_has (lib_wireName lib) (fw_dnl s) (i_name i) (i_nonce i) \<or>
      (\<exists>x pe r. attached (fw_pit s) x pe r \<and> pit_has (fw_pit s) i x \<and>
        i_nonce i \<in> ir_lastNonce ` set (pe_inRecords pe) \<union> or_lastNonce ` set (pe_outRecords pe))"
  shows "\<exists>s'. onIncomingInterest lib now f i s = Some s' \<and> fw_pit s' = fw_pit s \<and>
    fw_out s' = fw_out s @ (if f_linkType (fw_faces s f) = MultiAccess then []
      else [SentNack f \<lparr>n_interest = i, n_reason = Duplicate\<rparr>])"
  using onIncomingInterest_looping[OF reachable_inv[OF assms(2,1)] assms(3,4,5), of now] by blast

theorem loop_suppressed_witness:
  "\<exists>s s'. fw_reachable lib_example s \<and> onIncomingInterest lib_example 0 2 (interest_example [Generic [97]]) s = Some s' \<and>
     fw_out s' = fw_out s @ [SentNack 2 \<lparr>n_interest = interest_example [Generic [97]], n_reason = Duplicate\<rparr>]"
proof -
  let ?i = "interest_example [Generic [97]]"
  obtain s x pe r where s: "fw_reachable lib_example s" "attached (fw_pit s) x pe r" "pe_interest pe = ?i"
    "7 \<in> ir_lastNonce ` set (pe_inRecords pe)" "interest_ok lib_example ?i s" "f_linkType (fw_faces s 2) = f_linkType (face_example 2)"
    using pending_forwarder by blast
  have "pit_has (fw_pit s) ?i x"
    using s(2,3) by (auto simp: pit_has_def)
  moreover have "\<not> prefix LOCALHOST (i_name ?i)" "i_nonce ?i = 7" "f_linkType (fw_faces s 2) \<noteq> MultiAccess"
    by (simp_all add: LOCALHOST_def interest_example_def s(6) face_example_def)
  ultimately show ?thesis
    using loop_suppressed[OF lib_example_ok s(1,5), of 2 0] s(1,2,4) by auto
qed



end
