(* ===== verification/Rib_Table.thy ===== *)
theory Rib_Table
  imports Packets
begin

text \<open>
  The routing information base of \<^verbatim>\<open>src/rib\<close>: routes (\<^verbatim>\<open>route.hpp\<close>), RIB entries
  (\<^verbatim>\<open>rib-entry.cpp\<close>) and the RIB (\<^verbatim>\<open>rib.cpp\<close>), a table of entries that are linked into a tree
  by parent and child pointers.

  Entries live in a store \<^verbatim>\<open>rib_entries\<close> and are named by a \<^verbatim>\<open>rib_ref\<close>, the
  \<^verbatim>\<open>shared_ptr<RibEntry>\<close> of the code.  \<^verbatim>\<open>rib_table\<close> is \<^verbatim>\<open>m_rib\<close>, a \<^verbatim>\<open>std::map\<close> in the canonical
  order of the names, \<^verbatim>\<open>rib_faceMap\<close> is \<^verbatim>\<open>m_faceMap\<close>.  The events that \<^verbatim>\<open>scheduler::cancel\<close> is
  called with and the emitted signals are logged.  A failed assertion and the use of a null
  pointer or of an end iterator is \<^const>\<open>None\<close>.
\<close>

unbundle bit_operations_syntax

section \<open>Routes\<close>

type_synonym event_id = nat

record route =
  rt_faceId :: u64
  rt_origin :: u64
  rt_flags :: u64
  rt_cost :: u64
  rt_expires :: time
  rt_expirationEvent :: "event_id option"

text \<open>The flags of the NFD management protocol.\<close>

definition ROUTE_FLAG_CHILD_INHERIT :: u64 where "ROUTE_FLAG_CHILD_INHERIT = 1"
definition ROUTE_FLAG_CAPTURE :: u64 where "ROUTE_FLAG_CAPTURE = 2"

definition isChildInherit :: "route \<Rightarrow> bool" where
  "isChildInherit r = (rt_flags r AND ROUTE_FLAG_CHILD_INHERIT \<noteq> 0)"

definition isCapture :: "route \<Rightarrow> bool" where
  "isCapture r = (rt_flags r AND ROUTE_FLAG_CAPTURE \<noteq> 0)"

definition compareFaceIdAndOrigin :: "route \<Rightarrow> route \<Rightarrow> bool" where
  "compareFaceIdAndOrigin lhs rhs = (rt_faceId lhs = rt_faceId rhs \<and> rt_origin lhs = rt_origin rhs)"

definition compareFaceId :: "route \<Rightarrow> u64 \<Rightarrow> bool" where
  "compareFaceId route faceId = (rt_faceId route = faceId)"

text \<open>\<^verbatim>\<open>Rib::RouteSet\<close>: a \<^verbatim>\<open>std::set\<close> ordered by \<^verbatim>\<open>sortRoutes\<close>, so it holds one route for a face; an
  insertion does not replace a route that is there.\<close>

type_synonym route_set = "route list"

fun rs_insert :: "route \<Rightarrow> route_set \<Rightarrow> route_set" where
  "rs_insert route [] = [route]"
| "rs_insert route (r # rs) =
    (if rt_faceId route < rt_faceId r then route # r # rs
     else if rt_faceId r < rt_faceId route then r # rs_insert route rs
     else r # rs)"

definition rs_find :: "route \<Rightarrow> route_set \<Rightarrow> route option" where
  "rs_find route rs = List.find (\<lambda>r. rt_faceId r = rt_faceId route) rs"

definition rs_erase :: "route \<Rightarrow> route_set \<Rightarrow> route_set" where
  "rs_erase route rs = remove_first (\<lambda>r. rt_faceId r = rt_faceId route) rs"

section \<open>Entries\<close>

type_synonym rib_ref = nat

record rib_entry =
  re_name :: name
  re_children :: "rib_ref list"
  re_parent :: "rib_ref option"
  re_routes :: "route list"
  re_inheritedRoutes :: "route list"
  re_nRoutesWithCaptureSet :: u64

definition RibEntry :: rib_entry where
  "RibEntry = \<lparr>re_name = [], re_children = [], re_parent = None, re_routes = [], re_inheritedRoutes = [],
     re_nRoutesWithCaptureSet = 0\<rparr>"

definition findRoute :: "route \<Rightarrow> rib_entry \<Rightarrow> route option" where
  "findRoute route e = List.find (\<lambda>r. compareFaceIdAndOrigin r route) (re_routes e)"

definition insertRoute :: "route \<Rightarrow> rib_entry \<Rightarrow> rib_entry \<times> bool" where
  "insertRoute route e =
    (case findRoute route e of
       None \<Rightarrow>
         (let e = (if isCapture route then e\<lparr>re_nRoutesWithCaptureSet := re_nRoutesWithCaptureSet e + 1\<rparr> else e)
          in (e\<lparr>re_routes := re_routes e @ [route]\<rparr>, True))
     | Some _ \<Rightarrow> (e, False))"

text \<open>\<^verbatim>\<open>eraseRoute\<close>, with the event whose cancellation it requests.\<close>

definition eraseRoute :: "route \<Rightarrow> rib_entry \<Rightarrow> rib_entry \<times> event_id option" where
  "eraseRoute route e =
    (case findRoute route e of
       None \<Rightarrow> (e, None)
     | Some r \<Rightarrow>
         (let e = (if isCapture r then e\<lparr>re_nRoutesWithCaptureSet := re_nRoutesWithCaptureSet e - 1\<rparr> else e)
          in (e\<lparr>re_routes := remove_first (\<lambda>r. compareFaceIdAndOrigin r route) (re_routes e)\<rparr>, rt_expirationEvent r)))"

definition hasFaceId :: "u64 \<Rightarrow> rib_entry \<Rightarrow> bool" where
  "hasFaceId faceId e = (List.find (\<lambda>r. compareFaceId r faceId) (re_routes e) \<noteq> None)"

definition getNRoutes :: "rib_entry \<Rightarrow> nat" where
  "getNRoutes e = length (re_routes e)"

definition findInheritedRoute :: "route \<Rightarrow> rib_entry \<Rightarrow> route option" where
  "findInheritedRoute route e = List.find (\<lambda>r. compareFaceId r (rt_faceId route)) (re_inheritedRoutes e)"

definition hasInheritedRoute :: "route \<Rightarrow> rib_entry \<Rightarrow> bool" where
  "hasInheritedRoute route e = (findInheritedRoute route e \<noteq> None)"

text \<open>The methods that \<^verbatim>\<open>modifyInheritedRoutes\<close> calls; removing a route that is not there erases the end iterator.\<close>

definition entry_addInheritedRoute :: "route \<Rightarrow> rib_entry \<Rightarrow> rib_entry" where
  "entry_addInheritedRoute route e = e\<lparr>re_inheritedRoutes := re_inheritedRoutes e @ [route]\<rparr>"

definition entry_removeInheritedRoute :: "route \<Rightarrow> rib_entry \<Rightarrow> rib_entry option" where
  "entry_removeInheritedRoute route e =
    (if findInheritedRoute route e = None then None
     else Some (e\<lparr>re_inheritedRoutes := remove_first (\<lambda>r. compareFaceId r (rt_faceId route)) (re_inheritedRoutes e)\<rparr>))"

definition hasCapture :: "rib_entry \<Rightarrow> bool" where
  "hasCapture e = (re_nRoutesWithCaptureSet e > 0)"

definition hasChildInheritOnFaceId :: "u64 \<Rightarrow> rib_entry \<Rightarrow> bool" where
  "hasChildInheritOnFaceId faceId e = list_ex (\<lambda>r. rt_faceId r = faceId \<and> isChildInherit r) (re_routes e)"

text \<open>The scan of \<^verbatim>\<open>getRouteWithLowestCost...\<close>: a later route wins only with a lower cost.\<close>

definition lowest_cost_scan :: "(route \<Rightarrow> bool) \<Rightarrow> route list \<Rightarrow> route option" where
  "lowest_cost_scan P rs =
    fold (\<lambda>r candidate.
        if P r then
          (case candidate of None \<Rightarrow> Some r | Some c \<Rightarrow> if rt_cost r < rt_cost c then Some r else Some c)
        else candidate) rs None"

definition getRouteWithLowestCostByFaceId :: "u64 \<Rightarrow> rib_entry \<Rightarrow> route option" where
  "getRouteWithLowestCostByFaceId faceId e = lowest_cost_scan (\<lambda>r. rt_faceId r = faceId) (re_routes e)"

text \<open>\<^verbatim>\<open>std::nth_element\<close> leaves an element of the second lowest cost at index 1; of several such elements the model takes
  the one that a stable sort puts there.\<close>

definition getRouteWithSecondLowestCostByFaceId :: "u64 \<Rightarrow> rib_entry \<Rightarrow> route option" where
  "getRouteWithSecondLowestCostByFaceId faceId e =
    (let matches = filter (\<lambda>r. rt_faceId r = faceId) (re_routes e)
     in if length matches < 2 then None else Some (sort_key rt_cost matches ! 1))"

definition getRouteWithLowestCostAndChildInheritByFaceId :: "u64 \<Rightarrow> rib_entry \<Rightarrow> route option" where
  "getRouteWithLowestCostAndChildInheritByFaceId faceId e =
    lowest_cost_scan (\<lambda>r. rt_faceId r = faceId \<and> isChildInherit r) (re_routes e)"

section \<open>The table\<close>

datatype rib_signal = AfterInsertEntry name | AfterEraseEntry name

record rib =
  rib_table :: "(name \<times> rib_ref) list"
  rib_entries :: "rib_ref \<Rightarrow> rib_entry option"
  rib_next :: rib_ref
  rib_faceMap :: "u64 \<Rightarrow> rib_ref list"
  rib_nItems :: u64
  rib_cancelled :: "event_id list"
  rib_signals :: "rib_signal list"

definition Rib :: rib where
  "Rib = \<lparr>rib_table = [], rib_entries = (\<lambda>_. None), rib_next = 0, rib_faceMap = (\<lambda>_. []), rib_nItems = 0,
     rib_cancelled = [], rib_signals = []\<rparr>"

definition rib_update_entry :: "rib_ref \<Rightarrow> (rib_entry \<Rightarrow> rib_entry) \<Rightarrow> rib \<Rightarrow> rib" where
  "rib_update_entry x g rib = rib\<lparr>rib_entries := (rib_entries rib)(x := map_option g (rib_entries rib x))\<rparr>"

definition rib_cancel :: "event_id option \<Rightarrow> rib \<Rightarrow> rib" where
  "rib_cancel ev rib = (case ev of None \<Rightarrow> rib | Some i \<Rightarrow> rib\<lparr>rib_cancelled := rib_cancelled rib @ [i]\<rparr>)"

definition rib_find :: "name \<Rightarrow> rib \<Rightarrow> rib_ref option" where
  "rib_find pfx rib = map_of (rib_table rib) pfx"

text \<open>\<^verbatim>\<open>Rib::find(prefix, route)\<close>\<close>

definition rib_find_route :: "name \<Rightarrow> route \<Rightarrow> rib \<Rightarrow> route option" where
  "rib_find_route pfx route rib =
    (case rib_find pfx rib of None \<Rightarrow> None
     | Some x \<Rightarrow> Option.bind (rib_entries rib x) (findRoute route))"

fun findParent_loop :: "rib \<Rightarrow> name \<Rightarrow> nat \<Rightarrow> rib_ref option" where
  "findParent_loop rib pfx 0 = None"
| "findParent_loop rib pfx (Suc i) =
    (case rib_find (take i pfx) rib of Some x \<Rightarrow> Some x | None \<Rightarrow> findParent_loop rib pfx i)"

definition findParent :: "name \<Rightarrow> rib \<Rightarrow> rib_ref option" where
  "findParent pfx rib = findParent_loop rib pfx (length pfx)"

definition findDescendants :: "name \<Rightarrow> rib \<Rightarrow> rib_ref list" where
  "findDescendants pfx rib =
    (if rib_find pfx rib = None then []
     else map snd (takeWhile (\<lambda>(n, _). prefix pfx n)
            (tl (dropWhile (\<lambda>(n, _). n \<noteq> pfx) (rib_table rib)))))"

definition findDescendantsForNonInsertedName :: "name \<Rightarrow> rib \<Rightarrow> rib_ref list" where
  "findDescendantsForNonInsertedName pfx rib =
    map snd (filter (\<lambda>(n, _). prefix pfx n) (rib_table rib))"

definition addChild :: "rib_ref \<Rightarrow> rib_ref \<Rightarrow> rib \<Rightarrow> rib option" where
  "addChild this child rib = do {
     c \<leftarrow> rib_entries rib child;
     if re_parent c \<noteq> None then None
     else Some (rib_update_entry this (\<lambda>e. e\<lparr>re_children := re_children e @ [child]\<rparr>)
                 (rib_update_entry child (\<lambda>e. e\<lparr>re_parent := Some this\<rparr>) rib))
   }"

definition removeChild :: "rib_ref \<Rightarrow> rib_ref \<Rightarrow> rib \<Rightarrow> rib option" where
  "removeChild this child rib = do {
     c \<leftarrow> rib_entries rib child;
     if re_parent c \<noteq> Some this then None
     else Some (rib_update_entry this (\<lambda>e. e\<lparr>re_children := removeAll child (re_children e)\<rparr>)
                 (rib_update_entry child (\<lambda>e. e\<lparr>re_parent := None\<rparr>) rib))
   }"

text \<open>The loop of \<^verbatim>\<open>Rib::insert\<close> over the descendants of a new entry.\<close>

fun adopt_children :: "rib_ref option \<Rightarrow> rib_ref \<Rightarrow> rib_ref list \<Rightarrow> rib \<Rightarrow> rib option" where
  "adopt_children parent x [] rib = Some rib"
| "adopt_children parent x (child # children) rib = do {
     c \<leftarrow> rib_entries rib child;
     rib \<leftarrow> (if re_parent c = parent then do {
                rib \<leftarrow> (case parent of None \<Rightarrow> Some rib | Some p \<Rightarrow> removeChild p child rib);
                addChild x child rib
              } else Some rib);
     adopt_children parent x children rib
   }"

definition rib_insert :: "name \<Rightarrow> route \<Rightarrow> rib \<Rightarrow> rib option" where
  "rib_insert pfx route rib =
    (case rib_find pfx rib of
       Some x \<Rightarrow> do {
         entry \<leftarrow> rib_entries rib x;
         (case findRoute route entry of
            None \<Rightarrow>
              (let rib = rib_update_entry x (\<lambda>e. fst (insertRoute route e)) rib
               in Some (rib\<lparr>rib_nItems := rib_nItems rib + 1,
                     rib_faceMap := (rib_faceMap rib)(rt_faceId route := rib_faceMap rib (rt_faceId route) @ [x])\<rparr>))
          | Some r \<Rightarrow>
              Some (rib_update_entry x (\<lambda>e. e\<lparr>re_routes := update_first (\<lambda>r. compareFaceIdAndOrigin r route)
                  (\<lambda>r. r\<lparr>rt_expirationEvent := rt_expirationEvent route, rt_flags := rt_flags route,
                       rt_cost := rt_cost route, rt_expires := rt_expires route\<rparr>) (re_routes e)\<rparr>)
                (rib_cancel (rt_expirationEvent r) rib)))
       }
     | None \<Rightarrow> do {
         let x = rib_next rib;
         let entry = fst (insertRoute route (RibEntry\<lparr>re_name := pfx\<rparr>));
         let rib = rib\<lparr>rib_table := map_assign pfx x (rib_table rib), rib_entries := (rib_entries rib)(x \<mapsto> entry),
                     rib_next := x + 1, rib_nItems := rib_nItems rib + 1\<rparr>;
         let parent = findParent pfx rib;
         rib \<leftarrow> (case parent of None \<Rightarrow> Some rib | Some p \<Rightarrow> addChild p x rib);
         rib \<leftarrow> adopt_children parent x (findDescendants pfx rib) rib;
         Some (rib\<lparr>rib_faceMap := (rib_faceMap rib)(rt_faceId route := rib_faceMap rib (rt_faceId route) @ [x]),
                 rib_signals := rib_signals rib @ [AfterInsertEntry pfx]\<rparr>)
       })"

text \<open>The loop of \<^verbatim>\<open>Rib::eraseEntry\<close> over the children of the entry.\<close>

fun hand_over :: "rib_ref option \<Rightarrow> rib_ref \<Rightarrow> rib_ref list \<Rightarrow> rib \<Rightarrow> rib option" where
  "hand_over parent x [] rib = Some rib"
| "hand_over parent x (child # children) rib = do {
     rib \<leftarrow> removeChild x child rib;
     rib \<leftarrow> (case parent of None \<Rightarrow> Some rib | Some p \<Rightarrow> addChild p child rib);
     hand_over parent x children rib
   }"

definition eraseEntry :: "name \<Rightarrow> rib_ref \<Rightarrow> rib \<Rightarrow> rib option" where
  "eraseEntry pfx x rib = do {
     entry \<leftarrow> rib_entries rib x;
     let parent = re_parent entry;
     rib \<leftarrow> (case parent of None \<Rightarrow> Some rib | Some p \<Rightarrow> removeChild p x rib);
     rib \<leftarrow> hand_over parent x (re_children entry) rib;
     Some (rib\<lparr>rib_table := filter (\<lambda>(n, _). n \<noteq> pfx) (rib_table rib),
             rib_signals := rib_signals rib @ [AfterEraseEntry (re_name entry)]\<rparr>)
   }"

definition rib_erase :: "name \<Rightarrow> route \<Rightarrow> rib \<Rightarrow> rib option" where
  "rib_erase pfx route rib =
    (case rib_find pfx rib of
       None \<Rightarrow> Some rib
     | Some x \<Rightarrow> do {
         entry \<leftarrow> rib_entries rib x;
         if findRoute route entry = None then Some rib
         else do {
           let (entry, event) = eraseRoute route entry;
           let rib = rib_cancel event (rib_update_entry x (\<lambda>_. entry) rib);
           let rib = rib\<lparr>rib_nItems := rib_nItems rib - 1\<rparr>;
           let rib = (if \<not> hasFaceId (rt_faceId route) entry
                      then rib\<lparr>rib_faceMap := (rib_faceMap rib)(rt_faceId route := removeAll x (rib_faceMap rib (rt_faceId route)))\<rparr>
                      else rib);
           if re_routes entry = [] then eraseEntry pfx x rib else Some rib
         }
       })"

section \<open>Inherited routes\<close>

definition insert_inherited :: "route list \<Rightarrow> route_set \<Rightarrow> route_set" where
  "insert_inherited routes ancestorRoutes =
    fold (\<lambda>route acc. if isChildInherit route then rs_insert route acc else acc) routes ancestorRoutes"

text \<open>The loop of \<^verbatim>\<open>getAncestorRoutes\<close> along the parent pointers.\<close>

partial_function (option) ancestor_loop :: "rib \<Rightarrow> rib_ref option \<Rightarrow> route_set \<Rightarrow> route_set option" where
  "ancestor_loop rib parent ancestorRoutes =
    (case parent of
       None \<Rightarrow> Some ancestorRoutes
     | Some p \<Rightarrow> do {
         e \<leftarrow> rib_entries rib p;
         let ancestorRoutes = insert_inherited (re_routes e) ancestorRoutes;
         if hasCapture e then Some ancestorRoutes else ancestor_loop rib (re_parent e) ancestorRoutes
       })"

declare ancestor_loop.simps [code]

definition getAncestorRoutes :: "rib_entry \<Rightarrow> rib \<Rightarrow> route_set option" where
  "getAncestorRoutes entry rib = ancestor_loop rib (re_parent entry) []"

definition getAncestorRoutes_name :: "name \<Rightarrow> rib \<Rightarrow> route_set option" where
  "getAncestorRoutes_name name rib = ancestor_loop rib (findParent name rib) []"

text \<open>\<^verbatim>\<open>findRoutesWithFaceId\<close>, from the face lookup table.\<close>

fun routes_of_entries :: "u64 \<Rightarrow> rib_ref list \<Rightarrow> rib \<Rightarrow> (name \<times> route) list option" where
  "routes_of_entries faceId [] rib = Some []"
| "routes_of_entries faceId (x # xs) rib = do {
     e \<leftarrow> rib_entries rib x;
     rest \<leftarrow> routes_of_entries faceId xs rib;
     Some (map (\<lambda>r. (re_name e, r)) (filter (\<lambda>r. rt_faceId r = faceId) (re_routes e)) @ rest)
   }"

definition findRoutesWithFaceId :: "u64 \<Rightarrow> rib \<Rightarrow> (name \<times> route) list option" where
  "findRoutesWithFaceId faceId rib = routes_of_entries faceId (rib_faceMap rib faceId) rib"

end
