(* ===== verification/Rib_Correct.thy ===== *)
theory Rib_Correct
  imports Rib_Table
begin

text \<open>
  The RIB keeps its entries in a tree: the parent of an entry is the entry of the longest proper prefix of its name, the
  children are the entries it is the parent of.  The theory shows that insertions and removals keep the tree, the
  face lookup table and the counters right, never fail an assertion, and act on the map from names to routes as they should.
\<close>

section \<open>The invariant\<close>

definition rib_at :: "rib \<Rightarrow> name \<Rightarrow> rib_ref \<Rightarrow> rib_entry \<Rightarrow> bool" where
  "rib_at rib n x e \<longleftrightarrow> rib_find n rib = Some x \<and> rib_entries rib x = Some e"

definition rib_names :: "rib \<Rightarrow> name set" where
  "rib_names rib = fst ` set (rib_table rib)"

definition same_route :: "route \<Rightarrow> u64 \<times> u64" where
  "same_route r = (rt_faceId r, rt_origin r)"

definition entry_wf :: "rib_entry \<Rightarrow> bool" where
  "entry_wf e \<longleftrightarrow> distinct (map same_route (re_routes e)) \<and>
     re_nRoutesWithCaptureSet e = of_nat (length (filter isCapture (re_routes e)))"

definition tree_ok :: "rib \<Rightarrow> bool" where
  "tree_ok rib \<longleftrightarrow> sorted_wrt (<) (map fst (rib_table rib)) \<and>
     (\<forall>n x. rib_find n rib = Some x \<longrightarrow> x < rib_next rib \<and> (\<exists>e. rib_entries rib x = Some e \<and> re_name e = n)) \<and>
     (\<forall>n x e. rib_at rib n x e \<longrightarrow> re_parent e = findParent n rib \<and> distinct (re_children e) \<and>
        (\<forall>c. c \<in> set (re_children e) \<longleftrightarrow> (\<exists>m. rib_find m rib = Some c \<and> findParent m rib = Some x)))"

text \<open>The routes of a name.\<close>

definition rib_routes :: "rib \<Rightarrow> name \<Rightarrow> route list" where
  "rib_routes rib n = (case rib_find n rib of None \<Rightarrow> [] | Some x \<Rightarrow>
     (case rib_entries rib x of None \<Rightarrow> [] | Some e \<Rightarrow> re_routes e))"

definition rib_inv :: "rib \<Rightarrow> bool" where
  "rib_inv rib \<longleftrightarrow> tree_ok rib \<and>
     (\<forall>n x e. rib_at rib n x e \<longrightarrow> re_routes e \<noteq> [] \<and> entry_wf e) \<and>
     (\<forall>f x. x \<in> set (rib_faceMap rib f) \<longleftrightarrow> (\<exists>n. rib_find n rib = Some x \<and> f \<in> rt_faceId ` set (rib_routes rib n))) \<and>
     rib_nItems rib = of_nat (\<Sum>n \<in> rib_names rib. length (rib_routes rib n))"

section \<open>Lookups\<close>

lemma rib_find_names: "rib_find n rib = None \<longleftrightarrow> n \<notin> rib_names rib"
  by (simp add: rib_find_def rib_names_def map_of_eq_None_iff)

lemma rib_find_in: "rib_find n rib = Some x \<Longrightarrow> n \<in> rib_names rib"
  by (metis option.distinct(1) rib_find_names)

lemma names_find: "n \<in> rib_names rib \<Longrightarrow> \<exists>x. rib_find n rib = Some x"
  by (metis not_None_eq rib_find_names)

lemma names_iff: "n \<in> rib_names rib \<longleftrightarrow> (\<exists>x. rib_find n rib = Some x)"
  using names_find rib_find_in by blast

text \<open>The parent of a name: the entry of the longest proper prefix in the table.\<close>

definition parent_name :: "name set \<Rightarrow> name \<Rightarrow> name \<Rightarrow> bool" where
  "parent_name N n m \<longleftrightarrow> m \<in> N \<and> strict_prefix m n \<and> (\<forall>k \<in> N. strict_prefix k n \<longrightarrow> prefix k m)"

lemma parent_name_unique: "parent_name N n m \<Longrightarrow> parent_name N n m' \<Longrightarrow> m = m'"
  by (auto simp: parent_name_def intro: prefix_order.antisym)

lemma findParent_loop_spec:
  "i \<le> length n \<Longrightarrow>
   (case findParent_loop rib n i of
      None \<Rightarrow> \<forall>k < i. take k n \<notin> rib_names rib
    | Some x \<Rightarrow> \<exists>k < i. rib_find (take k n) rib = Some x \<and> (\<forall>j < i. take j n \<in> rib_names rib \<longrightarrow> j \<le> k))"
proof (induction i)
  case (Suc i)
  show ?case
  proof (cases "rib_find (take i n) rib")
    case None
    then have "take i n \<notin> rib_names rib"
      by (simp add: rib_find_names)
    then show ?thesis
      using Suc None by (auto split: option.splits simp: less_Suc_eq)
  qed (auto simp: less_Suc_eq_le intro!: exI[of _ i])
qed simp

lemma strict_prefix_take: "strict_prefix k n \<longleftrightarrow> (\<exists>i < length n. k = take i n)"
proof
  assume "strict_prefix k n"
  then show "\<exists>i < length n. k = take i n"
    by (intro exI[of _ "length k"]) (auto simp: strict_prefix_def prefix_def)
next
  assume "\<exists>i < length n. k = take i n"
  then show "strict_prefix k n"
    by (metis length_take min.absorb4 nat_less_le strict_prefix_def take_is_prefix)
qed

lemma findParent_spec:
  "case findParent n rib of
     None \<Rightarrow> \<forall>k \<in> rib_names rib. \<not> strict_prefix k n
   | Some x \<Rightarrow> \<exists>m. rib_find m rib = Some x \<and> parent_name (rib_names rib) n m"
proof (cases "findParent n rib")
  case None
  then show ?thesis
    using findParent_loop_spec[of "length n" n rib] by (auto simp: findParent_def strict_prefix_take)
next
  case (Some x)
  then obtain k where k: "k < length n" "rib_find (take k n) rib = Some x"
    "\<forall>j < length n. take j n \<in> rib_names rib \<longrightarrow> j \<le> k"
    using findParent_loop_spec[of "length n" n rib] by (auto simp: findParent_def)
  have "parent_name (rib_names rib) n (take k n)"
    unfolding parent_name_def
  proof (intro conjI ballI impI)
    show "take k n \<in> rib_names rib"
      using k(2) by (rule rib_find_in)
    show "strict_prefix (take k n) n"
      using k(1) by (auto simp: strict_prefix_take)
    fix q assume "q \<in> rib_names rib" "strict_prefix q n"
    then obtain j where "j < length n" "q = take j n" "j \<le> k"
      using k(3) by (auto simp: strict_prefix_take)
    then show "prefix q (take k n)"
      by (metis min.absorb_iff1 take_is_prefix take_take)
  qed
  then show ?thesis
    using Some k(2) by auto
qed

lemma findParent_Some:
  "findParent n rib = Some x \<longleftrightarrow> (\<exists>m. rib_find m rib = Some x \<and> parent_name (rib_names rib) n m)"
proof
  assume "\<exists>m. rib_find m rib = Some x \<and> parent_name (rib_names rib) n m"
  then obtain m where m: "rib_find m rib = Some x" "parent_name (rib_names rib) n m"
    by blast
  show "findParent n rib = Some x"
  proof (cases "findParent n rib")
    case None
    then show ?thesis
      using findParent_spec[where n = n and rib = rib] m(2) by (auto simp: parent_name_def)
  next
    case (Some y)
    then obtain m' where "rib_find m' rib = Some y" "parent_name (rib_names rib) n m'"
      using findParent_spec[where n = n and rib = rib] by auto
    then show ?thesis
      using Some m parent_name_unique[of "rib_names rib" n m m'] by auto
  qed
qed (use findParent_spec[where n = n and rib = rib] in \<open>auto split: option.splits\<close>)

lemma findParent_None: "findParent n rib = None \<longleftrightarrow> (\<forall>k \<in> rib_names rib. \<not> strict_prefix k n)"
  using findParent_spec[where n = n and rib = rib] by (auto split: option.splits simp: parent_name_def)

lemma findParent_cong: "rib_table rib = rib_table rib' \<Longrightarrow> findParent n rib = findParent n rib'"
proof -
  assume "rib_table rib = rib_table rib'"
  then have "findParent_loop rib n i = findParent_loop rib' n i" for i
    by (induction i) (simp_all add: rib_find_def split: option.split)
  then show ?thesis
    by (simp add: findParent_def)
qed

text \<open>Names that follow a name in the canonical order and have it as a prefix follow it directly.\<close>

lemma takeWhile_descendants:
  fixes t :: "(name \<times> rib_ref) list"
  assumes "sorted_wrt (<) (map fst t)" and "map_of t n = Some x"
  shows "takeWhile (\<lambda>(m, _). prefix n m) (tl (dropWhile (\<lambda>(m, _). m \<noteq> n) t)) = filter (\<lambda>(m, _). strict_prefix n m) t"
  using assms
proof (induction t)
  case (Cons p t)
  obtain m y where p: "p = (m, y)"
    by (cases p)
  show ?case
  proof (cases "m = n")
    case True
    have "sorted_wrt (<) (map fst t)" and gt: "\<forall>q \<in> set t. n < fst q"
      using Cons.prems p True by auto
    then have "takeWhile (\<lambda>(m, _). prefix n m) t = filter (\<lambda>(m, _). strict_prefix n m) t"
    proof (induction t)
      case (Cons q t)
      show ?case
      proof (cases "prefix n (fst q)")
        case True
        then show ?thesis
          using Cons by (cases "fst q = n") (simp_all add: split_beta strict_prefix_def)
      next
        case False
        have "\<not> strict_prefix n (fst r)" if "r \<in> set t" for r
          using prefix_convex[of n "fst r" "fst q"] that False Cons.prems by (auto simp: strict_prefix_def order.strict_implies_order)
        then show ?thesis
          using False by (auto simp: split_beta strict_prefix_def filter_empty_conv)
      qed
    qed simp
    then show ?thesis
      using p True by simp
  next
    case False
    have "(n, x) \<in> set t"
      using Cons.prems(2) p False by (auto dest: map_of_SomeD)
    then have "m < n"
      using Cons.prems(1) p by auto
    then have "\<not> strict_prefix n m"
      using prefix_le[of n m] by (auto simp: strict_prefix_def)
    then show ?thesis
      using Cons p False by auto
  qed
qed simp

lemma findDescendants_spec:
  assumes "sorted_wrt (<) (map fst (rib_table rib))" and "rib_find n rib = Some x"
  shows "findDescendants n rib = map snd (filter (\<lambda>(m, _). strict_prefix n m) (rib_table rib))"
  using assms takeWhile_descendants[of "rib_table rib" n x] by (simp add: findDescendants_def rib_find_def)

section \<open>Linking\<close>

text \<open>The store after an entry has taken over the given children, and after one has handed its children over.\<close>

definition adopted :: "rib_ref option \<Rightarrow> rib_ref \<Rightarrow> rib_ref list \<Rightarrow> (rib_ref \<Rightarrow> rib_entry option) \<Rightarrow> rib_ref \<Rightarrow> rib_entry option" where
  "adopted par x cs es y =
    (if y \<in> set cs then map_option (\<lambda>e. e\<lparr>re_parent := Some x\<rparr>) (es y)
     else if y = x then map_option (\<lambda>e. e\<lparr>re_children := re_children e @ cs\<rparr>) (es y)
     else if Some y = par then map_option (\<lambda>e. e\<lparr>re_children := filter (\<lambda>c. c \<notin> set cs) (re_children e)\<rparr>) (es y)
     else es y)"

definition handed :: "rib_ref option \<Rightarrow> rib_ref \<Rightarrow> rib_ref list \<Rightarrow> (rib_ref \<Rightarrow> rib_entry option) \<Rightarrow> rib_ref \<Rightarrow> rib_entry option" where
  "handed par x cs es y =
    (if y \<in> set cs then map_option (\<lambda>e. e\<lparr>re_parent := par\<rparr>) (es y)
     else if y = x then map_option (\<lambda>e. e\<lparr>re_children := filter (\<lambda>c. c \<notin> set cs) (re_children e)\<rparr>) (es y)
     else if Some y = par then map_option (\<lambda>e. e\<lparr>re_children := re_children e @ cs\<rparr>) (es y)
     else es y)"

lemmas link_defs = addChild_def removeChild_def rib_update_entry_def

lemma removeAll_filter: "removeAll c xs = filter (\<lambda>y. y \<noteq> c) xs"
  by (induction xs) auto

lemma adopt_step:
  assumes c: "rib_entries rib c = Some e" "re_parent e = par" and "c \<noteq> x" and par: "\<forall>p. par = Some p \<longrightarrow> p \<noteq> c \<and> p \<noteq> x"
  shows "Option.bind (case par of None \<Rightarrow> Some rib | Some p \<Rightarrow> removeChild p c rib) (addChild x c) =
    Some (rib\<lparr>rib_entries := adopted par x [c] (rib_entries rib)\<rparr>)"
  using assms by (cases par) (auto simp: link_defs adopted_def removeAll_filter intro!: rib.equality ext)

lemma adopted_Cons:
  assumes "c \<notin> set cs" "x \<notin> set (c # cs)" "\<forall>p. par = Some p \<longrightarrow> p \<notin> set (c # cs) \<and> p \<noteq> x"
  shows "adopted par x cs (adopted par x [c] es) = adopted par x (c # cs) es"
  using assms by (intro ext) (auto simp: adopted_def option.map_comp comp_def filter_filter intro!: option.map_cong0)

lemma adopt_children_ok:
  assumes "distinct cs" and "x \<notin> set cs" and "\<forall>p. par = Some p \<longrightarrow> p \<notin> set cs \<and> p \<noteq> x"
    and "\<forall>c \<in> set cs. rib_entries rib c \<noteq> None"
  shows "adopt_children par x cs rib = Some (rib\<lparr>rib_entries :=
    adopted par x (filter (\<lambda>c. \<exists>e. rib_entries rib c = Some e \<and> re_parent e = par) cs) (rib_entries rib)\<rparr>)"
  using assms
proof (induction cs arbitrary: rib)
  case Nil
  have "adopted par x [] (rib_entries rib) = rib_entries rib"
    by (intro ext) (simp add: adopted_def option.map_ident)
  then show ?case
    by simp
next
  case (Cons c cs)
  obtain e where e: "rib_entries rib c = Some e"
    using Cons.prems(4) by auto
  show ?case
  proof (cases "re_parent e = par")
    case True
    let ?rib = "rib\<lparr>rib_entries := adopted par x [c] (rib_entries rib)\<rparr>"
    have same: "rib_entries ?rib d = rib_entries rib d" if "d \<in> set cs" for d
      using that Cons.prems by (auto simp: adopted_def)
    have "adopt_children par x cs ?rib = Some (?rib\<lparr>rib_entries :=
        adopted par x (filter (\<lambda>c. \<exists>e. rib_entries ?rib c = Some e \<and> re_parent e = par) cs) (rib_entries ?rib)\<rparr>)"
      using Cons.prems same by (intro Cons.IH) auto
    moreover have "filter (\<lambda>c. \<exists>e. rib_entries ?rib c = Some e \<and> re_parent e = par) cs =
        filter (\<lambda>c. \<exists>e. rib_entries rib c = Some e \<and> re_parent e = par) cs"
      using same by (auto intro!: filter_cong)
    moreover have "adopt_children par x (c # cs) rib = adopt_children par x cs ?rib"
      using adopt_step[OF e True, of x] Cons.prems True e by (auto simp: bind_assoc[symmetric] simp del: bind_assoc)
    ultimately show ?thesis
      using adopted_Cons[of c "filter (\<lambda>c. \<exists>e. rib_entries rib c = Some e \<and> re_parent e = par) cs" x par] Cons.prems True e
      by simp
  next
    case False
    then show ?thesis
      using Cons e by simp
  qed
qed

lemma hand_step:
  assumes c: "rib_entries rib c = Some e" "re_parent e = Some x" and "c \<noteq> x" and par: "\<forall>p. par = Some p \<longrightarrow> p \<noteq> c \<and> p \<noteq> x"
  shows "Option.bind (removeChild x c rib) (\<lambda>rib. case par of None \<Rightarrow> Some rib | Some p \<Rightarrow> addChild p c rib) =
    Some (rib\<lparr>rib_entries := handed par x [c] (rib_entries rib)\<rparr>)"
  using assms by (cases par) (auto simp: link_defs handed_def removeAll_filter intro!: rib.equality ext)

lemma handed_Cons:
  assumes "c \<notin> set cs" "x \<notin> set (c # cs)" "\<forall>p. par = Some p \<longrightarrow> p \<notin> set (c # cs) \<and> p \<noteq> x"
  shows "handed par x cs (handed par x [c] es) = handed par x (c # cs) es"
  using assms by (intro ext) (auto simp: handed_def option.map_comp comp_def filter_filter intro!: option.map_cong0)

lemma hand_over_ok:
  assumes "distinct cs" and "x \<notin> set cs" and "\<forall>p. par = Some p \<longrightarrow> p \<notin> set cs \<and> p \<noteq> x"
    and "\<forall>c \<in> set cs. \<exists>e. rib_entries rib c = Some e \<and> re_parent e = Some x"
  shows "hand_over par x cs rib = Some (rib\<lparr>rib_entries := handed par x cs (rib_entries rib)\<rparr>)"
  using assms
proof (induction cs arbitrary: rib)
  case Nil
  have "handed par x [] (rib_entries rib) = rib_entries rib"
    by (intro ext) (simp add: handed_def option.map_ident)
  then show ?case
    by simp
next
  case (Cons c cs)
  obtain e where e: "rib_entries rib c = Some e" "re_parent e = Some x"
    using Cons.prems(4) by auto
  let ?rib = "rib\<lparr>rib_entries := handed par x [c] (rib_entries rib)\<rparr>"
  have "hand_over par x cs ?rib = Some (?rib\<lparr>rib_entries := handed par x cs (rib_entries ?rib)\<rparr>)"
    using Cons.prems by (intro Cons.IH) (auto simp: handed_def)
  moreover have "hand_over par x (c # cs) rib = hand_over par x cs ?rib"
    using hand_step[OF e, of par] Cons.prems by (auto simp: bind_assoc[symmetric] simp del: bind_assoc)
  ultimately show ?case
    using handed_Cons[of c cs x par] Cons.prems by simp
qed

section \<open>Parents after a change of the table\<close>

lemma tree_okD:
  assumes "tree_ok rib"
  shows "sorted_wrt (<) (map fst (rib_table rib))"
    "rib_find n rib = Some x \<Longrightarrow> x < rib_next rib \<and> (\<exists>e. rib_entries rib x = Some e \<and> re_name e = n)"
    "rib_at rib n x e \<Longrightarrow> re_parent e = findParent n rib"
    "rib_at rib n x e \<Longrightarrow> distinct (re_children e)"
    "rib_at rib n x e \<Longrightarrow> c \<in> set (re_children e) \<longleftrightarrow> (\<exists>m. rib_find m rib = Some c \<and> findParent m rib = Some x)"
    "rib_at rib n x e \<Longrightarrow> re_name e = n"
proof -
  show "sorted_wrt (<) (map fst (rib_table rib))"
    using assms by (simp add: tree_ok_def)
  show name: "rib_find n rib = Some x \<Longrightarrow> x < rib_next rib \<and> (\<exists>e. rib_entries rib x = Some e \<and> re_name e = n)"
    using assms by (simp add: tree_ok_def)
  show "rib_at rib n x e \<Longrightarrow> re_parent e = findParent n rib" "rib_at rib n x e \<Longrightarrow> distinct (re_children e)"
    "rib_at rib n x e \<Longrightarrow> c \<in> set (re_children e) \<longleftrightarrow> (\<exists>m. rib_find m rib = Some c \<and> findParent m rib = Some x)"
    using assms by (simp_all add: tree_ok_def)
  show "rib_at rib n x e \<Longrightarrow> re_name e = n"
    using name by (auto simp: rib_at_def)
qed

lemma rib_find_inj: "tree_ok rib \<Longrightarrow> rib_find n rib = Some x \<Longrightarrow> rib_find m rib = Some x \<Longrightarrow> n = m"
  using tree_okD(2)[of rib n x] tree_okD(2)[of rib m x] by auto

lemma rib_find_at: "tree_ok rib \<Longrightarrow> rib_find n rib = Some x \<Longrightarrow> \<exists>e. rib_at rib n x e"
  using tree_okD(2) by (fastforce simp: rib_at_def)

lemma findParent_insert:
  assumes inj: "\<And>a b y. rib_find a rib = Some y \<Longrightarrow> rib_find b rib = Some y \<Longrightarrow> a = b"
    and new: "rib_find n rib = None" and find: "\<And>k. rib_find k rib' = (if k = n then Some x else rib_find k rib)"
  shows "findParent m rib' = (if strict_prefix n m \<and> findParent m rib = findParent n rib then Some x else findParent m rib)"
proof -
  let ?N = "rib_names rib"
  have names: "rib_names rib' = insert n ?N"
    using find rib_find_names by (metis (no_types, opaque_lifting) insert_iff option.distinct(1) set_eqI)
  have n: "n \<notin> ?N"
    using new by (simp add: rib_find_names)
  have keep: "findParent m rib' = findParent m rib"
    if "\<And>k. parent_name (insert n ?N) m k \<longleftrightarrow> parent_name ?N m k"
  proof -
    have "rib_find k rib' = rib_find k rib" if "parent_name ?N m k" for k
      using that find n by (auto simp: parent_name_def)
    then have "findParent m rib' = Some y \<longleftrightarrow> findParent m rib = Some y" for y
      unfolding findParent_Some names that by (intro iff_exI) auto
    then show ?thesis
      by (metis option.exhaust)
  qed
  show ?thesis
  proof (cases "strict_prefix n m")
    case below: True
    show ?thesis
    proof (cases "findParent m rib = findParent n rib")
      case True
      have "prefix k n" if k: "k \<in> ?N" "strict_prefix k m" for k
      proof (rule ccontr)
        assume "\<not> prefix k n"
        then have nk: "strict_prefix n k"
          using below k(2) by (metis prefix_order.less_le prefix_same_cases prefix_order.le_less)
        obtain y q where q: "findParent m rib = Some y" "rib_find q rib = Some y" "parent_name ?N m q"
          using findParent_None[where n = m and rib = rib] k by (metis findParent_Some option.exhaust)
        then obtain q' where "rib_find q' rib = Some y" "strict_prefix q' n"
          using True findParent_Some[where n = n and rib = rib] by (auto simp: parent_name_def)
        then have "strict_prefix q n"
          using inj q(2) by blast
        moreover have "prefix k q"
          using q(3) k by (auto simp: parent_name_def)
        ultimately show False
          using nk by (meson prefix_order.le_less_trans prefix_order.less_irrefl prefix_order.less_trans)
      qed
      then have "parent_name (insert n ?N) m n"
        using below by (auto simp: parent_name_def)
      then have "findParent m rib' = Some x"
        unfolding findParent_Some names using find by auto
      then show ?thesis
        using True below by simp
    next
      case False
      obtain y q where q: "findParent m rib = Some y" "rib_find q rib = Some y" "parent_name ?N m q"
      proof (cases "findParent m rib")
        case None
        then have "findParent n rib = None"
          unfolding findParent_None using below prefix_order.less_trans by blast
        then show ?thesis
          using None False by simp
      qed (use that findParent_Some in blast)
      have "\<not> prefix q n"
      proof
        assume "prefix q n"
        then have "parent_name ?N n q"
          using q(3) n below unfolding parent_name_def
          by (metis prefix_order.le_neq_trans prefix_order.less_trans)
        then show False
          using q(1,2) False findParent_Some by metis
      qed
      then have "prefix n q"
        using q(3) below by (metis parent_name_def prefix_order.less_imp_le prefix_same_cases)
      then have "parent_name (insert n ?N) m k \<longleftrightarrow> parent_name ?N m k" for k
        using q(3) n below unfolding parent_name_def by (metis insert_iff prefix_order.antisym)
      then show ?thesis
        using keep False by simp
    qed
  next
    case False
    then show ?thesis
      using keep by (auto simp: parent_name_def)
  qed
qed

section \<open>A new entry\<close>

definition same_data :: "rib_entry \<Rightarrow> rib_entry \<Rightarrow> bool" where
  "same_data e e' \<longleftrightarrow> re_name e' = re_name e \<and> re_routes e' = re_routes e \<and> re_inheritedRoutes e' = re_inheritedRoutes e \<and>
     re_nRoutesWithCaptureSet e' = re_nRoutesWithCaptureSet e"

lemma same_data_refl [simp]: "same_data e e"
  by (simp add: same_data_def)

lemma same_data_wf: "same_data e e' \<Longrightarrow> entry_wf e' = entry_wf e" "same_data e e' \<Longrightarrow> hasFaceId f e' = hasFaceId f e"
  "same_data e e' \<Longrightarrow> re_routes e' = re_routes e"
  by (simp_all add: same_data_def entry_wf_def hasFaceId_def)

text \<open>The store after the entry \<open>x\<close> was linked between its parent and the children it takes over.\<close>

definition linked :: "rib_ref option \<Rightarrow> rib_ref \<Rightarrow> rib_entry \<Rightarrow> rib_ref list \<Rightarrow> (rib_ref \<Rightarrow> rib_entry option) \<Rightarrow> rib_ref \<Rightarrow> rib_entry option" where
  "linked par x entry cs es y =
    (if y = x then Some (entry\<lparr>re_parent := par, re_children := cs\<rparr>)
     else if y \<in> set cs then map_option (\<lambda>e. e\<lparr>re_parent := Some x\<rparr>) (es y)
     else if Some y = par then map_option (\<lambda>e. e\<lparr>re_children := filter (\<lambda>c. c \<notin> set cs) (re_children e) @ [x]\<rparr>) (es y)
     else es y)"

lemma linked_same_data: "es y = Some e \<Longrightarrow> y \<noteq> x \<Longrightarrow> \<exists>e'. linked par x entry cs es y = Some e' \<and> same_data e e'"
  by (simp add: linked_def same_data_def)

lemma map_of_map_assign: "map_of (map_assign k v xs) q = (if q = k then Some v else map_of xs q)"
  by (induction k v xs rule: map_assign.induct) auto

text \<open>The children that a new entry takes over from its parent.\<close>

definition new_children :: "rib \<Rightarrow> name \<Rightarrow> rib_ref list" where
  "new_children rib n = map snd (filter (\<lambda>(m, c). strict_prefix n m \<and> findParent m rib = findParent n rib) (rib_table rib))"

lemma table_distinct: "tree_ok rib \<Longrightarrow> distinct (map fst (rib_table rib))"
  using tree_okD(1)[of rib] by (simp add: strict_sorted_iff flip: sorted_wrt_map)

lemma refs_distinct: "tree_ok rib \<Longrightarrow> distinct (map snd (rib_table rib))"
  using rib_find_inj[of rib] table_distinct[of rib] by (auto simp: distinct_map rib_find_def inj_on_def)

lemma new_children_iff:
  assumes "tree_ok rib"
  shows "c \<in> set (new_children rib n) \<longleftrightarrow>
    (\<exists>m. rib_find m rib = Some c \<and> strict_prefix n m \<and> findParent m rib = findParent n rib)"
  using table_distinct[OF assms] unfolding new_children_def rib_find_def by (force simp: map_of_eq_Some_iff)

lemma new_children_name:
  assumes "tree_ok rib" "rib_find m rib = Some c"
  shows "c \<in> set (new_children rib n) \<longleftrightarrow> strict_prefix n m \<and> findParent m rib = findParent n rib"
  using assms rib_find_inj[OF assms(1)] unfolding new_children_iff[OF assms(1)] by blast

lemma new_children_distinct: "tree_ok rib \<Longrightarrow> distinct (new_children rib n)"
  unfolding new_children_def by (rule distinct_map_filter) (rule refs_distinct)

definition links_new :: "rib \<Rightarrow> name \<Rightarrow> rib_ref \<Rightarrow> rib_entry \<Rightarrow> rib \<Rightarrow> bool" where
  "links_new rib n x entry rib' \<longleftrightarrow> tree_ok rib \<and> rib_find n rib = None \<and> x = rib_next rib \<and> re_name entry = n \<and>
     rib_table rib' = map_assign n x (rib_table rib) \<and> rib_next rib' = x + 1 \<and>
     rib_entries rib' = linked (findParent n rib) x entry (new_children rib n) (rib_entries rib)"

lemma links_new_find: "links_new rib n x entry rib' \<Longrightarrow> rib_find k rib' = (if k = n then Some x else rib_find k rib)"
  by (simp add: links_new_def rib_find_def map_of_map_assign)

lemma next_fresh:
  assumes "tree_ok rib"
  shows "rib_find k rib \<noteq> Some (rib_next rib)" "findParent k rib \<noteq> Some (rib_next rib)"
  using tree_okD(2)[OF assms, of _ "rib_next rib"] findParent_Some[where n = k and rib = rib] by auto

lemma links_new_fresh:
  assumes "links_new rib n x entry rib'"
  shows "rib_find k rib \<noteq> Some x" "findParent k rib \<noteq> Some x"
  using assms next_fresh by (auto simp: links_new_def)

lemma links_new_parent:
  assumes "links_new rib n x entry rib'"
  shows "findParent m rib' = (if strict_prefix n m \<and> findParent m rib = findParent n rib then Some x else findParent m rib)"
  using assms findParent_insert[of rib n rib' x m] rib_find_inj[of rib] links_new_find[OF assms]
  unfolding links_new_def by blast

lemma links_new_child:
  assumes l: "links_new rib n x entry rib'"
  shows "(\<exists>m. rib_find m rib' = Some c \<and> findParent m rib' = Some y) \<longleftrightarrow>
    (c = x \<and> findParent n rib = Some y) \<or> (y = x \<and> c \<in> set (new_children rib n)) \<or>
    (c \<notin> set (new_children rib n) \<and> (\<exists>m. rib_find m rib = Some c \<and> findParent m rib = Some y))" (is "?l \<longleftrightarrow> ?r")
proof
  have ok: "tree_ok rib" and new: "rib_find n rib = None"
    using l by (auto simp: links_new_def)
  note find = links_new_find[OF l] and parent = links_new_parent[OF l]
  {
    assume ?l
    then obtain m where m: "rib_find m rib' = Some c" "findParent m rib' = Some y"
      by blast
    show ?r
    proof (cases "m = n")
      case True
      then show ?thesis
        using m by (auto simp: find parent)
    next
      case False
      then show ?thesis
        using m new_children_name[OF ok, of m c n] by (auto simp: find parent split: if_splits)
    qed
  next
    assume ?r
    then consider "c = x" "findParent n rib = Some y" | "y = x" "c \<in> set (new_children rib n)" |
      m where "c \<notin> set (new_children rib n)" "rib_find m rib = Some c" "findParent m rib = Some y"
      by blast
    then show ?l
    proof cases
      case 1
      then show ?thesis
        by (intro exI[of _ n]) (auto simp: find parent)
    next
      case 2
      then obtain m where "rib_find m rib = Some c" "strict_prefix n m" "findParent m rib = findParent n rib"
        unfolding new_children_iff[OF ok] by blast
      then show ?thesis
        using 2(1) by (intro exI[of _ m]) (auto simp: find parent)
    next
      case 3
      then show ?thesis
        using new new_children_name[OF ok, of m c n] by (intro exI[of _ m]) (auto simp: find parent)
    qed
  }
qed

lemma links_new_old:
  assumes "links_new rib n x entry rib'" "rib_at rib' m y e'" "m \<noteq> n"
  obtains e where "rib_at rib m y e" "y \<noteq> x" "same_data e e'"
proof -
  have find: "rib_find m rib = Some y"
    using assms links_new_find[OF assms(1), of m] by (simp add: rib_at_def)
  then obtain e where "rib_at rib m y e" "y \<noteq> x"
    using rib_find_at[of rib m y] assms(1) links_new_fresh[OF assms(1)] by (auto simp: links_new_def)
  moreover from this have "same_data e e'"
    using assms(1,2) linked_same_data[of "rib_entries rib" y e x "findParent n rib" entry "new_children rib n"]
    by (auto simp: links_new_def rib_at_def)
  ultimately show thesis
    using that by blast
qed

lemma parent_not_adopted:
  assumes "tree_ok rib" "findParent n rib = Some p"
  shows "p \<notin> set (new_children rib n)"
proof
  assume "p \<in> set (new_children rib n)"
  then obtain m where "rib_find m rib = Some p" "strict_prefix n m"
    unfolding new_children_iff[OF assms(1)] by blast
  moreover obtain k where "rib_find k rib = Some p" "strict_prefix k n"
    using assms(2) unfolding findParent_Some parent_name_def by blast
  ultimately show False
    using rib_find_inj[OF assms(1)] prefix_order.less_asym by blast
qed

lemma links_new_links:
  assumes l: "links_new rib n x entry rib'" and at': "rib_at rib' m y e'"
  shows "re_parent e' = findParent m rib' \<and> distinct (re_children e') \<and>
    (\<forall>c. c \<in> set (re_children e') \<longleftrightarrow> (\<exists>m. rib_find m rib' = Some c \<and> findParent m rib' = Some y))"
proof (cases "m = n")
  case True
  then have "y = x" "re_children e' = new_children rib n" "re_parent e' = findParent n rib" "tree_ok rib"
    using l at' links_new_find[OF l, of m] by (auto simp: rib_at_def links_new_def linked_def)
  then show ?thesis
    using True links_new_fresh[OF l] links_new_parent[OF l, of n] new_children_distinct[of rib n]
    unfolding links_new_child[OF l] by auto
next
  case False
  have ok: "tree_ok rib"
    using l by (simp add: links_new_def)
  obtain e where e: "rib_at rib m y e" "y \<noteq> x"
    using links_new_old[OF l at' False] by blast
  have ad: "y \<in> set (new_children rib n) \<longleftrightarrow> strict_prefix n m \<and> findParent m rib = findParent n rib"
    using new_children_name[OF ok, of m y n] e(1) by (simp add: rib_at_def)
  have es: "rib_entries rib' y = linked (findParent n rib) x entry (new_children rib n) (rib_entries rib) y"
    using l by (simp add: links_new_def)
  have par: "re_parent e' = findParent m rib'"
    using at' e es ad tree_okD(3)[OF ok e(1)] links_new_parent[OF l, of m] by (auto simp: rib_at_def linked_def split: if_splits)
  have "re_children e' = (if findParent n rib = Some y then filter (\<lambda>c. c \<notin> set (new_children rib n)) (re_children e) @ [x]
      else re_children e)"
    using at' e es parent_not_adopted[OF ok, of n y] by (auto simp: rib_at_def linked_def split: if_splits)
  moreover have "x \<notin> set (re_children e)"
    using tree_okD(5)[OF ok e(1)] links_new_fresh[OF l] by auto
  moreover have "c \<notin> set (new_children rib n)" if "rib_find k rib = Some c" "findParent k rib = Some y" "findParent n rib \<noteq> Some y" for c k
    using that new_children_name[OF ok, of k c n] by auto
  ultimately show ?thesis
    using par tree_okD(4,5)[OF ok e(1)] e(2) unfolding links_new_child[OF l] by auto
qed

lemma links_new_tree:
  assumes l: "links_new rib n x entry rib'"
  shows "tree_ok rib'"
proof -
  have ok: "tree_ok rib" and new: "map_of (rib_table rib) n = None"
    using l by (auto simp: links_new_def rib_find_def)
  have "sorted_wrt (<) (map fst (rib_table rib'))"
    using map_assign_sorted[OF tree_okD(1)[OF ok] new] l by (simp add: links_new_def)
  moreover have "y < rib_next rib' \<and> (\<exists>e. rib_entries rib' y = Some e \<and> re_name e = m)" if "rib_find m rib' = Some y" for m y
    using that l links_new_find[OF l, of m] tree_okD(2)[OF ok, of m y] by (auto simp: links_new_def linked_def split: if_splits)
  ultimately show ?thesis
    unfolding tree_ok_def using links_new_links[OF l] by blast
qed

section \<open>Insertion\<close>

lemma rib_invD:
  assumes "rib_inv rib"
  shows "tree_ok rib" "rib_at rib n x e \<Longrightarrow> re_routes e \<noteq> []" "rib_at rib n x e \<Longrightarrow> entry_wf e"
    "x \<in> set (rib_faceMap rib f) \<longleftrightarrow> (\<exists>n. rib_find n rib = Some x \<and> f \<in> rt_faceId ` set (rib_routes rib n))"
    "rib_nItems rib = of_nat (\<Sum>n \<in> rib_names rib. length (rib_routes rib n))"
  using assms unfolding rib_inv_def by blast+

lemma finite_names [simp]: "finite (rib_names rib)"
  by (simp add: rib_names_def)

lemma rib_routes_at: "rib_at rib n x e \<Longrightarrow> rib_routes rib n = re_routes e"
  by (simp add: rib_routes_def rib_at_def)

lemma insert_findDescendants:
  assumes l: "tree_ok rib" "rib_find n rib = None"
    and rib': "rib_table rib' = map_assign n x (rib_table rib)"
  shows "findDescendants n rib' = map snd (filter (\<lambda>(m, _). strict_prefix n m) (rib_table rib))"
proof -
  have new: "map_of (rib_table rib) n = None"
    using l(2) by (simp add: rib_find_def)
  have sorted: "sorted_wrt (<) (map fst (rib_table rib'))"
    using map_assign_sorted[OF tree_okD(1)[OF l(1)] new] rib' by simp
  have find: "rib_find n rib' = Some x"
    by (simp add: rib_find_def rib' map_of_map_assign)
  have "filter (\<lambda>(m, _). strict_prefix n m) (map_assign n x t) = filter (\<lambda>(m, _). strict_prefix n m) t"
    if "map_of t n = None" for t
    using that by (induction n x t rule: map_assign.induct) (auto split: if_splits)
  then show ?thesis
    using findDescendants_spec[OF sorted find] new rib' by simp
qed

definition descendants :: "rib \<Rightarrow> name \<Rightarrow> rib_ref list" where
  "descendants rib n = map snd (filter (\<lambda>(m, _). strict_prefix n m) (rib_table rib))"

lemma descendants_at:
  assumes "tree_ok rib" "c \<in> set (descendants rib n)"
  obtains m e where "rib_at rib m c e" "strict_prefix n m"
proof -
  obtain m where "(m, c) \<in> set (rib_table rib)" "strict_prefix n m"
    using assms(2) by (auto simp: descendants_def)
  then show thesis
    using that table_distinct[OF assms(1)] rib_find_at[OF assms(1), of m c] by (auto simp: rib_find_def)
qed

lemma filter_new_children:
  assumes ok: "tree_ok rib" and same: "\<And>c. c \<in> set (descendants rib n) \<Longrightarrow> es c = rib_entries rib c"
  shows "filter (\<lambda>c. \<exists>e. es c = Some e \<and> re_parent e = findParent n rib) (descendants rib n) = new_children rib n"
proof -
  have "(\<exists>e. es c = Some e \<and> re_parent e = findParent n rib) \<longleftrightarrow> findParent m rib = findParent n rib"
    if mc: "(m, c) \<in> set (rib_table rib)" "strict_prefix n m" for m c
  proof -
    have "rib_find m rib = Some c"
      using mc(1) table_distinct[OF ok] by (simp add: rib_find_def)
    then obtain e where e: "rib_at rib m c e"
      using rib_find_at[OF ok] by blast
    have "es c = Some e"
      using same[of c] mc e by (force simp: descendants_def rib_at_def)
    then show ?thesis
      using tree_okD(3)[OF ok e] by simp
  qed
  then show ?thesis
    unfolding new_children_def descendants_def filter_map filter_filter comp_def
    by (intro arg_cong[where f = "map snd"] filter_cong refl) (clarsimp, blast)
qed

lemma rib_insert_new_eq:
  assumes inv: "tree_ok rib" and new: "rib_find n rib = None" and x: "x = rib_next rib"
    and entry: "entry = fst (insertRoute route (RibEntry\<lparr>re_name := n\<rparr>))"
  shows "rib_insert n route rib = Some (rib\<lparr>rib_table := map_assign n x (rib_table rib), rib_next := x + 1,
    rib_entries := linked (findParent n rib) x entry (new_children rib n) (rib_entries rib), rib_nItems := rib_nItems rib + 1,
    rib_faceMap := (rib_faceMap rib)(rt_faceId route := rib_faceMap rib (rt_faceId route) @ [x]),
    rib_signals := rib_signals rib @ [AfterInsertEntry n]\<rparr>)"
proof -
  let ?par = "findParent n rib" and ?cs = "descendants rib n" and ?ad = "new_children rib n"
  define rib1 where "rib1 = rib\<lparr>rib_table := map_assign n x (rib_table rib), rib_entries := (rib_entries rib)(x \<mapsto> entry),
    rib_next := x + 1, rib_nItems := rib_nItems rib + 1\<rparr>"
  define rib2 where "rib2 = rib1\<lparr>rib_entries := (\<lambda>y. if y = x then Some (entry\<lparr>re_parent := ?par\<rparr>)
    else if Some y = ?par then map_option (\<lambda>e. e\<lparr>re_children := re_children e @ [x]\<rparr>) (rib_entries rib y) else rib_entries rib y)\<rparr>"
  have fresh: "rib_find k rib \<noteq> Some x" "findParent k rib \<noteq> Some x" for k
    using next_fresh[OF inv] x by auto
  have par1: "findParent n rib1 = ?par"
    using findParent_insert[of rib n rib1 x n] rib_find_inj[OF inv] new by (auto simp: rib1_def rib_find_def map_of_map_assign)
  have e0: "re_parent entry = None" "re_children entry = []"
    by (simp_all add: entry insertRoute_def findRoute_def RibEntry_def Let_def)
  have step: "(case ?par of None \<Rightarrow> Some rib1 | Some p \<Rightarrow> addChild p x rib1) = Some rib2"
    using fresh(2)[of n] e0(1) by (cases ?par) (auto simp: rib2_def rib1_def link_defs intro!: rib.equality ext)
  have cs: "findDescendants n rib2 = ?cs"
    unfolding descendants_def by (rule insert_findDescendants[OF inv new]) (simp add: rib2_def rib1_def)
  have p_cs: "p \<notin> set ?cs \<and> p \<noteq> x" if p: "?par = Some p" for p
  proof -
    obtain k where "rib_find k rib = Some p" "strict_prefix k n"
      using p unfolding findParent_Some parent_name_def by blast
    then show ?thesis
      using rib_find_inj[OF inv] prefix_order.less_asym fresh(1) unfolding rib_at_def by (metis descendants_at[OF inv] rib_at_def)
  qed
  have x_cs: "x \<notin> set ?cs"
    using descendants_at[OF inv] fresh(1) unfolding rib_at_def by metis
  have same: "rib_entries rib2 c = rib_entries rib c" if "c \<in> set ?cs" for c
    using p_cs that x_cs by (auto simp: rib2_def)
  have "distinct ?cs" "\<forall>c \<in> set ?cs. rib_entries rib2 c \<noteq> None"
    using distinct_map_filter[OF refs_distinct[OF inv]] same descendants_at[OF inv]
    by (simp add: descendants_def, metis option.distinct(1) rib_at_def)
  then have "adopt_children ?par x ?cs rib2 = Some (rib2\<lparr>rib_entries := adopted ?par x ?ad (rib_entries rib2)\<rparr>)"
    using adopt_children_ok[of ?cs x ?par rib2] p_cs x_cs filter_new_children[OF inv same] by simp
  moreover have "adopted ?par x ?ad (rib_entries rib2) = linked ?par x entry ?ad (rib_entries rib)"
    using parent_not_adopted[OF inv, of n] fresh(2)[of n] e0(2) new_children_iff[OF inv, of x n] fresh(1)
    by (intro ext) (auto simp: adopted_def linked_def rib2_def option.map_comp comp_def)
  moreover have "rib_insert n route rib = do {
      rib \<leftarrow> (case findParent n rib1 of None \<Rightarrow> Some rib1 | Some p \<Rightarrow> addChild p x rib1);
      rib \<leftarrow> adopt_children (findParent n rib1) x (findDescendants n rib) rib;
      Some (rib\<lparr>rib_faceMap := (rib_faceMap rib)(rt_faceId route := rib_faceMap rib (rt_faceId route) @ [x]),
              rib_signals := rib_signals rib @ [AfterInsertEntry n]\<rparr>)
    }"
    unfolding rib_insert_def new option.case Let_def rib1_def x entry ..
  ultimately show ?thesis
    unfolding par1 by (simp add: step cs) (simp add: rib2_def rib1_def)
qed

text \<open>Changes of the data of one entry leave the tree alone.\<close>

lemma rib_update_entry_frame [simp]:
  "rib_table (rib_update_entry x g rib) = rib_table rib" "rib_next (rib_update_entry x g rib) = rib_next rib"
  "rib_faceMap (rib_update_entry x g rib) = rib_faceMap rib" "rib_nItems (rib_update_entry x g rib) = rib_nItems rib"
  "rib_find n (rib_update_entry x g rib) = rib_find n rib" "rib_names (rib_update_entry x g rib) = rib_names rib"
  "rib_cancelled (rib_update_entry x g rib) = rib_cancelled rib"
  by (simp_all add: rib_update_entry_def rib_find_def rib_names_def)

lemma rib_update_entry_at:
  "rib_at (rib_update_entry x g rib) n y e' \<longleftrightarrow> (\<exists>e. rib_at rib n y e \<and> e' = (if y = x then g e else e))"
  unfolding rib_at_def rib_update_entry_frame by (auto simp: rib_update_entry_def)

lemma tree_ok_frame:
  assumes ok: "tree_ok rib" and table: "rib_table rib' = rib_table rib" "rib_next rib' = rib_next rib"
    and keep: "\<And>n y e. rib_at rib n y e \<Longrightarrow> \<exists>e'. rib_entries rib' y = Some e' \<and> re_name e' = re_name e \<and>
      re_parent e' = re_parent e \<and> re_children e' = re_children e"
  shows "tree_ok rib'"
proof -
  have find: "rib_find n rib' = rib_find n rib" "findParent n rib' = findParent n rib" for n
    using table(1) findParent_cong[of rib' rib n] by (simp_all add: rib_find_def)
  have at: "\<exists>e. rib_at rib n y e \<and> re_name e' = n \<and> re_parent e' = re_parent e \<and> re_children e' = re_children e"
    if at': "rib_at rib' n y e'" for n y e'
  proof -
    obtain e where e: "rib_at rib n y e"
      using at' rib_find_at[OF ok, of n y] by (auto simp: rib_at_def find)
    then show ?thesis
      using keep[OF e] tree_okD(6)[OF ok e] at' by (auto simp: rib_at_def)
  qed
  have "x < rib_next rib' \<and> (\<exists>e. rib_entries rib' x = Some e \<and> re_name e = n)" if "rib_find n rib' = Some x" for n x
    using rib_find_at[OF ok, of n x] that keep tree_okD(2)[OF ok, of n x] table(2) by (fastforce simp: find rib_at_def)
  moreover have "re_parent e' = findParent n rib' \<and> distinct (re_children e') \<and>
      (\<forall>c. c \<in> set (re_children e') \<longleftrightarrow> (\<exists>m. rib_find m rib' = Some c \<and> findParent m rib' = Some y))"
    if at': "rib_at rib' n y e'" for n y e'
    using at[OF at'] tree_okD(3,4,5)[OF ok] by (auto simp: find)
  ultimately show ?thesis
    using tree_okD(1)[OF ok] table(1) unfolding tree_ok_def by simp
qed

lemma entry_wf_insert:
  assumes "entry_wf e" "findRoute route e = None"
  shows "entry_wf (fst (insertRoute route e))"
proof -
  have "same_route route \<notin> same_route ` set (re_routes e)"
    using assms(2) by (auto simp: findRoute_def find_None_all compareFaceIdAndOrigin_def same_route_def)
  then show ?thesis
    using assms by (auto simp: entry_wf_def insertRoute_def Let_def)
qed

lemma insertRoute_fields:
  "findRoute route e = None \<Longrightarrow> re_routes (fst (insertRoute route e)) = re_routes e @ [route]"
  "re_name (fst (insertRoute route e)) = re_name e" "re_parent (fst (insertRoute route e)) = re_parent e"
  "re_children (fst (insertRoute route e)) = re_children e" "re_inheritedRoutes (fst (insertRoute route e)) = re_inheritedRoutes e"
  by (simp_all add: insertRoute_def Let_def split: option.splits)

lemma hasFaceId_iff: "hasFaceId f e \<longleftrightarrow> f \<in> rt_faceId ` set (re_routes e)"
  by (auto simp: hasFaceId_def find_None_all compareFaceId_def)

lemma links_new_data:
  assumes "links_new rib n x entry rib'" "rib_at rib m y e"
  shows "\<exists>e'. rib_at rib' m y e' \<and> same_data e e'"
  using assms links_new_find[OF assms(1), of m] links_new_fresh[OF assms(1)]
    linked_same_data[of "rib_entries rib" y e x "findParent n rib" entry "new_children rib n"]
  by (auto simp: rib_at_def links_new_def)

lemma links_new_own:
  assumes "links_new rib n x entry rib'"
  shows "rib_at rib' n y e \<longleftrightarrow> y = x \<and> e = entry\<lparr>re_parent := findParent n rib, re_children := new_children rib n\<rparr>"
  using assms links_new_find[OF assms, of n] by (auto simp: rib_at_def links_new_def linked_def)

lemma links_new_routes:
  assumes l: "links_new rib n x entry rib'"
  shows "rib_routes rib' = (rib_routes rib)(n := re_routes entry)"
proof (intro ext)
  fix m
  show "rib_routes rib' m = ((rib_routes rib)(n := re_routes entry)) m"
  proof (cases "m = n")
    case True
    then show ?thesis
      using links_new_own[OF l] rib_routes_at[of rib' n x] by simp
  next
    case False
    then show ?thesis
      using links_new_data[OF l, of m] rib_find_at[of rib m] l links_new_find[OF l, of m]
      by (cases "rib_find m rib") (auto simp: rib_routes_def rib_at_def same_data_def links_new_def)
  qed
qed

lemma links_new_names:
  assumes "links_new rib n x entry rib'"
  shows "rib_names rib' = insert n (rib_names rib)" "n \<notin> rib_names rib"
  using links_new_find[OF assms] assms by (auto simp: names_iff links_new_def split: if_splits)

lemma rib_insert_new_ok:
  assumes inv: "rib_inv rib" and new: "rib_find n rib = None"
  shows "\<exists>rib'. rib_insert n route rib = Some rib' \<and> rib_inv rib' \<and>
    links_new rib n (rib_next rib) (fst (insertRoute route (RibEntry\<lparr>re_name := n\<rparr>))) rib' \<and>
    rib_routes rib' = (rib_routes rib)(n := [route]) \<and> rib_cancelled rib' = rib_cancelled rib"
proof -
  let ?x = "rib_next rib" and ?entry = "fst (insertRoute route (RibEntry\<lparr>re_name := n\<rparr>))"
  obtain rib' where ins: "rib_insert n route rib = Some rib'" and l: "links_new rib n ?x ?entry rib'"
    and rest: "rib_nItems rib' = rib_nItems rib + 1" "rib_cancelled rib' = rib_cancelled rib"
      "rib_faceMap rib' = (rib_faceMap rib)(rt_faceId route := rib_faceMap rib (rt_faceId route) @ [?x])"
    using rib_insert_new_eq[OF rib_invD(1)[OF inv] new refl refl, of route] rib_invD(1)[OF inv] new
    by (simp add: links_new_def insertRoute_fields)
  have f0: "findRoute route (RibEntry\<lparr>re_name := n\<rparr>) = None"
    by (simp add: findRoute_def RibEntry_def)
  have own_wf: "entry_wf ?entry" "re_routes ?entry = [route]"
    using entry_wf_insert[OF _ f0] by (auto simp: entry_wf_def insertRoute_fields(1)[OF f0]) (simp_all add: RibEntry_def)
  have routes: "rib_routes rib' = (rib_routes rib)(n := [route])"
    using links_new_routes[OF l] own_wf(2) by simp
  note names = links_new_names[OF l]
  have "(\<Sum>m \<in> rib_names rib'. length (rib_routes rib' m)) = Suc (\<Sum>m \<in> rib_names rib. length (rib_routes rib m))"
    using names(2) by (simp add: names(1) routes) (auto intro!: sum.cong)
  then have items: "rib_nItems rib' = of_nat (\<Sum>m \<in> rib_names rib'. length (rib_routes rib' m))"
    using rest(1) rib_invD(5)[OF inv] by simp
  have entries: "re_routes e' \<noteq> [] \<and> entry_wf e'" if at': "rib_at rib' m y e'" for m y e'
  proof (cases "m = n")
    case True
    then show ?thesis
      using at' links_new_own[OF l] own_wf by (simp add: entry_wf_def)
  next
    case False
    then show ?thesis
      using links_new_old[OF l at'] rib_invD(2,3)[OF inv] same_data_wf by metis
  qed
  have faces: "y \<in> set (rib_faceMap rib' f) \<longleftrightarrow> (\<exists>m. rib_find m rib' = Some y \<and> f \<in> rt_faceId ` set (rib_routes rib' m))" for y f
  proof -
    have "(\<exists>m. rib_find m rib' = Some y \<and> f \<in> rt_faceId ` set (rib_routes rib' m)) \<longleftrightarrow>
        (?x = y \<and> f = rt_faceId route) \<or> (\<exists>m. m \<noteq> n \<and> rib_find m rib = Some y \<and> f \<in> rt_faceId ` set (rib_routes rib m))"
      unfolding routes links_new_find[OF l] by (auto split: if_splits intro: exI[of _ n])
    moreover have "m \<noteq> n" if "rib_find m rib = Some y" for m
      using that new by auto
    moreover have "y \<in> set (rib_faceMap rib' f) \<longleftrightarrow> (?x = y \<and> f = rt_faceId route) \<or> y \<in> set (rib_faceMap rib f)"
      by (auto simp: rest(3))
    ultimately show ?thesis
      using rib_invD(4)[OF inv, of y f] by blast
  qed
  show ?thesis
    unfolding rib_inv_def using ins l routes rest(2) links_new_tree[OF l] entries faces items by blast
qed

text \<open>A change of the routes of one entry, with the face lookup table and the counter adjusted.\<close>

lemma rib_inv_data:
  assumes inv: "rib_inv rib" and at: "rib_at rib n x e"
    and rib': "rib_table rib' = rib_table rib" "rib_next rib' = rib_next rib" "rib_entries rib' = (rib_entries rib)(x \<mapsto> e')"
    and e': "re_name e' = re_name e" "re_parent e' = re_parent e" "re_children e' = re_children e" "entry_wf e'" "re_routes e' \<noteq> []"
    and faces: "\<And>f y. y \<in> set (rib_faceMap rib' f) \<longleftrightarrow>
      (if y = x then f \<in> rt_faceId ` set (re_routes e') else y \<in> set (rib_faceMap rib f))"
    and items: "rib_nItems rib' + of_nat (length (re_routes e)) = rib_nItems rib + of_nat (length (re_routes e'))"
  shows "rib_inv rib' \<and> rib_routes rib' = (rib_routes rib)(n := re_routes e')"
proof -
  note ok = rib_invD(1)[OF inv]
  have find: "rib_find m rib' = rib_find m rib" for m
    by (simp add: rib_find_def rib'(1))
  have x: "rib_find m rib = Some x \<longleftrightarrow> m = n" for m
    using at rib_find_inj[OF ok] by (auto simp: rib_at_def)
  have tree: "tree_ok rib'"
    by (rule tree_ok_frame[OF ok rib'(1,2)]) (use at e'(1-3) in \<open>auto simp: rib_at_def rib'(3)\<close>)
  have routes: "rib_routes rib' = (rib_routes rib)(n := re_routes e')"
  proof (intro ext)
    fix m
    show "rib_routes rib' m = ((rib_routes rib)(n := re_routes e')) m"
      using at x[of m] by (cases "m = n") (auto simp: rib_routes_def find rib'(3) rib_at_def split: option.split)
  qed
  have names: "rib_names rib' = rib_names rib" "n \<in> rib_names rib"
    using at by (auto simp: rib_names_def rib'(1)) (auto simp: rib_names_def[symmetric] names_iff rib_at_def)
  have "(\<Sum>m \<in> rib_names rib'. length (rib_routes rib' m)) + length (re_routes e) =
      (\<Sum>m \<in> rib_names rib. length (rib_routes rib m)) + length (re_routes e')"
    using names(2) rib_routes_at[OF at]
    by (simp add: names(1) routes sum.remove[of "rib_names rib" n])
  then have "of_nat (\<Sum>m \<in> rib_names rib'. length (rib_routes rib' m)) + of_nat (length (re_routes e)) =
      rib_nItems rib' + (of_nat (length (re_routes e)) :: u64)"
    using items rib_invD(5)[OF inv] by (metis of_nat_add)
  then have items': "rib_nItems rib' = of_nat (\<Sum>m \<in> rib_names rib'. length (rib_routes rib' m))"
    by simp
  have "re_routes d' \<noteq> [] \<and> entry_wf d'" if "rib_at rib' m y d'" for m y d'
    using that rib_invD(2,3)[OF inv, of m y d'] e'(4,5) by (auto simp: rib_at_def find rib'(3) split: if_splits)
  moreover have "y \<in> set (rib_faceMap rib' f) \<longleftrightarrow> (\<exists>m. rib_find m rib' = Some y \<and> f \<in> rt_faceId ` set (rib_routes rib' m))" for y f
  proof (cases "y = x")
    case True
    then show ?thesis
      unfolding faces find routes by (simp add: x)
  next
    case False
    then have "m \<noteq> n" if "rib_find m rib = Some y" for m
      using that at by (auto simp: rib_at_def)
    then show ?thesis
      unfolding faces find routes rib_invD(4)[OF inv] using False by (simp cong: conj_cong)
  qed
  ultimately show ?thesis
    unfolding rib_inv_def using tree items' routes by blast
qed

lemma rib_insert_route_ok:
  assumes inv: "rib_inv rib" and at: "rib_at rib n x e" and new: "findRoute route e = None"
  shows "\<exists>rib'. rib_insert n route rib = Some rib' \<and> rib_inv rib' \<and> rib_routes rib' = (rib_routes rib)(n := re_routes e @ [route]) \<and>
    rib_table rib' = rib_table rib \<and> rib_entries rib' = (rib_entries rib)(x \<mapsto> fst (insertRoute route e)) \<and>
    rib_cancelled rib' = rib_cancelled rib"
proof -
  let ?e = "fst (insertRoute route e)"
  let ?rib = "rib\<lparr>rib_entries := (rib_entries rib)(x \<mapsto> ?e), rib_nItems := rib_nItems rib + 1,
    rib_faceMap := (rib_faceMap rib)(rt_faceId route := rib_faceMap rib (rt_faceId route) @ [x])\<rparr>"
  have ins: "rib_insert n route rib = Some ?rib"
    using at new by (simp add: rib_insert_def rib_at_def rib_update_entry_def)
  have old: "x \<in> set (rib_faceMap rib f) \<longleftrightarrow> f \<in> rt_faceId ` set (re_routes e)" for f
    using at rib_find_inj[OF rib_invD(1)[OF inv]] rib_routes_at[OF at] unfolding rib_invD(4)[OF inv] rib_at_def by metis
  have "rib_inv ?rib \<and> rib_routes ?rib = (rib_routes rib)(n := re_routes ?e)"
    using old new entry_wf_insert[OF rib_invD(3)[OF inv at] new]
    by (intro rib_inv_data[OF inv at]) (auto simp: insertRoute_fields)
  then show ?thesis
    using ins new by (simp add: insertRoute_fields)
qed

definition renewed :: "route \<Rightarrow> route \<Rightarrow> route" where
  "renewed route r = r\<lparr>rt_expirationEvent := rt_expirationEvent route, rt_flags := rt_flags route,
     rt_cost := rt_cost route, rt_expires := rt_expires route\<rparr>"

lemma filter_update_first:
  "(\<And>x. x \<in> set xs \<Longrightarrow> P x \<Longrightarrow> Q (f x) = Q x) \<Longrightarrow> length (filter Q (update_first P f xs)) = length (filter Q xs)"
  by (induction xs) auto

lemma rib_insert_update_ok:
  assumes inv: "rib_inv rib" and at: "rib_at rib n x e" and old: "findRoute route e = Some r" and cap: "isCapture route = isCapture r"
  shows "\<exists>rib'. rib_insert n route rib = Some rib' \<and> rib_inv rib' \<and>
    rib_routes rib' = (rib_routes rib)(n := update_first (\<lambda>r. compareFaceIdAndOrigin r route) (renewed route) (re_routes e)) \<and>
    rib_table rib' = rib_table rib \<and>
    rib_entries rib' = (rib_entries rib)(x \<mapsto> e\<lparr>re_routes := update_first (\<lambda>r. compareFaceIdAndOrigin r route) (renewed route) (re_routes e)\<rparr>) \<and>
    rib_cancelled rib' = rib_cancelled rib @ (case rt_expirationEvent r of None \<Rightarrow> [] | Some i \<Rightarrow> [i])"
proof -
  let ?P = "\<lambda>r. compareFaceIdAndOrigin r route"
  let ?e = "e\<lparr>re_routes := update_first ?P (renewed route) (re_routes e)\<rparr>"
  let ?rib = "(rib_cancel (rt_expirationEvent r) rib)\<lparr>rib_entries := (rib_entries rib)(x \<mapsto> ?e)\<rparr>"
  have ins: "rib_insert n route rib = Some ?rib"
    using at old by (simp add: rib_insert_def rib_at_def rib_update_entry_def rib_cancel_def renewed_def[abs_def] split: option.splits)
  have r: "r \<in> set (re_routes e)" "?P r"
    using find_Some_in[OF old[unfolded findRoute_def]] by auto
  have wf: "distinct (map same_route (re_routes e))" "re_nRoutesWithCaptureSet e = of_nat (length (filter isCapture (re_routes e)))"
    using rib_invD(3)[OF inv at] by (auto simp: entry_wf_def)
  have uniq: "q = r" if "q \<in> set (re_routes e)" "?P q" for q
    using that r wf(1) by (auto simp: distinct_map inj_on_def same_route_def compareFaceIdAndOrigin_def)
  have keys: "map same_route (re_routes ?e) = map same_route (re_routes e)" "map rt_faceId (re_routes ?e) = map rt_faceId (re_routes e)"
    by (simp_all add: map_update_first renewed_def same_route_def)
  have "isCapture (renewed route q) = isCapture q" if "q \<in> set (re_routes e)" "?P q" for q
    using uniq[OF that] cap by (simp add: renewed_def isCapture_def)
  then have "entry_wf ?e"
    using wf keys(1) unfolding entry_wf_def by (simp add: filter_update_first)
  moreover have "rt_faceId ` set (re_routes ?e) = rt_faceId ` set (re_routes e)"
    using keys(2) by (metis set_map)
  moreover have faces: "x \<in> set (rib_faceMap rib f) \<longleftrightarrow> f \<in> rt_faceId ` set (re_routes e)" for f
    using at rib_find_inj[OF rib_invD(1)[OF inv]] rib_routes_at[OF at] unfolding rib_invD(4)[OF inv] rib_at_def by metis
  moreover have "re_routes ?e \<noteq> []"
    using r(1) by (cases "re_routes e") auto
  ultimately have "rib_inv ?rib \<and> rib_routes ?rib = (rib_routes rib)(n := re_routes ?e)"
    by (intro rib_inv_data[OF inv at]) (auto simp: rib_cancel_def split: option.splits)
  then show ?thesis
    using ins by (auto simp: rib_cancel_def split: option.splits)
qed

section \<open>Removal\<close>

text \<open>The store after the entry \<open>x\<close> was taken out of the tree.\<close>

definition unlinked :: "rib_ref option \<Rightarrow> rib_ref \<Rightarrow> rib_ref list \<Rightarrow> (rib_ref \<Rightarrow> rib_entry option) \<Rightarrow> rib_ref \<Rightarrow> rib_entry option" where
  "unlinked par x cs es y =
    (if y = x then map_option (\<lambda>e. e\<lparr>re_parent := None, re_children := []\<rparr>) (es y)
     else if y \<in> set cs then map_option (\<lambda>e. e\<lparr>re_parent := par\<rparr>) (es y)
     else if Some y = par then map_option (\<lambda>e. e\<lparr>re_children := removeAll x (re_children e) @ cs\<rparr>) (es y)
     else es y)"

lemma parent_at:
  assumes "findParent n rib = Some p"
  obtains m where "rib_find m rib = Some p" "strict_prefix m n"
  using assms unfolding findParent_Some parent_name_def by blast

lemma entry_links:
  assumes ok: "tree_ok rib" and at: "rib_at rib n x e"
  shows "x \<notin> set (re_children e)" "findParent n rib \<noteq> Some x"
    "findParent n rib = Some p \<Longrightarrow> p \<notin> set (re_children e)"
    "c \<in> set (re_children e) \<Longrightarrow> \<exists>m ce. rib_at rib m c ce \<and> re_parent ce = Some x"
proof -
  have ch: "c \<in> set (re_children e) \<longleftrightarrow> (\<exists>m. rib_find m rib = Some c \<and> findParent m rib = Some x)" for c
    by (rule tree_okD(5)[OF ok at])
  have name: "rib_find m rib = Some x \<longleftrightarrow> m = n" for m
    using at rib_find_inj[OF ok] by (auto simp: rib_at_def)
  show no: "findParent n rib \<noteq> Some x"
  proof
    assume "findParent n rib = Some x"
    then obtain m where "rib_find m rib = Some x" "strict_prefix m n"
      by (rule parent_at)
    then show False
      using name by simp
  qed
  then show "x \<notin> set (re_children e)"
    using ch name by metis
  show "c \<in> set (re_children e) \<Longrightarrow> \<exists>m ce. rib_at rib m c ce \<and> re_parent ce = Some x"
    using ch rib_find_at[OF ok] tree_okD(3)[OF ok] by metis
  show "p \<notin> set (re_children e)" if p: "findParent n rib = Some p"
  proof
    assume "p \<in> set (re_children e)"
    then obtain m where m: "rib_find m rib = Some p" "findParent m rib = Some x"
      using ch by blast
    obtain k where "rib_find k rib = Some p" "strict_prefix k n"
      using p by (rule parent_at)
    moreover obtain j where "rib_find j rib = Some x" "strict_prefix j m"
      using m(2) by (rule parent_at)
    ultimately show False
      using m(1) name rib_find_inj[OF ok] prefix_order.less_asym by metis
  qed
qed

lemma eraseEntry_eq:
  assumes ok: "tree_ok rib" and at: "rib_at rib n x e"
  shows "eraseEntry n x rib = Some (rib\<lparr>rib_entries := unlinked (findParent n rib) x (re_children e) (rib_entries rib),
    rib_table := filter (\<lambda>(m, _). m \<noteq> n) (rib_table rib), rib_signals := rib_signals rib @ [AfterEraseEntry n]\<rparr>)"
proof -
  let ?par = "findParent n rib" and ?cs = "re_children e"
  define es where "es = (\<lambda>y. if y = x then Some (e\<lparr>re_parent := None\<rparr>)
    else if Some y = ?par then map_option (\<lambda>e. e\<lparr>re_children := removeAll x (re_children e)\<rparr>) (rib_entries rib y) else rib_entries rib y)"
  have e: "rib_entries rib x = Some e" "re_parent e = ?par" "re_name e = n" "distinct ?cs"
    using at tree_okD(3,4,6)[OF ok at] by (auto simp: rib_at_def)
  note links = entry_links[OF ok at]
  have "(case ?par of None \<Rightarrow> Some rib | Some p \<Rightarrow> removeChild p x rib) = Some (rib\<lparr>rib_entries := es\<rparr>)"
  proof (cases ?par)
    case None
    then have "es = rib_entries rib"
      using e(1,2) by (intro ext) (auto simp: es_def)
    then show ?thesis
      using None by simp
  next
    case (Some p)
    then show ?thesis
      using e(1,2) links(2) by (auto simp: es_def link_defs intro!: rib.equality ext)
  qed
  moreover have "hand_over ?par x ?cs (rib\<lparr>rib_entries := es\<rparr>) = Some (rib\<lparr>rib_entries := handed ?par x ?cs es\<rparr>)"
  proof -
    have "\<exists>ce. es c = Some ce \<and> re_parent ce = Some x" if "c \<in> set ?cs" for c
      using links(1,3,4) that by (fastforce simp: es_def rib_at_def)
    then show ?thesis
      using hand_over_ok[OF e(4) links(1), of ?par "rib\<lparr>rib_entries := es\<rparr>"] links(2,3) by auto
  qed
  moreover have "handed ?par x ?cs es = unlinked ?par x ?cs (rib_entries rib)"
    using links(1-3) e(1) by (intro ext) (auto simp: handed_def unlinked_def es_def option.map_comp comp_def)
  ultimately show ?thesis
    using e(1-3) by (simp add: eraseEntry_def)
qed

lemma map_of_filter_key: "map_of (filter (\<lambda>(m, _). m \<noteq> n) xs) k = (if k = n then None else map_of xs k)"
  by (induction xs) auto

lemma findParent_erase:
  assumes ok: "tree_ok rib" and x: "rib_find n rib = Some x" and find: "\<And>k. rib_find k rib' = (if k = n then None else rib_find k rib)"
  shows "findParent m rib' = (if findParent m rib = Some x then findParent n rib else findParent m rib)"
proof -
  have undo: "rib_find k rib = (if k = n then Some x else rib_find k rib')" for k
    using x find by simp
  have inj: "rib_find a rib' = Some y \<Longrightarrow> rib_find b rib' = Some y \<Longrightarrow> a = b" for a b y
    using find rib_find_inj[OF ok] by (metis option.distinct(1))
  have ins: "findParent k rib = (if strict_prefix n k \<and> findParent k rib' = findParent n rib' then Some x else findParent k rib')" for k
    by (rule findParent_insert[OF inj _ undo]) (simp_all add: find)
  have "findParent k rib' \<noteq> Some x" for k
  proof
    assume "findParent k rib' = Some x"
    then obtain j where "rib_find j rib' = Some x"
      by (rule parent_at)
    then show False
      using find x rib_find_inj[OF ok] by (metis option.distinct(1))
  qed
  then show ?thesis
    using ins[of m] ins[of n] by (auto split: if_splits)
qed

definition unlinks :: "rib \<Rightarrow> name \<Rightarrow> rib_ref \<Rightarrow> rib_entry \<Rightarrow> rib \<Rightarrow> bool" where
  "unlinks rib n x e rib' \<longleftrightarrow> tree_ok rib \<and> rib_at rib n x e \<and>
     rib_table rib' = filter (\<lambda>(m, _). m \<noteq> n) (rib_table rib) \<and> rib_next rib' = rib_next rib \<and>
     rib_entries rib' = unlinked (findParent n rib) x (re_children e) (rib_entries rib)"

lemma unlinks_find: "unlinks rib n x e rib' \<Longrightarrow> rib_find k rib' = (if k = n then None else rib_find k rib)"
  by (simp add: unlinks_def rib_find_def map_of_filter_key)

lemma unlinks_name: "unlinks rib n x e rib' \<Longrightarrow> rib_find m rib = Some x \<longleftrightarrow> m = n"
  using rib_find_inj[of rib] by (auto simp: unlinks_def rib_at_def)

lemma unlinks_parent:
  assumes "unlinks rib n x e rib'"
  shows "findParent m rib' = (if findParent m rib = Some x then findParent n rib else findParent m rib)"
  using findParent_erase[of rib n x rib' m] assms unlinks_find[OF assms] by (simp add: unlinks_def rib_at_def)

lemma unlinks_child:
  assumes u: "unlinks rib n x e rib'"
  shows "(\<exists>m. rib_find m rib' = Some c \<and> findParent m rib' = Some y) \<longleftrightarrow>
    (findParent n rib = Some y \<and> c \<in> set (re_children e)) \<or>
    (c \<noteq> x \<and> y \<noteq> x \<and> (\<exists>m. rib_find m rib = Some c \<and> findParent m rib = Some y))" (is "?l \<longleftrightarrow> ?r")
proof -
  have ok: "tree_ok rib" and at: "rib_at rib n x e"
    using u by (auto simp: unlinks_def)
  note find = unlinks_find[OF u] and parent = unlinks_parent[OF u] and x = unlinks_name[OF u] and no = entry_links(2)[OF ok at]
  have ch: "c \<in> set (re_children e) \<longleftrightarrow> (\<exists>m. rib_find m rib = Some c \<and> findParent m rib = Some x)"
    by (rule tree_okD(5)[OF ok at])
  show ?thesis
  proof
    assume ?l
    then obtain m where m: "m \<noteq> n" "rib_find m rib = Some c" "(if findParent m rib = Some x then findParent n rib else findParent m rib) = Some y"
      by (auto simp: find parent split: if_splits)
    then show ?r
      using x[of m] no unfolding ch by (cases "findParent m rib = Some x") auto
  next
    assume ?r
    then consider m where "findParent n rib = Some y" "rib_find m rib = Some c" "findParent m rib = Some x" |
      m where "c \<noteq> x" "y \<noteq> x" "rib_find m rib = Some c" "findParent m rib = Some y"
      unfolding ch by blast
    then show ?l
    proof cases
      case (1 m)
      then show ?thesis
        using no by (intro exI[of _ m]) (auto simp: find parent)
    next
      case (2 m)
      then show ?thesis
        using x[of m] by (intro exI[of _ m]) (auto simp: find parent)
    qed
  qed
qed

lemma unlinks_old:
  assumes "unlinks rib n x e rib'" "rib_at rib' m y d'"
  obtains d where "rib_at rib m y d" "y \<noteq> x" "m \<noteq> n" "same_data d d'"
proof -
  have find: "rib_find m rib = Some y" "m \<noteq> n"
    using assms unlinks_find[OF assms(1), of m] by (auto simp: rib_at_def split: if_splits)
  then obtain d where d: "rib_at rib m y d" "y \<noteq> x"
    using rib_find_at[of rib m y] assms(1) unlinks_name[OF assms(1), of m] by (auto simp: unlinks_def)
  then have "same_data d d'"
    using assms by (auto simp: unlinks_def rib_at_def unlinked_def same_data_def split: if_splits)
  then show thesis
    using that d find by blast
qed

lemma unlinks_links:
  assumes u: "unlinks rib n x e rib'" and at': "rib_at rib' m y d'"
  shows "re_parent d' = findParent m rib' \<and> distinct (re_children d') \<and>
    (\<forall>c. c \<in> set (re_children d') \<longleftrightarrow> (\<exists>m. rib_find m rib' = Some c \<and> findParent m rib' = Some y))"
proof -
  have ok: "tree_ok rib" and at: "rib_at rib n x e"
    using u by (auto simp: unlinks_def)
  obtain d where d: "rib_at rib m y d" "y \<noteq> x" "m \<noteq> n"
    using unlinks_old[OF u at'] by blast
  have ch: "c \<in> set (re_children e) \<longleftrightarrow> (\<exists>m. rib_find m rib = Some c \<and> findParent m rib = Some x)" for c
    by (rule tree_okD(5)[OF ok at])
  have kd: "c \<in> set (re_children d) \<longleftrightarrow> (\<exists>m. rib_find m rib = Some c \<and> findParent m rib = Some y)" for c
    by (rule tree_okD(5)[OF ok d(1)])
  have mem: "y \<in> set (re_children e) \<longleftrightarrow> findParent m rib = Some x"
    unfolding ch using d(1) rib_find_inj[OF ok] by (metis rib_at_def)
  have es: "unlinked (findParent n rib) x (re_children e) (rib_entries rib) y = Some d'" "rib_entries rib y = Some d"
    using at' d(1) u by (simp_all add: rib_at_def unlinks_def)
  have par: "re_parent d' = findParent m rib'"
    using es d mem tree_okD(3)[OF ok d(1)] unlinks_parent[OF u, of m] by (auto simp: unlinked_def split: if_splits)
  have kids: "re_children d' = (if findParent n rib = Some y then removeAll x (re_children d) @ re_children e else re_children d)"
    using es d(2) entry_links(3)[OF ok at, of y] by (auto simp: unlinked_def split: if_splits)
  have "c \<notin> set (re_children d)" if "c \<in> set (re_children e)" for c
    using that d(2) rib_find_inj[OF ok] unfolding ch kd by (metis option.inject)
  then have "distinct (re_children d')"
    using kids tree_okD(4)[OF ok d(1)] tree_okD(4)[OF ok at] by (auto simp: distinct_removeAll)
  moreover have "x \<notin> set (re_children d)" if "findParent n rib \<noteq> Some y"
    unfolding kd using that unlinks_name[OF u] by auto
  then have "c \<in> set (re_children d') \<longleftrightarrow> (\<exists>m. rib_find m rib' = Some c \<and> findParent m rib' = Some y)" for c
    unfolding unlinks_child[OF u] kids using d(2) kd[of c] by auto
  ultimately show ?thesis
    using par by blast
qed

lemma unlinks_tree:
  assumes u: "unlinks rib n x e rib'"
  shows "tree_ok rib'"
proof -
  have ok: "tree_ok rib"
    using u by (simp add: unlinks_def)
  have "sorted_wrt (<) (map fst (rib_table rib'))"
    using tree_okD(1)[OF ok] u unfolding unlinks_def sorted_wrt_map by (auto intro: sorted_wrt_filter)
  moreover have "y < rib_next rib' \<and> (\<exists>d. rib_entries rib' y = Some d \<and> re_name d = m)" if "rib_find m rib' = Some y" for m y
    using that u unlinks_find[OF u, of m] tree_okD(2)[OF ok, of m y] by (auto simp: unlinks_def unlinked_def split: if_splits)
  ultimately show ?thesis
    unfolding tree_ok_def using unlinks_links[OF u] by blast
qed

lemma unlinks_routes:
  assumes u: "unlinks rib n x e rib'"
  shows "rib_routes rib' = (rib_routes rib)(n := [])" "rib_names rib' = rib_names rib - {n}"
proof -
  have "rib_routes rib' m = ((rib_routes rib)(n := [])) m" for m
    using u unlinks_find[OF u, of m] unlinks_name[OF u, of m]
    by (cases "rib_find m rib") (auto simp: rib_routes_def unlinks_def unlinked_def option.case_eq_if option.map_sel)
  then show "rib_routes rib' = (rib_routes rib)(n := [])"
    by blast
  show "rib_names rib' = rib_names rib - {n}"
    using unlinks_find[OF u] by (auto simp: names_iff split: if_splits)
qed

lemma filter_remove_first:
  "List.find P xs = Some r \<Longrightarrow> length (filter Q xs) = length (filter Q (remove_first P xs)) + (if Q r then 1 else 0)"
  by (induction xs) (auto split: if_splits)

lemma length_remove_first: "List.find P xs = Some r \<Longrightarrow> length xs = Suc (length (remove_first P xs))"
  using filter_remove_first[of P xs r "\<lambda>_. True"] by simp

lemma eraseRoute_fields:
  assumes "findRoute route e = Some r"
  shows "re_routes (fst (eraseRoute route e)) = remove_first (\<lambda>r. compareFaceIdAndOrigin r route) (re_routes e)"
    "re_name (fst (eraseRoute route e)) = re_name e" "re_parent (fst (eraseRoute route e)) = re_parent e"
    "re_children (fst (eraseRoute route e)) = re_children e" "snd (eraseRoute route e) = rt_expirationEvent r"
    "entry_wf e \<Longrightarrow> entry_wf (fst (eraseRoute route e))"
proof -
  show "entry_wf e \<Longrightarrow> entry_wf (fst (eraseRoute route e))"
    using assms filter_remove_first[OF assms[unfolded findRoute_def], of isCapture]
    by (auto simp: entry_wf_def eraseRoute_def Let_def remove_first_distinct_map)
qed (use assms in \<open>simp_all add: eraseRoute_def Let_def\<close>)

lemma rib_cancel_frame [simp]:
  "rib_table (rib_cancel ev rib) = rib_table rib" "rib_next (rib_cancel ev rib) = rib_next rib"
  "rib_entries (rib_cancel ev rib) = rib_entries rib" "rib_faceMap (rib_cancel ev rib) = rib_faceMap rib"
  "rib_nItems (rib_cancel ev rib) = rib_nItems rib" "rib_signals (rib_cancel ev rib) = rib_signals rib"
  by (simp_all add: rib_cancel_def split: option.split)

lemma entry_faces:
  assumes "rib_inv rib" "rib_at rib n x e"
  shows "x \<in> set (rib_faceMap rib f) \<longleftrightarrow> f \<in> rt_faceId ` set (re_routes e)"
  using assms rib_find_inj[OF rib_invD(1)[OF assms(1)]] rib_routes_at[OF assms(2)]
  unfolding rib_invD(4)[OF assms(1)] rib_at_def by metis

text \<open>The state of \<^verbatim>\<open>erase\<close> after the route is gone, before the check whether the entry is empty.\<close>

definition rib_erase_route :: "rib_ref \<Rightarrow> route \<Rightarrow> rib_entry \<Rightarrow> rib \<Rightarrow> rib" where
  "rib_erase_route x route e rib =
    (let (e, event) = eraseRoute route e;
         rib = rib_cancel event (rib_update_entry x (\<lambda>_. e) rib);
         rib = rib\<lparr>rib_nItems := rib_nItems rib - 1\<rparr>
     in if \<not> hasFaceId (rt_faceId route) e
        then rib\<lparr>rib_faceMap := (rib_faceMap rib)(rt_faceId route := removeAll x (rib_faceMap rib (rt_faceId route)))\<rparr>
        else rib)"

lemma rib_erase_eq:
  assumes at: "rib_at rib n x e" and r: "findRoute route e = Some r"
  shows "rib_erase n route rib =
    (if re_routes (fst (eraseRoute route e)) = [] then eraseEntry n x (rib_erase_route x route e rib)
     else Some (rib_erase_route x route e rib))"
  using at r by (auto simp: rib_erase_def rib_at_def rib_erase_route_def Let_def split_beta)

lemma rib_erase_route_fields:
  assumes at: "rib_at rib n x e" and r: "findRoute route e = Some r"
  shows "rib_table (rib_erase_route x route e rib) = rib_table rib" "rib_next (rib_erase_route x route e rib) = rib_next rib"
    "rib_entries (rib_erase_route x route e rib) = (rib_entries rib)(x \<mapsto> fst (eraseRoute route e))"
    "rib_nItems (rib_erase_route x route e rib) = rib_nItems rib - 1"
    "rib_cancelled (rib_erase_route x route e rib) = rib_cancelled rib @ (case rt_expirationEvent r of None \<Rightarrow> [] | Some i \<Rightarrow> [i])"
  using at eraseRoute_fields(5)[OF r]
  by (auto simp: rib_erase_route_def Let_def split_beta rib_at_def rib_update_entry_def rib_cancel_def split: option.split)

lemma remove_first_faces:
  assumes "findRoute route e = Some r" "f \<noteq> rt_faceId route"
  shows "f \<in> rt_faceId ` set (remove_first (\<lambda>r. compareFaceIdAndOrigin r route) rs) \<longleftrightarrow> f \<in> rt_faceId ` set rs"
  using assms(2) by (induction rs) (auto simp: compareFaceIdAndOrigin_def)

lemma rib_erase_route_faces:
  assumes inv: "rib_inv rib" and at: "rib_at rib n x e" and r: "findRoute route e = Some r"
  shows "y \<in> set (rib_faceMap (rib_erase_route x route e rib) f) \<longleftrightarrow>
    (if y = x then f \<in> rt_faceId ` set (re_routes (fst (eraseRoute route e))) else y \<in> set (rib_faceMap rib f))"
proof (cases "y = x")
  case True
  have r_in: "rt_faceId route \<in> rt_faceId ` set (re_routes e)"
    using find_Some_in[OF r[unfolded findRoute_def]] by (metis compareFaceIdAndOrigin_def image_eqI)
  show ?thesis
    using True entry_faces[OF inv at, of f] eraseRoute_fields(1)[OF r] remove_first_faces[OF r, of f "re_routes e"] r_in
      hasFaceId_iff[of "rt_faceId route" "fst (eraseRoute route e)"]
    by (cases "f = rt_faceId route") (auto simp: rib_erase_route_def Let_def split_beta)
next
  case False
  then show ?thesis
    by (auto simp: rib_erase_route_def Let_def split_beta)
qed

lemma rib_erase_last_ok:
  assumes inv: "rib_inv rib" and at: "rib_at rib n x e" and r: "findRoute route e = Some r"
    and last: "re_routes (fst (eraseRoute route e)) = []"
  shows "\<exists>rib'. rib_erase n route rib = Some rib' \<and> rib_inv rib' \<and> rib_routes rib' = (rib_routes rib)(n := []) \<and>
    unlinks (rib_erase_route x route e rib) n x (fst (eraseRoute route e)) rib' \<and>
    rib_cancelled rib' = rib_cancelled rib @ (case rt_expirationEvent r of None \<Rightarrow> [] | Some i \<Rightarrow> [i])"
proof -
  let ?e = "fst (eraseRoute route e)" and ?rib = "rib_erase_route x route e rib"
  note R = rib_erase_route_fields[OF at r] and F = eraseRoute_fields[OF r]
  have find: "rib_find m ?rib = rib_find m rib" for m
    by (simp add: rib_find_def R(1))
  have tree: "tree_ok ?rib"
    by (rule tree_ok_frame[OF rib_invD(1)[OF inv] R(1,2)]) (use at F(2-4) in \<open>auto simp: rib_at_def R(3)\<close>)
  have at1: "rib_at ?rib n x ?e"
    using at by (simp add: rib_at_def find R(3))
  obtain rib' where er: "eraseEntry n x ?rib = Some rib'" and u: "unlinks ?rib n x ?e rib'"
    and rest: "rib_faceMap rib' = rib_faceMap ?rib" "rib_nItems rib' = rib_nItems ?rib" "rib_cancelled rib' = rib_cancelled ?rib"
    using eraseEntry_eq[OF tree at1] tree at1 by (simp add: unlinks_def)
  have x: "rib_find m rib = Some x \<longleftrightarrow> m = n" for m
    using unlinks_name[OF u, of m] by (simp add: find)
  have routes: "rib_routes rib' = (rib_routes rib)(n := [])"
    using unlinks_routes(1)[OF u] x by (auto simp: fun_eq_iff rib_routes_def find R(3) split: option.split)
  have names: "rib_names rib' = rib_names rib - {n}" "n \<in> rib_names rib"
    using unlinks_routes(2)[OF u] at by (auto simp: rib_names_def R(1)) (auto simp: rib_names_def[symmetric] names_iff rib_at_def)
  have one: "length (re_routes e) = 1"
    using length_remove_first[OF r[unfolded findRoute_def]] last F(1) by simp
  have "(\<Sum>m \<in> rib_names rib. length (rib_routes rib m)) = Suc (\<Sum>m \<in> rib_names rib'. length (rib_routes rib' m))"
    using names(2) one rib_routes_at[OF at] by (simp add: names(1) routes sum.remove[of "rib_names rib" n])
  then have items: "rib_nItems rib' = of_nat (\<Sum>m \<in> rib_names rib'. length (rib_routes rib' m))"
    using rest(2) R(4) rib_invD(5)[OF inv] by simp
  have entries: "re_routes d' \<noteq> [] \<and> entry_wf d'" if at': "rib_at rib' m y d'" for m y d'
  proof -
    obtain d where d: "rib_at ?rib m y d" "y \<noteq> x" "same_data d d'"
      using unlinks_old[OF u at'] by blast
    then have "rib_at rib m y d"
      by (simp add: rib_at_def find R(3))
    then show ?thesis
      using rib_invD(2,3)[OF inv] same_data_wf[OF d(3)] by auto
  qed
  have faces: "y \<in> set (rib_faceMap rib' f) \<longleftrightarrow> (\<exists>m. rib_find m rib' = Some y \<and> f \<in> rt_faceId ` set (rib_routes rib' m))" for y f
  proof -
    have "(if y = x then False else \<exists>m. rib_find m rib = Some y \<and> f \<in> rt_faceId ` set (rib_routes rib m)) \<longleftrightarrow>
        (\<exists>m. rib_find m rib' = Some y \<and> f \<in> rt_faceId ` set (rib_routes rib' m))"
      unfolding routes unlinks_find[OF u] find using x[of n] by (cases "y = x") (simp add: x, simp, intro iff_exI, auto)
    then show ?thesis
      unfolding rest(1) rib_erase_route_faces[OF inv at r] last rib_invD(4)[OF inv] by (cases "y = x") auto
  qed
  show ?thesis
    using rib_erase_eq[OF at r] er u last routes rest(3) R(5) unlinks_tree[OF u] entries faces items unfolding rib_inv_def by auto
qed

lemma rib_erase_route_ok:
  assumes inv: "rib_inv rib" and at: "rib_at rib n x e" and r: "findRoute route e = Some r"
    and more: "re_routes (fst (eraseRoute route e)) \<noteq> []"
  shows "rib_erase n route rib = Some (rib_erase_route x route e rib)" "rib_inv (rib_erase_route x route e rib) \<and>
    rib_routes (rib_erase_route x route e rib) = (rib_routes rib)(n := re_routes (fst (eraseRoute route e)))"
proof -
  note R = rib_erase_route_fields[OF at r] and F = eraseRoute_fields[OF r]
  have "rib_nItems rib - 1 + of_nat (length (re_routes e)) = rib_nItems rib + of_nat (length (re_routes (fst (eraseRoute route e))))"
    using length_remove_first[OF r[unfolded findRoute_def]] F(1) by simp
  then show "rib_inv (rib_erase_route x route e rib) \<and>
      rib_routes (rib_erase_route x route e rib) = (rib_routes rib)(n := re_routes (fst (eraseRoute route e)))"
    using R F rib_invD(3)[OF inv at] more rib_erase_route_faces[OF inv at r] by (intro rib_inv_data[OF inv at]) auto
qed (use rib_erase_eq[OF at r] more in simp)

lemma rib_erase_ok:
  assumes inv: "rib_inv rib"
  shows "\<exists>rib'. rib_erase n route rib = Some rib' \<and> rib_inv rib' \<and>
    rib_routes rib' = (rib_routes rib)(n := remove_first (\<lambda>r. compareFaceIdAndOrigin r route) (rib_routes rib n))"
proof (cases "rib_find n rib")
  case None
  then have "rib_routes rib n = []"
    by (simp add: rib_routes_def)
  then show ?thesis
    using None inv by (simp add: rib_erase_def fun_upd_idem)
next
  case (Some x)
  then obtain e where at: "rib_at rib n x e"
    using rib_find_at[OF rib_invD(1)[OF inv]] by blast
  show ?thesis
  proof (cases "findRoute route e")
    case None
    then show ?thesis
      using at inv rib_routes_at[OF at]
      by (auto simp: rib_erase_def rib_at_def findRoute_def find_None_all remove_first_id fun_upd_idem)
  next
    case (Some r)
    then show ?thesis
      using rib_erase_last_ok[OF inv at Some] rib_erase_route_ok[OF inv at Some] eraseRoute_fields(1)[OF Some] rib_routes_at[OF at]
      by (cases "re_routes (fst (eraseRoute route e)) = []") auto
  qed
qed

section \<open>Sequences of operations\<close>

datatype rib_op = InsertRoute name route | EraseRoute name route

fun rib_exec :: "rib_op \<Rightarrow> rib \<Rightarrow> rib option" where
  "rib_exec (InsertRoute n route) rib = rib_insert n route rib"
| "rib_exec (EraseRoute n route) rib = rib_erase n route rib"

fun rib_run :: "rib_op list \<Rightarrow> rib \<Rightarrow> rib option" where
  "rib_run [] rib = Some rib"
| "rib_run (op # ops) rib = do { rib \<leftarrow> rib_exec op rib; rib_run ops rib }"

text \<open>What the operations mean for the routes of a name.\<close>

definition routes_insert :: "route \<Rightarrow> route list \<Rightarrow> route list" where
  "routes_insert route rs =
    (if \<exists>r \<in> set rs. compareFaceIdAndOrigin r route
     then update_first (\<lambda>r. compareFaceIdAndOrigin r route) (renewed route) rs else rs @ [route])"

fun routes_step :: "rib_op \<Rightarrow> (name \<Rightarrow> route list) \<Rightarrow> name \<Rightarrow> route list" where
  "routes_step (InsertRoute n route) R = R(n := routes_insert route (R n))"
| "routes_step (EraseRoute n route) R = R(n := remove_first (\<lambda>r. compareFaceIdAndOrigin r route) (R n))"

text \<open>No insertion changes the capture flag of a route that is there.\<close>

fun keeps_capture :: "rib_op list \<Rightarrow> (name \<Rightarrow> route list) \<Rightarrow> bool" where
  "keeps_capture [] R = True"
| "keeps_capture (op # ops) R =
    ((case op of InsertRoute n route \<Rightarrow> list_all (\<lambda>r. compareFaceIdAndOrigin r route \<longrightarrow> isCapture r = isCapture route) (R n)
      | EraseRoute n route \<Rightarrow> True) \<and> keeps_capture ops (routes_step op R))"

lemma rib_insert_ok:
  assumes inv: "rib_inv rib" and cap: "\<forall>r \<in> set (rib_routes rib n). compareFaceIdAndOrigin r route \<longrightarrow> isCapture r = isCapture route"
  shows "\<exists>rib'. rib_insert n route rib = Some rib' \<and> rib_inv rib' \<and>
    rib_routes rib' = (rib_routes rib)(n := routes_insert route (rib_routes rib n))"
proof (cases "rib_find n rib")
  case None
  then show ?thesis
    using rib_insert_new_ok[OF inv None, of route] by (auto simp: rib_routes_def routes_insert_def)
next
  case (Some x)
  then obtain e where at: "rib_at rib n x e"
    using rib_find_at[OF rib_invD(1)[OF inv]] by blast
  note rs = rib_routes_at[OF at]
  show ?thesis
  proof (cases "findRoute route e")
    case None
    then have "\<not> (\<exists>r \<in> set (re_routes e). compareFaceIdAndOrigin r route)"
      by (simp add: findRoute_def find_None_all)
    then show ?thesis
      using rib_insert_route_ok[OF inv at None] rs by (auto simp: routes_insert_def)
  next
    case (Some r)
    then have r: "r \<in> set (re_routes e)" "compareFaceIdAndOrigin r route"
      using find_Some_in[of _ "re_routes e" r] by (auto simp: findRoute_def)
    then show ?thesis
      using rib_insert_update_ok[OF inv at Some] cap rs by (auto simp: routes_insert_def)
  qed
qed

lemma rib_init_inv: "rib_inv Rib" "rib_routes Rib = (\<lambda>_. [])"
  by (auto simp: rib_inv_def tree_ok_def Rib_def rib_at_def rib_find_def rib_names_def rib_routes_def)

lemma rib_run_ok:
  assumes "rib_inv rib" "keeps_capture ops (rib_routes rib)"
  shows "\<exists>rib'. rib_run ops rib = Some rib' \<and> rib_inv rib' \<and> rib_routes rib' = fold routes_step ops (rib_routes rib)"
  using assms
proof (induction ops arbitrary: rib)
  case (Cons op ops)
  have "\<exists>rib'. rib_exec op rib = Some rib' \<and> rib_inv rib' \<and> rib_routes rib' = routes_step op (rib_routes rib)"
    using Cons.prems rib_insert_ok[OF Cons.prems(1)] rib_erase_ok[OF Cons.prems(1)] by (cases op) (auto simp: list_all_iff)
  then obtain rib' where "rib_exec op rib = Some rib'" "rib_inv rib'" "rib_routes rib' = routes_step op (rib_routes rib)"
    by blast
  then show ?case
    using Cons.IH[of rib'] Cons.prems(2) by simp
qed simp

section \<open>Properties\<close>

definition rt_example :: "u64 \<Rightarrow> u64 \<Rightarrow> u64 \<Rightarrow> route" where
  "rt_example faceId flags cost = \<lparr>rt_faceId = faceId, rt_origin = 0, rt_flags = flags, rt_cost = cost, rt_expires = 0,
     rt_expirationEvent = None\<rparr>"

text \<open>C9. Starting from an empty RIB, any sequence of route insertions and removals runs without failing an assertion and
  acts on the routes of each name as a map would; the tree stays right (the parent of an entry is the entry of its longest proper
  prefix in the table, the children are the entries it is the parent of), as do the face lookup table and the number of
  routes.  The sequence must not change the capture flag of a route that is there, see
  \<^verbatim>\<open>rib_stale_capture\<close>.\<close>

theorem rib_refines_routes:
  assumes "keeps_capture ops (\<lambda>_. [])"
  shows "\<exists>rib. rib_run ops Rib = Some rib \<and> rib_inv rib \<and> rib_routes rib = fold routes_step ops (\<lambda>_. [])"
  using rib_run_ok[of Rib ops] assms rib_init_inv by simp

theorem rib_refines_routes_witness:
  "\<exists>rib. rib_run [InsertRoute [Generic [1], Generic [2]] (rt_example 5 1 10), InsertRoute [] (rt_example 6 3 20),
      InsertRoute [Generic [1]] (rt_example 7 0 5), EraseRoute [] (rt_example 6 0 0)] Rib = Some rib \<and>
    rib_inv rib \<and> rib_routes rib [Generic [1]] = [rt_example 7 0 5] \<and> rib_routes rib [] = []"
proof -
  have "keeps_capture [InsertRoute [Generic [1], Generic [2]] (rt_example 5 1 10), InsertRoute [] (rt_example 6 3 20),
      InsertRoute [Generic [1]] (rt_example 7 0 5), EraseRoute [] (rt_example 6 0 0)] (\<lambda>_. [])"
    by code_simp
  from rib_refines_routes[OF this] show ?thesis
    by (auto simp: routes_insert_def compareFaceIdAndOrigin_def rt_example_def)
qed

text \<open>An update of a route that drops its capture flag leaves the entry capturing.\<close>

theorem rib_stale_capture:
  "\<exists>rib e. rib_run [InsertRoute [] (rt_example 6 2 20), InsertRoute [] (rt_example 6 0 20)] Rib = Some rib \<and>
     rib_entries rib 0 = Some e \<and> \<not> list_ex isCapture (re_routes e) \<and> hasCapture e"
  by (simp add: rib_insert_def Rib_def rib_find_def RibEntry_def insertRoute_def findRoute_def Let_def rt_example_def findParent_def
      findDescendants_def isCapture_def ROUTE_FLAG_CAPTURE_def compareFaceIdAndOrigin_def rib_update_entry_def rib_cancel_def hasCapture_def)

text \<open>Two routes of one face put their entry twice into the face lookup table, so that every route is found twice.\<close>

theorem rib_duplicate_routes:
  "\<exists>rib routes. rib_run [InsertRoute [] (rt_example 6 0 20), InsertRoute [] (rt_example 6 0 20\<lparr>rt_origin := 1\<rparr>)] Rib = Some rib \<and>
     findRoutesWithFaceId 6 rib = Some routes \<and> length routes = 4"
  by (simp add: rib_insert_def Rib_def rib_find_def RibEntry_def insertRoute_def findRoute_def Let_def rt_example_def findParent_def
      findDescendants_def isCapture_def ROUTE_FLAG_CAPTURE_def compareFaceIdAndOrigin_def rib_update_entry_def findRoutesWithFaceId_def)

end
