(* ===== verification/Fib_Updater.thy ===== *)
theory Fib_Updater
  imports Rib_Table
begin

text \<open>
  How changes of the RIB reach the FIB: \<^verbatim>\<open>src/rib/fib-updater.cpp\<close> computes, for one RIB update, the FIB updates
  that follow from it and the changes of the inherited routes that go with them.  The updater's two lists of FIB updates, its list
  of inherited routes and the face of the current batch are the record \<open>fib_updater\<close>; \<^verbatim>\<open>fu_cancelled\<close> lists the
  expiration events that \<^verbatim>\<open>eraseRoute\<close> cancels on the updater's copy of an entry.  The data of an update is in
  \<^verbatim>\<open>fib-update.cpp\<close>, \<^verbatim>\<open>rib-update.hpp\<close> and \<^verbatim>\<open>rib-update-batch.cpp\<close>.
\<close>

section \<open>Updates\<close>

datatype fib_action = ADD_NEXTHOP | REMOVE_NEXTHOP

record fib_update =
  fb_name :: name
  fb_faceId :: u64
  fb_cost :: u64
  fb_action :: fib_action

definition createAddUpdate :: "name \<Rightarrow> u64 \<Rightarrow> u64 \<Rightarrow> fib_update" where
  "createAddUpdate name faceId cost = \<lparr>fb_name = name, fb_faceId = faceId, fb_cost = cost, fb_action = ADD_NEXTHOP\<rparr>"

definition createRemoveUpdate :: "name \<Rightarrow> u64 \<Rightarrow> fib_update" where
  "createRemoveUpdate name faceId = \<lparr>fb_name = name, fb_faceId = faceId, fb_cost = 0, fb_action = REMOVE_NEXTHOP\<rparr>"

datatype rib_action = REGISTER | UNREGISTER | REMOVE_FACE

record rib_update =
  ru_action :: rib_action
  ru_name :: name
  ru_route :: route

record rib_update_batch =
  rb_faceId :: u64
  rb_updates :: "rib_update list"

definition RibUpdateBatch :: "u64 \<Rightarrow> rib_update_batch" where
  "RibUpdateBatch faceId = \<lparr>rb_faceId = faceId, rb_updates = []\<rparr>"

definition rb_add :: "rib_update \<Rightarrow> rib_update_batch \<Rightarrow> rib_update_batch option" where
  "rb_add update b = (if rb_faceId b = rt_faceId (ru_route update) then Some (b\<lparr>rb_updates := rb_updates b @ [update]\<rparr>) else None)"

section \<open>Computing the updates\<close>

record fib_updater =
  fu_batchFaceId :: u64
  fu_updatesForBatchFaceId :: "fib_update list"
  fu_updatesForNonBatchFaceId :: "fib_update list"
  fu_inheritedRoutes :: "rib_update list"
  fu_cancelled :: "event_id list"

definition merge_update :: "fib_update \<Rightarrow> fib_update list \<Rightarrow> fib_update list" where
  "merge_update update updates =
    (let same = (\<lambda>other. fb_name update = fb_name other \<and> fb_faceId update = fb_faceId other)
     in if List.find same updates \<noteq> None
        then update_first same (\<lambda>other. other\<lparr>fb_action := fb_action update, fb_cost := fb_cost update\<rparr>) updates
        else updates @ [update])"

definition addFibUpdate :: "fib_update \<Rightarrow> fib_updater \<Rightarrow> fib_updater" where
  "addFibUpdate update u =
    (if fb_faceId update = fu_batchFaceId u
     then u\<lparr>fu_updatesForBatchFaceId := merge_update update (fu_updatesForBatchFaceId u)\<rparr>
     else u\<lparr>fu_updatesForNonBatchFaceId := merge_update update (fu_updatesForNonBatchFaceId u)\<rparr>)"

definition addInheritedRoute :: "name \<Rightarrow> route \<Rightarrow> fib_updater \<Rightarrow> fib_updater" where
  "addInheritedRoute name route u =
    u\<lparr>fu_inheritedRoutes := fu_inheritedRoutes u @ [\<lparr>ru_action = REGISTER, ru_name = name, ru_route = route\<rparr>]\<rparr>"

definition removeInheritedRoute :: "name \<Rightarrow> route \<Rightarrow> fib_updater \<Rightarrow> fib_updater" where
  "removeInheritedRoute name route u =
    u\<lparr>fu_inheritedRoutes := fu_inheritedRoutes u @ [\<lparr>ru_action = UNREGISTER, ru_name = name, ru_route = route\<rparr>]\<rparr>"

definition addInheritedRoutes :: "rib_entry \<Rightarrow> route_set \<Rightarrow> fib_updater \<Rightarrow> fib_updater" where
  "addInheritedRoutes entry routesToAdd u =
    fold (\<lambda>route u. if \<not> hasFaceId (rt_faceId route) entry
        then addFibUpdate (createAddUpdate (re_name entry) (rt_faceId route) (rt_cost route))
               (addInheritedRoute (re_name entry) route u)
        else u) routesToAdd u"

definition addInheritedRoutes_name :: "name \<Rightarrow> route_set \<Rightarrow> route \<Rightarrow> fib_updater \<Rightarrow> fib_updater" where
  "addInheritedRoutes_name name routesToAdd ignore u =
    fold (\<lambda>route u. if rt_faceId route \<noteq> rt_faceId ignore
        then addFibUpdate (createAddUpdate name (rt_faceId route) (rt_cost route)) (addInheritedRoute name route u)
        else u) routesToAdd u"

definition removeInheritedRoutes :: "rib_entry \<Rightarrow> route_set \<Rightarrow> fib_updater \<Rightarrow> fib_updater" where
  "removeInheritedRoutes entry routesToRemove u =
    fold (\<lambda>route u. if hasInheritedRoute route entry
        then addFibUpdate (createRemoveUpdate (re_name entry) (rt_faceId route)) (removeInheritedRoute (re_name entry) route u)
        else u) routesToRemove u"

text \<open>The two loops of \<^verbatim>\<open>traverseSubTree\<close>; the routes that are left go on to the children.\<close>

definition traverse_remove :: "rib_entry \<Rightarrow> route_set \<Rightarrow> fib_updater \<Rightarrow> route_set \<times> fib_updater" where
  "traverse_remove entry routesToRemove u =
    (let routesToRemove = filter (\<lambda>r. \<not> hasChildInheritOnFaceId (rt_faceId r) entry) routesToRemove
     in (routesToRemove, removeInheritedRoutes entry routesToRemove u))"

definition traverse_add :: "rib_entry \<Rightarrow> route_set \<Rightarrow> fib_updater \<Rightarrow> route_set \<times> fib_updater" where
  "traverse_add entry routesToAdd u =
    (let routesToAdd = filter (\<lambda>r. \<not> hasChildInheritOnFaceId (rt_faceId r) entry) routesToAdd
     in (routesToAdd, addInheritedRoutes entry routesToAdd u))"

text \<open>\<^verbatim>\<open>modifyChildrensInheritedRoutes\<close>, with \<^verbatim>\<open>traverseSubTree\<close> of one child in place.\<close>

partial_function (option) modifyChildrensInheritedRoutes ::
  "rib \<Rightarrow> rib_ref list \<Rightarrow> route_set \<Rightarrow> route_set \<Rightarrow> fib_updater \<Rightarrow> fib_updater option" where
  "modifyChildrensInheritedRoutes rib children routesToAdd routesToRemove u =
    (case children of
       [] \<Rightarrow> Some u
     | child # rest \<Rightarrow> do {
         entry \<leftarrow> rib_entries rib child;
         u \<leftarrow> (if hasCapture entry then Some u
               else (case traverse_remove entry routesToRemove u of (toRemove, u) \<Rightarrow>
                      case traverse_add entry routesToAdd u of (toAdd, u) \<Rightarrow>
                        modifyChildrensInheritedRoutes rib (re_children entry) toAdd toRemove u));
         modifyChildrensInheritedRoutes rib rest routesToAdd routesToRemove u
       })"

declare modifyChildrensInheritedRoutes.simps [code]

definition createFibUpdatesForNewRibEntry :: "rib \<Rightarrow> name \<Rightarrow> route \<Rightarrow> rib_ref list \<Rightarrow> fib_updater \<Rightarrow> fib_updater option" where
  "createFibUpdatesForNewRibEntry rib name route children u = do {
     let u = addFibUpdate (createAddUpdate name (rt_faceId route) (rt_cost route)) u;
     if \<not> isChildInherit route \<and> \<not> isCapture route then do {
       ancestorRoutes \<leftarrow> getAncestorRoutes_name name rib;
       Some (addInheritedRoutes_name name ancestorRoutes route u)
     }
     else if isChildInherit route \<and> isCapture route then do {
       ancestorRoutes \<leftarrow> getAncestorRoutes_name name rib;
       modifyChildrensInheritedRoutes rib children [route] ancestorRoutes u
     }
     else if isChildInherit route then do {
       ancestorRoutes \<leftarrow> getAncestorRoutes_name name rib;
       let u = addInheritedRoutes_name name ancestorRoutes route u;
       let ancestorRoutes = (if rs_find route ancestorRoutes \<noteq> None then rs_erase route ancestorRoutes else ancestorRoutes);
       modifyChildrensInheritedRoutes rib children (rs_insert route ancestorRoutes) [] u
     }
     else do {
       ancestorRoutes \<leftarrow> getAncestorRoutes_name name rib;
       modifyChildrensInheritedRoutes rib children [] ancestorRoutes u
     }
   }"

definition createFibUpdatesForNewRoute :: "rib \<Rightarrow> rib_entry \<Rightarrow> route \<Rightarrow> bool \<Rightarrow> fib_updater \<Rightarrow> fib_updater option" where
  "createFibUpdatesForNewRoute rib entry route captureWasTurnedOn u = do {
     let prevRoute = getRouteWithLowestCostAndChildInheritByFaceId (rt_faceId route) entry;
     let routesToAdd = (if isChildInherit route \<and>
           (case prevRoute of None \<Rightarrow> True | Some prev \<Rightarrow> rt_cost route \<le> rt_cost prev) then [route] else []);
     (routesToRemove, u) \<leftarrow> (if captureWasTurnedOn then do {
           routesToRemove \<leftarrow> getAncestorRoutes entry rib;
           Some (routesToRemove, removeInheritedRoutes entry routesToRemove u)
         } else Some ([], u));
     u \<leftarrow> modifyChildrensInheritedRoutes rib (re_children entry) routesToAdd routesToRemove u;
     let other = getRouteWithLowestCostByFaceId (rt_faceId route) entry;
     Some (if (case other of None \<Rightarrow> True | Some other \<Rightarrow> rt_cost route \<le> rt_cost other)
           then addFibUpdate (createAddUpdate (re_name entry) (rt_faceId route) (rt_cost route)) u else u)
   }"

text \<open>\<^verbatim>\<open>createFibUpdatesForUpdatedRoute\<close>: the update of the entry itself, the propagation of \<^verbatim>\<open>ChildInherit\<close> and the one of
  \<^verbatim>\<open>Capture\<close>; the first part also says whether the function returns after it.\<close>

definition updatedRoute_cost ::
  "rib \<Rightarrow> rib_entry \<Rightarrow> route \<Rightarrow> route \<Rightarrow> route option \<Rightarrow> fib_updater \<Rightarrow> (fib_updater \<times> bool) option" where
  "updatedRoute_cost rib entry route existingRoute prevRoute u = do {
     lowest \<leftarrow> getRouteWithLowestCostByFaceId (rt_faceId route) entry;
     u \<leftarrow> (if rt_cost route \<le> rt_cost lowest
           then Some (addFibUpdate (createAddUpdate (re_name entry) (rt_faceId route) (rt_cost route)) u)
           else if rt_cost existingRoute < rt_cost lowest then do {
             prev \<leftarrow> prevRoute;
             Some (addFibUpdate (createAddUpdate (re_name entry) (rt_faceId prev) (rt_cost prev)) u)
           }
           else Some u);
     if (case prevRoute of None \<Rightarrow> True | Some prev \<Rightarrow> rt_cost route \<le> rt_cost prev) \<and>
        rt_flags route = rt_flags existingRoute \<and> isChildInherit route
     then do { u \<leftarrow> modifyChildrensInheritedRoutes rib (re_children entry) [route] [] u; Some (u, True) }
     else Some (u, False)
   }"

definition updatedRoute_childInherit ::
  "rib \<Rightarrow> rib_entry \<Rightarrow> route \<Rightarrow> route \<Rightarrow> route option \<Rightarrow> fib_updater \<Rightarrow> fib_updater option" where
  "updatedRoute_childInherit rib entry route existingRoute prevRoute u =
    (if \<not> isChildInherit existingRoute \<and> isChildInherit route then
       (if (case prevRoute of None \<Rightarrow> True | Some prev \<Rightarrow> rt_cost route \<le> rt_cost prev)
        then modifyChildrensInheritedRoutes rib (re_children entry) [route] [] u else Some u)
     else if isChildInherit existingRoute \<and> \<not> isChildInherit route then do {
       routesToAdd \<leftarrow> (case prevRoute of
           Some prev \<Rightarrow> Some [prev]
         | None \<Rightarrow> do {
             ancestorRoutes \<leftarrow> getAncestorRoutes entry rib;
             Some (case rs_find route ancestorRoutes of None \<Rightarrow> [] | Some r \<Rightarrow> [r])
           });
       modifyChildrensInheritedRoutes rib (re_children entry) routesToAdd [route] u
     }
     else Some u)"

definition updatedRoute_capture :: "rib \<Rightarrow> rib_entry \<Rightarrow> route \<Rightarrow> route \<Rightarrow> fib_updater \<Rightarrow> fib_updater option" where
  "updatedRoute_capture rib entry route existingRoute u =
    (if \<not> isCapture existingRoute \<and> isCapture route then do {
       ancestorRoutes \<leftarrow> getAncestorRoutes entry rib;
       modifyChildrensInheritedRoutes rib (re_children entry) [] ancestorRoutes (removeInheritedRoutes entry ancestorRoutes u)
     }
     else if isCapture existingRoute \<and> \<not> isCapture route then do {
       ancestorRoutes \<leftarrow> getAncestorRoutes entry rib;
       modifyChildrensInheritedRoutes rib (re_children entry) ancestorRoutes [] (addInheritedRoutes entry ancestorRoutes u)
     }
     else Some u)"

definition createFibUpdatesForUpdatedRoute :: "rib \<Rightarrow> rib_entry \<Rightarrow> route \<Rightarrow> route \<Rightarrow> fib_updater \<Rightarrow> fib_updater option" where
  "createFibUpdatesForUpdatedRoute rib entry route existingRoute u =
    (let costDidChange = (rt_cost route \<noteq> rt_cost existingRoute);
         prevRoute = getRouteWithLowestCostAndChildInheritByFaceId (rt_faceId route) entry
     in if rt_flags route = rt_flags existingRoute \<and> \<not> costDidChange then Some u
        else do {
          (u, done) \<leftarrow> (if costDidChange then updatedRoute_cost rib entry route existingRoute prevRoute u else Some (u, False));
          if done then Some u
          else do {
            u \<leftarrow> updatedRoute_childInherit rib entry route existingRoute prevRoute u;
            updatedRoute_capture rib entry route existingRoute u
          }
        })"

definition createFibUpdatesForErasedRoute :: "rib \<Rightarrow> rib_entry \<Rightarrow> route \<Rightarrow> bool \<Rightarrow> fib_updater \<Rightarrow> fib_updater option" where
  "createFibUpdatesForErasedRoute rib entry route captureWasTurnedOff u = do {
     let u = addFibUpdate (createRemoveUpdate (re_name entry) (rt_faceId route)) u;
     let unblocked = (if captureWasTurnedOff \<and> getNRoutes entry \<noteq> 0 then getAncestorRoutes entry rib else Some []);
     u \<leftarrow> (if isChildInherit route \<and> isCapture route then do {
             routesToAdd \<leftarrow> unblocked;
             modifyChildrensInheritedRoutes rib (re_children entry) routesToAdd [route] (addInheritedRoutes entry routesToAdd u)
           }
           else if isChildInherit route then do {
             routesToAdd \<leftarrow> (if \<not> hasCapture entry then getAncestorRoutes entry rib else Some []);
             modifyChildrensInheritedRoutes rib (re_children entry) routesToAdd [route] u
           }
           else if isCapture route then do {
             routesToAdd \<leftarrow> unblocked;
             modifyChildrensInheritedRoutes rib (re_children entry) routesToAdd [] (addInheritedRoutes entry routesToAdd u)
           }
           else Some u);
     ancestorRoutes \<leftarrow> getAncestorRoutes entry rib;
     Some (if \<not> hasCapture entry \<and> getNRoutes entry \<noteq> 0 then
             (case rs_find route ancestorRoutes of
                None \<Rightarrow> u
              | Some r \<Rightarrow> addFibUpdate (createAddUpdate (re_name entry) (rt_faceId r) (rt_cost r)) (addInheritedRoute (re_name entry) r u))
           else u)
   }"

definition createFibUpdatesForErasedRibEntry :: "rib_entry \<Rightarrow> fib_updater \<Rightarrow> fib_updater" where
  "createFibUpdatesForErasedRibEntry entry u =
    fold (\<lambda>route. addFibUpdate (createRemoveUpdate (re_name entry) (rt_faceId route))) (re_inheritedRoutes entry) u"

definition computeUpdatesForRegistration :: "rib \<Rightarrow> rib_update \<Rightarrow> fib_updater \<Rightarrow> fib_updater option" where
  "computeUpdatesForRegistration rib update u =
    (let pfx = ru_name update; route = ru_route update
     in case rib_find pfx rib of
          Some x \<Rightarrow> do {
            entry \<leftarrow> rib_entries rib x;
            (case findRoute route entry of
               None \<Rightarrow> createFibUpdatesForNewRoute rib entry route (\<not> hasCapture entry \<and> isCapture route) u
             | Some existingRoute \<Rightarrow>
                 (let entryCopy = entry\<lparr>re_routes := update_first (\<lambda>r. compareFaceIdAndOrigin r route)
                        (\<lambda>r. r\<lparr>rt_flags := rt_flags route, rt_cost := rt_cost route, rt_expires := rt_expires route\<rparr>)
                        (re_routes entry)\<rparr>
                  in createFibUpdatesForUpdatedRoute rib entryCopy route existingRoute u))
          }
        | None \<Rightarrow> do {
            let parent = findParent pfx rib;
            let children = filter (\<lambda>x. case rib_entries rib x of None \<Rightarrow> False | Some e \<Rightarrow> re_parent e = parent)
                             (findDescendantsForNonInsertedName pfx rib);
            createFibUpdatesForNewRibEntry rib pfx route children u
          })"

definition computeUpdatesForUnregistration :: "rib \<Rightarrow> rib_update \<Rightarrow> fib_updater \<Rightarrow> fib_updater option" where
  "computeUpdatesForUnregistration rib update u =
    (let pfx = ru_name update; route = ru_route update
     in case rib_find pfx rib of
          None \<Rightarrow> Some u
        | Some x \<Rightarrow> do {
            entry \<leftarrow> rib_entries rib x;
            (case findRoute route entry of
               None \<Rightarrow> Some u
             | Some existing \<Rightarrow> do {
                 let (temp, event) = eraseRoute route entry;
                 let u = u\<lparr>fu_cancelled := fu_cancelled u @ (case event of None \<Rightarrow> [] | Some i \<Rightarrow> [i])\<rparr>;
                 u \<leftarrow> createFibUpdatesForErasedRoute rib temp existing (hasCapture entry \<and> \<not> hasCapture temp) u;
                 u \<leftarrow> (case getRouteWithSecondLowestCostByFaceId (rt_faceId route) entry of
                         None \<Rightarrow> Some u
                       | Some next \<Rightarrow> createFibUpdatesForNewRoute rib temp next False u);
                 Some (if getNRoutes entry = 1 then createFibUpdatesForErasedRibEntry entry u else u)
               })
          })"

definition computeUpdate :: "rib \<Rightarrow> rib_update \<Rightarrow> fib_updater \<Rightarrow> fib_updater option" where
  "computeUpdate rib update u =
    (case ru_action update of
       REGISTER \<Rightarrow> computeUpdatesForRegistration rib update u
     | UNREGISTER \<Rightarrow> computeUpdatesForUnregistration rib update u
     | REMOVE_FACE \<Rightarrow> map_option (\<lambda>u. u\<lparr>fu_updatesForBatchFaceId := []\<rparr>) (computeUpdatesForUnregistration rib update u))"

fun computeUpdates :: "rib \<Rightarrow> rib_update list \<Rightarrow> fib_updater \<Rightarrow> fib_updater option" where
  "computeUpdates rib [] u = Some u"
| "computeUpdates rib (update # batch) u = do { u \<leftarrow> computeUpdate rib update u; computeUpdates rib batch u }"

end
