(* ===== verification/Rib_Service.thy ===== *)
theory Rib_Service
  imports Fib_Updater
begin

text \<open>
  The RIB as a service (\<^verbatim>\<open>rib.cpp\<close>, \<^verbatim>\<open>fib-updater.cpp\<close>): a queue of RIB updates, of which one at a time is
  turned into FIB updates.  These are sent to the forwarder, first those for the face of the RIB update, then the others;
  when all are confirmed the RIB itself is changed and the next update is taken.

  The commands go through \<^verbatim>\<open>ndn::nfd::Controller\<close>, which answers each of them later with success or an error code.
  \<^verbatim>\<open>sv_pending\<close> holds the commands that are not answered yet, with what their callbacks have bound; an answer is an
  operation.  \<^verbatim>\<open>sv_fib\<close> stands for the FIB of the forwarder, which has executed every command that was answered with
  success.  The callbacks of the RIB manager are logged under the number the manager passed, \<^const>\<open>None\<close> for a null callback.
\<close>

section \<open>State\<close>

datatype manager_callback = ManagerSuccess nat | ManagerFailure nat u32

record update_queue_item =
  qi_batch :: rib_update_batch
  qi_manager :: "nat option"

record fib_command =
  cmd_action :: fib_action
  cmd_update :: fib_update
  cmd_nTimeouts :: u32
  cmd_item :: update_queue_item

type_synonym fib_map = "name \<Rightarrow> u64 \<Rightarrow> u64 option"

record rib_service =
  sv_rib :: rib
  sv_updater :: fib_updater
  sv_updateBatches :: "update_queue_item list"
  sv_isUpdateInProgress :: bool
  sv_pending :: "fib_command list"
  sv_fib :: fib_map
  sv_callbacks :: "manager_callback list"

definition FibUpdater :: fib_updater where
  "FibUpdater = \<lparr>fu_batchFaceId = 0, fu_updatesForBatchFaceId = [], fu_updatesForNonBatchFaceId = [],
     fu_inheritedRoutes = [], fu_cancelled = []\<rparr>"

definition rib_service_init :: rib_service where
  "rib_service_init = \<lparr>sv_rib = Rib, sv_updater = FibUpdater, sv_updateBatches = [], sv_isUpdateInProgress = False,
     sv_pending = [], sv_fib = (\<lambda>_ _. None), sv_callbacks = []\<rparr>"

definition MAX_NUM_TIMEOUTS :: u32 where "MAX_NUM_TIMEOUTS = 10"
definition ERROR_FACE_NOT_FOUND :: u32 where "ERROR_FACE_NOT_FOUND = 410"

definition fib_exec :: "fib_action \<Rightarrow> fib_update \<Rightarrow> fib_map \<Rightarrow> fib_map" where
  "fib_exec action update fib =
    fib(fb_name update := (fib (fb_name update))(fb_faceId update :=
      (case action of ADD_NEXTHOP \<Rightarrow> Some (fb_cost update) | REMOVE_NEXTHOP \<Rightarrow> None)))"

section \<open>Sending FIB updates\<close>

definition send_command :: "update_queue_item \<Rightarrow> fib_action \<Rightarrow> fib_update \<Rightarrow> u32 \<Rightarrow> rib_service \<Rightarrow> rib_service" where
  "send_command item action update nTimeouts sv =
    sv\<lparr>sv_pending := sv_pending sv @
      [\<lparr>cmd_action = action, cmd_update = update, cmd_nTimeouts = nTimeouts, cmd_item = item\<rparr>]\<rparr>"

definition sendAddNextHopUpdate :: "update_queue_item \<Rightarrow> fib_update \<Rightarrow> u32 \<Rightarrow> rib_service \<Rightarrow> rib_service" where
  "sendAddNextHopUpdate item update nTimeouts sv = send_command item ADD_NEXTHOP update nTimeouts sv"

definition sendRemoveNextHopUpdate :: "update_queue_item \<Rightarrow> fib_update \<Rightarrow> u32 \<Rightarrow> rib_service \<Rightarrow> rib_service" where
  "sendRemoveNextHopUpdate item update nTimeouts sv = send_command item REMOVE_NEXTHOP update nTimeouts sv"

definition sendUpdates :: "update_queue_item \<Rightarrow> fib_update list \<Rightarrow> rib_service \<Rightarrow> rib_service" where
  "sendUpdates item updates sv =
    fold (\<lambda>update sv. case fb_action update of
        ADD_NEXTHOP \<Rightarrow> sendAddNextHopUpdate item update 0 sv
      | REMOVE_NEXTHOP \<Rightarrow> sendRemoveNextHopUpdate item update 0 sv) updates sv"

text \<open>The functions that may call \<^verbatim>\<open>onSuccess(m_inheritedRoutes)\<close> return whether they do.\<close>

definition sendUpdatesForNonBatchFaceId :: "update_queue_item \<Rightarrow> rib_service \<Rightarrow> rib_service \<times> bool" where
  "sendUpdatesForNonBatchFaceId item sv =
    (if fu_updatesForNonBatchFaceId (sv_updater sv) \<noteq> []
     then (sendUpdates item (fu_updatesForNonBatchFaceId (sv_updater sv)) sv, False)
     else (sv, True))"

definition sendUpdatesForBatchFaceId :: "update_queue_item \<Rightarrow> rib_service \<Rightarrow> rib_service \<times> bool" where
  "sendUpdatesForBatchFaceId item sv =
    (if fu_updatesForBatchFaceId (sv_updater sv) \<noteq> []
     then (sendUpdates item (fu_updatesForBatchFaceId (sv_updater sv)) sv, False)
     else sendUpdatesForNonBatchFaceId item sv)"

definition computeAndSendFibUpdates :: "update_queue_item \<Rightarrow> rib_service \<Rightarrow> (rib_service \<times> bool) option" where
  "computeAndSendFibUpdates item sv = do {
     let batch = qi_batch item;
     let u = (sv_updater sv)\<lparr>fu_batchFaceId := rb_faceId batch, fu_inheritedRoutes := [],
               fu_updatesForBatchFaceId := [], fu_updatesForNonBatchFaceId := []\<rparr>;
     u \<leftarrow> computeUpdates (sv_rib sv) (rb_updates batch) u;
     Some (sendUpdatesForBatchFaceId item (sv\<lparr>sv_updater := u\<rparr>))
   }"

section \<open>Changing the RIB\<close>

fun modifyInheritedRoutes :: "rib_update list \<Rightarrow> rib \<Rightarrow> rib option" where
  "modifyInheritedRoutes [] rib = Some rib"
| "modifyInheritedRoutes (update # updates) rib = do {
     x \<leftarrow> rib_find (ru_name update) rib;
     e \<leftarrow> rib_entries rib x;
     e \<leftarrow> (case ru_action update of
             REGISTER \<Rightarrow> Some (entry_addInheritedRoute (ru_route update) e)
           | UNREGISTER \<Rightarrow> entry_removeInheritedRoute (ru_route update) e
           | REMOVE_FACE \<Rightarrow> Some e);
     modifyInheritedRoutes updates (rib_update_entry x (\<lambda>_. e) rib)
   }"

fun apply_batch :: "rib_update list \<Rightarrow> rib \<Rightarrow> rib option" where
  "apply_batch [] rib = Some rib"
| "apply_batch (update # updates) rib = do {
     rib \<leftarrow> (case ru_action update of
             REGISTER \<Rightarrow> rib_insert (ru_name update) (ru_route update) rib
           | UNREGISTER \<Rightarrow> rib_erase (ru_name update) (ru_route update) rib
           | REMOVE_FACE \<Rightarrow> rib_erase (ru_name update) (ru_route update) rib);
     apply_batch updates rib
   }"

text \<open>\<^verbatim>\<open>onFibUpdateSuccess\<close> and \<^verbatim>\<open>onFibUpdateFailure\<close> up to the call of \<^verbatim>\<open>sendBatchFromQueue\<close>.\<close>

definition apply_success :: "update_queue_item \<Rightarrow> rib_service \<Rightarrow> rib_service option" where
  "apply_success item sv = do {
     rib \<leftarrow> apply_batch (rb_updates (qi_batch item)) (sv_rib sv);
     rib \<leftarrow> modifyInheritedRoutes (fu_inheritedRoutes (sv_updater sv)) rib;
     Some (sv\<lparr>sv_rib := rib, sv_isUpdateInProgress := False,
             sv_callbacks := sv_callbacks sv @ (case qi_manager item of None \<Rightarrow> [] | Some i \<Rightarrow> [ManagerSuccess i])\<rparr>)
   }"

definition apply_failure :: "update_queue_item \<Rightarrow> u32 \<Rightarrow> rib_service \<Rightarrow> rib_service" where
  "apply_failure item code sv =
    sv\<lparr>sv_isUpdateInProgress := False,
       sv_callbacks := sv_callbacks sv @ (case qi_manager item of None \<Rightarrow> [] | Some i \<Rightarrow> [ManagerFailure i code])\<rparr>"

text \<open>\<^verbatim>\<open>sendBatchFromQueue\<close> while no update is in progress.  A batch without FIB updates is finished at once, and the
  function is called again for the rest of the queue.\<close>

fun drain_queue :: "update_queue_item list \<Rightarrow> rib_service \<Rightarrow> rib_service option" where
  "drain_queue [] sv = Some (sv\<lparr>sv_updateBatches := []\<rparr>)"
| "drain_queue (item # items) sv =
    (if length (rb_updates (qi_batch item)) \<noteq> 1 then None
     else do {
       (sv, finished) \<leftarrow> computeAndSendFibUpdates item (sv\<lparr>sv_isUpdateInProgress := True, sv_updateBatches := items\<rparr>);
       if finished then do { sv \<leftarrow> apply_success item sv; drain_queue items sv } else Some sv
     })"

definition sendBatchFromQueue :: "rib_service \<Rightarrow> rib_service option" where
  "sendBatchFromQueue sv =
    (if sv_updateBatches sv = [] \<or> sv_isUpdateInProgress sv then Some sv else drain_queue (sv_updateBatches sv) sv)"

definition onFibUpdateSuccess :: "update_queue_item \<Rightarrow> rib_service \<Rightarrow> rib_service option" where
  "onFibUpdateSuccess item sv = do { sv \<leftarrow> apply_success item sv; sendBatchFromQueue sv }"

definition onFibUpdateFailure :: "update_queue_item \<Rightarrow> u32 \<Rightarrow> rib_service \<Rightarrow> rib_service option" where
  "onFibUpdateFailure item code sv = sendBatchFromQueue (apply_failure item code sv)"

section \<open>Answers of the forwarder\<close>

definition onUpdateSuccess :: "fib_update \<Rightarrow> update_queue_item \<Rightarrow> rib_service \<Rightarrow> rib_service option" where
  "onUpdateSuccess update item sv =
    (let u = sv_updater sv
     in if fb_faceId update = fu_batchFaceId u then
          (let u = u\<lparr>fu_updatesForBatchFaceId := removeAll update (fu_updatesForBatchFaceId u)\<rparr>;
               sv = sv\<lparr>sv_updater := u\<rparr>
           in if fu_updatesForBatchFaceId u = [] then
                (case sendUpdatesForNonBatchFaceId item sv of (sv, finished) \<Rightarrow>
                   if finished then onFibUpdateSuccess item sv else Some sv)
              else Some sv)
        else
          (let u = u\<lparr>fu_updatesForNonBatchFaceId := removeAll update (fu_updatesForNonBatchFaceId u)\<rparr>;
               sv = sv\<lparr>sv_updater := u\<rparr>
           in if fu_updatesForNonBatchFaceId u = [] then onFibUpdateSuccess item sv else Some sv))"

text \<open>The code of a timeout belongs to the controller of ndn-cxx.  An error that is not recoverable throws an exception.\<close>

definition onUpdateError :: "u32 \<Rightarrow> fib_update \<Rightarrow> update_queue_item \<Rightarrow> u32 \<Rightarrow> u32 \<Rightarrow> rib_service \<Rightarrow> rib_service option" where
  "onUpdateError errorTimeout update item code nTimeouts sv =
    (if code = errorTimeout \<and> nTimeouts < MAX_NUM_TIMEOUTS
     then Some (sendAddNextHopUpdate item update (nTimeouts + 1) sv)
     else if code = ERROR_FACE_NOT_FOUND then
       (if fb_faceId update = fu_batchFaceId (sv_updater sv) then onFibUpdateFailure item code sv
        else
          (let u = (sv_updater sv)\<lparr>fu_updatesForNonBatchFaceId := removeAll update (fu_updatesForNonBatchFaceId (sv_updater sv))\<rparr>;
               sv = sv\<lparr>sv_updater := u\<rparr>
           in if fu_updatesForNonBatchFaceId u = [] then onFibUpdateSuccess item sv else Some sv))
     else None)"

text \<open>The forwarder has executed a command, or refused it.\<close>

definition command_succeeds :: "fib_command \<Rightarrow> rib_service \<Rightarrow> rib_service option" where
  "command_succeeds cmd sv =
    onUpdateSuccess (cmd_update cmd) (cmd_item cmd)
      (sv\<lparr>sv_pending := remove1 cmd (sv_pending sv), sv_fib := fib_exec (cmd_action cmd) (cmd_update cmd) (sv_fib sv)\<rparr>)"

definition command_fails :: "u32 \<Rightarrow> fib_command \<Rightarrow> u32 \<Rightarrow> rib_service \<Rightarrow> rib_service option" where
  "command_fails errorTimeout cmd code sv =
    onUpdateError errorTimeout (cmd_update cmd) (cmd_item cmd) code (cmd_nTimeouts cmd)
      (sv\<lparr>sv_pending := remove1 cmd (sv_pending sv)\<rparr>)"

section \<open>Requests\<close>

definition addUpdateToQueue :: "rib_update \<Rightarrow> nat option \<Rightarrow> rib_service \<Rightarrow> rib_service option" where
  "addUpdateToQueue update manager sv = do {
     batch \<leftarrow> rb_add update (RibUpdateBatch (rt_faceId (ru_route update)));
     Some (sv\<lparr>sv_updateBatches := sv_updateBatches sv @ [\<lparr>qi_batch = batch, qi_manager = manager\<rparr>]\<rparr>)
   }"

definition beginApplyUpdate :: "rib_update \<Rightarrow> nat option \<Rightarrow> rib_service \<Rightarrow> rib_service option" where
  "beginApplyUpdate update manager sv = do { sv \<leftarrow> addUpdateToQueue update manager sv; sendBatchFromQueue sv }"

fun queue_removals :: "(name \<times> route) list \<Rightarrow> rib_service \<Rightarrow> rib_service option" where
  "queue_removals [] sv = Some sv"
| "queue_removals ((n, r) # rest) sv = do {
     sv \<leftarrow> addUpdateToQueue \<lparr>ru_action = REMOVE_FACE, ru_name = n, ru_route = r\<rparr> None sv;
     queue_removals rest sv
   }"

definition beginRemoveFace :: "u64 \<Rightarrow> rib_service \<Rightarrow> rib_service option" where
  "beginRemoveFace faceId sv = do {
     routes \<leftarrow> findRoutesWithFaceId faceId (sv_rib sv);
     sv \<leftarrow> queue_removals routes sv;
     sendBatchFromQueue sv
   }"

definition onRouteExpiration :: "name \<Rightarrow> route \<Rightarrow> rib_service \<Rightarrow> rib_service option" where
  "onRouteExpiration pfx route sv =
    beginApplyUpdate \<lparr>ru_action = UNREGISTER, ru_name = pfx, ru_route = route\<rparr> None sv"

end
