(* ===== verification/Fib_Inheritance.thy ===== *)
theory Fib_Inheritance
  imports Rib_Correct Rib_Service
begin

text \<open>
  What the FIB should hold for a RIB: the routes of each name, and those that it inherits.  A name inherits the routes with the
  ChildInherit flag of its prefixes, the closest prefix first, up to and including the first one with a Capture route; a
  name with a Capture route inherits nothing, and its own routes override inherited ones of the same face.  The theory shows
  that \<^verbatim>\<open>getAncestorRoutes\<close> collects the inherited routes and that \<^verbatim>\<open>modifyChildrensInheritedRoutes\<close> reaches
  exactly the entries below a name for which a change there matters.
\<close>

section \<open>The FIB that a RIB stands for\<close>

type_synonym route_map = "name \<Rightarrow> route list"

definition captures :: "route list \<Rightarrow> bool" where
  "captures rs = list_ex isCapture rs"

definition own_route :: "u64 \<Rightarrow> route list \<Rightarrow> route option" where
  "own_route f rs = List.find (\<lambda>r. rt_faceId r = f) rs"

definition child_route :: "u64 \<Rightarrow> route list \<Rightarrow> route option" where
  "child_route f rs = List.find (\<lambda>r. rt_faceId r = f \<and> isChildInherit r) rs"

fun inherited_from :: "route_map \<Rightarrow> name \<Rightarrow> u64 \<Rightarrow> nat \<Rightarrow> route option" where
  "inherited_from R n f 0 = None"
| "inherited_from R n f (Suc k) =
    (case child_route f (R (take k n)) of
       Some r \<Rightarrow> Some r
     | None \<Rightarrow> if captures (R (take k n)) then None else inherited_from R n f k)"

definition inherited :: "route_map \<Rightarrow> name \<Rightarrow> u64 \<Rightarrow> route option" where
  "inherited R n f = inherited_from R n f (length n)"

definition fib_spec :: "route_map \<Rightarrow> fib_map" where
  "fib_spec R n f =
    (if R n = [] then None
     else (case own_route f (R n) of
         Some r \<Rightarrow> Some (rt_cost r)
       | None \<Rightarrow> if captures (R n) then None else map_option rt_cost (inherited R n f)))"

lemma inherited_from_cong: "(\<And>j. j < k \<Longrightarrow> R (take j n) = R' (take j n')) \<Longrightarrow> inherited_from R n f k = inherited_from R' n' f k"
  by (induction k) (auto split: option.split)

lemma inherited_cong: "(\<And>j. strict_prefix j n \<Longrightarrow> R j = R' j) \<Longrightarrow> inherited R n f = inherited R' n f"
  unfolding inherited_def by (rule inherited_from_cong) (auto simp: strict_prefix_take)

text \<open>Below a name whose descendants down to \<open>m\<close> neither capture nor have the face, the walk reaches that name.\<close>

definition passes :: "route_map \<Rightarrow> u64 \<Rightarrow> name \<Rightarrow> bool" where
  "passes R f k \<longleftrightarrow> \<not> captures (R k) \<and> child_route f (R k) = None"

lemma inherited_from_skip:
  "l \<le> k \<Longrightarrow> (\<And>j. l \<le> j \<Longrightarrow> j < k \<Longrightarrow> passes R f (take j n)) \<Longrightarrow> inherited_from R n f k = inherited_from R n f l"
proof (induction k)
  case (Suc k)
  then show ?case
    by (cases "l = Suc k") (auto simp: passes_def)
qed simp

lemma inherited_from_stop:
  assumes "l < k" "\<not> passes R f (take l n)" and same: "\<And>j. l \<le> j \<Longrightarrow> j < k \<Longrightarrow> R (take j n) = R' (take j n)"
  shows "inherited_from R n f k = inherited_from R' n f k"
  using assms
proof (induction k)
  case (Suc k)
  show ?case
  proof (cases "l = k")
    case True
    then show ?thesis
      using Suc.prems by (auto simp: passes_def split: option.split)
  next
    case False
    then have "inherited_from R n f k = inherited_from R' n f k"
      using Suc by auto
    then show ?thesis
      using Suc.prems(3)[of k] Suc.prems(1) False by (auto split: option.split)
  qed
qed simp

text \<open>The walk at one level.\<close>

definition inherited_at :: "route_map \<Rightarrow> name \<Rightarrow> u64 \<Rightarrow> route option" where
  "inherited_at R n f = (case child_route f (R n) of Some r \<Rightarrow> Some r | None \<Rightarrow> if captures (R n) then None else inherited R n f)"

text \<open>A change at \<open>n\<close> reaches \<open>m\<close> for face \<open>f\<close> if nothing between them stops it.\<close>

definition reaches :: "route_map \<Rightarrow> name \<Rightarrow> name \<Rightarrow> u64 \<Rightarrow> bool" where
  "reaches R n m f \<longleftrightarrow> strict_prefix n m \<and> R m \<noteq> [] \<and> (\<forall>k. strict_prefix n k \<and> prefix k m \<longrightarrow> passes R f k)"

lemma inherited_below:
  assumes "strict_prefix n m" and pass: "\<And>k. strict_prefix n k \<Longrightarrow> strict_prefix k m \<Longrightarrow> passes R f k"
  shows "inherited R m f = inherited_at R n f"
proof -
  obtain zs where m: "m = n @ zs" "zs \<noteq> []"
    using assms(1) by (auto simp: strict_prefix_def prefix_def)
  have "passes R f (take j m)" if "Suc (length n) \<le> j" "j < length m" for j
  proof (rule pass)
    show "strict_prefix n (take j m)"
      using that m by (auto simp: strict_prefix_def)
    show "strict_prefix (take j m) m"
      using that by (auto simp: strict_prefix_take)
  qed
  then have "inherited R m f = inherited_from R m f (Suc (length n))"
    unfolding inherited_def using m by (intro inherited_from_skip) (auto simp: Suc_le_eq)
  also have "\<dots> = inherited_at R n f"
    using inherited_from_cong[of "length n" R m R n f] m by (simp add: inherited_at_def inherited_def split: option.split)
  finally show ?thesis .
qed

section \<open>Ancestor routes\<close>

lemma hasCapture_iff:
  assumes "entry_wf e" "length (re_routes e) < 2 ^ 64"
  shows "hasCapture e \<longleftrightarrow> captures (re_routes e)"
proof -
  let ?k = "length (filter isCapture (re_routes e))"
  have "?k < 2 ^ 64"
    using assms(2) length_filter_le[of isCapture "re_routes e"] by linarith
  then have "2 ^ 64 dvd ?k \<longleftrightarrow> ?k = 0"
    by (metis dvd_0_right gr0I nat_dvd_not_less)
  then have "(of_nat ?k :: u64) = 0 \<longleftrightarrow> ?k = 0"
    by (simp add: word_of_nat_eq_0_iff)
  then show ?thesis
    using assms(1) by (auto simp: hasCapture_def entry_wf_def captures_def list_ex_iff filter_empty_conv word_neq_0_conv[symmetric])
qed

lemma hasChildInherit_iff: "hasChildInheritOnFaceId f e \<longleftrightarrow> child_route f (re_routes e) \<noteq> None"
  by (auto simp: hasChildInheritOnFaceId_def child_route_def find_None_all list_ex_iff)

lemma hasFaceId_own: "hasFaceId f e \<longleftrightarrow> own_route f (re_routes e) \<noteq> None"
  by (auto simp: hasFaceId_def own_route_def compareFaceId_def)

abbreviation sorted_set :: "route_set \<Rightarrow> bool" where
  "sorted_set rs \<equiv> sorted_wrt (<) (map rt_faceId rs)"

lemma rs_insert_set: "set (rs_insert r rs) \<subseteq> insert r (set rs)"
  by (induction r rs rule: rs_insert.induct) auto

lemma rs_insert_sorted: "sorted_set rs \<Longrightarrow> sorted_set (rs_insert r rs)"
  using rs_insert_set by (induction r rs rule: rs_insert.induct) fastforce+

lemma rs_insert_own:
  "sorted_set rs \<Longrightarrow> own_route f (rs_insert r rs) =
    (case own_route f rs of Some q \<Rightarrow> Some q | None \<Rightarrow> if rt_faceId r = f then Some r else None)"
proof (induction r rs rule: rs_insert.induct)
  case (2 route r rs)
  have "own_route f rs = None" if "rt_faceId route < rt_faceId r" "rt_faceId route = f"
    using 2(2) that by (auto simp: own_route_def find_None_all)
  then show ?case
    using 2 by (auto simp: own_route_def split: option.split)
qed (auto simp: own_route_def)

lemma insert_inherited_ok:
  "sorted_set acc \<Longrightarrow> sorted_set (insert_inherited rs acc) \<and>
    own_route f (insert_inherited rs acc) = (case own_route f acc of Some q \<Rightarrow> Some q | None \<Rightarrow> child_route f rs)"
proof (induction rs arbitrary: acc)
  case Nil
  then show ?case
    by (auto simp: insert_inherited_def child_route_def split: option.split)
next
  case (Cons r rs)
  let ?acc = "if isChildInherit r then rs_insert r acc else acc"
  have "sorted_set ?acc"
    using Cons.prems rs_insert_sorted by simp
  moreover have "insert_inherited (r # rs) acc = insert_inherited rs ?acc"
    by (simp add: insert_inherited_def)
  ultimately show ?case
    using Cons.IH[of ?acc] rs_insert_own[OF Cons.prems, of f r] by (auto simp: child_route_def split: option.splits)
qed

definition rib_small :: "rib \<Rightarrow> bool" where
  "rib_small rib \<longleftrightarrow> (\<forall>n. length (rib_routes rib n) < 2 ^ 64)"

lemma rib_routes_empty: "rib_inv rib \<Longrightarrow> rib_routes rib n = [] \<longleftrightarrow> rib_find n rib = None"
  using rib_invD(2)[of rib n] rib_find_at[OF rib_invD(1)[of rib], of n] rib_routes_at[of rib n]
  by (cases "rib_find n rib") (auto simp: rib_routes_def)

lemma entry_captures: "rib_inv rib \<Longrightarrow> rib_small rib \<Longrightarrow> rib_at rib n x e \<Longrightarrow> hasCapture e \<longleftrightarrow> captures (rib_routes rib n)"
  using hasCapture_iff[of e] rib_invD(3)[of rib n x e] rib_routes_at[of rib n x e] by (metis rib_small_def)

lemma passes_empty: "R k = [] \<Longrightarrow> passes R f k"
  by (simp add: passes_def captures_def child_route_def)

lemma inherited_None:
  assumes "\<And>k. strict_prefix k n \<Longrightarrow> R k = []"
  shows "inherited R n f = None"
proof -
  have none: "R (take k n) = []" if "k < length n" for k
    using assms that by (metis strict_prefix_take)
  have "inherited_from R n f k = None" if "k \<le> length n" for k
    using that by (induction k) (auto simp: child_route_def captures_def none)
  then show ?thesis
    by (simp add: inherited_def)
qed

lemma inherited_parent:
  assumes inv: "rib_inv rib" and par: "findParent n rib = Some p" and at: "rib_at rib m p e"
  shows "inherited (rib_routes rib) n f = inherited_at (rib_routes rib) m f"
proof -
  have m: "parent_name (rib_names rib) n m"
    using par at rib_find_inj[OF rib_invD(1)[OF inv]] unfolding findParent_Some rib_at_def by metis
  show ?thesis
  proof (rule inherited_below)
    show "strict_prefix m n"
      using m by (simp add: parent_name_def)
    fix k assume "strict_prefix m k" "strict_prefix k n"
    then have "k \<notin> rib_names rib"
      using m by (auto simp: parent_name_def)
    then show "passes (rib_routes rib) f k"
      using rib_routes_empty[OF inv] by (intro passes_empty) (simp add: rib_find_names)
  qed
qed

lemma ancestor_loop_ok:
  assumes inv: "rib_inv rib" and small: "rib_small rib" and "sorted_set acc"
  shows "\<exists>rs. ancestor_loop rib (findParent n rib) acc = Some rs \<and> sorted_set rs \<and>
    (\<forall>f. own_route f rs = (case own_route f acc of Some q \<Rightarrow> Some q | None \<Rightarrow> inherited (rib_routes rib) n f))"
  using assms(3)
proof (induction "length n" arbitrary: n acc rule: less_induct)
  case less
  show ?case
  proof (cases "findParent n rib")
    case None
    then have "inherited (rib_routes rib) n f = None" for f
      using inherited_None[of n "rib_routes rib"] rib_routes_empty[OF inv] unfolding findParent_None by (metis names_iff not_None_eq)
    then show ?thesis
      using None less.prems by (subst ancestor_loop.simps) (auto split: option.split)
  next
    case (Some p)
    then obtain m where m: "rib_find m rib = Some p" "strict_prefix m n"
      by (rule parent_at)
    then obtain e where e: "rib_at rib m p e"
      using rib_find_at[OF rib_invD(1)[OF inv]] by blast
    let ?acc = "insert_inherited (re_routes e) acc"
    have acc: "sorted_set ?acc" "own_route f ?acc = (case own_route f acc of Some q \<Rightarrow> Some q | None \<Rightarrow> child_route f (re_routes e))" for f
      using insert_inherited_ok[OF less.prems] by auto
    have inh: "inherited (rib_routes rib) n f = inherited_at (rib_routes rib) m f" for f
      by (rule inherited_parent[OF inv Some e])
    have e': "rib_entries rib p = Some e" "re_parent e = findParent m rib" "rib_routes rib m = re_routes e"
      "hasCapture e \<longleftrightarrow> captures (re_routes e)"
      using e tree_okD(3)[OF rib_invD(1)[OF inv] e] rib_routes_at[OF e] entry_captures[OF inv small e] by (auto simp: rib_at_def)
    have len: "length m < length n"
      using m(2) by (auto simp: strict_prefix_def prefix_def)
    show ?thesis
    proof (cases "captures (re_routes e)")
      case True
      then show ?thesis
        using Some e' acc inh by (subst ancestor_loop.simps) (auto simp: inherited_at_def split: option.split)
    next
      case False
      then show ?thesis
        using Some e' acc inh less.hyps[OF len acc(1)] by (subst ancestor_loop.simps) (fastforce simp: inherited_at_def split: option.split)
    qed
  qed
qed

lemma ancestor_routes_ok:
  assumes "rib_inv rib" "rib_small rib"
  shows "\<exists>rs. getAncestorRoutes_name n rib = Some rs \<and> sorted_set rs \<and> (\<forall>f. own_route f rs = inherited (rib_routes rib) n f)"
  using ancestor_loop_ok[OF assms, of "[]" n] by (auto simp: getAncestorRoutes_name_def own_route_def)

section \<open>The lists of updates as maps\<close>

definition updates_ok :: "fib_update list \<Rightarrow> bool" where
  "updates_ok us \<longleftrightarrow> distinct (map (\<lambda>up. (fb_name up, fb_faceId up)) us)"

definition lookup_update :: "name \<Rightarrow> u64 \<Rightarrow> fib_update list \<Rightarrow> fib_update option" where
  "lookup_update n f us = List.find (\<lambda>up. fb_name up = n \<and> fb_faceId up = f) us"

lemma merge_update_ok:
  assumes "updates_ok us"
  shows "updates_ok (merge_update up us)" (is ?ok)
    and "lookup_update n f (merge_update up us) =
      (if fb_name up = n \<and> fb_faceId up = f then Some up else lookup_update n f us)" (is ?look)
    and "fb_faceId ` set (merge_update up us) = insert (fb_faceId up) (fb_faceId ` set us)" (is ?faces)
proof -
  let ?same = "\<lambda>other. fb_name up = fb_name other \<and> fb_faceId up = fb_faceId other"
  let ?set = "\<lambda>other. other\<lparr>fb_action := fb_action up, fb_cost := fb_cost up\<rparr>"
  let ?keys = "map (\<lambda>up. (fb_name up, fb_faceId up))"
  have keys: "?keys (update_first ?same ?set us) = ?keys us" for us
    by (induction us) auto
  have find: "lookup_update n f (update_first ?same ?set us) = (if fb_name up = n \<and> fb_faceId up = f then Some up else lookup_update n f us)"
    if "List.find ?same us \<noteq> None" for us
    using that by (induction us) (auto simp: lookup_update_def)
  have app: "lookup_update n f (us @ [up]) = (if fb_name up = n \<and> fb_faceId up = f then Some up else lookup_update n f us)"
    if "List.find ?same us = None" for us
    using that by (induction us) (auto simp: lookup_update_def split: if_splits)
  have faces: "fb_faceId ` set us = set (map snd (?keys us))" for us
    by (auto simp: image_iff)
  show ?ok
    using assms by (auto simp: merge_update_def Let_def updates_ok_def keys find_None_all)
  show ?look
    using find app by (auto simp: merge_update_def Let_def)
  show ?faces
    unfolding merge_update_def Let_def faces
    by (simp only: keys split: if_split) (auto simp: find_None_all image_iff)
qed

definition fu_wf :: "fib_updater \<Rightarrow> bool" where
  "fu_wf u \<longleftrightarrow> updates_ok (fu_updatesForBatchFaceId u) \<and> updates_ok (fu_updatesForNonBatchFaceId u) \<and>
    fb_faceId ` set (fu_updatesForBatchFaceId u) \<subseteq> {fu_batchFaceId u} \<and>
    fu_batchFaceId u \<notin> fb_faceId ` set (fu_updatesForNonBatchFaceId u)"

definition fu_lookup :: "fib_updater \<Rightarrow> name \<Rightarrow> u64 \<Rightarrow> fib_update option" where
  "fu_lookup u n f = lookup_update n f (if f = fu_batchFaceId u then fu_updatesForBatchFaceId u else fu_updatesForNonBatchFaceId u)"

definition inh_log :: "fib_updater \<Rightarrow> name \<Rightarrow> u64 \<Rightarrow> rib_action list" where
  "inh_log u n f = map ru_action (filter (\<lambda>ru. ru_name ru = n \<and> rt_faceId (ru_route ru) = f) (fu_inheritedRoutes u))"

text \<open>What an updater holds about one name and face: the FIB update and what happens to the inherited route.\<close>

definition view :: "fib_updater \<Rightarrow> name \<Rightarrow> u64 \<Rightarrow> fib_update option \<times> rib_action list" where
  "view u n f = (fu_lookup u n f, inh_log u n f)"

definition inh_names :: "fib_updater \<Rightarrow> name set" where
  "inh_names u = ru_name ` set (fu_inheritedRoutes u)"

definition same_batch :: "fib_updater \<Rightarrow> fib_updater \<Rightarrow> bool" where
  "same_batch u u' \<longleftrightarrow> fu_batchFaceId u' = fu_batchFaceId u \<and> fu_cancelled u' = fu_cancelled u"

lemma same_batch_refl [simp]: "same_batch u u"
  by (simp add: same_batch_def)

lemma same_batch_trans [trans]: "same_batch u u' \<Longrightarrow> same_batch u' u'' \<Longrightarrow> same_batch u u''"
  by (simp add: same_batch_def)

lemma addFibUpdate_ok:
  assumes "fu_wf u"
  shows "fu_wf (addFibUpdate up u)" "same_batch u (addFibUpdate up u)" "inh_names (addFibUpdate up u) = inh_names u"
    "view (addFibUpdate up u) n f =
      (if fb_name up = n \<and> fb_faceId up = f then (Some up, snd (view u n f)) else view u n f)"
  using assms merge_update_ok[where us = "fu_updatesForBatchFaceId u" and up = up] merge_update_ok[where us = "fu_updatesForNonBatchFaceId u" and up = up]
  by (auto simp: addFibUpdate_def fu_wf_def same_batch_def view_def fu_lookup_def inh_log_def inh_names_def)

lemma inheritedRoute_ok:
  "fu_wf (addInheritedRoute k r u) = fu_wf u" "same_batch u (addInheritedRoute k r u)"
  "inh_names (addInheritedRoute k r u) = insert k (inh_names u)"
  "view (addInheritedRoute k r u) n f =
    (if k = n \<and> rt_faceId r = f then (fst (view u n f), snd (view u n f) @ [REGISTER]) else view u n f)"
  "fu_wf (removeInheritedRoute k r u) = fu_wf u" "same_batch u (removeInheritedRoute k r u)"
  "inh_names (removeInheritedRoute k r u) = insert k (inh_names u)"
  "view (removeInheritedRoute k r u) n f =
    (if k = n \<and> rt_faceId r = f then (fst (view u n f), snd (view u n f) @ [UNREGISTER]) else view u n f)"
  by (auto simp: addInheritedRoute_def removeInheritedRoute_def fu_wf_def same_batch_def view_def fu_lookup_def inh_log_def inh_names_def)

lemmas update_ok = addFibUpdate_ok inheritedRoute_ok

text \<open>The loops over a set of routes.\<close>

definition inherits :: "u64 \<Rightarrow> rib_entry \<Rightarrow> bool" where
  "inherits f e \<longleftrightarrow> f \<in> rt_faceId ` set (re_inheritedRoutes e)"

lemma hasInherited_iff: "hasInheritedRoute r e \<longleftrightarrow> inherits (rt_faceId r) e"
  by (auto simp: hasInheritedRoute_def findInheritedRoute_def compareFaceId_def inherits_def find_None_all image_iff) metis

lemma own_route_Cons: "own_route f (r # rs) = (if rt_faceId r = f then Some r else own_route f rs)"
  by (simp add: own_route_def)

lemma own_route_Nil [simp]: "own_route f [] = None"
  by (simp add: own_route_def)

lemma own_route_face: "own_route f rs = Some r \<Longrightarrow> rt_faceId r = f"
  by (auto simp: own_route_def find_Some_iff)

lemma sorted_set_tail: "sorted_set (r # rs) \<Longrightarrow> sorted_set rs \<and> own_route (rt_faceId r) rs = None"
  by (auto simp: own_route_def find_None_all)

definition add_view :: "name \<Rightarrow> u64 \<Rightarrow> route option \<Rightarrow> fib_update option \<times> rib_action list \<Rightarrow> fib_update option \<times> rib_action list" where
  "add_view n f ro v = (case ro of None \<Rightarrow> v | Some r \<Rightarrow> (Some (createAddUpdate n f (rt_cost r)), snd v @ [REGISTER]))"

definition remove_view :: "name \<Rightarrow> u64 \<Rightarrow> route option \<Rightarrow> fib_update option \<times> rib_action list \<Rightarrow> fib_update option \<times> rib_action list" where
  "remove_view n f ro v = (case ro of None \<Rightarrow> v | Some r \<Rightarrow> (Some (createRemoveUpdate n f), snd v @ [UNREGISTER]))"

definition add_all :: "(u64 \<Rightarrow> bool) \<Rightarrow> name \<Rightarrow> route_set \<Rightarrow> fib_updater \<Rightarrow> fib_updater" where
  "add_all P n rs u = fold (\<lambda>route u. if P (rt_faceId route)
        then addFibUpdate (createAddUpdate n (rt_faceId route) (rt_cost route)) (addInheritedRoute n route u)
        else u) rs u"

lemma add_all_ok:
  "fu_wf u \<Longrightarrow> sorted_set rs \<Longrightarrow>
    fu_wf (add_all P n rs u) \<and> same_batch u (add_all P n rs u) \<and> inh_names (add_all P n rs u) \<subseteq> insert n (inh_names u) \<and>
    (\<forall>m f. view (add_all P n rs u) m f = (if m = n \<and> P f then add_view n f (own_route f rs) (view u m f) else view u m f))"
proof (induction rs arbitrary: u)
  case Nil
  then show ?case
    by (auto simp: add_all_def add_view_def)
next
  case (Cons r rs)
  define v where "v = (if P (rt_faceId r) then addFibUpdate (createAddUpdate n (rt_faceId r) (rt_cost r)) (addInheritedRoute n r u) else u)"
  have v: "fu_wf v" "same_batch u v" "inh_names v \<subseteq> insert n (inh_names u)"
    using Cons.prems(1) by (auto simp: v_def update_ok intro: same_batch_trans[OF inheritedRoute_ok(2) addFibUpdate_ok(2)])
  have view: "view v m f = (if m = n \<and> P f \<and> f = rt_faceId r then add_view n f (Some r) (view u m f) else view u m f)" for m f
    using Cons.prems(1) by (auto simp: v_def update_ok createAddUpdate_def add_view_def)
  have all: "add_all P n (r # rs) u = add_all P n rs v"
    by (simp add: add_all_def v_def)
  have IH: "fu_wf (add_all P n rs v) \<and> same_batch v (add_all P n rs v) \<and> inh_names (add_all P n rs v) \<subseteq> insert n (inh_names v) \<and>
      (\<forall>m f. view (add_all P n rs v) m f = (if m = n \<and> P f then add_view n f (own_route f rs) (view v m f) else view v m f))"
    using Cons.prems(2) sorted_set_tail by (intro Cons.IH[OF v(1)]) blast
  have tail: "own_route (rt_faceId r) rs = None"
    using Cons.prems(2) sorted_set_tail by blast
  show ?case
    unfolding all using IH v tail view same_batch_trans[OF v(2)] by (auto simp: own_route_Cons add_view_def split: option.split)
qed

definition remove_all :: "(u64 \<Rightarrow> bool) \<Rightarrow> name \<Rightarrow> route_set \<Rightarrow> fib_updater \<Rightarrow> fib_updater" where
  "remove_all P n rs u = fold (\<lambda>route u. if P (rt_faceId route)
        then addFibUpdate (createRemoveUpdate n (rt_faceId route)) (removeInheritedRoute n route u)
        else u) rs u"

lemma remove_all_ok:
  "fu_wf u \<Longrightarrow> sorted_set rs \<Longrightarrow>
    fu_wf (remove_all P n rs u) \<and> same_batch u (remove_all P n rs u) \<and> inh_names (remove_all P n rs u) \<subseteq> insert n (inh_names u) \<and>
    (\<forall>m f. view (remove_all P n rs u) m f = (if m = n \<and> P f then remove_view n f (own_route f rs) (view u m f) else view u m f))"
proof (induction rs arbitrary: u)
  case Nil
  then show ?case
    by (auto simp: remove_all_def remove_view_def)
next
  case (Cons r rs)
  define v where "v = (if P (rt_faceId r) then addFibUpdate (createRemoveUpdate n (rt_faceId r)) (removeInheritedRoute n r u) else u)"
  have v: "fu_wf v" "same_batch u v" "inh_names v \<subseteq> insert n (inh_names u)"
    using Cons.prems(1) by (auto simp: v_def update_ok intro: same_batch_trans[OF inheritedRoute_ok(6) addFibUpdate_ok(2)])
  have view: "view v m f = (if m = n \<and> P f \<and> f = rt_faceId r then remove_view n f (Some r) (view u m f) else view u m f)" for m f
    using Cons.prems(1) by (auto simp: v_def update_ok createRemoveUpdate_def remove_view_def)
  have all: "remove_all P n (r # rs) u = remove_all P n rs v"
    by (simp add: remove_all_def v_def)
  have IH: "fu_wf (remove_all P n rs v) \<and> same_batch v (remove_all P n rs v) \<and> inh_names (remove_all P n rs v) \<subseteq> insert n (inh_names v) \<and>
      (\<forall>m f. view (remove_all P n rs v) m f = (if m = n \<and> P f then remove_view n f (own_route f rs) (view v m f) else view v m f))"
    using Cons.prems(2) sorted_set_tail by (intro Cons.IH[OF v(1)]) blast
  have tail: "own_route (rt_faceId r) rs = None"
    using Cons.prems(2) sorted_set_tail by blast
  show ?case
    unfolding all using IH v tail view same_batch_trans[OF v(2)] by (auto simp: own_route_Cons remove_view_def split: option.split)
qed

section \<open>Changes below a name\<close>

lemma addInheritedRoutes_all: "addInheritedRoutes e rs u = add_all (\<lambda>f. own_route f (re_routes e) = None) (re_name e) rs u"
  by (simp add: addInheritedRoutes_def add_all_def hasFaceId_own)

lemma addInheritedRoutes_name_all: "addInheritedRoutes_name n rs r u = add_all (\<lambda>f. f \<noteq> rt_faceId r) n rs u"
  by (simp add: addInheritedRoutes_name_def add_all_def)

lemma removeInheritedRoutes_all: "removeInheritedRoutes e rs u = remove_all (\<lambda>f. inherits f e) (re_name e) rs u"
  by (simp add: removeInheritedRoutes_def remove_all_def hasInherited_iff)

lemma own_route_filter: "own_route f (filter (\<lambda>r. Q (rt_faceId r)) rs) = (if Q f then own_route f rs else None)"
  by (induction rs) (auto simp: own_route_def)

lemma sorted_set_filter: "sorted_set rs \<Longrightarrow> sorted_set (filter Q rs)"
  by (induction rs) auto

definition has_inherited :: "rib \<Rightarrow> name \<Rightarrow> u64 \<Rightarrow> bool" where
  "has_inherited rib n f \<longleftrightarrow> (\<exists>x e. rib_at rib n x e \<and> inherits f e)"

lemma has_inherited_at: "rib_at rib n x e \<Longrightarrow> has_inherited rib n f \<longleftrightarrow> inherits f e"
  by (auto simp: has_inherited_def rib_at_def)

text \<open>What one entry below does to the view: its inherited route is removed, then a new one may take its place.\<close>

definition node_view :: "rib \<Rightarrow> route_set \<Rightarrow> route_set \<Rightarrow> name \<Rightarrow> u64 \<Rightarrow>
    fib_update option \<times> rib_action list \<Rightarrow> fib_update option \<times> rib_action list" where
  "node_view rib add rem n f v =
    (let v = (if has_inherited rib n f then remove_view n f (own_route f rem) v else v)
     in if own_route f (rib_routes rib n) = None then add_view n f (own_route f add) v else v)"

lemma node_view_cong:
  "own_route f add = own_route f add' \<Longrightarrow> own_route f rem = own_route f rem' \<Longrightarrow> node_view rib add rem n f = node_view rib add' rem' n f"
  by (rule ext) (simp add: node_view_def Let_def)

lemma node_view_None: "own_route f add = None \<Longrightarrow> own_route f rem = None \<Longrightarrow> node_view rib add rem n f v = v"
  by (simp add: node_view_def add_view_def remove_view_def)

definition updater_step :: "rib \<Rightarrow> fib_updater \<Rightarrow> fib_updater \<Rightarrow> bool" where
  "updater_step rib u u' \<longleftrightarrow> fu_wf u' \<and> same_batch u u' \<and> inh_names u' \<subseteq> rib_names rib \<union> inh_names u"

lemma updater_step_trans: "updater_step rib u u' \<Longrightarrow> updater_step rib u' u'' \<Longrightarrow> updater_step rib u u''"
  by (auto simp: updater_step_def intro: same_batch_trans)

lemma traverse_ok:
  assumes at: "rib_at rib n x e" and name: "re_name e = n" and "sorted_set add" "sorted_set rem" "fu_wf u"
  obtains add' rem' u1 u' where
    "traverse_remove e rem u = (rem', u1)" "traverse_add e add u1 = (add', u')"
    "sorted_set add'" "sorted_set rem'" "updater_step rib u u'"
    "\<And>f. own_route f add' = (if child_route f (rib_routes rib n) = None then own_route f add else None)"
    "\<And>f. own_route f rem' = (if child_route f (rib_routes rib n) = None then own_route f rem else None)"
    "\<And>m f. view u' m f = (if m = n \<and> child_route f (rib_routes rib n) = None
       then node_view rib add rem n f (view u n f) else view u m f)"
proof -
  let ?P = "\<lambda>r. \<not> hasChildInheritOnFaceId (rt_faceId r) e"
  define add' where "add' = filter ?P add"
  define rem' where "rem' = filter ?P rem"
  define u1 where "u1 = removeInheritedRoutes e rem' u"
  define u' where "u' = addInheritedRoutes e add' u1"
  have R: "rib_routes rib n = re_routes e"
    by (rule rib_routes_at[OF at])
  have "n \<in> rib_names rib"
    using at rib_find_in by (auto simp: rib_at_def)
  have sorted: "sorted_set add'" "sorted_set rem'"
    using assms sorted_set_filter unfolding add'_def rem'_def by blast+
  have own: "own_route f add' = (if child_route f (rib_routes rib n) = None then own_route f add else None)"
    "own_route f rem' = (if child_route f (rib_routes rib n) = None then own_route f rem else None)" for f
    by (auto simp: add'_def rem'_def own_route_filter[where Q = "\<lambda>f. child_route f (re_routes e) = None"] hasChildInherit_iff R)
  note u1 = remove_all_ok[OF assms(5) sorted(2), of "\<lambda>f. inherits f e" n, folded removeInheritedRoutes_all[of e, unfolded name] u1_def]
  note u' = add_all_ok[OF _ sorted(1), of u1 "\<lambda>f. own_route f (re_routes e) = None" n, folded addInheritedRoutes_all[of e, unfolded name] u'_def]
  have v1: "view u1 m f = (if m = n \<and> inherits f e then remove_view n f (own_route f rem') (view u m f) else view u m f)" for m f
    using u1 by blast
  have v2: "view u' m f = (if m = n \<and> own_route f (re_routes e) = None then add_view n f (own_route f add') (view u1 m f) else view u1 m f)" for m f
    using u1 u' by blast
  have view: "view u' m f = (if m = n \<and> child_route f (rib_routes rib n) = None
       then node_view rib add rem n f (view u n f) else view u m f)" for m f
  proof (cases "child_route f (rib_routes rib n)")
    case None
    then have same: "own_route f add' = own_route f add" "own_route f rem' = own_route f rem"
      using own by simp_all
    show ?thesis
      using None by (cases "m = n") (simp_all add: v1 v2 node_view_def Let_def same has_inherited_at[OF at] R)
  next
    case (Some r)
    then have "own_route f add' = None" "own_route f rem' = None"
      using own by simp_all
    then show ?thesis
      using Some by (simp add: v1 v2 add_view_def remove_view_def)
  qed
  have "updater_step rib u u'"
    using u1 u' \<open>n \<in> rib_names rib\<close> by (auto simp: updater_step_def intro: same_batch_trans)
  moreover have "traverse_remove e rem u = (rem', u1)" "traverse_add e add u1 = (add', u')"
    by (simp_all add: traverse_remove_def traverse_add_def Let_def rem'_def add'_def u1_def u'_def)
  ultimately show thesis
    using that[of rem' u1 add' u'] sorted own view by simp
qed

text \<open>The entries directly below a name, whether it has an entry itself or not.\<close>

definition below :: "rib \<Rightarrow> name \<Rightarrow> rib_ref list \<Rightarrow> bool" where
  "below rib n cs \<longleftrightarrow> distinct cs \<and> (\<forall>c. c \<in> set cs \<longleftrightarrow>
    (\<exists>m. rib_find m rib = Some c \<and> strict_prefix n m \<and> (\<forall>k \<in> rib_names rib. strict_prefix n k \<longrightarrow> \<not> strict_prefix k m)))"

definition via :: "rib \<Rightarrow> rib_ref list \<Rightarrow> name \<Rightarrow> u64 \<Rightarrow> bool" where
  "via rib cs m f \<longleftrightarrow> (\<exists>c \<in> set cs. \<exists>k. rib_find k rib = Some c \<and> passes (rib_routes rib) f k \<and>
    (m = k \<or> reaches (rib_routes rib) k m f))"

lemma first_below:
  assumes "m \<in> rib_names rib" "strict_prefix n m"
  obtains k where "k \<in> rib_names rib" "strict_prefix n k" "prefix k m" "\<And>j. j \<in> rib_names rib \<Longrightarrow> strict_prefix n j \<Longrightarrow> \<not> strict_prefix j k"
proof -
  let ?P = "\<lambda>k. k \<in> rib_names rib \<and> strict_prefix n k \<and> prefix k m"
  obtain k where k: "?P k" "\<And>j. ?P j \<Longrightarrow> length k \<le> length j"
    using ex_has_least_nat[of ?P m length] assms by auto
  have "\<not> strict_prefix j k" if "j \<in> rib_names rib" "strict_prefix n j" for j
    using that k(1) k(2)[of j] by (metis leD prefix_length_less prefix_order.less_imp_le prefix_order.trans)
  then show thesis
    using k(1) that by blast
qed

lemma prefix_cases_below: "prefix k m \<Longrightarrow> prefix j m \<Longrightarrow> strict_prefix j k \<or> prefix k j"
  by (metis prefix_order.dual_order.order_iff_strict prefix_same_cases)

lemma below_reaches:
  assumes inv: "rib_inv rib" and cs: "below rib n cs"
  shows "via rib cs m f \<longleftrightarrow> reaches (rib_routes rib) n m f"
proof
  assume "via rib cs m f"
  then obtain c k where k: "c \<in> set cs" "rib_find k rib = Some c" "passes (rib_routes rib) f k" "m = k \<or> reaches (rib_routes rib) k m f"
    unfolding via_def by blast
  then have nk: "strict_prefix n k" "\<And>j. j \<in> rib_names rib \<Longrightarrow> strict_prefix n j \<Longrightarrow> \<not> strict_prefix j k"
    using cs rib_find_inj[OF rib_invD(1)[OF inv]] unfolding below_def by metis+
  have km: "prefix k m" "rib_routes rib m \<noteq> []"
    using k(2,4) rib_routes_empty[OF inv, of k] by (auto simp: reaches_def)
  have "passes (rib_routes rib) f j" if "strict_prefix n j" "prefix j m" for j
  proof (cases "strict_prefix j k")
    case True
    then have "rib_find j rib = None"
      using nk(2)[of j] that(1) by (auto simp: rib_find_names)
    then show ?thesis
      using rib_routes_empty[OF inv] by (simp add: passes_empty)
  next
    case False
    then show ?thesis
      using k(3,4) that(2) km(1) prefix_cases_below[of k m j] by (auto simp: reaches_def prefix_order.dual_order.order_iff_strict)
  qed
  then show "reaches (rib_routes rib) n m f"
    using nk(1) km prefix_order.less_le_trans by (auto simp: reaches_def)
next
  assume r: "reaches (rib_routes rib) n m f"
  then have m: "m \<in> rib_names rib" "strict_prefix n m"
    using rib_routes_empty[OF inv, of m] rib_find_names by (auto simp: reaches_def)
  obtain k where k: "k \<in> rib_names rib" "strict_prefix n k" "prefix k m" "\<And>j. j \<in> rib_names rib \<Longrightarrow> strict_prefix n j \<Longrightarrow> \<not> strict_prefix j k"
    using first_below[OF m] by blast
  obtain c where c: "rib_find k rib = Some c"
    using names_find[OF k(1)] by blast
  have "c \<in> set cs"
    using cs c k(2,4) unfolding below_def by blast
  moreover have "passes (rib_routes rib) f k"
    using r k by (auto simp: reaches_def)
  moreover have "m = k \<or> reaches (rib_routes rib) k m f"
    using r k(2,3) unfolding reaches_def by (metis prefix_order.le_neq_trans prefix_order.less_trans)
  ultimately show "via rib cs m f"
    using c unfolding via_def by blast
qed

lemma via_Cons: "via rib (c # cs) m f \<longleftrightarrow> via rib [c] m f \<or> via rib cs m f"
  by (auto simp: via_def)

lemma via_entry:
  assumes inv: "rib_inv rib" and at: "rib_at rib k c e"
  shows "via rib [c] m f \<longleftrightarrow> passes (rib_routes rib) f k \<and> (m = k \<or> reaches (rib_routes rib) k m f)"
  using at rib_find_inj[OF rib_invD(1)[OF inv]] unfolding via_def rib_at_def by auto

lemma via_disjoint:
  assumes inv: "rib_inv rib" and cs: "below rib n cs" and c: "c \<in> set cs" "d \<in> set cs" "via rib [c] m f" "via rib [d] m g"
  shows "c = d"
proof -
  have *: "\<exists>k. rib_find k rib = Some c \<and> prefix k m \<and> strict_prefix n k \<and> k \<in> rib_names rib \<and> (\<forall>j \<in> rib_names rib. strict_prefix n j \<longrightarrow> \<not> strict_prefix j k)"
    if c': "c \<in> set cs" "via rib [c] m f" for c f
  proof -
    obtain k where "rib_find k rib = Some c" "prefix k m"
      using c'(2) by (auto simp: via_def reaches_def)
    then show ?thesis
      using cs c'(1) rib_find_inj[OF rib_invD(1)[OF inv]] rib_find_in unfolding below_def by metis
  qed
  show ?thesis
    using *[OF c(1,3)] *[OF c(2,4)] prefix_cases_below by (metis option.inject prefix_order.le_neq_trans)
qed

lemma below_children:
  assumes inv: "rib_inv rib" and at: "rib_at rib n x e"
  shows "below rib n (re_children e)"
proof -
  note ok = rib_invD(1)[OF inv]
  have "findParent m rib = Some x \<longleftrightarrow> strict_prefix n m \<and> (\<forall>k \<in> rib_names rib. strict_prefix n k \<longrightarrow> \<not> strict_prefix k m)" for m
  proof -
    have n: "rib_find k rib = Some x \<longleftrightarrow> k = n" "n \<in> rib_names rib" for k
      using at rib_find_inj[OF ok] rib_find_in by (auto simp: rib_at_def)
    have "findParent m rib = Some x \<longleftrightarrow> parent_name (rib_names rib) m n"
      using n unfolding findParent_Some by auto
    also have "\<dots> \<longleftrightarrow> strict_prefix n m \<and> (\<forall>k \<in> rib_names rib. strict_prefix n k \<longrightarrow> \<not> strict_prefix k m)"
      unfolding parent_name_def using n(2) prefix_cases_below[of _ m n]
      by (meson prefix_order.less_imp_le prefix_order.leD prefix_cases_below)
    finally show ?thesis .
  qed
  then show ?thesis
    using tree_okD(4,5)[OF ok at] unfolding below_def by metis
qed

lemma below_new:
  assumes inv: "rib_inv rib" and new: "rib_find n rib = None"
  shows "below rib n (new_children rib n)"
proof -
  note ok = rib_invD(1)[OF inv]
  have "findParent m rib = findParent n rib \<longleftrightarrow> (\<forall>k \<in> rib_names rib. strict_prefix n k \<longrightarrow> \<not> strict_prefix k m)"
    if nm: "strict_prefix n m" for m
  proof -
    have N: "n \<notin> rib_names rib"
      using new by (simp add: rib_find_names)
    show ?thesis
    proof
      assume same: "findParent m rib = findParent n rib"
      show "\<forall>k \<in> rib_names rib. strict_prefix n k \<longrightarrow> \<not> strict_prefix k m"
      proof (intro ballI impI notI)
        fix k assume k: "k \<in> rib_names rib" "strict_prefix n k" "strict_prefix k m"
        then obtain p where p: "findParent m rib = Some p"
          using findParent_None[of m rib] by (cases "findParent m rib") auto
        then obtain j j' where j: "parent_name (rib_names rib) m j" "parent_name (rib_names rib) n j'" "rib_find j rib = Some p" "rib_find j' rib = Some p"
          using same findParent_Some[where rib = rib and n = n and x = p] findParent_Some[where rib = rib and n = m and x = p] by auto
        then have "prefix k j" "strict_prefix j n"
          using k rib_find_inj[OF ok j(3,4)] by (auto simp: parent_name_def)
        then show False
          using k(2) by (meson prefix_order.less_asym prefix_order.less_le_trans)
      qed
    next
      assume *: "\<forall>k \<in> rib_names rib. strict_prefix n k \<longrightarrow> \<not> strict_prefix k m"
      have sp: "strict_prefix k m \<longleftrightarrow> strict_prefix k n" if "k \<in> rib_names rib" for k
        using that * nm N prefix_cases_below[of n m k] by (metis prefix_order.less_imp_le prefix_order.less_trans prefix_order.le_neq_trans)
      then have "parent_name (rib_names rib) m k \<longleftrightarrow> parent_name (rib_names rib) n k" for k
        by (auto simp: parent_name_def)
      then show "findParent m rib = findParent n rib"
        using findParent_Some[where n = m and rib = rib] findParent_Some[where n = n and rib = rib] by (metis not_None_eq)
    qed
  qed
  then show ?thesis
    using new_children_distinct[OF ok, of n] new_children_iff[OF ok, where n = n] unfolding below_def by metis
qed

text \<open>The traversal of the entries below a name touches exactly those that a change there reaches.\<close>

definition modified :: "rib \<Rightarrow> rib_ref list \<Rightarrow> route_set \<Rightarrow> route_set \<Rightarrow> fib_updater \<Rightarrow> fib_updater \<Rightarrow> bool" where
  "modified rib cs add rem u u' \<longleftrightarrow> modifyChildrensInheritedRoutes rib cs add rem u = Some u' \<and> updater_step rib u u' \<and>
    (\<forall>m f. view u' m f = (if via rib cs m f then node_view rib add rem m f (view u m f) else view u m f))"

definition depth_ok :: "rib \<Rightarrow> name \<Rightarrow> nat \<Rightarrow> bool" where
  "depth_ok rib n d \<longleftrightarrow> (\<forall>j \<in> rib_names rib. strict_prefix n j \<longrightarrow> length j < length n + d)"

lemma depth_exists: "\<exists>d. depth_ok rib n d"
proof -
  have "length j < length n + Suc (Max (length ` rib_names rib))" if "j \<in> rib_names rib" for j
    using Max_ge[of "length ` rib_names rib" "length j"] that by (simp add: le_imp_less_Suc trans_le_add2)
  then show ?thesis
    unfolding depth_ok_def by blast
qed

lemma below_depth_0: "below rib n cs \<Longrightarrow> depth_ok rib n 0 \<Longrightarrow> cs = []"
proof (rule ccontr)
  assume b: "below rib n cs" "depth_ok rib n 0" and "cs \<noteq> []"
  then obtain c where "c \<in> set cs"
    by (cases cs) auto
  then obtain m where "rib_find m rib = Some c" "strict_prefix n m"
    using b(1) unfolding below_def by blast
  then show False
    using b(2) rib_find_in prefix_length_less by (fastforce simp: depth_ok_def)
qed

lemma modified_entry:
  assumes inv: "rib_inv rib" and small: "rib_small rib" and at: "rib_at rib k c e"
    and sorted: "sorted_set add" "sorted_set rem" and "fu_wf u"
    and IH: "\<And>add rem u. sorted_set add \<Longrightarrow> sorted_set rem \<Longrightarrow> fu_wf u \<Longrightarrow> \<exists>u'. modified rib (re_children e) add rem u u'"
  obtains u' where "modified rib [c] add rem u u'"
proof (cases "hasCapture e")
  case True
  then have "\<not> via rib [c] m f" for m f
    using via_entry[OF inv at] entry_captures[OF inv small at] by (simp add: passes_def)
  then show thesis
    using True at \<open>fu_wf u\<close> that[of u] by (simp add: modified_def rib_at_def modifyChildrensInheritedRoutes.simps updater_step_def)
next
  case False
  obtain add' rem' u1 u2 where t: "traverse_remove e rem u = (rem', u1)" "traverse_add e add u1 = (add', u2)"
      "sorted_set add'" "sorted_set rem'" "updater_step rib u u2"
      "\<And>f. own_route f add' = (if child_route f (rib_routes rib k) = None then own_route f add else None)"
      "\<And>f. own_route f rem' = (if child_route f (rib_routes rib k) = None then own_route f rem else None)"
      "\<And>m f. view u2 m f = (if m = k \<and> child_route f (rib_routes rib k) = None
         then node_view rib add rem k f (view u k f) else view u m f)"
    by (rule traverse_ok[OF at tree_okD(6)[OF rib_invD(1)[OF inv] at] sorted \<open>fu_wf u\<close>]) blast
  have "fu_wf u2"
    using t(5) by (simp add: updater_step_def)
  then obtain u3 where u3: "modified rib (re_children e) add' rem' u2 u3"
    using IH[OF t(3,4)] by blast
  have pass: "passes (rib_routes rib) f k \<longleftrightarrow> child_route f (rib_routes rib k) = None" for f
    using False entry_captures[OF inv small at] by (simp add: passes_def)
  have view: "view u3 m f = (if via rib [c] m f then node_view rib add rem m f (view u m f) else view u m f)" for m f
  proof -
    have v3: "view u3 m f = (if reaches (rib_routes rib) k m f then node_view rib add' rem' m f (view u2 m f) else view u2 m f)"
      using u3 below_reaches[OF inv below_children[OF inv at]] by (simp add: modified_def)
    show ?thesis
    proof (cases "child_route f (rib_routes rib k)")
      case None
      have "node_view rib add' rem' m f = node_view rib add rem m f"
        using None t(6,7) by (intro node_view_cong) simp_all
      moreover have "\<not> reaches (rib_routes rib) k k f"
        by (simp add: reaches_def)
      ultimately show ?thesis
        using None v3 t(8)[of m f] pass via_entry[OF inv at, of m f] by auto
    next
      case (Some r)
      then have "node_view rib add' rem' m f v = v" for v
        using t(6,7) by (intro node_view_None) simp_all
      then show ?thesis
        using Some v3 t(8)[of m f] pass via_entry[OF inv at, of m f] by simp
    qed
  qed
  have "modifyChildrensInheritedRoutes rib [c] add rem u = Some u3"
    using False at t(1,2) u3 by (subst modifyChildrensInheritedRoutes.simps) (simp add: rib_at_def modified_def modifyChildrensInheritedRoutes.simps[of rib "[]"])
  then show thesis
    using that[of u3] view u3 updater_step_trans[OF t(5)] by (simp add: modified_def)
qed

lemma modify_Cons:
  "modifyChildrensInheritedRoutes rib (c # cs) add rem u =
    Option.bind (modifyChildrensInheritedRoutes rib [c] add rem u) (modifyChildrensInheritedRoutes rib cs add rem)"
  by (simp add: modifyChildrensInheritedRoutes.simps[of rib "[]"] modifyChildrensInheritedRoutes.simps[of rib "_ # _"])

lemma modified_Cons:
  assumes "modified rib [c] add rem u u1" "modified rib cs add rem u1 u2" and disj: "\<And>m f. via rib [c] m f \<Longrightarrow> \<not> via rib cs m f"
  shows "modified rib (c # cs) add rem u u2"
  using assms updater_step_trans[of rib u u1 u2] modify_Cons[of rib c cs add rem u] via_Cons[of rib c cs]
  unfolding modified_def by simp

lemma modified_exists:
  assumes inv: "rib_inv rib" and small: "rib_small rib" and "below rib n cs" "sorted_set add" "sorted_set rem" "fu_wf u"
  shows "\<exists>u'. modified rib cs add rem u u'"
proof -
  obtain d where "depth_ok rib n d"
    using depth_exists by blast
  then show ?thesis
    using assms(3-)
  proof (induction d arbitrary: n cs add rem u)
    case 0
    then show ?case
      using below_depth_0[of rib n cs] by (auto simp: modified_def modifyChildrensInheritedRoutes.simps via_def updater_step_def)
  next
    case (Suc d)
    have "\<exists>u'. modified rib ds add rem u u'" if "set ds \<subseteq> set cs" "distinct ds" "fu_wf u" for ds u
      using that
    proof (induction ds arbitrary: u)
      case Nil
      then show ?case
        by (auto simp: modified_def modifyChildrensInheritedRoutes.simps via_def updater_step_def)
    next
      case (Cons c ds)
      obtain k e where k: "rib_at rib k c e" "strict_prefix n k"
        using Cons.prems(1) Suc.prems(2) rib_find_at[OF rib_invD(1)[OF inv]] unfolding below_def by (meson list.set_intros(1) subsetD)
      have "depth_ok rib k d"
        using Suc.prems(1) k(2) prefix_length_less[OF k(2)] unfolding depth_ok_def
        by (metis (no_types, lifting) add_Suc_right add_Suc less_trans_Suc order_less_le_trans Suc_leI add_le_mono1 prefix_order.less_trans)
      then obtain u1 where u1: "modified rib [c] add rem u u1"
        using modified_entry[OF inv small k(1) Suc.prems(3,4) Cons.prems(3)] Suc.IH[OF _ below_children[OF inv k(1)]] by blast
      then obtain u2 where "modified rib ds add rem u1 u2"
        using Cons.IH[of u1] Cons.prems by (auto simp: modified_def updater_step_def)
      moreover have "\<not> via rib ds m f" if v: "via rib [c] m f" for m f
      proof
        assume "via rib ds m f"
        then obtain d where "d \<in> set ds" "via rib [d] m f"
          by (auto simp: via_def)
        then show False
          using via_disjoint[OF inv Suc.prems(2) _ _ v] Cons.prems(1,2) by auto
      qed
      ultimately show ?case
        using modified_Cons[OF u1] by blast
    qed
    then show ?case
      using Suc.prems(2,5) by (simp add: below_def)
  qed
qed

lemma modify_ok:
  assumes "rib_inv rib" "rib_small rib" "below rib n cs" "sorted_set add" "sorted_set rem" "fu_wf u"
  obtains u' where "modifyChildrensInheritedRoutes rib cs add rem u = Some u'" "updater_step rib u u'"
    "\<And>m f. view u' m f = (if reaches (rib_routes rib) n m f then node_view rib add rem m f (view u m f) else view u m f)"
  using modified_exists[OF assms] below_reaches[OF assms(1,3)] unfolding modified_def by metis

end
