(* ===== verification/Fib_Updater_Correct.thy ===== *)
theory Fib_Updater_Correct
  imports Fib_Inheritance
begin

text \<open>
  The FIB updates computed for a RIB update turn the FIB of the old routes into the FIB of the new ones, and the inherited routes
  recorded in the entries keep covering what the entries inherit.  This holds for the updates of \<open>safe_update\<close>: at most one
  route per name and face, and none of the situations in which the computation goes wrong, which the examples of
  \<^verbatim>\<open>Rib_Service_Correct\<close> show.
\<close>

section \<open>What a name inherits after a change\<close>

definition inh_route :: "route_map \<Rightarrow> name \<Rightarrow> u64 \<Rightarrow> route option" where
  "inh_route R m f = (if R m = [] \<or> own_route f (R m) \<noteq> None \<or> captures (R m) then None else inherited R m f)"

lemma fib_spec_eq:
  "fib_spec R m f = (case own_route f (R m) of Some r \<Rightarrow> Some (rt_cost r) | None \<Rightarrow> map_option rt_cost (inh_route R m f))"
  by (auto simp: fib_spec_def inh_route_def split: option.split)

lemma own_None_child: "own_route f rs = None \<Longrightarrow> child_route f rs = None"
  by (auto simp: own_route_def child_route_def find_None_all)

lemma inh_unreached:
  assumes "m \<noteq> n" and un: "\<not> reaches R n m f"
  shows "inh_route (R(n := rs)) m f = inh_route R m f"
proof (cases "R m = [] \<or> own_route f (R m) \<noteq> None \<or> captures (R m)")
  case True
  then show ?thesis
    using assms(1) by (auto simp: inh_route_def)
next
  case False
  then have m: "passes R f m" "R m \<noteq> []"
    by (auto simp: passes_def own_None_child)
  have "inherited (R(n := rs)) m f = inherited R m f"
  proof (cases "strict_prefix n m")
    case False
    then show ?thesis
      by (intro inherited_cong) auto
  next
    case True
    then obtain k where k: "strict_prefix n k" "prefix k m" "\<not> passes R f k"
      using un m(2) unfolding reaches_def by blast
    then have l: "length n < length k" "length k < length m" "take (length k) m = k"
      using m(1) prefix_length_less[OF k(1)] prefix_length_le[OF k(2)] by (auto simp: prefix_def)
    have "inherited_from R m f (length m) = inherited_from (R(n := rs)) m f (length m)"
    proof (rule inherited_from_stop[OF l(2)])
      show "\<not> passes R f (take (length k) m)"
        using k(3) l(3) by simp
      show "R (take j m) = (R(n := rs)) (take j m)" if "length k \<le> j" "j < length m" for j
        using that l by auto
    qed
    then show ?thesis
      by (simp add: inherited_def)
  qed
  then show ?thesis
    using assms(1) by (simp add: inh_route_def)
qed

lemma inh_reached:
  assumes "reaches R n m f"
  shows "inh_route (R(n := rs)) m f = (if own_route f (R m) = None then inherited_at (R(n := rs)) n f else None)"
proof -
  have m: "strict_prefix n m" "m \<noteq> n" "R m \<noteq> []" "\<not> captures (R m)"
    using assms by (auto simp: reaches_def passes_def)
  have "inherited (R(n := rs)) m f = inherited_at (R(n := rs)) n f"
    using assms by (intro inherited_below[OF m(1)]) (auto simp: reaches_def passes_def)
  then show ?thesis
    using m by (simp add: inh_route_def)
qed

lemma inherited_upd [simp]: "inherited (R(n := rs)) n f = inherited R n f"
  by (rule inherited_cong) auto

section \<open>What an update must achieve at a name and face\<close>

definition fib_value :: "fib_update option \<Rightarrow> u64 option \<Rightarrow> u64 option" where
  "fib_value up old = (case up of None \<Rightarrow> old | Some up \<Rightarrow> (case fb_action up of ADD_NEXTHOP \<Rightarrow> Some (fb_cost up) | REMOVE_NEXTHOP \<Rightarrow> None))"

lemma fib_value_simps [simp]:
  "fib_value None old = old" "fib_value (Some (createAddUpdate n f c)) old = Some c" "fib_value (Some (createRemoveUpdate n f)) old = None"
  by (simp_all add: fib_value_def createAddUpdate_def createRemoveUpdate_def)

text \<open>The inherited routes cover what an entry inherits, and none of them is on a face of its own.\<close>

definition inh_ok :: "route_map \<Rightarrow> name \<Rightarrow> u64 \<Rightarrow> bool \<Rightarrow> bool" where
  "inh_ok R m f has \<longleftrightarrow> (inh_route R m f \<noteq> None \<longrightarrow> has) \<and> (has \<and> R m \<noteq> [] \<longrightarrow> own_route f (R m) = None)"

definition log_ok :: "bool \<Rightarrow> rib_action list \<Rightarrow> bool" where
  "log_ok has log \<longleftrightarrow> log = [] \<or> log = [REGISTER] \<or> has \<and> (log = [UNREGISTER] \<or> log = [UNREGISTER, REGISTER])"

text \<open>Whether an inherited route is there afterwards is not known if one of several was removed.\<close>

definition log_has :: "bool \<Rightarrow> rib_action list \<Rightarrow> bool \<Rightarrow> bool" where
  "log_has has log has' \<longleftrightarrow> (if log = [] then has' = has else if last log = REGISTER then has' else (has' \<longrightarrow> has))"

definition pair_ok :: "rib \<Rightarrow> route_map \<Rightarrow> name \<Rightarrow> u64 \<Rightarrow> fib_update option \<times> rib_action list \<Rightarrow> bool" where
  "pair_ok rib R' m f v \<longleftrightarrow>
    fib_value (fst v) (fib_spec (rib_routes rib) m f) = fib_spec R' m f \<and> log_ok (has_inherited rib m f) (snd v) \<and>
    (R' m = [] \<longrightarrow> snd v = []) \<and> (\<forall>has. log_has (has_inherited rib m f) (snd v) has \<longrightarrow> inh_ok R' m f has)"

definition rib_covers :: "rib \<Rightarrow> bool" where
  "rib_covers rib \<longleftrightarrow> (\<forall>m f. inh_ok (rib_routes rib) m f (has_inherited rib m f))"

text \<open>Nothing happens where the FIB and the inheritance stay.\<close>

lemma pair_same:
  assumes "rib_covers rib" and own: "map_option rt_cost (own_route f (R' m)) = map_option rt_cost (own_route f (rib_routes rib m))"
    and "R' m = [] \<longleftrightarrow> rib_routes rib m = []"
    and "map_option rt_cost (inh_route R' m f) = map_option rt_cost (inh_route (rib_routes rib) m f)"
  shows "pair_ok rib R' m f (None, [])"
proof -
  have none: "inh_route R' m f = None \<longleftrightarrow> inh_route (rib_routes rib) m f = None"
    "own_route f (R' m) = None \<longleftrightarrow> own_route f (rib_routes rib m) = None"
    using assms(4) own by (metis map_option_is_None)+
  have "fib_spec R' m f = fib_spec (rib_routes rib) m f"
    using own assms(4) by (auto simp: fib_spec_eq split: option.splits)
  then show ?thesis
    using assms(1,3) none by (simp add: pair_ok_def log_ok_def log_has_def inh_ok_def rib_covers_def)
qed

lemma pair_unreached:
  assumes "rib_covers rib" "m \<noteq> n" "\<not> reaches (rib_routes rib) n m f"
  shows "pair_ok rib ((rib_routes rib)(n := rs)) m f (None, [])"
  using assms inh_unreached[OF assms(2,3)] by (intro pair_same) simp_all

text \<open>The traversal does the right thing at an entry if the routes to add and to remove fit what the entry inherits.\<close>

lemma pair_reached:
  fixes rib n rs f
  defines "new \<equiv> inherited_at ((rib_routes rib)(n := rs)) n f" and "old \<equiv> inherited_at (rib_routes rib) n f"
  assumes cov: "rib_covers rib" and r: "reaches (rib_routes rib) n m f"
    and add: "\<And>r. own_route f add = Some r \<Longrightarrow> map_option rt_cost new = Some (rt_cost r)"
    and rem: "\<And>r. own_route f add = None \<Longrightarrow> own_route f rem = Some r \<Longrightarrow> new = None"
    and none: "own_route f add = None \<Longrightarrow> own_route f rem = None \<Longrightarrow> map_option rt_cost new = map_option rt_cost old"
  shows "pair_ok rib ((rib_routes rib)(n := rs)) m f (node_view rib add rem m f (None, []))"
proof -
  let ?R = "rib_routes rib" and ?R' = "(rib_routes rib)(n := rs)"
  have mn: "m \<noteq> n" "?R m \<noteq> []"
    using r by (auto simp: reaches_def)
  have inh: "inh_route ?R' m f = (if own_route f (?R m) = None then new else None)"
    "inh_route ?R m f = (if own_route f (?R m) = None then old else None)"
    using inh_reached[OF r, of rs] inh_reached[OF r, of "?R n"] by (simp_all add: new_def old_def)
  have ok: "inh_ok ?R m f (has_inherited rib m f)"
    using cov by (simp add: rib_covers_def)
  show ?thesis
  proof (cases "own_route f (?R m)")
    case (Some q)
    then have "\<not> has_inherited rib m f"
      using ok mn(2) by (auto simp: inh_ok_def)
    then have "node_view rib add rem m f (None, []) = (None, [])"
      using Some by (simp add: node_view_def)
    then show ?thesis
      using Some inh mn cov by (simp add: pair_same)
  next
    case None
    show ?thesis
    proof (cases "own_route f add")
      case (Some r)
      then show ?thesis
        using None add[OF Some] inh mn ok by (auto simp: pair_ok_def node_view_def add_view_def remove_view_def fib_spec_eq log_ok_def log_has_def inh_ok_def split: option.split)
    next
      case addN: None
      show ?thesis
      proof (cases "own_route f rem")
        case (Some r)
        then show ?thesis
          using None addN rem[OF addN Some] inh mn ok
          by (auto simp: pair_ok_def node_view_def add_view_def remove_view_def fib_spec_eq log_ok_def log_has_def inh_ok_def split: option.split)
      next
        case remN: None
        then show ?thesis
          using None addN none[OF addN remN] inh mn cov
          by (simp add: node_view_None pair_same)
      qed
    qed
  qed
qed

section \<open>Updates as a whole\<close>

definition fits :: "rib \<Rightarrow> name \<Rightarrow> route list \<Rightarrow> route_set \<Rightarrow> route_set \<Rightarrow> bool" where
  "fits rib n rs add rem \<longleftrightarrow> (\<forall>f.
    let new = inherited_at ((rib_routes rib)(n := rs)) n f; old = inherited_at (rib_routes rib) n f
    in (\<forall>r. own_route f add = Some r \<longrightarrow> map_option rt_cost new = Some (rt_cost r)) \<and>
       (\<forall>r. own_route f add = None \<longrightarrow> own_route f rem = Some r \<longrightarrow> new = None) \<and>
       (own_route f add = None \<longrightarrow> own_route f rem = None \<longrightarrow> map_option rt_cost new = map_option rt_cost old))"

text \<open>An updater that is done with the name itself, and one that is done with the others.\<close>

definition own_done :: "rib \<Rightarrow> name \<Rightarrow> route list \<Rightarrow> fib_updater \<Rightarrow> bool" where
  "own_done rib n rs u \<longleftrightarrow> (\<forall>f. pair_ok rib ((rib_routes rib)(n := rs)) n f (view u n f))"

definition others_done :: "rib \<Rightarrow> name \<Rightarrow> route list \<Rightarrow> fib_updater \<Rightarrow> bool" where
  "others_done rib n rs u \<longleftrightarrow> (\<forall>m f. m \<noteq> n \<longrightarrow> pair_ok rib ((rib_routes rib)(n := rs)) m f (view u m f))"

definition others_fresh :: "name \<Rightarrow> fib_updater \<Rightarrow> bool" where
  "others_fresh n u \<longleftrightarrow> (\<forall>m f. m \<noteq> n \<longrightarrow> view u m f = (None, []))"

definition all_done :: "rib \<Rightarrow> name \<Rightarrow> route list \<Rightarrow> fib_updater \<Rightarrow> bool" where
  "all_done rib n rs u \<longleftrightarrow> fu_wf u \<and> own_done rib n rs u \<and> others_done rib n rs u"

lemma node_done:
  assumes cov: "rib_covers rib" and fits: "fits rib n rs add rem" and "m \<noteq> n"
  shows "pair_ok rib ((rib_routes rib)(n := rs)) m f
    (if reaches (rib_routes rib) n m f then node_view rib add rem m f (None, []) else (None, []))"
proof (cases "reaches (rib_routes rib) n m f")
  case True
  have "pair_ok rib ((rib_routes rib)(n := rs)) m f (node_view rib add rem m f (None, []))"
    by (rule pair_reached[OF cov True]) (use fits in \<open>auto simp: fits_def Let_def\<close>)
  then show ?thesis
    using True by simp
next
  case False
  then show ?thesis
    using pair_unreached[OF cov \<open>m \<noteq> n\<close>] by simp
qed

lemma modify_others:
  assumes "rib_inv rib" "rib_small rib" and cov: "rib_covers rib" and "below rib n cs" "sorted_set add" "sorted_set rem" "fu_wf u"
    and others: "others_fresh n u" and fits: "fits rib n rs add rem"
  obtains u' where "modifyChildrensInheritedRoutes rib cs add rem u = Some u'" "updater_step rib u u'" "others_done rib n rs u'"
    "\<And>f. view u' n f = view u n f"
proof -
  obtain u' where u': "modifyChildrensInheritedRoutes rib cs add rem u = Some u'" "updater_step rib u u'"
    "\<And>m f. view u' m f = (if reaches (rib_routes rib) n m f then node_view rib add rem m f (view u m f) else view u m f)"
    by (rule modify_ok[OF assms(1,2,4-7)]) blast
  have "view u' m f = (if reaches (rib_routes rib) n m f then node_view rib add rem m f (None, []) else (None, []))" if "m \<noteq> n" for m f
    using u'(3) others that by (simp add: others_fresh_def)
  then have "others_done rib n rs u'"
    using node_done[OF cov fits] by (simp add: others_done_def)
  moreover have "view u' n f = view u n f" for f
    using u'(3) by (simp add: reaches_def)
  ultimately show thesis
    using that u'(1,2) by blast
qed

lemma nothing_others: "rib_covers rib \<Longrightarrow> others_fresh n u \<Longrightarrow> fits rib n rs [] [] \<Longrightarrow> others_done rib n rs u"
  using node_done[of rib n rs "[]" "[]"] by (simp add: others_done_def others_fresh_def node_view_None[OF own_route_Nil own_route_Nil] cong: if_cong)

definition fresh_updater :: "fib_updater \<Rightarrow> bool" where
  "fresh_updater u \<longleftrightarrow> fu_wf u \<and> (\<forall>m f. view u m f = (None, [])) \<and> inh_names u = {}"

subsection \<open>The first route of a name\<close>

lemma inherited_at_single: "inherited_at (R(n := [r])) n f =
    (if rt_faceId r = f \<and> isChildInherit r then Some r else if isCapture r then None else inherited R n f)"
  by (simp add: inherited_at_def child_route_def captures_def)

lemma inherited_at_Nil: "R n = [] \<Longrightarrow> inherited_at R n f = inherited R n f"
  by (simp add: inherited_at_def child_route_def captures_def)

lemma rs_override:
  fixes r rs
  assumes "sorted_set rs"
  defines "rs' \<equiv> rs_insert r (if rs_find r rs \<noteq> None then rs_erase r rs else rs)"
  shows "sorted_set rs'" "own_route f rs' = (if rt_faceId r = f then Some r else own_route f rs)"
proof -
  let ?rs = "if rs_find r rs \<noteq> None then rs_erase r rs else rs"
  have *: "sorted_set (rs_erase r rs) \<and> own_route f (rs_erase r rs) = (if rt_faceId r = f then None else own_route f rs)" if "sorted_set rs" for rs f
    using that
  proof (induction rs)
    case (Cons q rs)
    have "set (remove_first P xs) \<subseteq> set xs" for P and xs :: "route list"
      by (induction xs) auto
    then show ?case
      using Cons by (auto simp: rs_erase_def own_route_Cons) (auto simp: own_route_def find_None_all)
  qed (simp add: rs_erase_def)
  have none: "own_route (rt_faceId r) rs = None" if "rs_find r rs = None"
    using that by (simp add: rs_find_def own_route_def)
  have **: "sorted_set ?rs" "own_route f ?rs = (if rt_faceId r = f then None else own_route f rs)"
    using assms(1) *[OF assms(1)] none by auto
  show "sorted_set rs'"
    unfolding rs'_def by (rule rs_insert_sorted[OF **(1)])
  show "own_route f rs' = (if rt_faceId r = f then Some r else own_route f rs)"
    unfolding rs'_def rs_insert_own[OF **(1)] **(2) by (auto split: option.split)
qed

lemma new_name_own:
  fixes n r u A
  assumes cov: "rib_covers rib" and new: "rib_find n rib = None" and u: "fresh_updater u" and A: "sorted_set A" "\<And>f. own_route f A = inherited (rib_routes rib) n f"
  defines "u1 \<equiv> addFibUpdate (createAddUpdate n (rt_faceId r) (rt_cost r)) u"
  defines "u2 \<equiv> (if isCapture r then u1 else addInheritedRoutes_name n A r u1)"
  shows "own_done rib n [r] u2" "same_batch u u2" "inh_names u2 \<subseteq> {n}" "fu_wf u2" "others_fresh n u2"
proof -
  let ?R = "rib_routes rib"
  have R: "?R n = []" and has: "\<not> has_inherited rib n f" for f
    using new by (auto simp: rib_routes_def has_inherited_def rib_at_def)
  have wf: "fu_wf u" "\<And>m f. view u m f = (None, [])" "inh_names u = {}"
    using u by (auto simp: fresh_updater_def)
  have u1: "fu_wf u1" "same_batch u u1" "inh_names u1 = {}"
    "view u1 m f = (if m = n \<and> f = rt_faceId r then (Some (createAddUpdate n (rt_faceId r) (rt_cost r)), []) else (None, []))" for m f
    using wf addFibUpdate_ok[OF wf(1), of "createAddUpdate n (rt_faceId r) (rt_cost r)"] by (auto simp: u1_def createAddUpdate_def)
  note add = add_all_ok[OF u1(1) A(1), of "\<lambda>f. f \<noteq> rt_faceId r" n, folded addInheritedRoutes_name_all]
  have u2: "fu_wf u2" "same_batch u u2" "inh_names u2 \<subseteq> {n}"
    using u1 add same_batch_trans[OF u1(2)] by (auto simp: u2_def)
  then show "same_batch u u2" "inh_names u2 \<subseteq> {n}" "fu_wf u2"
    by simp_all
  have view: "view u2 m f = (if m \<noteq> n then (None, []) else if f = rt_faceId r then (Some (createAddUpdate n f (rt_cost r)), [])
      else if isCapture r then (None, []) else add_view n f (inherited ?R n f) (None, []))" for m f
    using add u1(4) A(2) by (auto simp: u2_def)
  have "pair_ok rib (?R(n := [r])) n f (view u2 n f)" for f
    using R has cov view
    by (auto simp: pair_ok_def fib_spec_eq own_route_def inh_route_def captures_def add_view_def log_ok_def log_has_def inh_ok_def split: option.split)
  then show "own_done rib n [r] u2" "others_fresh n u2"
    using view by (auto simp: own_done_def others_fresh_def)
qed

lemma new_name_ok:
  assumes inv: "rib_inv rib" and small: "rib_small rib" and cov: "rib_covers rib" and new: "rib_find n rib = None" and u: "fresh_updater u"
  shows "\<exists>u'. createFibUpdatesForNewRibEntry rib n r (new_children rib n) u = Some u' \<and> all_done rib n [r] u' \<and> same_batch u u'"
proof -
  let ?R = "rib_routes rib" and ?u1 = "addFibUpdate (createAddUpdate n (rt_faceId r) (rt_cost r)) u"
  obtain A where A: "getAncestorRoutes_name n rib = Some A" "sorted_set A" "\<And>f. own_route f A = inherited ?R n f"
    using ancestor_routes_ok[OF inv small] by blast
  define u2 where "u2 = (if isCapture r then ?u1 else addInheritedRoutes_name n A r ?u1)"
  have u2: "own_done rib n [r] u2" "same_batch u u2" "inh_names u2 \<subseteq> {n}" "fu_wf u2" "others_fresh n u2"
    unfolding u2_def by (rule new_name_own[OF cov new u A(2,3)])+
  have old: "inherited_at ?R n f = inherited ?R n f" for f
    using new by (intro inherited_at_Nil) (simp add: rib_routes_def)
  have finish: ?thesis
    if eq: "createFibUpdatesForNewRibEntry rib n r (new_children rib n) u = modifyChildrensInheritedRoutes rib (new_children rib n) add rem u2"
      and ar: "sorted_set add" "sorted_set rem" "fits rib n [r] add rem" for add rem
  proof -
    obtain u3 where u3: "modifyChildrensInheritedRoutes rib (new_children rib n) add rem u2 = Some u3" "updater_step rib u2 u3"
        "others_done rib n [r] u3" "\<And>f. view u3 n f = view u2 n f"
      by (rule modify_others[OF inv small cov below_new[OF inv new] ar(1,2) u2(4,5) ar(3)]) blast
    then have "all_done rib n [r] u3"
      using u2(1) by (simp add: all_done_def own_done_def updater_step_def)
    then show ?thesis
      using u3(1,2) eq u2(2,3) same_batch_trans[OF u2(2)] by (auto simp: updater_step_def)
  qed
  show ?thesis
  proof (cases "isChildInherit r")
    case ci: True
    show ?thesis
    proof (cases "isCapture r")
      case True
      then show ?thesis
        using ci A by (intro finish[of "[r]" A])
          (auto simp: createFibUpdatesForNewRibEntry_def u2_def Let_def fits_def inherited_at_single old own_route_Cons split: if_splits)
    next
      case False
      then show ?thesis
        using ci A(1,3) rs_override[OF A(2), where r = r]
        by (intro finish[of "rs_insert r (if rs_find r A \<noteq> None then rs_erase r A else A)" "[]"])
          (auto simp: createFibUpdatesForNewRibEntry_def u2_def Let_def fits_def inherited_at_single old)
    qed
  next
    case ci: False
    show ?thesis
    proof (cases "isCapture r")
      case True
      then show ?thesis
        using ci A by (intro finish[of "[]" A]) (auto simp: createFibUpdatesForNewRibEntry_def u2_def Let_def fits_def inherited_at_single old)
    next
      case False
      then have "fits rib n [r] [] []"
        using ci by (simp add: fits_def inherited_at_single old)
      then show ?thesis
        using nothing_others[OF cov u2(5)] u2 False ci A(1) by (auto simp: createFibUpdatesForNewRibEntry_def u2_def Let_def all_done_def)
    qed
  qed
qed

lemma new_children_eq:
  assumes inv: "rib_inv rib" and new: "rib_find n rib = None"
  shows "filter (\<lambda>x. case rib_entries rib x of None \<Rightarrow> False | Some e \<Rightarrow> re_parent e = findParent n rib)
    (findDescendantsForNonInsertedName n rib) = new_children rib n"
proof -
  have "findDescendantsForNonInsertedName n rib = descendants rib n"
    unfolding findDescendantsForNonInsertedName_def descendants_def
    using new by (intro arg_cong[where f = "map snd"] filter_cong refl)
      (auto simp: strict_prefix_def rib_find_def map_of_eq_None_iff image_iff)
  moreover have "(case rib_entries rib x of None \<Rightarrow> False | Some e \<Rightarrow> re_parent e = findParent n rib) \<longleftrightarrow>
      (\<exists>e. rib_entries rib x = Some e \<and> re_parent e = findParent n rib)" for x
    by (simp split: option.split)
  ultimately show ?thesis
    using filter_new_children[OF rib_invD(1)[OF inv], of n "rib_entries rib"] by simp
qed

subsection \<open>A further route of a name\<close>

lemma own_route_append: "own_route f (rs @ [r]) = (case own_route f rs of Some q \<Rightarrow> Some q | None \<Rightarrow> if rt_faceId r = f then Some r else None)"
  by (induction rs) (auto simp: own_route_def)

lemma child_route_append:
  "child_route f (rs @ [r]) = (case child_route f rs of Some q \<Rightarrow> Some q | None \<Rightarrow> if rt_faceId r = f \<and> isChildInherit r then Some r else None)"
  by (induction rs) (auto simp: child_route_def)

abbreviation scan_step :: "(route \<Rightarrow> bool) \<Rightarrow> route \<Rightarrow> route option \<Rightarrow> route option" where
  "scan_step P r candidate \<equiv> (if P r then (case candidate of None \<Rightarrow> Some r | Some c \<Rightarrow> if rt_cost r < rt_cost c then Some r else Some c) else candidate)"

lemma scan_skip: "(\<And>r. r \<in> set rs \<Longrightarrow> \<not> P r) \<Longrightarrow> fold (scan_step P) rs c = c"
  by (induction rs arbitrary: c) auto

lemma scan_None: "(\<And>r. r \<in> set rs \<Longrightarrow> \<not> P r) \<Longrightarrow> lowest_cost_scan P rs = None"
  using scan_skip[of rs P None] by (simp add: lowest_cost_scan_def)

lemma own_None_scan:
  assumes "own_route f (re_routes e) = None"
  shows "getRouteWithLowestCostByFaceId f e = None" "getRouteWithLowestCostAndChildInheritByFaceId f e = None"
  using assms scan_None by (auto simp: own_route_def find_None_all getRouteWithLowestCostByFaceId_def getRouteWithLowestCostAndChildInheritByFaceId_def)

lemma new_route_ok:
  assumes inv: "rib_inv rib" and small: "rib_small rib" and cov: "rib_covers rib" and at: "rib_at rib n x e" and u: "fresh_updater u"
    and free: "own_route (rt_faceId r) (rib_routes rib n) = None" "\<not> has_inherited rib n (rt_faceId r)"
    and cap: "isCapture r \<Longrightarrow> captures (rib_routes rib n)"
  shows "\<exists>u'. createFibUpdatesForNewRoute rib e r False u = Some u' \<and> all_done rib n (rib_routes rib n @ [r]) u' \<and> same_batch u u'"
proof -
  let ?R = "rib_routes rib" and ?add = "if isChildInherit r then [r] else []" and ?up = "createAddUpdate n (rt_faceId r) (rt_cost r)"
  have wf: "fu_wf u" "\<And>m f. view u m f = (None, [])" "inh_names u = {}"
    using u by (auto simp: fresh_updater_def)
  have R: "?R n = re_routes e" "re_name e = n"
    using rib_routes_at[OF at] tree_okD(6)[OF rib_invD(1)[OF inv] at] by auto
  have cap': "captures (?R n @ [r]) = captures (?R n)"
    using cap by (auto simp: captures_def)
  have new: "inherited_at (?R(n := ?R n @ [r])) n f = (if rt_faceId r = f \<and> isChildInherit r then Some r else inherited_at ?R n f)" for f
    using free(1) cap' own_None_child[OF free(1)] by (auto simp: inherited_at_def child_route_append split: option.split)
  have "fits rib n (?R n @ [r]) ?add []"
    by (auto simp: fits_def new own_route_Cons split: if_splits)
  then obtain u1 where u1: "modifyChildrensInheritedRoutes rib (re_children e) ?add [] u = Some u1" "updater_step rib u u1"
    "others_done rib n (?R n @ [r]) u1" "\<And>f. view u1 n f = view u n f"
    using wf by (rule_tac modify_others[OF inv small cov below_children[OF inv at], of ?add "[]" u "?R n @ [r]"]) (auto simp: others_fresh_def)
  have view: "view (addFibUpdate ?up u1) m f = (if m = n \<and> f = rt_faceId r then (Some ?up, []) else view u1 m f)" for m f
    using addFibUpdate_ok(4)[of u1 ?up m f] u1(2,4) wf(2) by (auto simp: updater_step_def createAddUpdate_def)
  have "createFibUpdatesForNewRoute rib e r False u = Some (addFibUpdate ?up u1)"
    using u1(1) own_None_scan free(1) R by (simp add: createFibUpdatesForNewRoute_def)
  moreover have "pair_ok rib (?R(n := ?R n @ [r])) n f (view (addFibUpdate ?up u1) n f)" for f
  proof (cases "f = rt_faceId r")
    case True
    then have "own_route f (?R n @ [r]) = Some r"
      using free(1) by (simp add: own_route_append)
    then show ?thesis
      using True view free(2) by (simp add: pair_ok_def fib_spec_eq inh_route_def log_ok_def log_has_def inh_ok_def)
  next
    case False
    then have "own_route f (?R n @ [r]) = own_route f (?R n)"
      by (simp add: own_route_append split: option.split)
    then have "pair_ok rib (?R(n := ?R n @ [r])) n f (None, [])"
      using cap' rib_invD(2)[OF inv at] R(1) by (intro pair_same[OF cov]) (simp_all add: inh_route_def)
    then show ?thesis
      using False view u1(4) wf(2) by simp
  qed
  moreover have "others_done rib n (?R n @ [r]) (addFibUpdate ?up u1)"
    using u1(3) view by (simp add: others_done_def)
  moreover have "fu_wf (addFibUpdate ?up u1)" "same_batch u (addFibUpdate ?up u1)" "inh_names (addFibUpdate ?up u1) \<subseteq> rib_names rib"
    using u1(2) wf(3) addFibUpdate_ok[of u1 ?up] same_batch_trans[of u u1] by (auto simp: updater_step_def)
  ultimately show ?thesis
    by (auto simp: all_done_def own_done_def)
qed

subsection \<open>A route that is there with other cost\<close>

definition one_per_face :: "rib \<Rightarrow> bool" where
  "one_per_face rib \<longleftrightarrow> (\<forall>n. distinct (map rt_faceId (rib_routes rib n)))"

lemma scan_single:
  assumes "distinct (map rt_faceId rs)" "q \<in> set rs" "P q" and P: "\<And>r. P r \<Longrightarrow> rt_faceId r = rt_faceId q"
  shows "lowest_cost_scan P rs = Some q"
proof -
  obtain xs ys where rs: "rs = xs @ q # ys"
    using split_list[OF assms(2)] by blast
  have none: "\<not> P r" if "r \<in> set xs \<union> set ys" for r
    using that assms(1) P[of r] rs by (auto simp: image_iff)
  have "fold (scan_step P) xs None = None" "fold (scan_step P) ys (Some q) = Some q"
    using none by (intro scan_skip; simp)+
  then show ?thesis
    using assms(3) by (simp add: lowest_cost_scan_def rs)
qed

lemma update_face:
  assumes "distinct (map rt_faceId rs)" "q \<in> set rs" "compareFaceIdAndOrigin q route"
    and h: "\<And>r. rt_faceId (h r) = rt_faceId r"
  shows "own_route f (update_first (\<lambda>r. compareFaceIdAndOrigin r route) h rs) = (if f = rt_faceId q then Some (h q) else own_route f rs)"
    "own_route (rt_faceId q) rs = Some q"
proof -
  have "own_route f (update_first (\<lambda>r. compareFaceIdAndOrigin r route) h rs) = (if f = rt_faceId q then Some (h q) else own_route f rs) \<and>
      own_route (rt_faceId q) rs = Some q"
    using assms(1-3)
  proof (induction rs)
    case (Cons r rs)
    show ?case
    proof (cases "r = q")
      case True
      then show ?thesis
        using Cons.prems h by (simp add: own_route_Cons)
    next
      case False
      then have "rt_faceId r \<noteq> rt_faceId q" "q \<in> set rs"
        using Cons.prems by (auto simp: image_iff)
      moreover from this have "\<not> compareFaceIdAndOrigin r route"
        using Cons.prems(3) by (simp add: compareFaceIdAndOrigin_def)
      ultimately show ?thesis
        using Cons by (auto simp: own_route_Cons)
    qed
  qed simp
  then show "own_route f (update_first (\<lambda>r. compareFaceIdAndOrigin r route) h rs) = (if f = rt_faceId q then Some (h q) else own_route f rs)"
    "own_route (rt_faceId q) rs = Some q"
    by blast+
qed

lemma child_own:
  assumes "distinct (map rt_faceId rs)"
  shows "child_route f rs = (case own_route f rs of None \<Rightarrow> None | Some q \<Rightarrow> if isChildInherit q then Some q else None)"
  using assms
proof (induction rs)
  case (Cons r rs)
  show ?case
  proof (cases "rt_faceId r = f")
    case True
    then have "own_route f rs = None"
      using Cons.prems by (auto simp: own_route_def find_None_all image_iff)
    then have "child_route f rs = None"
      by (rule own_None_child)
    then show ?thesis
      using True by (simp add: child_route_def own_route_def)
  next
    case False
    then show ?thesis
      using Cons by (simp add: child_route_def own_route_def)
  qed
qed (simp add: child_route_def own_route_def)

lemma captures_update:
  "(\<And>r. isCapture (h r) = isCapture r) \<Longrightarrow> captures (update_first P h rs) = captures rs"
  by (induction rs) (auto simp: captures_def)

text \<open>The copy of the entry that the updater changes has the new flags and cost, but the old expiration event.\<close>

definition changed :: "route \<Rightarrow> route \<Rightarrow> route" where
  "changed route r = r\<lparr>rt_flags := rt_flags route, rt_cost := rt_cost route, rt_expires := rt_expires route\<rparr>"

definition changed_entry :: "route \<Rightarrow> rib_entry \<Rightarrow> rib_entry" where
  "changed_entry route e = e\<lparr>re_routes := update_first (\<lambda>r. compareFaceIdAndOrigin r route) (changed route) (re_routes e)\<rparr>"

lemma changed_simps [simp]: "rt_faceId (changed route r) = rt_faceId r" "rt_cost (changed route r) = rt_cost route"
  "rt_flags (changed route r) = rt_flags route" "isChildInherit (changed route r) = isChildInherit route"
  "rt_faceId (renewed route r) = rt_faceId r" "rt_cost (renewed route r) = rt_cost route"
  "isChildInherit (renewed route r) = isChildInherit route" "isCapture (renewed route r) = isCapture route"
  by (simp_all add: changed_def renewed_def isChildInherit_def isCapture_def)

lemma changed_scan:
  assumes dist: "distinct (map rt_faceId (re_routes e))" and q: "q \<in> set (re_routes e)" "compareFaceIdAndOrigin q route"
  shows "getRouteWithLowestCostByFaceId (rt_faceId route) (changed_entry route e) = Some (changed route q)"
    "getRouteWithLowestCostAndChildInheritByFaceId (rt_faceId route) (changed_entry route e) =
      (if isChildInherit route then Some (changed route q) else None)"
proof -
  let ?rs = "re_routes (changed_entry route e)"
  have face: "rt_faceId q = rt_faceId route"
    using q(2) by (simp add: compareFaceIdAndOrigin_def)
  have d: "distinct (map rt_faceId ?rs)"
    using dist by (simp add: changed_entry_def map_update_first)
  have own: "own_route (rt_faceId route) ?rs = Some (changed route q)"
    using update_face(1)[OF dist q, of "changed route"] face by (simp add: changed_entry_def)
  then have in': "changed route q \<in> set ?rs"
    by (auto simp: own_route_def find_Some_iff)
  show "getRouteWithLowestCostByFaceId (rt_faceId route) (changed_entry route e) = Some (changed route q)"
    unfolding getRouteWithLowestCostByFaceId_def by (rule scan_single[OF d in']) (auto simp: face)
  show "getRouteWithLowestCostAndChildInheritByFaceId (rt_faceId route) (changed_entry route e) =
      (if isChildInherit route then Some (changed route q) else None)"
  proof (cases "isChildInherit route")
    case True
    then show ?thesis
      unfolding getRouteWithLowestCostAndChildInheritByFaceId_def by (auto simp: face intro!: scan_single[OF d in'])
  next
    case False
    have "r = changed route q" if "r \<in> set ?rs" "rt_faceId r = rt_faceId route" for r
      using that in' d face by (auto simp: distinct_map inj_on_def)
    then have "\<not> (rt_faceId r = rt_faceId route \<and> isChildInherit r)" if "r \<in> set ?rs" for r
      using False that by (metis changed_simps(4))
    then show ?thesis
      using False unfolding getRouteWithLowestCostAndChildInheritByFaceId_def by (simp add: scan_None)
  qed
qed

lemma same_flags:
  assumes "distinct (map rt_faceId rs)" "q \<in> set rs" "compareFaceIdAndOrigin q route" "rt_flags route = rt_flags q"
  shows "captures (update_first (\<lambda>r. compareFaceIdAndOrigin r route) (renewed route) rs) = captures rs"
proof -
  have "r = q" if "r \<in> set rs" "compareFaceIdAndOrigin r route" for r
    using that assms by (auto simp: distinct_map inj_on_def compareFaceIdAndOrigin_def)
  then show ?thesis
    using assms(4)
  proof (induction rs)
    case (Cons r rs)
    show ?case
    proof (cases "compareFaceIdAndOrigin r route")
      case True
      then have "isCapture route = isCapture r"
        using Cons.prems(1)[of r] Cons.prems(2) by (simp add: isCapture_def)
      then show ?thesis
        using True by (simp add: captures_def)
    next
      case False
      then show ?thesis
        using Cons by (simp add: captures_def)
    qed
  qed simp
qed

lemma update_facts:
  fixes route
  assumes inv: "rib_inv rib" and one: "one_per_face rib" and at: "rib_at rib n x e"
    and q: "findRoute route e = Some q" and flags: "rt_flags route = rt_flags q"
  defines "g \<equiv> rt_faceId route" and "rs \<equiv> update_first (\<lambda>r. compareFaceIdAndOrigin r route) (renewed route) (rib_routes rib n)"
  shows "own_route f rs = (if f = g then Some (renewed route q) else own_route f (rib_routes rib n))"
    "own_route g (rib_routes rib n) = Some q" "rs \<noteq> []" "rib_routes rib n \<noteq> []"
    "inh_route ((rib_routes rib)(n := rs)) n f = inh_route (rib_routes rib) n f"
    "inherited_at ((rib_routes rib)(n := rs)) n f =
      (if f = g \<and> isChildInherit route then Some (renewed route q) else inherited_at (rib_routes rib) n f)"
    "isChildInherit route \<Longrightarrow> inherited_at (rib_routes rib) n g = Some q"
    "distinct (map rt_faceId (re_routes e))" "q \<in> set (re_routes e)" "compareFaceIdAndOrigin q route"
proof -
  let ?R = "rib_routes rib"
  have R: "?R n = re_routes e"
    by (rule rib_routes_at[OF at])
  show dist: "distinct (map rt_faceId (re_routes e))"
    using one R unfolding one_per_face_def by metis
  show q': "q \<in> set (re_routes e)" "compareFaceIdAndOrigin q route"
    using find_Some_in[OF q[unfolded findRoute_def]] by auto
  have face: "rt_faceId q = g"
    using q'(2) by (simp add: g_def compareFaceIdAndOrigin_def)
  have ci: "isChildInherit route = isChildInherit q"
    using flags by (simp add: isChildInherit_def)
  show own: "own_route f rs = (if f = g then Some (renewed route q) else own_route f (?R n))" "own_route g (?R n) = Some q" for f
    using update_face[OF dist q', of "renewed route"] face by (auto simp: rs_def R)
  show nonempty: "rs \<noteq> []" "?R n \<noteq> []"
    using own(1)[of g] own(2) by (auto simp: own_route_def)
  have cap: "captures rs = captures (?R n)"
    using same_flags[OF dist q' flags] by (simp add: rs_def R)
  then show "inh_route (?R(n := rs)) n f = inh_route ?R n f"
    using own own(1)[of f] nonempty by (auto simp: inh_route_def)
  have child: "child_route f rs = (if f = g then if isChildInherit route then Some (renewed route q) else None else child_route f (?R n))" for f
    using child_own[of rs] child_own[OF dist] own dist by (simp add: rs_def R map_update_first)
  have "child_route g (?R n) = (if isChildInherit route then Some q else None)"
    using child_own[OF dist, of g] own(2) R ci by simp
  then show "inherited_at (?R(n := rs)) n f = (if f = g \<and> isChildInherit route then Some (renewed route q) else inherited_at ?R n f)"
    "isChildInherit route \<Longrightarrow> inherited_at ?R n g = Some q"
    by (auto simp: inherited_at_def child cap split: option.split)
qed

lemma update_own:
  fixes n route u
  assumes cov: "rib_covers rib" and u: "fresh_updater u" and facts: "own_route (rt_faceId route) (rib_routes rib n) = Some q"
      "\<And>f. own_route f rs = (if f = rt_faceId route then Some (renewed route q) else own_route f (rib_routes rib n))"
      "rs \<noteq> []" "rib_routes rib n \<noteq> []" "\<And>f. inh_route ((rib_routes rib)(n := rs)) n f = inh_route (rib_routes rib) n f"
  defines "u1 \<equiv> addFibUpdate (createAddUpdate n (rt_faceId route) (rt_cost route)) u"
  shows "own_done rib n rs u1" "fu_wf u1" "same_batch u u1" "others_fresh n u1"
proof -
  let ?g = "rt_faceId route" and ?up = "createAddUpdate n (rt_faceId route) (rt_cost route)"
  have wf: "fu_wf u" "\<And>m f. view u m f = (None, [])"
    using u by (auto simp: fresh_updater_def)
  have view: "view u1 m f = (if m = n \<and> f = ?g then (Some ?up, []) else (None, []))" for m f
    using addFibUpdate_ok(4)[OF wf(1), of ?up m f] wf(2) by (auto simp: u1_def createAddUpdate_def)
  show "fu_wf u1" "same_batch u u1" "others_fresh n u1"
    using addFibUpdate_ok(1-3)[OF wf(1), of ?up] view by (auto simp: u1_def others_fresh_def)
  have "pair_ok rib ((rib_routes rib)(n := rs)) n f (view u1 n f)" for f
  proof (cases "f = ?g")
    case True
    have "\<not> has_inherited rib n ?g"
      using cov facts(1,4) unfolding rib_covers_def inh_ok_def by (metis option.distinct(1))
    then show ?thesis
      using True view facts by (simp add: pair_ok_def fib_spec_eq inh_route_def log_ok_def log_has_def inh_ok_def)
  next
    case False
    have "pair_ok rib ((rib_routes rib)(n := rs)) n f (None, [])"
      using False facts by (intro pair_same[OF cov]) auto
    then show ?thesis
      using False view by simp
  qed
  then show "own_done rib n rs u1"
    by (simp add: own_done_def)
qed

lemma update_ok_route:
  assumes inv: "rib_inv rib" and small: "rib_small rib" and cov: "rib_covers rib" and one: "one_per_face rib" and at: "rib_at rib n x e" and u: "fresh_updater u"
    and q: "findRoute route e = Some q" and flags: "rt_flags route = rt_flags q"
  defines "rs \<equiv> update_first (\<lambda>r. compareFaceIdAndOrigin r route) (renewed route) (rib_routes rib n)"
  shows "\<exists>u'. createFibUpdatesForUpdatedRoute rib (changed_entry route e) route q u = Some u' \<and> all_done rib n rs u' \<and> same_batch u u'"
proof -
  note F = update_facts[OF inv one at q flags, folded rs_def]
  note scan = changed_scan[OF F(8-10)]
  show ?thesis
  proof (cases "rt_cost route = rt_cost q")
    case True
    have "pair_ok rib ((rib_routes rib)(n := rs)) n f (view u n f)" for f
      using True F(1-5) u by (simp add: fresh_updater_def pair_same[OF cov])
    moreover have "fits rib n rs [] []"
      using True F(6,7) by (auto simp: fits_def)
    ultimately have "all_done rib n rs u"
      using u nothing_others[OF cov, of n u rs] by (simp add: all_done_def own_done_def others_fresh_def fresh_updater_def)
    then show ?thesis
      using True flags by (simp add: createFibUpdatesForUpdatedRoute_def Let_def)
  next
    case False
    define u1 where "u1 = addFibUpdate (createAddUpdate n (rt_faceId route) (rt_cost route)) u"
    note u1 = update_own[OF cov u F(2,1,3-5), folded u1_def]
    have cost: "updatedRoute_cost rib (changed_entry route e) route q (if isChildInherit route then Some (changed route q) else None) u =
        (if isChildInherit route then Option.bind (modifyChildrensInheritedRoutes rib (re_children e) [route] [] u1) (\<lambda>u. Some (u, True))
         else Some (u1, False))"
      using scan flags tree_okD(6)[OF rib_invD(1)[OF inv] at] by (simp add: updatedRoute_cost_def u1_def changed_entry_def)
    show ?thesis
    proof (cases "isChildInherit route")
      case True
      have "fits rib n rs [route] []"
        using True F(6) by (auto simp: fits_def own_route_Cons)
      then obtain u2 where u2: "modifyChildrensInheritedRoutes rib (re_children e) [route] [] u1 = Some u2" "updater_step rib u1 u2"
          "others_done rib n rs u2" "\<And>f. view u2 n f = view u1 n f"
        using u1 by (rule_tac modify_others[OF inv small cov below_children[OF inv at], of "[route]" "[]" u1 rs]) auto
      then show ?thesis
        using True False cost scan u1(1) same_batch_trans[OF u1(3)]
        by (auto simp: createFibUpdatesForUpdatedRoute_def Let_def all_done_def own_done_def updater_step_def)
    next
      case noci: False
      then have "fits rib n rs [] []"
        using F(6) by (simp add: fits_def)
      then have "all_done rib n rs u1"
        using nothing_others[OF cov u1(4)] u1(1,2) by (simp add: all_done_def)
      moreover have "isChildInherit q = isChildInherit route" "isCapture q = isCapture route"
        using flags by (simp_all add: isChildInherit_def isCapture_def)
      ultimately show ?thesis
        using noci False cost scan u1(3)
        by (simp add: createFibUpdatesForUpdatedRoute_def Let_def updatedRoute_childInherit_def updatedRoute_capture_def)
    qed
  qed
qed

subsection \<open>A route that is removed\<close>

lemma remove_face:
  assumes "distinct (map rt_faceId rs)" "q \<in> set rs" "compareFaceIdAndOrigin q route"
  shows "own_route f (remove_first (\<lambda>r. compareFaceIdAndOrigin r route) rs) = (if f = rt_faceId q then None else own_route f rs)"
    "distinct (map rt_faceId (remove_first (\<lambda>r. compareFaceIdAndOrigin r route) rs))"
    "set rs = insert q (set (remove_first (\<lambda>r. compareFaceIdAndOrigin r route) rs))"
proof -
  let ?P = "\<lambda>r. compareFaceIdAndOrigin r route"
  have "own_route f (remove_first ?P rs) = (if f = rt_faceId q then None else own_route f rs) \<and>
      set rs = insert q (set (remove_first ?P rs))"
    using assms
  proof (induction rs)
    case (Cons r rs)
    show ?case
    proof (cases "r = q")
      case True
      then have "own_route (rt_faceId q) rs = None"
        using Cons.prems(1) by (auto simp: own_route_def find_None_all image_iff)
      then show ?thesis
        using True Cons.prems by (auto simp: own_route_Cons)
    next
      case False
      then have "rt_faceId r \<noteq> rt_faceId q" "q \<in> set rs"
        using Cons.prems by (auto simp: image_iff)
      moreover from this have "\<not> ?P r"
        using Cons.prems(3) by (simp add: compareFaceIdAndOrigin_def)
      ultimately show ?thesis
        using Cons by (auto simp: own_route_Cons)
    qed
  qed simp
  then show "own_route f (remove_first ?P rs) = (if f = rt_faceId q then None else own_route f rs)"
    "set rs = insert q (set (remove_first ?P rs))"
    by blast+
  show "distinct (map rt_faceId (remove_first ?P rs))"
    using assms(1) by (rule remove_first_distinct_map)
qed

lemma erased_entry_view:
  assumes "fu_wf u"
  shows "fu_wf (createFibUpdatesForErasedRibEntry e u) \<and> same_batch u (createFibUpdatesForErasedRibEntry e u) \<and>
    inh_names (createFibUpdatesForErasedRibEntry e u) = inh_names u \<and>
    (\<forall>m f. view (createFibUpdatesForErasedRibEntry e u) m f =
      (if m = re_name e \<and> inherits f e then (Some (createRemoveUpdate m f), snd (view u m f)) else view u m f))"
proof -
  let ?fold = "fold (\<lambda>route. addFibUpdate (createRemoveUpdate (re_name e) (rt_faceId route)))"
  have "fu_wf (?fold rs u) \<and> same_batch u (?fold rs u) \<and> inh_names (?fold rs u) = inh_names u \<and>
    (\<forall>m f. view (?fold rs u) m f = (if m = re_name e \<and> f \<in> rt_faceId ` set rs then (Some (createRemoveUpdate m f), snd (view u m f)) else view u m f))"
    if "fu_wf u" for rs u
    using that
  proof (induction rs arbitrary: u)
    case (Cons r rs)
    define v where "v = addFibUpdate (createRemoveUpdate (re_name e) (rt_faceId r)) u"
    have "fu_wf v" "same_batch u v" "inh_names v = inh_names u"
      "view v m f = (if m = re_name e \<and> f = rt_faceId r then (Some (createRemoveUpdate m f), snd (view u m f)) else view u m f)" for m f
      using addFibUpdate_ok[OF Cons.prems, of "createRemoveUpdate (re_name e) (rt_faceId r)"] by (auto simp: v_def createRemoveUpdate_def)
    then show ?case
      using Cons.IH[of v] same_batch_trans[of u v] by (auto simp: v_def[symmetric])
  qed simp
  then show ?thesis
    unfolding createFibUpdatesForErasedRibEntry_def inherits_def using assms by blast
qed

lemma erased_entry_batch [simp]: "fu_batchFaceId (createFibUpdatesForErasedRibEntry e u) = fu_batchFaceId u"
proof -
  have "fu_batchFaceId (fold (\<lambda>route. addFibUpdate (createRemoveUpdate n (rt_faceId route))) rs u) = fu_batchFaceId u" for n rs
    by (induction rs arbitrary: u) (simp_all add: addFibUpdate_def)
  then show ?thesis
    by (simp add: createFibUpdatesForErasedRibEntry_def)
qed

text \<open>The facts that both kinds of removal need: the entry without the route, and the ancestors.\<close>

lemma removal_facts:
  assumes inv: "rib_inv rib" and small: "rib_small rib" and one: "one_per_face rib" and at: "rib_at rib n x e" and q: "findRoute route e = Some q"
  defines "temp \<equiv> fst (eraseRoute route e)" and "rs \<equiv> remove_first (\<lambda>r. compareFaceIdAndOrigin r route) (rib_routes rib n)"
  shows "re_routes temp = rs" "re_name temp = n" "re_children temp = re_children e" "hasCapture temp = captures rs"
    "hasCapture e = captures (rib_routes rib n)" "q \<in> set (rib_routes rib n)" "rt_faceId q = rt_faceId route"
    "own_route f rs = (if f = rt_faceId q then None else own_route f (rib_routes rib n))"
    "own_route (rt_faceId q) (rib_routes rib n) = Some q"
    "set (rib_routes rib n) = insert q (set rs)" "getRouteWithSecondLowestCostByFaceId (rt_faceId route) e = None"
    "\<exists>A. getAncestorRoutes temp rib = Some A \<and> sorted_set A \<and> (\<forall>f. own_route f A = inherited (rib_routes rib) n f)"
    "distinct (map rt_faceId rs)"
proof -
  have R: "rib_routes rib n = re_routes e" and dist: "distinct (map rt_faceId (re_routes e))"
    using rib_routes_at[OF at] one by (auto simp: one_per_face_def) metis
  note F = eraseRoute_fields[OF q, folded temp_def]
  show rs: "re_routes temp = rs" and "re_children temp = re_children e"
    using F R by (simp_all add: rs_def)
  show "re_name temp = n"
    using F(2) tree_okD(6)[OF rib_invD(1)[OF inv] at] by simp
  have q': "q \<in> set (re_routes e)" "compareFaceIdAndOrigin q route"
    using find_Some_in[OF q[unfolded findRoute_def]] by auto
  then show "q \<in> set (rib_routes rib n)" "rt_faceId q = rt_faceId route"
    by (auto simp: R compareFaceIdAndOrigin_def)
  show cap: "hasCapture e = captures (rib_routes rib n)"
    by (rule entry_captures[OF inv small at])
  have "length (re_routes temp) \<le> length (re_routes e)"
    using length_remove_first[OF q[unfolded findRoute_def]] F(1) by simp
  then have "length (re_routes temp) < 2 ^ 64"
    using small R unfolding rib_small_def by (metis le_less_trans)
  then show "hasCapture temp = captures rs"
    using hasCapture_iff[OF F(6)[OF rib_invD(3)[OF inv at]]] rs by simp
  show "own_route f rs = (if f = rt_faceId q then None else own_route f (rib_routes rib n))"
    "set (rib_routes rib n) = insert q (set rs)" "distinct (map rt_faceId rs)"
    using remove_face[OF dist q'] by (simp_all add: rs_def R)
  show "own_route (rt_faceId q) (rib_routes rib n) = Some q"
    using update_face(2)[OF dist q', of id] by (simp add: R)
  have "length (filter (\<lambda>r. rt_faceId r = f) rs) \<le> 1" if "distinct (map rt_faceId rs)" for f and rs :: "route list"
    using that by (induction rs) (auto simp: filter_empty_conv image_iff)
  from this[OF dist, of "rt_faceId route"] show "getRouteWithSecondLowestCostByFaceId (rt_faceId route) e = None"
    by (simp add: getRouteWithSecondLowestCostByFaceId_def Let_def)
  have "re_parent temp = findParent n rib"
    using F(3) tree_okD(3)[OF rib_invD(1)[OF inv] at] by simp
  then show "\<exists>A. getAncestorRoutes temp rib = Some A \<and> sorted_set A \<and> (\<forall>f. own_route f A = inherited (rib_routes rib) n f)"
    using ancestor_routes_ok[OF inv small, of n] by (simp add: getAncestorRoutes_def getAncestorRoutes_name_def)
qed

lemma removal_start:
  fixes n f g u
  assumes "fresh_updater u"
  defines "u1 \<equiv> addFibUpdate (createRemoveUpdate n g) u"
  shows "fu_wf u1" "same_batch u u1" "inh_names u1 = {}" "others_fresh n u1"
    "view u1 n f = (if f = g then (Some (createRemoveUpdate n g), []) else (None, []))"
  using assms addFibUpdate_ok[of u "createRemoveUpdate n g"]
  by (auto simp: fresh_updater_def others_fresh_def createRemoveUpdate_def)

text \<open>The only route of a name, without the Capture flag.\<close>

lemma last_route_ok:
  assumes inv: "rib_inv rib" and small: "rib_small rib" and cov: "rib_covers rib" and one: "one_per_face rib" and at: "rib_at rib n x e" and u: "fresh_updater u"
    and q: "findRoute route e = Some q" and last: "rib_routes rib n = [q]" and nocap: "\<not> isCapture q"
  shows "\<exists>u'. createFibUpdatesForErasedRoute rib (fst (eraseRoute route e)) q False u = Some u' \<and>
    all_done rib n [] (createFibUpdatesForErasedRibEntry e u') \<and> same_batch u u'"
proof -
  let ?R = "rib_routes rib" and ?temp = "fst (eraseRoute route e)" and ?g = "rt_faceId q"
  note F = removal_facts[OF inv small one at q]
  have rs: "re_routes ?temp = []"
    using F(1,13) F(6,10) last F(8)[of ?g] find_Some_in[OF q[unfolded findRoute_def]] by simp
  then have temp: "\<not> hasCapture ?temp"
    using F(1,4) by (simp add: captures_def)
  define u1 where "u1 = addFibUpdate (createRemoveUpdate n ?g) u"
  note u1 = removal_start[OF u, of n ?g, folded u1_def]
  obtain A where A: "getAncestorRoutes ?temp rib = Some A" "sorted_set A" "\<And>f. own_route f A = inherited ?R n f"
    using F(12) by blast
  have old: "inherited_at ?R n f = (if f = ?g \<and> isChildInherit q then Some q else inherited ?R n f)" for f
    using inherited_at_single[of ?R n q f] last nocap by (simp add: fun_upd_idem) 
  have new: "inherited_at (?R(n := [])) n f = inherited ?R n f" for f
    using inherited_at_Nil[of "?R(n := [])" n f] by simp
  have own: "pair_ok rib (?R(n := [])) n f (view (createFibUpdatesForErasedRibEntry e u') n f)"
    if u': "fu_wf u'" "\<And>f. view u' n f = view u1 n f" for u' f
  proof -
    have "fib_spec ?R n f = None" if "f \<noteq> ?g" "\<not> inherits f e"
    proof -
      have "own_route f (?R n) = None"
        using last that(1) by (simp add: own_route_def)
      moreover have "inh_route ?R n f = None"
        using cov that(2) has_inherited_at[OF at, of f] unfolding rib_covers_def inh_ok_def by blast
      ultimately show ?thesis
        by (simp add: fib_spec_eq)
    qed
    moreover have "fib_spec (?R(n := [])) n f = None"
      by (simp add: fib_spec_def)
    ultimately show ?thesis
      using erased_entry_view[OF u'(1), of e] u'(2) u1(5)[of f] tree_okD(6)[OF rib_invD(1)[OF inv] at]
      by (auto simp: pair_ok_def log_ok_def inh_ok_def inh_route_def)
  qed
  have fin: "all_done rib n [] (createFibUpdatesForErasedRibEntry e u')"
    if u': "fu_wf u'" "\<And>f. view u' n f = view u1 n f" "others_done rib n [] u'" for u'
  proof -
    have "own_done rib n [] (createFibUpdatesForErasedRibEntry e u')"
      using own[OF u'(1,2)] by (simp add: own_done_def)
    moreover have "others_done rib n [] (createFibUpdatesForErasedRibEntry e u')"
      using u'(3) erased_entry_view[OF u'(1), of e] tree_okD(6)[OF rib_invD(1)[OF inv] at] by (simp add: others_done_def)
    ultimately show ?thesis
      using erased_entry_view[OF u'(1), of e] by (simp add: all_done_def)
  qed
  show ?thesis
  proof (cases "isChildInherit q")
    case True
    have "fits rib n [] A [q]"
      using True A(3) new old by (auto simp: fits_def own_route_Cons)
    then obtain u2 where u2: "modifyChildrensInheritedRoutes rib (re_children e) A [q] u1 = Some u2" "updater_step rib u1 u2"
        "others_done rib n [] u2" "\<And>f. view u2 n f = view u1 n f"
      using u1 A(2) by (rule_tac modify_others[OF inv small cov below_children[OF inv at], of A "[q]" u1 "[]"]) auto
    have "createFibUpdatesForErasedRoute rib ?temp q False u = Some u2"
      using True nocap A(1) u2(1) F(2,3) temp rs by (simp add: createFibUpdatesForErasedRoute_def u1_def Let_def getNRoutes_def)
    then show ?thesis
      using fin[of u2] u2 same_batch_trans[OF u1(2)] by (auto simp: updater_step_def)
  next
    case False
    have "fits rib n [] [] []"
      using False new old by (simp add: fits_def)
    then have "others_done rib n [] u1"
      by (rule nothing_others[OF cov u1(4)])
    moreover have "createFibUpdatesForErasedRoute rib ?temp q False u = Some u1"
      using False nocap A(1) F(2,3) temp rs by (simp add: createFibUpdatesForErasedRoute_def u1_def Let_def getNRoutes_def)
    ultimately show ?thesis
      using fin[of u1] u1 by simp
  qed
qed

text \<open>One of several routes of a name, without the ChildInherit flag, that is not the only one with the Capture flag.\<close>

lemma one_route_ok:
  assumes inv: "rib_inv rib" and small: "rib_small rib" and cov: "rib_covers rib" and one: "one_per_face rib" and at: "rib_at rib n x e" and u: "fresh_updater u"
    and q: "findRoute route e = Some q" and noci: "\<not> isChildInherit q"
  defines "rs \<equiv> remove_first (\<lambda>r. compareFaceIdAndOrigin r route) (rib_routes rib n)"
  assumes more: "rs \<noteq> []" and cap: "isCapture q \<Longrightarrow> captures rs"
  shows "\<exists>u'. createFibUpdatesForErasedRoute rib (fst (eraseRoute route e)) q False u = Some u' \<and> all_done rib n rs u' \<and> same_batch u u'"
proof -
  let ?R = "rib_routes rib" and ?temp = "fst (eraseRoute route e)" and ?g = "rt_faceId q"
  note F = removal_facts[OF inv small one at q, folded rs_def]
  have cap': "captures (?R n) = captures rs"
    using F(10) cap by (auto simp: captures_def list_ex_iff)
  have dist: "distinct (map rt_faceId (?R n))"
    using one by (simp add: one_per_face_def)
  have child: "child_route f rs = child_route f (?R n)" for f
    using child_own[OF dist, of f] child_own[OF F(13), of f] F(8)[of f] F(9) noci by auto
  have fits: "fits rib n rs [] []"
    by (simp add: fits_def inherited_at_def child cap' split: option.split)
  define u1 where "u1 = addFibUpdate (createRemoveUpdate n ?g) u"
  note u1 = removal_start[OF u, of n ?g, folded u1_def]
  obtain A where A: "getAncestorRoutes ?temp rib = Some A" "sorted_set A" "\<And>f. own_route f A = inherited ?R n f"
    using F(12) by blast
  obtain u2 where u2: "(if isCapture q then modifyChildrensInheritedRoutes rib (re_children e) [] [] u1 else Some u1) = Some u2"
    "fu_wf u2" "same_batch u u2" "others_done rib n rs u2" "\<And>f. view u2 n f = view u1 n f"
  proof (cases "isCapture q")
    case True
    show ?thesis
      by (rule modify_others[OF inv small cov below_children[OF inv at], of "[]" "[]" u1 rs])
        (use True u1 fits that same_batch_trans[OF u1(2)] in \<open>auto simp: updater_step_def\<close>)
  next
    case False
    then show ?thesis
      using that[of u1] u1 nothing_others[OF cov u1(4) fits] by simp
  qed
  define u3 where "u3 = (if captures rs then u2 else case own_route ?g A of None \<Rightarrow> u2
    | Some r \<Rightarrow> addFibUpdate (createAddUpdate n (rt_faceId r) (rt_cost r)) (addInheritedRoute n r u2))"
  have "createFibUpdatesForErasedRoute rib ?temp q False u = Some u3"
    using noci A(1) u2(1) F(1-4) more rs_find_def[of q A]
    by (cases "isCapture q") (simp_all add: createFibUpdatesForErasedRoute_def u1_def[symmetric] u3_def Let_def getNRoutes_def addInheritedRoutes_def own_route_def split: option.split)
  moreover have view: "fu_wf u3 \<and> same_batch u2 u3 \<and> view u3 m f = (if m = n \<and> f = ?g then
      if captures rs then (Some (createRemoveUpdate n ?g), []) else add_view n ?g (inherited ?R n ?g) (Some (createRemoveUpdate n ?g), [])
      else view u2 m f)" for m f
  proof (cases "captures rs \<or> own_route ?g A = None")
    case True
    then show ?thesis
      using u2(2,5) u1(5) A(3) by (auto simp: u3_def add_view_def)
  next
    case False
    then obtain r where r: "own_route ?g A = Some r" "\<not> captures rs"
      by auto
    have "same_batch u2 u3"
      using r u2(2) addFibUpdate_ok(2)[of "addInheritedRoute n r u2"] same_batch_trans[OF inheritedRoute_ok(2)] by (simp add: u3_def inheritedRoute_ok(1)) blast
    then show ?thesis
      using r u2(2,5) u1(5) A(3) own_route_face[OF r(1)] by (auto simp: u3_def add_view_def update_ok createAddUpdate_def)
  qed
  moreover have "pair_ok rib (?R(n := rs)) n f (view u3 n f)" for f
  proof (cases "f = ?g")
    case True
    have none: "own_route f rs = None" "\<not> has_inherited rib n f"
      using True F(8)[of f] F(9) cov more F(6) unfolding rib_covers_def inh_ok_def by (auto, metis empty_iff list.set(1) option.distinct(1))
    show ?thesis
      using True view[of n f] none more
      by (auto simp: pair_ok_def fib_spec_eq inh_route_def add_view_def log_ok_def log_has_def inh_ok_def split: option.split)
  next
    case False
    have ne: "?R n \<noteq> []"
      using F(6) by auto
    have "pair_ok rib (?R(n := rs)) n f (None, [])"
      using False F(8)[of f] more cap' ne by (intro pair_same[OF cov]) (auto simp: inh_route_def)
    then show ?thesis
      using False view[of n f] u2(5) u1(5) by simp
  qed
  ultimately have "all_done rib n rs u3"
    using u2(4) by (simp add: all_done_def own_done_def others_done_def)
  then show ?thesis
    using \<open>createFibUpdatesForErasedRoute rib ?temp q False u = Some u3\<close> view same_batch_trans[OF u2(3)] by blast
qed

section \<open>The updates that are computed correctly\<close>

definition inherited_list :: "rib \<Rightarrow> name \<Rightarrow> route list" where
  "inherited_list rib n = (case rib_find n rib of None \<Rightarrow> [] | Some x \<Rightarrow>
    (case rib_entries rib x of None \<Rightarrow> [] | Some e \<Rightarrow> re_inheritedRoutes e))"

lemma has_inherited_list: "has_inherited rib n f \<longleftrightarrow> f \<in> rt_faceId ` set (inherited_list rib n)"
  by (cases "rib_find n rib"; cases "rib_entries rib (the (rib_find n rib))") (auto simp: has_inherited_def inherited_list_def rib_at_def inherits_def)

text \<open>A name may get its first route, a route on a face on which it has neither a route nor an inherited one and that does not turn
  capturing on, or new values other than flags for a route it has.  It may lose its last route if that does not capture, and
  one of several routes if its children do not inherit it and it is not the last one that captures.\<close>

definition safe_update :: "rib \<Rightarrow> rib_update \<Rightarrow> bool" where
  "safe_update rib update =
    (let n = ru_name update; r = ru_route update; rs = rib_routes rib n; old = List.find (\<lambda>q. compareFaceIdAndOrigin q r) rs
     in case ru_action update of
          REGISTER \<Rightarrow> int (length rs) + 1 < 2 ^ 64 \<and>
            (rs = [] \<or> (case old of
               Some q \<Rightarrow> rt_flags r = rt_flags q
             | None \<Rightarrow> own_route (rt_faceId r) rs = None \<and> rt_faceId r \<notin> rt_faceId ` set (inherited_list rib n) \<and>
                 (isCapture r \<longrightarrow> captures rs)))
        | UNREGISTER \<Rightarrow> (case old of
              None \<Rightarrow> True
            | Some q \<Rightarrow> (let rest = remove_first (\<lambda>q. compareFaceIdAndOrigin q r) rs
                in if rest = [] then \<not> isCapture q else \<not> isChildInherit q \<and> (isCapture q \<longrightarrow> captures rest)))
        | REMOVE_FACE \<Rightarrow> False)"

definition routes_after :: "rib_update \<Rightarrow> route_map \<Rightarrow> route list" where
  "routes_after update R = (case ru_action update of
      REGISTER \<Rightarrow> routes_insert (ru_route update) (R (ru_name update))
    | _ \<Rightarrow> remove_first (\<lambda>q. compareFaceIdAndOrigin q (ru_route update)) (R (ru_name update)))"

definition rib_good :: "rib \<Rightarrow> bool" where
  "rib_good rib \<longleftrightarrow> rib_inv rib \<and> rib_small rib \<and> rib_covers rib \<and> one_per_face rib"

lemma rib_goodD: "rib_good rib \<Longrightarrow> rib_inv rib" "rib_good rib \<Longrightarrow> rib_small rib" "rib_good rib \<Longrightarrow> rib_covers rib" "rib_good rib \<Longrightarrow> one_per_face rib"
  by (simp_all add: rib_good_def)

lemma unchanged_done: "rib_covers rib \<Longrightarrow> fresh_updater u \<Longrightarrow> all_done rib n (rib_routes rib n) u"
  using pair_same[of rib _ "rib_routes rib"] by (simp add: all_done_def own_done_def others_done_def fresh_updater_def)

lemma registration_ok:
  assumes good: "rib_good rib" and safe: "safe_update rib update" and act: "ru_action update = REGISTER" and u: "fresh_updater u"
  shows "\<exists>u'. computeUpdatesForRegistration rib update u = Some u' \<and> fu_batchFaceId u' = fu_batchFaceId u \<and>
    all_done rib (ru_name update) (routes_after update (rib_routes rib)) u'"
proof -
  note G = rib_goodD[OF good]
  let ?n = "ru_name update" and ?r = "ru_route update"
  show ?thesis
  proof (cases "rib_find ?n rib")
    case None
    then have "rib_routes rib ?n = []"
      by (simp add: rib_routes_def)
    then show ?thesis
      using new_name_ok[OF G(1-3) None u, of ?r] new_children_eq[OF G(1) None] None act
      by (auto simp: computeUpdatesForRegistration_def Let_def routes_after_def routes_insert_def same_batch_def)
  next
    case (Some x)
    then obtain e where at: "rib_at rib ?n x e"
      using rib_find_at[OF rib_invD(1)[OF G(1)]] by blast
    then have R: "rib_routes rib ?n = re_routes e" "re_routes e \<noteq> []" "rib_entries rib x = Some e"
      using rib_routes_at[OF at] rib_invD(2)[OF G(1) at] by (auto simp: rib_at_def)
    have find: "List.find (\<lambda>q. compareFaceIdAndOrigin q ?r) (rib_routes rib ?n) = findRoute ?r e"
      by (simp add: R(1) findRoute_def)
    show ?thesis
    proof (cases "findRoute ?r e")
      case none: None
      have s: "own_route (rt_faceId ?r) (rib_routes rib ?n) = None" "\<not> has_inherited rib ?n (rt_faceId ?r)"
        "isCapture ?r \<Longrightarrow> captures (rib_routes rib ?n)"
        using safe act R(1,2) none find by (auto simp: safe_update_def Let_def has_inherited_list)
      have "(\<not> hasCapture e \<and> isCapture ?r) = False" "routes_insert ?r (rib_routes rib ?n) = rib_routes rib ?n @ [?r]"
        using s(3) entry_captures[OF G(1,2) at] none by (auto simp: routes_insert_def findRoute_def find_None_all R(1))
      then show ?thesis
        using new_route_ok[OF G(1-3) at u s] Some R(3) none act
        by (auto simp: computeUpdatesForRegistration_def Let_def routes_after_def same_batch_def)
    next
      case some: (Some q)
      then have flags: "rt_flags ?r = rt_flags q" and ex: "\<exists>q \<in> set (rib_routes rib ?n). compareFaceIdAndOrigin q ?r"
        using safe act R(1,2) find find_Some_in[OF some[unfolded findRoute_def]] by (auto simp: safe_update_def Let_def)
      show ?thesis
        using update_ok_route[OF G at u some flags] Some R(3) some act ex
        by (auto simp: computeUpdatesForRegistration_def Let_def routes_after_def routes_insert_def changed_entry_def changed_def[abs_def] same_batch_def)
    qed
  qed
qed

lemma cancelled_frame [simp]:
  "view (u\<lparr>fu_cancelled := c\<rparr>) m f = view u m f" "fu_wf (u\<lparr>fu_cancelled := c\<rparr>) = fu_wf u" "inh_names (u\<lparr>fu_cancelled := c\<rparr>) = inh_names u"
  by (simp_all add: view_def fu_lookup_def inh_log_def fu_wf_def inh_names_def)

lemma unregistration_ok:
  assumes good: "rib_good rib" and safe: "safe_update rib update" and act: "ru_action update = UNREGISTER" and u: "fresh_updater u"
  shows "\<exists>u'. computeUpdatesForUnregistration rib update u = Some u' \<and> fu_batchFaceId u' = fu_batchFaceId u \<and>
    all_done rib (ru_name update) (routes_after update (rib_routes rib)) u'"
proof -
  note G = rib_goodD[OF good]
  let ?n = "ru_name update" and ?r = "ru_route update"
  show ?thesis
  proof (cases "rib_find ?n rib")
    case None
    then have "rib_routes rib ?n = []"
      by (simp add: rib_routes_def)
    then show ?thesis
      using None act unchanged_done[OF G(3) u, of ?n] by (simp add: computeUpdatesForUnregistration_def routes_after_def)
  next
    case (Some x)
    then obtain e where at: "rib_at rib ?n x e"
      using rib_find_at[OF rib_invD(1)[OF G(1)]] by blast
    then have R: "rib_routes rib ?n = re_routes e" "rib_entries rib x = Some e"
      using rib_routes_at[OF at] by (auto simp: rib_at_def)
    show ?thesis
    proof (cases "findRoute ?r e")
      case none: None
      then have "routes_after update (rib_routes rib) = rib_routes rib ?n"
        using act by (simp add: routes_after_def R(1) findRoute_def find_None_all remove_first_id)
      then show ?thesis
        using none Some R(2) unchanged_done[OF G(3) u, of ?n] by (simp add: computeUpdatesForUnregistration_def)
    next
      case some: (Some q)
      let ?temp = "fst (eraseRoute ?r e)" and ?rs = "remove_first (\<lambda>q. compareFaceIdAndOrigin q ?r) (rib_routes rib ?n)"
      define v where "v = u\<lparr>fu_cancelled := fu_cancelled u @ (case snd (eraseRoute ?r e) of None \<Rightarrow> [] | Some i \<Rightarrow> [i])\<rparr>"
      have v: "fresh_updater v" "fu_batchFaceId v = fu_batchFaceId u"
        using u by (simp_all add: v_def fresh_updater_def)
      note F = removal_facts[OF G(1,2,4) at some]
      have len: "length (rib_routes rib ?n) = Suc (length ?rs)"
        using length_remove_first[OF some[unfolded findRoute_def]] by (simp add: R(1))
      have safe': "if ?rs = [] then \<not> isCapture q else \<not> isChildInherit q \<and> (isCapture q \<longrightarrow> captures ?rs)"
        using safe act some by (simp add: safe_update_def Let_def R(1) findRoute_def)
      have off: "(hasCapture e \<and> \<not> hasCapture ?temp) = False"
        using safe' F(4,5,10) by (auto simp: captures_def list_ex_iff split: if_splits)
      have compute: "computeUpdatesForUnregistration rib update u =
          map_option (\<lambda>u. if ?rs = [] then createFibUpdatesForErasedRibEntry e u else u) (createFibUpdatesForErasedRoute rib ?temp q False v)"
        using Some R some off F(11) len
        by (auto simp: computeUpdatesForUnregistration_def Let_def split_beta v_def getNRoutes_def map_option_case split: option.split)
      show ?thesis
      proof (cases "?rs = []")
        case True
        then have "rib_routes rib ?n = [q]"
          using len F(6) by (cases "rib_routes rib ?n") auto
        then show ?thesis
          using last_route_ok[OF G at v(1) some] safe' True v(2) act compute
          by (auto simp: routes_after_def all_done_def same_batch_def)
      next
        case False
        then show ?thesis
          using one_route_ok[OF G at v(1) some _ False] safe' v(2) act compute by (auto simp: routes_after_def same_batch_def)
      qed
    qed
  qed
qed

lemma computeUpdate_ok:
  assumes "rib_good rib" "safe_update rib update" "fresh_updater u"
  shows "\<exists>u'. computeUpdate rib update u = Some u' \<and> fu_batchFaceId u' = fu_batchFaceId u \<and>
    all_done rib (ru_name update) (routes_after update (rib_routes rib)) u'"
  using registration_ok[OF assms(1,2) _ assms(3)] unregistration_ok[OF assms(1,2) _ assms(3)] assms(2)
  by (cases "ru_action update") (auto simp: computeUpdate_def safe_update_def)

end
