(* ===== verification/Rib_Service_Correct.thy ===== *)
theory Rib_Service_Correct
  imports Fib_Updater_Correct
begin

text \<open>
  The RIB as a service keeps the FIB of the forwarder in step: a safe update computes FIB updates, the forwarder confirms them in
  any order, and when the last one is confirmed the RIB changes and the FIB is what the RIB stands for.  Examples show what happens after
  updates that are not safe.
\<close>

section \<open>The inherited routes after a change of the RIB\<close>

definition inh_kept :: "rib \<Rightarrow> rib \<Rightarrow> bool" where
  "inh_kept rib rib' \<longleftrightarrow> (\<forall>m. rib_find m rib' \<noteq> None \<longrightarrow> inherited_list rib' m = inherited_list rib m)"

lemma inherited_list_at: "rib_at rib n x e \<Longrightarrow> inherited_list rib n = re_inheritedRoutes e"
  by (simp add: inherited_list_def rib_at_def)

lemma inh_keptI:
  assumes "tree_ok rib'"
    and "\<And>m y e'. rib_at rib' m y e' \<Longrightarrow> (\<exists>e. rib_at rib m y e \<and> re_inheritedRoutes e' = re_inheritedRoutes e) \<or>
      rib_find m rib = None \<and> re_inheritedRoutes e' = []"
  shows "inh_kept rib rib'"
proof -
  have "inherited_list rib' m = inherited_list rib m" if y: "rib_find m rib' = Some y" for m y
  proof -
    obtain e' where e': "rib_at rib' m y e'"
      using rib_find_at[OF assms(1) y] by blast
    then show ?thesis
      using assms(2)[OF e'] inherited_list_at[of rib m y] inherited_list_at[OF e'] by (auto simp: inherited_list_def)
  qed
  then show ?thesis
    by (auto simp: inh_kept_def)
qed

text \<open>A change of one entry that leaves its inherited routes.\<close>

lemma inh_kept_entry:
  assumes "rib_at rib n x e" "tree_ok rib'" "rib_table rib' = rib_table rib" "rib_entries rib' = (rib_entries rib)(x \<mapsto> e')"
    "re_inheritedRoutes e' = re_inheritedRoutes e"
  shows "inh_kept rib rib'"
  using assms by (intro inh_keptI) (auto simp: rib_at_def rib_find_def split: if_splits)

lemma rib_insert_kept:
  assumes inv: "rib_inv rib" and "rib_insert n r rib = Some rib'"
    and cap: "\<forall>q \<in> set (rib_routes rib n). compareFaceIdAndOrigin q r \<longrightarrow> isCapture q = isCapture r"
  shows "inh_kept rib rib'"
proof (cases "rib_find n rib")
  case None
  then obtain l: "links_new rib n (rib_next rib) (fst (insertRoute r (RibEntry\<lparr>re_name := n\<rparr>))) rib'" and "rib_inv rib'"
    using rib_insert_new_ok[OF inv None, of r] assms(2) by auto
  have "re_inheritedRoutes (fst (insertRoute r (RibEntry\<lparr>re_name := n\<rparr>))) = []"
    by (simp add: insertRoute_def findRoute_def RibEntry_def Let_def)
  then have "(\<exists>e. rib_at rib m y e \<and> re_inheritedRoutes e' = re_inheritedRoutes e) \<or> rib_find m rib = None \<and> re_inheritedRoutes e' = []"
    if "rib_at rib' m y e'" for m y e'
    using that links_new_own[OF l] links_new_old[OF l, of m y e'] None by (cases "m = n") (auto simp: same_data_def)
  then show ?thesis
    using rib_invD(1)[OF \<open>rib_inv rib'\<close>] by (rule_tac inh_keptI)
next
  case (Some x)
  then obtain e where at: "rib_at rib n x e"
    using rib_find_at[OF rib_invD(1)[OF inv]] by blast
  show ?thesis
  proof (cases "findRoute r e")
    case None
    then have "rib_inv rib'" "rib_table rib' = rib_table rib" "rib_entries rib' = (rib_entries rib)(x \<mapsto> fst (insertRoute r e))"
      using rib_insert_route_ok[OF inv at None] assms(2) by auto
    then show ?thesis
      using None by (intro inh_kept_entry[OF at, where e' = "fst (insertRoute r e)"]) (auto simp: rib_invD(1) insertRoute_def Let_def)
  next
    case (Some q)
    then have "isCapture r = isCapture q"
      using cap find_Some_in[OF Some[unfolded findRoute_def]] rib_routes_at[OF at] by auto
    then show ?thesis
      using rib_insert_update_ok[OF inv at Some] assms(2)
      by (intro inh_kept_entry[OF at, where e' = "e\<lparr>re_routes := update_first (\<lambda>q. compareFaceIdAndOrigin q r) (renewed r) (re_routes e)\<rparr>"])
        (auto simp: rib_invD(1))
  qed
qed

lemma rib_erase_kept:
  assumes inv: "rib_inv rib" and "rib_erase n r rib = Some rib'"
  shows "inh_kept rib rib'"
proof (cases "\<exists>x e q. rib_at rib n x e \<and> findRoute r e = Some q")
  case False
  then have "rib' = rib"
    using assms(2) rib_find_at[OF rib_invD(1)[OF inv], of n] by (auto simp: rib_erase_def rib_at_def split: option.splits Option.bind_splits)
  then show ?thesis
    by (simp add: inh_kept_def)
next
  case True
  then obtain x e q where at: "rib_at rib n x e" and q: "findRoute r e = Some q"
    by blast
  let ?rib = "rib_erase_route x r e rib" and ?e = "fst (eraseRoute r e)"
  note F = rib_erase_route_fields[OF at q]
  have same: "re_inheritedRoutes ?e = re_inheritedRoutes e"
    using q by (simp add: eraseRoute_def Let_def)
  show ?thesis
  proof (cases "re_routes ?e = []")
    case True
    then obtain "rib_inv rib'" and l: "unlinks ?rib n x ?e rib'"
      using rib_erase_last_ok[OF inv at q True] assms(2) by auto
    have "\<exists>d. rib_at rib m y d \<and> re_inheritedRoutes d' = re_inheritedRoutes d" if "rib_at rib' m y d'" for m y d'
      using unlinks_old[OF l that] F(1,3) by (auto simp: rib_at_def rib_find_def same_data_def split: if_splits)
    then show ?thesis
      using rib_invD(1)[OF \<open>rib_inv rib'\<close>] by (intro inh_keptI) blast+
  next
    case False
    then show ?thesis
      using rib_erase_route_ok[OF inv at q False] assms(2) F(1,3) same by (intro inh_kept_entry[OF at, where e' = ?e]) (auto simp: rib_invD(1))
  qed
qed

section \<open>Applying the inherited routes\<close>

definition log_of :: "rib_update list \<Rightarrow> name \<Rightarrow> u64 \<Rightarrow> rib_action list" where
  "log_of us m f = map ru_action (filter (\<lambda>ru. ru_name ru = m \<and> rt_faceId (ru_route ru) = f) us)"

lemma remove_first_face:
  "f \<in> rt_faceId ` set (remove_first (\<lambda>r. rt_faceId r = g) rs) \<Longrightarrow> f \<in> rt_faceId ` set rs"
  "f \<noteq> g \<Longrightarrow> f \<in> rt_faceId ` set (remove_first (\<lambda>r. rt_faceId r = g) rs) \<longleftrightarrow> f \<in> rt_faceId ` set rs"
  by (induction rs) (auto split: if_splits)

lemma inherited_entry_ok:
  fixes rib x e rs
  assumes inv: "rib_inv rib" and at: "rib_at rib n x e"
  defines "rib' \<equiv> rib_update_entry x (\<lambda>_. e\<lparr>re_inheritedRoutes := rs\<rparr>) rib"
  shows "rib_inv rib' \<and> rib_routes rib' = rib_routes rib" "inherited_list rib' m = (if m = n then rs else inherited_list rib m)"
proof -
  let ?e = "e\<lparr>re_inheritedRoutes := rs\<rparr>"
  have ent: "rib_entries rib' = (rib_entries rib)(x \<mapsto> ?e)"
    using at by (auto simp: rib'_def rib_update_entry_def rib_at_def)
  have "rib_inv rib' \<and> rib_routes rib' = (rib_routes rib)(n := re_routes ?e)"
    by (rule rib_inv_data[OF inv at _ _ ent]) (use rib_invD(2,3)[OF inv at] entry_faces[OF inv at] in \<open>auto simp: rib'_def entry_wf_def\<close>)
  then show "rib_inv rib' \<and> rib_routes rib' = rib_routes rib"
    using rib_routes_at[OF at] by (simp add: fun_upd_idem)
  have "rib_find m rib = Some x \<longleftrightarrow> m = n"
    using at rib_find_inj[OF rib_invD(1)[OF inv]] by (auto simp: rib_at_def)
  then show "inherited_list rib' m = (if m = n then rs else inherited_list rib m)"
    unfolding inherited_list_def ent by (auto simp: rib'_def rib_find_def split: option.split)
qed
lemma inherited_update_ok:
  assumes inv: "rib_inv rib" and at: "rib_at rib (ru_name update) x e" and act: "ru_action update \<noteq> REMOVE_FACE"
    and un: "ru_action update = UNREGISTER \<Longrightarrow> has_inherited rib (ru_name update) (rt_faceId (ru_route update))"
  obtains rib' where "\<And>us. modifyInheritedRoutes (update # us) rib = modifyInheritedRoutes us rib'"
    "rib_inv rib'" "rib_routes rib' = rib_routes rib"
    "\<And>m f. (m, f) \<noteq> (ru_name update, rt_faceId (ru_route update)) \<Longrightarrow> has_inherited rib' m f = has_inherited rib m f"
    "ru_action update = REGISTER \<Longrightarrow> has_inherited rib' (ru_name update) (rt_faceId (ru_route update))"
    "\<And>m f. ru_action update = UNREGISTER \<Longrightarrow> has_inherited rib' m f \<Longrightarrow> has_inherited rib m f"
proof -
  let ?n = "ru_name update" and ?r = "ru_route update"
  have at': "rib_find ?n rib = Some x" "rib_entries rib x = Some e" and list: "inherited_list rib ?n = re_inheritedRoutes e"
    using at inherited_list_at[OF at] by (auto simp: rib_at_def)
  show thesis
  proof (cases "ru_action update = REGISTER")
    case True
    note ok = inherited_entry_ok[OF inv at, where rs = "re_inheritedRoutes e @ [?r]"]
    show thesis
      by (rule that[OF _ ok(1)[THEN conjunct1] ok(1)[THEN conjunct2]])
        (use True at' list in \<open>auto simp: entry_addInheritedRoute_def has_inherited_list ok(2)\<close>)
  next
    case False
    then have un': "ru_action update = UNREGISTER"
      using act by (cases "ru_action update") auto
    let ?rs = "remove_first (\<lambda>r. rt_faceId r = rt_faceId ?r) (re_inheritedRoutes e)"
    note ok = inherited_entry_ok[OF inv at, where rs = ?rs]
    have "entry_removeInheritedRoute ?r e = Some (e\<lparr>re_inheritedRoutes := ?rs\<rparr>)"
      using un[OF un'] list by (auto simp: entry_removeInheritedRoute_def findInheritedRoute_def compareFaceId_def has_inherited_list find_None_all)
    then show thesis
      using remove_first_face[of _ "rt_faceId ?r" "re_inheritedRoutes e"]
      by (intro that[OF _ ok(1)[THEN conjunct1] ok(1)[THEN conjunct2]]) (use un' at' list in \<open>auto simp: has_inherited_list ok(2) split: if_splits\<close>)
  qed
qed

lemma modifyInheritedRoutes_ok:
  assumes "rib_inv rib" and "\<And>m f. log_ok (has_inherited rib m f) (log_of us m f)" and "\<And>m f. log_of us m f \<noteq> [] \<Longrightarrow> rib_routes rib m \<noteq> []"
  shows "\<exists>rib'. modifyInheritedRoutes us rib = Some rib' \<and> rib_inv rib' \<and> rib_routes rib' = rib_routes rib \<and>
    (\<forall>m f. log_has (has_inherited rib m f) (log_of us m f) (has_inherited rib' m f))"
  using assms
proof (induction us arbitrary: rib)
  case Nil
  then show ?case
    by (simp add: log_of_def log_has_def)
next
  case (Cons update us)
  let ?n = "ru_name update" and ?g = "rt_faceId (ru_route update)"
  have head: "log_of (update # us) ?n ?g = ru_action update # log_of us ?n ?g"
    and tail: "\<And>m f. (m, f) \<noteq> (?n, ?g) \<Longrightarrow> log_of (update # us) m f = log_of us m f"
    by (auto simp: log_of_def)
  have ok: "log_ok (has_inherited rib ?n ?g) (ru_action update # log_of us ?n ?g)"
    using Cons.prems(2)[of ?n ?g] head by simp
  have "rib_routes rib ?n \<noteq> []"
    using Cons.prems(3)[of ?n ?g] head by simp
  then obtain x e where at: "rib_at rib ?n x e"
    using rib_routes_empty[OF Cons.prems(1)] rib_find_at[OF rib_invD(1)[OF Cons.prems(1)]] by blast
  obtain rib1 where rib1: "\<And>us. modifyInheritedRoutes (update # us) rib = modifyInheritedRoutes us rib1"
      "rib_inv rib1" "rib_routes rib1 = rib_routes rib"
      "\<And>m f. (m, f) \<noteq> (?n, ?g) \<Longrightarrow> has_inherited rib1 m f = has_inherited rib m f"
      "ru_action update = REGISTER \<Longrightarrow> has_inherited rib1 ?n ?g"
      "\<And>m f. ru_action update = UNREGISTER \<Longrightarrow> has_inherited rib1 m f \<Longrightarrow> has_inherited rib m f"
    by (rule inherited_update_ok[OF Cons.prems(1) at]) (use ok in \<open>auto simp: log_ok_def\<close>)
  have "log_ok (has_inherited rib1 m f) (log_of us m f)" for m f
    using ok Cons.prems(2)[of m f] tail[of m f] rib1(4)[of m f] by (cases "(m, f) = (?n, ?g)") (auto simp: log_ok_def)
  moreover have "rib_routes rib1 m \<noteq> []" if "log_of us m f \<noteq> []" for m f
    using that Cons.prems(3)[of m f] rib1(3) by (auto simp: log_of_def)
  ultimately obtain rib' where rib': "modifyInheritedRoutes us rib1 = Some rib'" "rib_inv rib'" "rib_routes rib' = rib_routes rib1"
      "\<And>m f. log_has (has_inherited rib1 m f) (log_of us m f) (has_inherited rib' m f)"
    using Cons.IH[OF rib1(2)] by blast
  have "log_has (has_inherited rib m f) (log_of (update # us) m f) (has_inherited rib' m f)" for m f
  proof (cases "(m, f) = (?n, ?g)")
    case True
    then show ?thesis
      using ok head rib'(4)[of ?n ?g] rib1(5) rib1(6)[of ?n ?g] by (auto simp: log_has_def log_ok_def split: if_splits)
  next
    case False
    then show ?thesis
      using tail[OF False] rib1(4)[OF False] rib'(4)[of m f] by simp
  qed
  then show ?case
    using rib1(1,3) rib'(1-3) by auto
qed

section \<open>Applying an update\<close>

lemma apply_batch_ok:
  assumes good: "rib_good rib" and safe: "safe_update rib update"
  shows "\<exists>rib'. apply_batch [update] rib = Some rib' \<and> rib_inv rib' \<and> inh_kept rib rib' \<and>
    rib_routes rib' = (rib_routes rib)(ru_name update := routes_after update (rib_routes rib))"
proof (cases "ru_action update")
  case REGISTER
  let ?r = "ru_route update" and ?rs = "rib_routes rib (ru_name update)"
  note inv = rib_goodD(1)[OF good]
  have "isCapture q = isCapture ?r" if q: "q \<in> set ?rs" "compareFaceIdAndOrigin q ?r" for q
  proof -
    obtain p where p: "List.find (\<lambda>q. compareFaceIdAndOrigin q ?r) ?rs = Some p"
      using q by (cases "List.find (\<lambda>q. compareFaceIdAndOrigin q ?r) ?rs") (auto simp: find_None_all)
    have "p = q"
      using find_Some_in[OF p] q rib_goodD(4)[OF good] by (auto simp: one_per_face_def distinct_map inj_on_def compareFaceIdAndOrigin_def)
    then show ?thesis
      using safe REGISTER p q(1) by (auto simp: safe_update_def Let_def isCapture_def)
  qed
  then show ?thesis
    using rib_insert_ok[OF inv, of "ru_name update" ?r] rib_insert_kept[OF inv] REGISTER by (fastforce simp: routes_after_def)
next
  case UNREGISTER
  note inv = rib_goodD(1)[OF good]
  show ?thesis
    using rib_erase_ok[OF inv, of "ru_name update" "ru_route update"] rib_erase_kept[OF inv] UNREGISTER by (fastforce simp: routes_after_def)
next
  case REMOVE_FACE
  then show ?thesis
    using safe by (simp add: safe_update_def)
qed

lemma routes_after_ok:
  assumes good: "rib_good rib" and safe: "safe_update rib update"
  shows "distinct (map rt_faceId (routes_after update (rib_routes rib)))" "length (routes_after update (rib_routes rib)) < 2 ^ 64"
proof -
  let ?rs = "rib_routes rib (ru_name update)" and ?r = "ru_route update"
  have d: "distinct (map rt_faceId ?rs)" and l: "length ?rs < 2 ^ 64"
    using rib_goodD(2,4)[OF good] by (auto simp: one_per_face_def rib_small_def)
  have len: "length (remove_first P xs) \<le> length xs" for P and xs :: "route list"
    by (induction xs) auto
  have new: "own_route (rt_faceId ?r) ?rs = None" if "ru_action update = REGISTER" "\<not> (\<exists>q \<in> set ?rs. compareFaceIdAndOrigin q ?r)"
    using safe that find_None_all[of "\<lambda>q. compareFaceIdAndOrigin q ?r" ?rs] by (auto simp: safe_update_def Let_def)
  have upd: "map rt_faceId (update_first (\<lambda>q. compareFaceIdAndOrigin q ?r) (renewed ?r) ?rs) = map rt_faceId ?rs"
    by (simp add: map_update_first)
  show "distinct (map rt_faceId (routes_after update (rib_routes rib)))"
    using d upd new remove_first_distinct_map[OF d]
    by (cases "ru_action update") (auto simp: routes_after_def routes_insert_def own_route_def find_None_all)
  have "length (update_first P h xs) = length xs" for P h and xs :: "route list"
    by (induction xs) auto
  then show "length (routes_after update (rib_routes rib)) < 2 ^ 64"
    using l safe le_less_trans[OF len l]
    by (cases "ru_action update") (simp_all add: routes_after_def routes_insert_def safe_update_def Let_def)
qed

lemma apply_update_ok:
  assumes good: "rib_good rib" and safe: "safe_update rib update"
    and all_done: "all_done rib (ru_name update) (routes_after update (rib_routes rib)) u"
  shows "\<exists>rib'. Option.bind (apply_batch [update] rib) (modifyInheritedRoutes (fu_inheritedRoutes u)) = Some rib' \<and> rib_good rib' \<and>
    rib_routes rib' = (rib_routes rib)(ru_name update := routes_after update (rib_routes rib))"
proof -
  let ?n = "ru_name update" and ?R' = "(rib_routes rib)(ru_name update := routes_after update (rib_routes rib))"
  obtain rib1 where rib1: "apply_batch [update] rib = Some rib1" "rib_inv rib1" "inh_kept rib rib1" "rib_routes rib1 = ?R'"
    using apply_batch_ok[OF good safe] by blast
  have pair: "pair_ok rib ?R' m f (view u m f)" for m f
    using all_done by (cases "m = ?n") (auto simp: all_done_def own_done_def others_done_def)
  have log: "snd (view u m f) = log_of (fu_inheritedRoutes u) m f" for m f
    by (simp add: view_def inh_log_def log_of_def)
  have kept: "has_inherited rib1 m f = has_inherited rib m f" if "?R' m \<noteq> []" for m f
    using that rib1(3,4) rib_routes_empty[OF rib1(2), of m] by (simp add: inh_kept_def has_inherited_list)
  have "log_ok (has_inherited rib1 m f) (log_of (fu_inheritedRoutes u) m f)" for m f
    using pair[of m f] kept[of m f] log[of m f] by (cases "?R' m = []") (auto simp: pair_ok_def log_ok_def)
  moreover have "rib_routes rib1 m \<noteq> []" if "log_of (fu_inheritedRoutes u) m f \<noteq> []" for m f
    using that pair[of m f] log[of m f] rib1(4) by (auto simp: pair_ok_def)
  ultimately obtain rib2 where rib2: "modifyInheritedRoutes (fu_inheritedRoutes u) rib1 = Some rib2" "rib_inv rib2" "rib_routes rib2 = ?R'"
      "\<And>m f. log_has (has_inherited rib1 m f) (log_of (fu_inheritedRoutes u) m f) (has_inherited rib2 m f)"
    using modifyInheritedRoutes_ok[OF rib1(2), of "fu_inheritedRoutes u"] rib1(4) by auto
  have "inh_ok ?R' m f (has_inherited rib2 m f)" for m f
  proof (cases "?R' m = []")
    case True
    then show ?thesis
      by (simp add: inh_ok_def inh_route_def)
  next
    case False
    then have "log_has (has_inherited rib m f) (snd (view u m f)) (has_inherited rib2 m f)"
      using rib2(4)[of m f] kept[OF False, of f] log[of m f] by simp
    then show ?thesis
      using pair[of m f] by (simp add: pair_ok_def)
  qed
  moreover have "rib_small rib2" "one_per_face rib2"
    using routes_after_ok[OF good safe] rib_goodD(2,4)[OF good] by (auto simp: rib_small_def one_per_face_def rib2(3))
  ultimately have "rib_good rib2"
    using rib2(2,3) by (simp add: rib_good_def rib_covers_def)
  then show ?thesis
    using rib1(1) rib2(1,3) by auto
qed

section \<open>The service\<close>

text \<open>What the service does on its own: requests that come while it is idle, and confirmations of outstanding commands in any
  order.\<close>

inductive service_step :: "rib_service \<Rightarrow> rib_service \<Rightarrow> bool" where
  request: "\<not> sv_isUpdateInProgress sv \<Longrightarrow> safe_update (sv_rib sv) update \<Longrightarrow> beginApplyUpdate update manager sv = Some sv' \<Longrightarrow> service_step sv sv'"
| confirm: "cmd \<in> set (sv_pending sv) \<Longrightarrow> command_succeeds cmd sv = Some sv' \<Longrightarrow> service_step sv sv'"

inductive_cases service_stepE: "service_step sv sv'"

definition idle :: "rib_service \<Rightarrow> bool" where
  "idle sv \<longleftrightarrow> \<not> sv_isUpdateInProgress sv \<and> sv_updateBatches sv = [] \<and> sv_pending sv = [] \<and> rib_good (sv_rib sv) \<and>
    sv_fib sv = fib_spec (rib_routes (sv_rib sv))"

definition command_of :: "update_queue_item \<Rightarrow> fib_update \<Rightarrow> fib_command" where
  "command_of item up = \<lparr>cmd_action = fb_action up, cmd_update = up, cmd_nTimeouts = 0, cmd_item = item\<rparr>"

text \<open>While an update is in progress: what is still to be done is outstanding, everything else is done.\<close>

definition remaining :: "rib_service \<Rightarrow> fib_update list" where
  "remaining sv = fu_updatesForBatchFaceId (sv_updater sv) @ fu_updatesForNonBatchFaceId (sv_updater sv)"

definition outstanding :: "rib_service \<Rightarrow> fib_update list" where
  "outstanding sv = (if fu_updatesForBatchFaceId (sv_updater sv) \<noteq> [] then fu_updatesForBatchFaceId (sv_updater sv)
    else fu_updatesForNonBatchFaceId (sv_updater sv))"

definition fib_goal :: "rib_service \<Rightarrow> rib_update \<Rightarrow> fib_map" where
  "fib_goal sv update = fib_spec ((rib_routes (sv_rib sv))(ru_name update := routes_after update (rib_routes (sv_rib sv))))"

definition busy :: "rib_update \<Rightarrow> update_queue_item \<Rightarrow> rib_service \<Rightarrow> bool" where
  "busy update item sv \<longleftrightarrow> sv_isUpdateInProgress sv \<and> sv_updateBatches sv = [] \<and> rb_updates (qi_batch item) = [update] \<and>
    rib_good (sv_rib sv) \<and> safe_update (sv_rib sv) update \<and> fu_wf (sv_updater sv) \<and>
    (\<exists>u. all_done (sv_rib sv) (ru_name update) (routes_after update (rib_routes (sv_rib sv))) u \<and>
       fu_inheritedRoutes u = fu_inheritedRoutes (sv_updater sv)) \<and>
    sv_pending sv = map (command_of item) (outstanding sv) \<and>
    (\<forall>up \<in> set (remaining sv). fib_value (Some up) None = fib_goal sv update (fb_name up) (fb_faceId up)) \<and>
    (\<forall>m f. (\<forall>up \<in> set (remaining sv). \<not> (fb_name up = m \<and> fb_faceId up = f)) \<longrightarrow> sv_fib sv m f = fib_goal sv update m f)"

lemma apply_success_ok:
  assumes b: "busy update item sv" and rem: "remaining sv = []"
  shows "\<exists>sv'. onFibUpdateSuccess item sv = Some sv' \<and> idle sv'"
proof -
  obtain u where u: "all_done (sv_rib sv) (ru_name update) (routes_after update (rib_routes (sv_rib sv))) u"
      "fu_inheritedRoutes u = fu_inheritedRoutes (sv_updater sv)"
    using b by (auto simp: busy_def)
  obtain rib' where rib': "Option.bind (apply_batch [update] (sv_rib sv)) (modifyInheritedRoutes (fu_inheritedRoutes (sv_updater sv))) = Some rib'"
      "rib_good rib'" "fib_spec (rib_routes rib') = fib_goal sv update"
    using apply_update_ok[OF _ _ u(1)] b u(2) by (auto simp: busy_def fib_goal_def)
  have "sv_fib sv = fib_goal sv update"
    using b rem by (auto simp: busy_def)
  moreover have "sv_pending sv = []"
    using b rem by (auto simp: busy_def outstanding_def remaining_def)
  ultimately show ?thesis
    using b rib' by (auto simp: busy_def onFibUpdateSuccess_def apply_success_def sendBatchFromQueue_def idle_def bind_eq_Some_conv)
qed

lemma sendUpdates_eq: "sendUpdates item us sv = sv\<lparr>sv_pending := sv_pending sv @ map (command_of item) us\<rparr>"
proof (induction us arbitrary: sv)
  case (Cons up us)
  have "(case fb_action up of ADD_NEXTHOP \<Rightarrow> sendAddNextHopUpdate item up 0 sv | REMOVE_NEXTHOP \<Rightarrow> sendRemoveNextHopUpdate item up 0 sv) =
      sv\<lparr>sv_pending := sv_pending sv @ [command_of item up]\<rparr>"
    by (simp add: sendAddNextHopUpdate_def sendRemoveNextHopUpdate_def send_command_def command_of_def split: fib_action.split)
  then show ?case
    using Cons by (simp add: sendUpdates_def)
qed (simp add: sendUpdates_def)

lemma lookup_in:
  assumes "fu_wf u"
  shows "up \<in> set (fu_updatesForBatchFaceId u @ fu_updatesForNonBatchFaceId u) \<Longrightarrow> fu_lookup u (fb_name up) (fb_faceId up) = Some up"
    "\<forall>up \<in> set (fu_updatesForBatchFaceId u @ fu_updatesForNonBatchFaceId u). \<not> (fb_name up = m \<and> fb_faceId up = f) \<Longrightarrow> fu_lookup u m f = None"
proof -
  have *: "lookup_update (fb_name up) (fb_faceId up) us = Some up" if "updates_ok us" "up \<in> set us" for us up
    using that by (induction us) (force simp: updates_ok_def lookup_update_def)+
  show "fu_lookup u (fb_name up) (fb_faceId up) = Some up" if "up \<in> set (fu_updatesForBatchFaceId u @ fu_updatesForNonBatchFaceId u)"
    using that assms *[of "fu_updatesForBatchFaceId u" up] *[of "fu_updatesForNonBatchFaceId u" up]
    by (auto simp: fu_wf_def fu_lookup_def image_iff dest: subsetD)
  show "fu_lookup u m f = None" if "\<forall>up \<in> set (fu_updatesForBatchFaceId u @ fu_updatesForNonBatchFaceId u). \<not> (fb_name up = m \<and> fb_faceId up = f)"
    using that by (auto simp: fu_lookup_def lookup_update_def find_None_all)
qed

lemma fib_value_Some: "fib_value (Some up) x = fib_value (Some up) y"
  by (simp add: fib_value_def)

lemma busy_start:
  assumes "rib_good (sv_rib sv)" and "safe_update (sv_rib sv) update" and fib: "sv_fib sv = fib_spec (rib_routes (sv_rib sv))"
    and u: "all_done (sv_rib sv) (ru_name update) (routes_after update (rib_routes (sv_rib sv))) (sv_updater sv)"
    and sv: "sv_isUpdateInProgress sv" "sv_updateBatches sv = []" "rb_updates (qi_batch item) = [update]"
      "sv_pending sv = map (command_of item) (outstanding sv)"
  shows "busy update item sv"
proof -
  let ?u = "sv_updater sv" and ?R' = "(rib_routes (sv_rib sv))(ru_name update := routes_after update (rib_routes (sv_rib sv)))"
  have wf: "fu_wf ?u" and pair: "pair_ok (sv_rib sv) ?R' m f (view ?u m f)" for m f
    using u by (cases "m = ru_name update"; auto simp: all_done_def own_done_def others_done_def)+
  have val: "fib_value (fu_lookup ?u m f) (sv_fib sv m f) = fib_goal sv update m f" for m f
    using pair[of m f] fib by (simp add: pair_ok_def view_def fib_goal_def)
  have "fib_value (Some up) None = fib_goal sv update (fb_name up) (fb_faceId up)" if "up \<in> set (remaining sv)" for up
    using val[of "fb_name up" "fb_faceId up"] lookup_in(1)[OF wf] that fib_value_Some[of up] by (simp add: remaining_def) metis
  moreover have "sv_fib sv m f = fib_goal sv update m f" if "\<forall>up \<in> set (remaining sv). \<not> (fb_name up = m \<and> fb_faceId up = f)" for m f
    using val[of m f] lookup_in(2)[OF wf] that by (simp add: remaining_def)
  ultimately show ?thesis
    using assms(1,2) u wf sv unfolding busy_def by blast
qed

lemma begin_ok:
  assumes idle: "idle sv" and safe: "safe_update (sv_rib sv) update"
  shows "\<exists>sv'. beginApplyUpdate update manager sv = Some sv' \<and> (idle sv' \<or> (\<exists>item. busy update item sv' \<and> remaining sv' \<noteq> []))"
proof -
  define batch where "batch = \<lparr>rb_faceId = rt_faceId (ru_route update), rb_updates = [update]\<rparr>"
  define item where "item = \<lparr>qi_batch = batch, qi_manager = manager\<rparr>"
  define u0 where "u0 = (sv_updater sv)\<lparr>fu_batchFaceId := rb_faceId batch, fu_inheritedRoutes := [],
    fu_updatesForBatchFaceId := [], fu_updatesForNonBatchFaceId := []\<rparr>"
  have "fresh_updater u0"
    by (simp add: u0_def fresh_updater_def fu_wf_def updates_ok_def view_def fu_lookup_def lookup_update_def inh_log_def inh_names_def)
  then obtain u where u: "computeUpdate (sv_rib sv) update u0 = Some u"
      "all_done (sv_rib sv) (ru_name update) (routes_after update (rib_routes (sv_rib sv))) u"
    using computeUpdate_ok[OF _ safe] idle by (auto simp: idle_def)
  define sv1 where "sv1 = sv\<lparr>sv_isUpdateInProgress := True, sv_updateBatches := [], sv_updater := u\<rparr>"
  have add: "addUpdateToQueue update manager sv = Some (sv\<lparr>sv_updateBatches := [item]\<rparr>)"
    using idle by (simp add: addUpdateToQueue_def rb_add_def RibUpdateBatch_def idle_def item_def batch_def)
  have upd: "rb_updates (qi_batch item) = [update]" "rb_faceId (qi_batch item) = rb_faceId batch"
    by (simp_all add: item_def batch_def)
  have compute: "computeAndSendFibUpdates item (sv\<lparr>sv_isUpdateInProgress := True, sv_updateBatches := []\<rparr>) =
      Some (sendUpdatesForBatchFaceId item sv1)"
    using u(1) upd by (simp add: computeAndSendFibUpdates_def u0_def[symmetric] sv1_def Let_def)
  have busy: "busy update item (sv1\<lparr>sv_pending := map (command_of item) (outstanding sv1)\<rparr>)"
    using idle safe u(2) upd(1) by (intro busy_start) (auto simp: idle_def sv1_def outstanding_def)
  have send: "sendUpdatesForBatchFaceId item sv1 =
      (sv1\<lparr>sv_pending := map (command_of item) (outstanding sv1)\<rparr>, remaining sv1 = [])"
    using idle by (auto simp: sendUpdatesForBatchFaceId_def sendUpdatesForNonBatchFaceId_def sendUpdates_eq outstanding_def remaining_def sv1_def idle_def)
  show ?thesis
  proof (cases "remaining sv1 = []")
    case True
    then obtain sv2 where sv2: "onFibUpdateSuccess item (sv1\<lparr>sv_pending := map (command_of item) (outstanding sv1)\<rparr>) = Some sv2" "idle sv2"
      using apply_success_ok[OF busy] by (auto simp: remaining_def)
    then have "Option.bind (apply_success item (sv1\<lparr>sv_pending := map (command_of item) (outstanding sv1)\<rparr>)) (drain_queue []) = Some sv2"
      by (auto simp: onFibUpdateSuccess_def bind_eq_Some_conv apply_success_def sv1_def sendBatchFromQueue_def)
    then show ?thesis
      using add compute send True sv2(2) upd(1) idle
      by (auto simp: beginApplyUpdate_def sendBatchFromQueue_def idle_def)
  next
    case False
    then show ?thesis
      using add compute send busy upd(1) idle
      by (auto simp: beginApplyUpdate_def sendBatchFromQueue_def idle_def remaining_def)
  qed
qed

text \<open>The state after an update was executed and struck off.\<close>

definition confirmed :: "fib_update \<Rightarrow> update_queue_item \<Rightarrow> rib_service \<Rightarrow> rib_service" where
  "confirmed up item sv =
    (let u = (sv_updater sv)\<lparr>fu_updatesForBatchFaceId := removeAll up (fu_updatesForBatchFaceId (sv_updater sv)),
           fu_updatesForNonBatchFaceId := removeAll up (fu_updatesForNonBatchFaceId (sv_updater sv))\<rparr>;
         sv = sv\<lparr>sv_updater := u, sv_fib := fib_exec (fb_action up) up (sv_fib sv)\<rparr>
     in sv\<lparr>sv_pending := map (command_of item) (outstanding sv)\<rparr>)"

lemma confirmed_fields:
  "remaining (confirmed up item sv) = removeAll up (remaining sv)" "sv_rib (confirmed up item sv) = sv_rib sv"
  "fib_goal (confirmed up item sv) = fib_goal sv"
  "sv_fib (confirmed up item sv) m f = (if fb_name up = m \<and> fb_faceId up = f then fib_value (Some up) None else sv_fib sv m f)"
  "sv_isUpdateInProgress (confirmed up item sv) = sv_isUpdateInProgress sv" "sv_updateBatches (confirmed up item sv) = sv_updateBatches sv"
  "sv_pending (confirmed up item sv) = map (command_of item) (outstanding (confirmed up item sv))"
  "fu_inheritedRoutes (sv_updater (confirmed up item sv)) = fu_inheritedRoutes (sv_updater sv)"
  by (auto simp: confirmed_def Let_def remaining_def outstanding_def fib_goal_def fib_exec_def fib_value_def fun_eq_iff)

lemma updates_ok_removeAll: "updates_ok us \<Longrightarrow> updates_ok (removeAll up us)"
  by (simp add: updates_ok_def distinct_map distinct_removeAll inj_on_def)

lemma busy_confirmed:
  assumes b: "busy update item sv" and up: "up \<in> set (remaining sv)"
  shows "busy update item (confirmed up item sv)"
proof -
  let ?sv = "confirmed up item sv"
  have "fu_wf (sv_updater sv)"
    using b by (simp add: busy_def)
  then have "fu_wf (sv_updater ?sv)"
    using updates_ok_removeAll by (auto simp: confirmed_def Let_def fu_wf_def)
  moreover have "sv_fib ?sv m f = fib_goal sv update m f" if no: "\<forall>p \<in> set (remaining ?sv). \<not> (fb_name p = m \<and> fb_faceId p = f)" for m f
  proof (cases "fb_name up = m \<and> fb_faceId up = f")
    case True
    then show ?thesis
      using b up by (auto simp: confirmed_fields busy_def)
  next
    case False
    then have "\<forall>p \<in> set (remaining sv). \<not> (fb_name p = m \<and> fb_faceId p = f)"
      using no by (auto simp: confirmed_fields)
    then show ?thesis
      using False b by (auto simp: confirmed_fields busy_def)
  qed
  ultimately show ?thesis
    using b unfolding busy_def confirmed_fields(2,3,5-8) by (auto simp: confirmed_fields(1))
qed

lemma outstanding_remaining: "set (outstanding sv) \<subseteq> set (remaining sv)"
  by (auto simp: outstanding_def remaining_def)

lemma command_confirmed:
  assumes b: "busy update item sv" and up: "up \<in> set (outstanding sv)"
  shows "command_succeeds (command_of item up) sv =
    (if remaining (confirmed up item sv) = [] then onFibUpdateSuccess item (confirmed up item sv) else Some (confirmed up item sv))"
proof -
  let ?B = "fu_updatesForBatchFaceId (sv_updater sv)" and ?N = "fu_updatesForNonBatchFaceId (sv_updater sv)"
  have wf: "updates_ok ?B" "updates_ok ?N" "fb_faceId ` set ?B \<subseteq> {fu_batchFaceId (sv_updater sv)}"
      "fu_batchFaceId (sv_updater sv) \<notin> fb_faceId ` set ?N"
    using b by (auto simp: busy_def fu_wf_def)
  have inj: "inj (command_of item)"
    by (auto simp: inj_on_def command_of_def)
  have dist: "distinct ?B" "distinct ?N"
    using wf by (auto simp: updates_ok_def distinct_map)
  have pend: "remove1 (command_of item up) (sv_pending sv) = map (command_of item) (removeAll up (outstanding sv))"
    using b dist by (auto simp: busy_def outstanding_def distinct_remove1_removeAll map_removeAll_inj[OF inj] distinct_map
        inj_on_subset[OF inj])
  show ?thesis
  proof (cases "?B = []")
    case True
    then have "up \<in> set ?N" "fb_faceId up \<noteq> fu_batchFaceId (sv_updater sv)"
      using up wf(4) by (auto simp: outstanding_def image_iff)
    then show ?thesis
      using True pend by (auto simp: command_succeeds_def command_of_def onUpdateSuccess_def confirmed_def Let_def outstanding_def remaining_def
          intro!: arg_cong[where f = "onFibUpdateSuccess item"] rib_service.equality fib_updater.equality)
  next
    case False
    then have "up \<in> set ?B" "fb_faceId up = fu_batchFaceId (sv_updater sv)" "up \<notin> set ?N"
      using up wf(3,4) by (auto simp: outstanding_def image_subset_iff) (metis image_eqI)
    then show ?thesis
      using False pend
      by (auto simp: command_succeeds_def command_of_def onUpdateSuccess_def confirmed_def Let_def outstanding_def remaining_def
          sendUpdatesForNonBatchFaceId_def sendUpdates_eq intro!: arg_cong[where f = "onFibUpdateSuccess item"] rib_service.equality fib_updater.equality)
  qed
qed

lemma confirm_ok:
  assumes b: "busy update item sv" and cmd: "cmd \<in> set (sv_pending sv)"
  shows "\<exists>sv'. command_succeeds cmd sv = Some sv' \<and>
    (idle sv' \<or> busy update item sv' \<and> remaining sv' \<noteq> [] \<and> length (remaining sv') < length (remaining sv))"
proof -
  obtain up where up: "up \<in> set (outstanding sv)" "cmd = command_of item up"
    using b cmd by (auto simp: busy_def)
  then have rem: "up \<in> set (remaining sv)"
    using outstanding_remaining by blast
  note busy = busy_confirmed[OF b rem]
  have "length (remaining (confirmed up item sv)) < length (remaining sv)"
    using rem by (simp add: confirmed_fields(1) length_removeAll_less)
  then show ?thesis
    using command_confirmed[OF b up(1)] up(2) busy apply_success_ok[OF busy] by auto
qed

lemma service_init_idle: "idle rib_service_init"
proof -
  have "fib_spec (\<lambda>_. []) = (\<lambda>_ _. None)"
    by (intro ext) (simp add: fib_spec_def)
  moreover have "inherited_list Rib m = []" for m
    by (simp add: inherited_list_def Rib_def rib_find_def)
  ultimately show ?thesis
    using rib_init_inv by (simp add: idle_def rib_service_init_def rib_good_def rib_small_def rib_covers_def one_per_face_def inh_ok_def inh_route_def
        has_inherited_list)
qed

lemma service_inv:
  assumes "service_step\<^sup>*\<^sup>* rib_service_init sv"
  shows "idle sv \<or> (\<exists>update item. busy update item sv \<and> remaining sv \<noteq> [])"
  using assms
proof (induction rule: rtranclp_induct)
  case base
  then show ?case
    using service_init_idle by simp
next
  case (step sv sv')
  from step.hyps(2) show ?case
  proof cases
    case (request update manager)
    then have "idle sv"
      using step.IH by (auto simp: busy_def)
    then show ?thesis
      using begin_ok[of sv update manager] request by auto
  next
    case (confirm cmd)
    then have "\<not> idle sv"
      by (auto simp: idle_def)
    then show ?thesis
      using step.IH confirm_ok[of _ _ sv cmd] confirm by fastforce
  qed
qed

lemma busy_outstanding: "busy update item sv \<Longrightarrow> remaining sv \<noteq> [] \<Longrightarrow> sv_pending sv \<noteq> []"
  by (auto simp: busy_def outstanding_def remaining_def)

section \<open>Examples\<close>

text \<open>Running the service: requests, each followed by the confirmation of all commands, the oldest first.\<close>

primrec confirm_all :: "nat \<Rightarrow> rib_service \<Rightarrow> rib_service option" where
  "confirm_all 0 sv = (if sv_pending sv = [] then Some sv else None)"
| "confirm_all (Suc k) sv = (case sv_pending sv of [] \<Rightarrow> Some sv | cmd # _ \<Rightarrow> Option.bind (command_succeeds cmd sv) (confirm_all k))"

fun serve :: "rib_update list \<Rightarrow> rib_service \<Rightarrow> rib_service option" where
  "serve [] sv = Some sv"
| "serve (update # updates) sv = Option.bind (beginApplyUpdate update None sv) (\<lambda>sv. Option.bind (confirm_all 9 sv) (serve updates))"

fun safe_updates :: "rib_update list \<Rightarrow> rib_service \<Rightarrow> bool" where
  "safe_updates [] sv = True"
| "safe_updates (update # updates) sv = (\<not> sv_isUpdateInProgress sv \<and> safe_update (sv_rib sv) update \<and>
     (case serve [update] sv of None \<Rightarrow> False | Some sv \<Rightarrow> safe_updates updates sv))"

lemma confirm_all_steps: "confirm_all k sv = Some sv' \<Longrightarrow> service_step\<^sup>*\<^sup>* sv sv'"
proof (induction k arbitrary: sv)
  case (Suc k)
  show ?case
  proof (cases "sv_pending sv")
    case (Cons cmd cmds)
    then obtain sv1 where "command_succeeds cmd sv = Some sv1" "confirm_all k sv1 = Some sv'"
      using Suc.prems by (auto simp: bind_eq_Some_conv)
    then show ?thesis
      using Suc.IH[of sv1] Cons service_step.confirm[of cmd sv sv1] by (auto intro: converse_rtranclp_into_rtranclp)
  qed (use Suc.prems in simp)
qed (auto split: if_splits)

lemma serve_steps: "serve updates sv = Some sv' \<Longrightarrow> safe_updates updates sv \<Longrightarrow> service_step\<^sup>*\<^sup>* sv sv'"
proof (induction updates arbitrary: sv)
  case (Cons update updates)
  then obtain sv1 sv2 where s: "beginApplyUpdate update None sv = Some sv1" "confirm_all 9 sv1 = Some sv2" "serve updates sv2 = Some sv'"
    by (auto simp: bind_eq_Some_conv)
  have "service_step sv sv1"
    using Cons.prems(2) s(1) by (auto intro: service_step.request)
  moreover have "service_step\<^sup>*\<^sup>* sv1 sv2"
    by (rule confirm_all_steps[OF s(2)])
  moreover have "service_step\<^sup>*\<^sup>* sv2 sv'"
    using Cons.IH[OF s(3)] Cons.prems(2) s by simp
  ultimately show ?case
    by (meson converse_rtranclp_into_rtranclp rtranclp_trans)
qed simp

definition upd_example :: "rib_action \<Rightarrow> name \<Rightarrow> route \<Rightarrow> rib_update" where
  "upd_example action n r = \<lparr>ru_action = action, ru_name = n, ru_route = r\<rparr>"

definition service_example :: "rib_update list" where
  "service_example = [upd_example REGISTER [Generic [1]] (rt_example 5 1 10), upd_example REGISTER [Generic [1], Generic [2]] (rt_example 6 0 7)]"

lemma service_example_safe: "safe_updates service_example rib_service_init"
  by code_simp

lemma service_example_run:
  "(case serve service_example rib_service_init of None \<Rightarrow> False | Some sv \<Rightarrow> \<not> sv_isUpdateInProgress sv \<and>
     sv_fib sv [Generic [1], Generic [2]] 5 = Some 10 \<and> sv_fib sv [Generic [1]] 6 = None)"
  by code_simp

definition fib_differs :: "rib_update list \<Rightarrow> name \<Rightarrow> u64 \<Rightarrow> u64 option \<Rightarrow> u64 option \<Rightarrow> bool" where
  "fib_differs updates n f actual expected = (case serve updates rib_service_init of None \<Rightarrow> False | Some sv \<Rightarrow>
     sv_fib sv n f = actual \<and> fib_spec (rib_routes (sv_rib sv)) n f = expected)"

abbreviation "name_a \<equiv> [Generic [1]]"
abbreviation "name_ab \<equiv> [Generic [1], Generic [2]]"
abbreviation "name_abc \<equiv> [Generic [1], Generic [2], Generic [3]]"

section \<open>Properties\<close>

text \<open>C7. The FIB follows the RIB.  Whatever safe updates were requested, one after the other, and in whatever order the forwarder
  confirmed the commands: when no update is in progress, the FIB holds for every name and face exactly what the RIB stands for, the
  name's own route or else the one it inherits from the closest prefix that passes it down.\<close>

theorem fib_follows_rib:
  assumes "service_step\<^sup>*\<^sup>* rib_service_init sv" and "\<not> sv_isUpdateInProgress sv"
  shows "sv_fib sv = fib_spec (rib_routes (sv_rib sv)) \<and> rib_inv (sv_rib sv)"
  using service_inv[OF assms(1)] assms(2) by (auto simp: idle_def busy_def rib_good_def)

theorem fib_follows_rib_witness:
  "\<exists>sv. serve service_example rib_service_init = Some sv \<and> sv_fib sv = fib_spec (rib_routes (sv_rib sv)) \<and>
    sv_fib sv [Generic [1], Generic [2]] 5 = Some 10 \<and> sv_fib sv [Generic [1]] 6 = None"
proof -
  obtain sv where sv: "serve service_example rib_service_init = Some sv" "\<not> sv_isUpdateInProgress sv"
      "sv_fib sv [Generic [1], Generic [2]] 5 = Some 10" "sv_fib sv [Generic [1]] 6 = None"
    using service_example_run by (auto split: option.splits)
  then show ?thesis
    using fib_follows_rib[OF serve_steps[OF sv(1) service_example_safe]] by blast
qed

text \<open>C8. The service never gets stuck.  A safe request is accepted and every confirmation is handled without a failed assertion; while
  an update is in progress a command is outstanding, and with each confirmation fewer updates remain, until the service is
  idle.\<close>

theorem rib_service_progress:
  assumes "service_step\<^sup>*\<^sup>* rib_service_init sv"
  shows "(\<not> sv_isUpdateInProgress sv \<longrightarrow> safe_update (sv_rib sv) update \<longrightarrow> (\<exists>sv'. beginApplyUpdate update manager sv = Some sv')) \<and>
    (sv_isUpdateInProgress sv \<longrightarrow> sv_pending sv \<noteq> []) \<and>
    (\<forall>cmd \<in> set (sv_pending sv). \<exists>sv'. command_succeeds cmd sv = Some sv' \<and>
      (sv_isUpdateInProgress sv' \<longrightarrow> length (remaining sv') < length (remaining sv)))"
  using service_inv[OF assms]
proof
  assume "idle sv"
  then show ?thesis
    using begin_ok[of sv update manager] by (auto simp: idle_def)
next
  assume "\<exists>update item. busy update item sv \<and> remaining sv \<noteq> []"
  then obtain upd item where b: "busy upd item sv" "remaining sv \<noteq> []"
    by blast
  then have "sv_isUpdateInProgress sv"
    by (simp add: busy_def)
  moreover have "\<exists>sv'. command_succeeds cmd sv = Some sv' \<and> (sv_isUpdateInProgress sv' \<longrightarrow> length (remaining sv') < length (remaining sv))"
    if "cmd \<in> set (sv_pending sv)" for cmd
    using confirm_ok[OF b(1) that] by (auto simp: idle_def)
  ultimately show ?thesis
    using busy_outstanding[OF b] by blast
qed

theorem rib_service_progress_witness:
  "(\<exists>sv. beginApplyUpdate (hd service_example) None rib_service_init = Some sv) \<and>
   (\<exists>sv cmd sv'. beginApplyUpdate (hd service_example) None rib_service_init = Some sv \<and> sv_isUpdateInProgress sv \<and>
      cmd \<in> set (sv_pending sv) \<and> command_succeeds cmd sv = Some sv')"
proof -
  have safe: "safe_update (sv_rib rib_service_init) (hd service_example)" "\<not> sv_isUpdateInProgress rib_service_init"
    by code_simp+
  obtain sv where sv: "beginApplyUpdate (hd service_example) None rib_service_init = Some sv"
    using rib_service_progress[of rib_service_init "hd service_example" None] safe by blast
  have "case beginApplyUpdate (hd service_example) None rib_service_init of None \<Rightarrow> False | Some sv \<Rightarrow> sv_isUpdateInProgress sv"
    by code_simp
  then have busy: "sv_isUpdateInProgress sv"
    using sv by simp
  have "service_step\<^sup>*\<^sup>* rib_service_init sv"
    using service_step.request[OF safe(2,1) sv] by blast
  from rib_service_progress[OF this] obtain cmd sv' where "cmd \<in> set (sv_pending sv)" "command_succeeds cmd sv = Some sv'"
    using busy by (meson last_in_set)
  then show ?thesis
    using sv busy by blast
qed


end
