(* ===== verification/Spec2Isabelle.thy ===== *)
theory Spec2Isabelle
  imports City_Hash Content_Store_Correct Link_Service_Correct Transport Partial_Enumerate Forwarder_Safety Rib_Service_Correct
begin

text \<open>
  \<^bold>\<open>Verification of the NFD gateway.\<close>  The program is an NDN forwarding daemon (\<^verbatim>\<open>src/daemon\<close>), its
  routing information base (\<^verbatim>\<open>src/rib\<close>), shared code (\<^verbatim>\<open>src/core\<close>), command line tools
  (\<^verbatim>\<open>src/tools\<close>), a sensor network gateway (\<^verbatim>\<open>src/daemon/nwd.cpp\<close> and its helpers) and a copy of the
  websocketpp library.  The development models the forwarding plane and the RIB: what happens to a packet between
  its arrival on a face and its departure, with every table involved, and how routes become FIB entries.

  \<^bold>\<open>How the parts interact.\<close>  A transport hands frames to the link service, which reassembles network packets.  The
  forwarder takes an Interest, Data or Nack through its pipelines.  These use the pending Interest table, the forwarding
  information base, the measurements and the strategy choice table, all of which hang their entries off one name tree; the content
  store; the dead nonce list; and the strategy that is in effect for the name, which answers with actions of the forwarder.
  Names are hashed with CityHash.  The RIB receives routes from managers, turns each change into updates of the FIB and
  applies the change when the forwarder has confirmed them.

  \<^bold>\<open>Conventions.\<close>  Classes are records and enumerations are datatypes.  Objects that the code shares through pointers live in a
  store from references to records, so aliasing is explicit.  Machine integers are words, with the wrap-around of the code; time is
  a natural number.  A failed assertion, a dereferenced null pointer, an access out of range and an exception that nobody catches are the
  result \<^const>\<open>None\<close>.  Timers are fields or lists of scheduled events; their firing is an operation.  What belongs to ndn-cxx or
  boost (TLV encoding, Interest matching, digests, random numbers) is an argument of the definitions that use it.

  \<^bold>\<open>Theories.\<close>
  \<^item> \<^verbatim>\<open>Nfd_Prelude\<close>, \<^verbatim>\<open>Packets\<close>: names with their canonical order, words, algorithms of the C++ library; packets and
    faces.
  \<^item> \<^verbatim>\<open>City_Hash\<close>: \<^verbatim>\<open>core/city-hash.cpp\<close>, with loads that fail outside the buffer; every hash reads inside its buffer and
    returns.
  \<^item> \<^verbatim>\<open>Dead_Nonce_List\<close>: \<^verbatim>\<open>table/dead-nonce-list.cpp\<close>; the bounds of its capacity and how long a nonce is
    remembered.
  \<^item> \<^verbatim>\<open>Content_Store\<close>, \<^verbatim>\<open>Content_Store_Policy\<close>, \<^verbatim>\<open>Content_Store_Correct\<close>: \<^verbatim>\<open>table/cs*.cpp\<close>.  A locale
    states what the store needs of a replacement policy, and both policies are shown to provide it; insertion, eviction and both
    kinds of lookup are specified over the ordered table.
  \<^item> \<^verbatim>\<open>Link_Service\<close>, \<^verbatim>\<open>Link_Service_Correct\<close>, \<^verbatim>\<open>Transport\<close>: \<^verbatim>\<open>face/generic-link-service.cpp\<close>,
    \<^verbatim>\<open>lp-fragmenter.cpp\<close>, \<^verbatim>\<open>lp-reassembler.cpp\<close>, \<^verbatim>\<open>transport.cpp\<close>; the round trip of fragmentation, safety
    against arbitrary fragments, and the life cycle of a transport.
  \<^item> \<^verbatim>\<open>Name_Tree\<close>, \<^verbatim>\<open>Name_Tree_Correct\<close>, \<^verbatim>\<open>Partial_Enumerate\<close>: \<^verbatim>\<open>table/name-tree.cpp\<close>; hash buckets with
    their chains and resizing, the tree over them, the prefix searches against a reference search, and the walk without a
    stack.
  \<^item> \<^verbatim>\<open>Name_Tree_Slots\<close>, \<^verbatim>\<open>Name_Tree_Table\<close>: the interfaces of the tables on the name tree, as locales that the FIB,
    PIT, measurements and strategy choice theories interpret.
  \<^item> \<^verbatim>\<open>Fib_Table\<close>, \<^verbatim>\<open>Pit_Table\<close>, \<^verbatim>\<open>Measurements_Table\<close>, \<^verbatim>\<open>Strategy_Choice\<close> with their
    \<^verbatim>\<open>_Correct\<close> theories and \<^verbatim>\<open>Tables_Correct\<close>: \<^verbatim>\<open>table/fib*.cpp\<close>, \<^verbatim>\<open>pit*.cpp\<close>,
    \<^verbatim>\<open>measurements*.cpp\<close>, \<^verbatim>\<open>strategy-choice*.cpp\<close>; invariants, refinements of maps, and that the operations of one table keep the
    invariants of the others.
  \<^item> \<^verbatim>\<open>Strategies\<close>, \<^verbatim>\<open>Strategies_Correct\<close>: the actions of the forwarder that a strategy may use,
    \<^verbatim>\<open>fw/pit-algorithm.cpp\<close>, the retransmission suppression and the strategies; the locale \<open>forwarding_strategy\<close> is
    their contract.
  \<^item> \<^verbatim>\<open>Forwarder\<close>, \<^verbatim>\<open>Forwarder_Correct\<close>, \<^verbatim>\<open>Forwarder_Data\<close>, \<^verbatim>\<open>Forwarder_Events\<close>,
    \<^verbatim>\<open>Forwarder_Safety\<close>: \<^verbatim>\<open>fw/forwarder.cpp\<close> with the face table and the commands of the FIB and strategy choice
    managers, as a transition system; its invariant, and the properties of every reachable state.
  \<^item> \<^verbatim>\<open>Rib_Table\<close>, \<^verbatim>\<open>Fib_Updater\<close>, \<^verbatim>\<open>Rib_Service\<close>: \<^verbatim>\<open>rib/rib.cpp\<close>, \<^verbatim>\<open>rib-entry.cpp\<close>,
    \<^verbatim>\<open>fib-updater.cpp\<close>.  \<^verbatim>\<open>Rib_Correct\<close> shows that the tree of entries stays right and acts as a map of routes,
    \<^verbatim>\<open>Fib_Inheritance\<close> defines what the FIB should hold for a RIB and shows which entries a change reaches,
    \<^verbatim>\<open>Fib_Updater_Correct\<close> that the computed updates lead from one to the next for the updates of \<open>safe_update\<close>, and
    \<^verbatim>\<open>Rib_Service_Correct\<close> that the service with its asynchronous commands keeps the FIB in step and never gets stuck; it
    also has the updates for which the code goes wrong, which \<open>safe_update\<close> excludes.
  \<^item> This theory: that a nonce of an unsatisfied Interest is recognised when the Interest loops back, across the
    PIT, the dead nonce list and CityHash.

  \<^bold>\<open>Termination.\<close>  Loops over data structures are recursive functions.  Those that follow pointers, namely the walks over the name
  tree, the rightmost lookup of the content store and the traversals of the RIB tree, are \<^verbatim>\<open>partial_function (option)\<close>,
  so that not returning is \<^const>\<open>None\<close>; the theorems about them state that they return.  No fuel is used.

  \<^bold>\<open>Not modelled.\<close>
  \<^item> Sockets, channels and protocol factories (\<^verbatim>\<open>daemon/face/*-channel.cpp\<close>, \<^verbatim>\<open>*-factory.cpp\<close>, the concrete
    transports): they configure and call boost.asio and libpcap and keep little state of their own.
  \<^item> The managers other than the FIB and strategy choice commands, the RIB manager, the publishers and the prefix propagator: they decode
    requests and encode answers with ndn-cxx.  Of the two managers that are modelled, the datasets and response codes are left out.
  \<^item> The access, NCC and location route strategies: parameters of the forwarder, bound by the contract of a strategy.  NCC depends on random
    numbers and on floating point, access on floating point estimates of round trip times.
  \<^item> The gateway: \<^verbatim>\<open>nwd.cpp\<close>, \<^verbatim>\<open>serial_manager.cpp\<close>, \<^verbatim>\<open>coordinate.cpp\<close> and the Ndp programs work on a
    serial line, sockets and floating point positions, with threads and unsynchronised global state.
  \<^item> Configuration, logging, privileges, network interfaces, the tools and the tests: input and output.
  \<^item> websocketpp: a third-party library that the WebSocket transport calls.
\<close>

section \<open>Loop detection across the tables\<close>

lemma pushes_adds [simp]: "pushes (map (\<lambda>r. Add n (f r)) rs) = length rs"
  by (induction rs) simp_all

lemma insertDeadNonceList_unsatisfied:
  "insertDeadNonceList lib pe False fresh None dnl =
    fold (dnl_exec (lib_wireName lib)) (map (\<lambda>r. Add (pe_name pe) (or_lastNonce r)) (pe_outRecords pe)) dnl"
  unfolding insertDeadNonceList_def Let_def if_False not_True_eq_False option.case fold_map comp_def dnl_exec.simps by simp

lemma insertDeadNonceList_has:
  assumes inv: "dnl_inv dnl" and rec: "rec \<in> set (pe_outRecords pe)" and len: "length (pe_outRecords pe) \<le> MIN_CAPACITY"
  shows "dnl_has (lib_wireName lib) (insertDeadNonceList lib pe False fresh None dnl) (pe_name pe) (or_lastNonce rec)"
proof -
  let ?add = "\<lambda>r. Add (pe_name pe) (or_lastNonce r)" and ?w = "lib_wireName lib"
  obtain xs ys where split: "pe_outRecords pe = xs @ rec # ys"
    using split_list[OF rec] by blast
  have "dnl_inv (fold (dnl_exec ?w) ops dnl)" for ops
    using inv dnl_inv_exec by (induction ops arbitrary: dnl) auto
  then show ?thesis
    unfolding insertDeadNonceList_unsatisfied split
    using dnl_remembers_ok[of "fold (dnl_exec ?w) (map ?add xs) dnl" "map ?add ys" ?w "pe_name pe" "or_lastNonce rec"] len
    by (simp add: split)
qed

text \<open>C6. Loops are detected after the PIT entry is gone: when an Interest ends unsatisfied, the nonces with which it was
  forwarded go to the dead nonce list, so the same Interest coming back is not forwarded again; it is answered with a Nack of
  reason Duplicate (and dropped on a multi-access link), and no PIT entry is made for it.  The list holds at least
  \<^const>\<open>MIN_CAPACITY\<close> elements, which is the bound on the number of upstreams.\<close>

theorem finalized_nonce_recognised:
  assumes inv: "fw_inv lib {} s" and pe: "attached (fw_pit s) x pe r"
    and rec: "rec \<in> set (pe_outRecords pe)" and len: "length (pe_outRecords pe) \<le> MIN_CAPACITY"
    and fin: "onInterestFinalize lib x False fresh s = Some s'"
    and i: "i_name i = pe_name pe" "i_nonce i = or_lastNonce rec"
    and scope: "\<not> (f_scope (fw_faces s f) = ScopeNonLocal \<and> prefix LOCALHOST (i_name i))"
  shows "\<exists>s''. onIncomingInterest lib now f i s' = Some s'' \<and> fw_pit s'' = fw_pit s' \<and> detached x s s'' \<and>
    fw_out s'' = fw_out s @ (if f_linkType (fw_faces s f) = MultiAccess then []
      else [SentNack f \<lparr>n_interest = i, n_reason = Duplicate\<rparr>])"
proof -
  have s': "\<forall>y q k. attached (fw_pit s') y q k \<longleftrightarrow> y \<noteq> x \<and> attached (fw_pit s) y q k" "fw_out s' = fw_out s"
    "fw_faces s' = fw_faces s" "fw_dnl s' = insertDeadNonceList lib pe False fresh None (fw_dnl s)"
    using onInterestFinalize_ok[OF inv pe, of False fresh] fin by auto
  have "dnl_has (lib_wireName lib) (fw_dnl s') (i_name i) (i_nonce i)"
    unfolding s'(4) i by (rule insertDeadNonceList_has[OF fw_invD(4)[OF inv] rec len])
  then show ?thesis
    using scope s'(1-3)
    by (auto simp: onIncomingInterest_def Let_def onInterestLoop_def fw_send_def detached_def)
qed

theorem finalized_nonce_recognised_witness:
  "\<exists>s s' x s''. onInterestFinalize lib_example x False (-1) s = Some s' \<and> detached x s s'' \<and>
     onIncomingInterest lib_example 5 2 (interest_example [Generic [97]]) s' = Some s'' \<and>
     fw_out s'' = fw_out s @ [SentNack 2 \<lparr>n_interest = interest_example [Generic [97]], n_reason = Duplicate\<rparr>]"
proof -
  let ?i = "interest_example [Generic [97]]"
  obtain s x pe r where s: "fw_inv lib_example {} s" "attached (fw_pit s) x pe r" "pe_interest pe = ?i"
    "f_linkType (fw_faces s 2) = f_linkType (face_example 2)"
    using pending_forwarder by blast
  define rec where "rec = update_outRecord cx_example 0 ?i (newOutRecord 3)"
  let ?g = "\<lambda>pe. pe\<lparr>pe_outRecords := [rec]\<rparr>"
  have "entry_ok (fw_faces s) (?g pe)" "timed (?g pe)"
    using fw_invD(6,7)[OF s(1,2)] by (auto simp: entry_ok_def pe_ready_def pe_wf_def retx_ok_def timed_def)
  then have inv: "fw_inv lib_example {} (fw_entry x ?g s)" and a: "attached (fw_pit (fw_entry x ?g s)) x (?g pe) r"
    using fw_entry_ok(1,2)[OF s(1,2), of ?g "{}"] by auto
  obtain s' where fin: "onInterestFinalize lib_example x False (-1) (fw_entry x ?g s) = Some s'"
    using onInterestFinalize_ok[OF inv a] by blast
  have scope: "\<not> (f_scope (fw_faces (fw_entry x ?g s) 2) = ScopeNonLocal \<and> prefix LOCALHOST (i_name ?i))"
    by (simp add: LOCALHOST_def interest_example_def)
  have rec: "rec \<in> set (pe_outRecords (?g pe))" "length (pe_outRecords (?g pe)) \<le> MIN_CAPACITY" "i_name ?i = pe_name (?g pe)"
    "i_nonce ?i = or_lastNonce rec" "f_linkType (fw_faces (fw_entry x ?g s) 2) \<noteq> MultiAccess"
    using s(3,4) by (simp_all add: rec_def MIN_CAPACITY_def update_outRecord_def face_example_def)
  from finalized_nonce_recognised[OF inv a rec(1,2) fin rec(3,4) scope, of 5] fin show ?thesis
    unfolding if_not_P[OF rec(5)] by (elim exE conjE) (rule exI conjI | assumption)+
qed

end
